(* ===== verification/Prelude.thy ===== *)
theory Prelude
  imports Main "HOL-Library.Word" "HOL-Library.List_Lexorder" "HOL-Library.Product_Lexorder"
begin

text \<open>
  Shared vocabulary of the development: bytes and byte strings, the C++ standard library
  operations the sources use on them (\<open>substr\<close>, \<open>string_view::find\<close>, \<open>sort\<close> followed by
  \<open>unique\<close>, \<open>std::countr_zero\<close> loops over a 64-bit mask), and the generic lemmas on lists
  and words that several components use.  Source offsets and sizes are \<open>nat\<close>: the index
  accepts at most \<open>2 ^ 30\<close> corpus bytes, so 64-bit offsets never wrap.  Values whose
  wrap-around the code relies on (hashes, bitmaps, FNV digests) are words.
\<close>

unbundle bit_operations_syntax

type_synonym byte = "8 word"
type_synonym bytes = "8 word list"
type_synonym u16 = "16 word"
type_synonym u32 = "32 word"
type_synonym u64 = "64 word"

named_theorems occ_simps \<open>facts about occurrences of a byte string\<close>
named_theorems fold_step \<open>single-step equations of loop bodies\<close>

section \<open>Byte strings\<close>

definition substr :: "'a list \<Rightarrow> nat \<Rightarrow> nat \<Rightarrow> 'a list" where
  "substr s pos n = take n (drop pos s)"

definition occurs_at :: "'a list \<Rightarrow> 'a list \<Rightarrow> nat \<Rightarrow> bool" where
  "occurs_at s q i \<longleftrightarrow> i + length q \<le> length s \<and> take (length q) (drop i s) = q"

definition str_find :: "'a list \<Rightarrow> 'a list \<Rightarrow> nat \<Rightarrow> nat option" where
  "str_find s q pos =
     (if length q \<le> length s then List.find (occurs_at s q) [pos ..< Suc (length s - length q)] else None)"

definition contains_str :: "'a list \<Rightarrow> 'a list \<Rightarrow> bool" where
  "contains_str s q \<longleftrightarrow> str_find s q 0 \<noteq> None"

definition sort_unique :: "'a::linorder list \<Rightarrow> 'a list" where
  "sort_unique xs = remdups_adj (sort xs)"

lemma find_upt_Some:
  "List.find P [a ..< b] = Some x \<longleftrightarrow> a \<le> x \<and> x < b \<and> P x \<and> (\<forall>y. a \<le> y \<and> y < x \<longrightarrow> \<not> P y)"
proof -
  have "List.find P [a ..< b] = Some x \<longleftrightarrow>
      (\<exists>i < b - a. P (a + i) \<and> x = a + i \<and> (\<forall>j < i. \<not> P (a + j)))"
    by (auto simp: find_Some_iff)
  also have "\<dots> \<longleftrightarrow> a \<le> x \<and> x < b \<and> P x \<and> (\<forall>y. a \<le> y \<and> y < x \<longrightarrow> \<not> P y)"
    (is "?L \<longleftrightarrow> ?R")
  proof
    assume ?L
    then obtain i where i: "i < b - a" "P (a + i)" "x = a + i" "\<forall>j < i. \<not> P (a + j)" by blast
    have "\<not> P y" if "a \<le> y" "y < x" for y
      using i that by (metis le_add_diff_inverse nat_add_left_cancel_less)
    with i show ?R by auto
  next
    assume ?R
    then have "x - a < b - a" "P (a + (x - a))" "x = a + (x - a)" "\<forall>j < x - a. \<not> P (a + j)"
      by auto
    then show ?L by blast
  qed
  finally show ?thesis .
qed

lemma find_None_iff_upt: "List.find P [a ..< b] = None \<longleftrightarrow> (\<forall>x. a \<le> x \<and> x < b \<longrightarrow> \<not> P x)"
  by (auto simp: find_None_iff)

lemma occurs_at_bound [occ_simps]: "occurs_at s q i \<Longrightarrow> i + length q \<le> length s"
  by (simp add: occurs_at_def)

lemma occurs_at_Nil [simp]: "occurs_at s [] i \<longleftrightarrow> i \<le> length s"
  by (simp add: occurs_at_def)

lemma occurs_at_nth:
  "occurs_at s q i \<longleftrightarrow> i + length q \<le> length s \<and> (\<forall>k < length q. s ! (i + k) = q ! k)"
  by (auto simp: occurs_at_def list_eq_iff_nth_eq)

lemma str_find_Some:
  "str_find s q p = Some i \<longleftrightarrow> p \<le> i \<and> occurs_at s q i \<and> (\<forall>j. p \<le> j \<and> j < i \<longrightarrow> \<not> occurs_at s q j)"
  by (auto simp: str_find_def find_upt_Some simp del: upt_Suc dest: occurs_at_bound)

lemma str_find_None: "str_find s q p = None \<longleftrightarrow> (\<forall>i \<ge> p. \<not> occurs_at s q i)"
proof -
  have "i < Suc (length s - length q) \<and> length q \<le> length s" if "occurs_at s q i" for i
    using occurs_at_bound [OF that] by linarith
  then show ?thesis
    unfolding str_find_def find_None_iff_upt by (metis find_None_iff_upt)
qed

lemma contains_str_iff: "contains_str s q \<longleftrightarrow> (\<exists>i. occurs_at s q i)"
  by (auto simp: contains_str_def str_find_None)

lemma occurs_at_substr:
  assumes "occurs_at s q i" "b \<le> i" "i + length q \<le> b + n" "b + n \<le> length s"
  shows "occurs_at (substr s b n) q (i - b)"
  using assms by (auto simp: occurs_at_nth substr_def)

lemma occurs_at_substrD:
  assumes "occurs_at (substr s b n) q i" "b \<le> length s"
  shows "occurs_at s q (b + i)"
  using assms by (auto simp: occurs_at_nth substr_def add.assoc)

lemma occurs_at_trans:
  assumes "occurs_at s q i" "occurs_at q r j"
  shows "occurs_at s r (i + j)"
  using assms by (auto simp: occurs_at_nth add.assoc)

lemma length_substr [simp]: "length (substr s b n) = min n (length s - b)"
  by (simp add: substr_def min.commute)

lemma set_sort_unique [simp]: "set (sort_unique xs) = set xs"
  by (simp add: sort_unique_def)

lemma sorted_sort_unique [simp]: "sorted (sort_unique xs)"
  by (simp add: sort_unique_def)

lemma distinct_sort_unique [simp]: "distinct (sort_unique xs)"
proof -
  have "sorted xs' \<Longrightarrow> distinct (remdups_adj xs')" for xs' :: "'a list"
    by (induction xs' rule: remdups_adj.induct) (auto simp: less_le)
  then show ?thesis by (simp add: sort_unique_def)
qed

section \<open>Loops over the set bits of a word\<close>

text \<open>
  \<open>while (m) { b = std::countr_zero(m); \<dots>; m &= m - 1; }\<close> visits the set bits of \<open>m\<close>
  from the least significant one up.
\<close>

definition countr_zero :: "'a::len word \<Rightarrow> nat" where
  "countr_zero w = length (takeWhile (\<lambda>k. \<not> bit w k) [0 ..< LENGTH('a)])"

lemma countr_zero_bit:
  fixes w :: "'a::len word"
  assumes "w \<noteq> 0"
  shows "countr_zero w < LENGTH('a)" "bit w (countr_zero w)" "\<And>k. k < countr_zero w \<Longrightarrow> \<not> bit w k"
proof -
  let ?P = "\<lambda>k. \<not> bit w k"
  let ?xs = "[0 ..< LENGTH('a)]"
  from assms obtain k where k: "bit w k" "k < LENGTH('a)"
    by (metis bit_0_eq bit_imp_le_length bit_word_eqI bot_apply bot_bool_def)
  then have "takeWhile ?P ?xs \<noteq> ?xs"
    by (metis (mono_tags, lifting) atLeastLessThan_upt atLeast0LessThan lessThan_iff set_takeWhileD)
  then have lt: "length (takeWhile ?P ?xs) < length ?xs"
    by (metis length_takeWhile_le nat_less_le take_all_iff takeWhile_eq_take)
  show "countr_zero w < LENGTH('a)" using lt by (simp add: countr_zero_def)
  show "bit w (countr_zero w)"
    using nth_length_takeWhile [OF lt] lt by (simp add: countr_zero_def)
  fix j assume "j < countr_zero w"
  then have "?P (takeWhile ?P ?xs ! j)" "takeWhile ?P ?xs ! j = ?xs ! j"
    using nth_mem set_takeWhileD takeWhile_nth
    unfolding countr_zero_def by (metis (no_types, lifting), metis (no_types, lifting))
  then show "\<not> bit w j" using \<open>j < countr_zero w\<close> lt by (simp add: countr_zero_def)
qed


lemma clear_low_bits:
  fixes u c k :: nat
  assumes "c < k" "r < 2 ^ Suc c"
  shows "(2 ^ Suc c * u + r) div 2 ^ k = u div 2 ^ (k - Suc c)"
proof -
  have "(2::nat) ^ k = 2 ^ Suc c * 2 ^ (k - Suc c)"
    using assms(1) by (metis Suc_leI le_add_diff_inverse power_add)
  moreover have "(2 ^ Suc c * u + r) div 2 ^ Suc c = u"
    using assms(2) by simp
  ultimately show ?thesis by (simp only: div_mult2_eq)
qed

lemma bit_clear_lowest:
  fixes m :: "'a::len word"
  assumes "m \<noteq> 0"
  shows "bit (m AND (m - 1)) k \<longleftrightarrow> bit m k \<and> k \<noteq> countr_zero m"
proof -
  define c where "c = countr_zero m"
  have lowz: "\<not> bit (unat m) j" if "j < c" for j
    using countr_zero_bit(3) [OF assms, of j] that
    by (simp add: c_def bit_unsigned_iff)
  have c: "bit (unat m) c"
    using countr_zero_bit(2) [OF assms] by (simp add: c_def bit_unsigned_iff)
  have "take_bit c (unat m) = 0"
    by (rule bit_eqI) (auto simp: bit_take_bit_iff lowz)
  then have "2 ^ c dvd unat m" by (simp add: take_bit_eq_0_iff)
  then obtain v where v: "unat m = 2 ^ c * v" by (auto elim: dvdE)
  with c have "odd v" by (simp add: bit_iff_odd)
  then obtain u where "v = 2 * u + 1" by (auto elim: oddE)
  with v have m: "unat m = 2 ^ Suc c * u + 2 ^ c" by (simp add: algebra_simps)
  have m1: "unat (m - 1) = 2 ^ Suc c * u + (2 ^ c - 1)"
    using assms m by (simp add: unat_minus_one)
  have hi: "bit (unat (m - 1)) k = bit (unat m) k" if "c < k"
    using that clear_low_bits [of c k "2 ^ c - 1" u] clear_low_bits [of c k "2 ^ c" u]
    by (simp only: bit_iff_odd m m1) (simp add: less_imp_diff_less)
  have "\<not> bit (unat (m - 1)) c"
  proof -
    have "(2 ^ c * (2 * u) + (2 ^ c - 1)) div 2 ^ c = 2 * u"
      by (subst div_mult_self4) auto
    then show ?thesis unfolding m1 bit_iff_odd by (simp add: mult.assoc mult.left_commute)
  qed
  moreover have "\<not> bit m k" if "k < c" using countr_zero_bit(3) [OF assms] that by (simp add: c_def)
  ultimately show ?thesis
    using hi by (cases k c rule: linorder_cases)
      (auto simp: bit_and_iff c_def bit_unsigned_iff)
qed

function bit_loop :: "'a::len word \<Rightarrow> nat list" where
  "bit_loop m = (if m = 0 then [] else countr_zero m # bit_loop (m AND (m - 1)))"
  by pat_completeness auto
termination
proof (relation "measure unat")
  fix m :: "'a word" assume "m \<noteq> 0"
  have "m AND (m - 1) \<le> m - 1" by (rule word_and_le1)
  also have "\<dots> < m" using \<open>m \<noteq> 0\<close> by (simp add: word_less_nat_alt unat_minus_one) (metis Suc_pred lessI unat_gt_0)
  finally show "(m AND (m - 1), m) \<in> measure unat" by (simp add: word_less_nat_alt)
qed simp

declare bit_loop.simps [simp del]

lemma filter_Least_Cons:
  assumes "P c" "c < n" "\<And>k. k < c \<Longrightarrow> \<not> P k"
  shows "filter P [0 ..< n] = c # filter (\<lambda>k. P k \<and> k \<noteq> c) [0 ..< n]"
proof -
  have split: "[0 ..< n] = [0 ..< c] @ c # [Suc c ..< n]"
    using assms(2) by (metis le_add1 less_imp_le_nat plus_nat.add_0 upt_add_eq_append upt_conv_Cons le_add_diff_inverse)
  have "filter P [0 ..< c] = []" "filter (\<lambda>k. P k \<and> k \<noteq> c) [0 ..< c] = []"
    using assms(3) by (auto simp: filter_empty_conv)
  moreover have "filter (\<lambda>k. P k \<and> k \<noteq> c) [Suc c ..< n] = filter P [Suc c ..< n]"
    by (rule filter_cong) auto
  ultimately show ?thesis using assms(1) unfolding split by simp
qed

lemma bit_loop_eq: "bit_loop m = filter (bit m) [0 ..< LENGTH('a)]" for m :: "'a::len word"
proof (induction m rule: bit_loop.induct)
  case (1 m)
  show ?case
  proof (cases "m = 0")
    case True
    then show ?thesis by (simp add: bit_loop.simps)
  next
    case False
    have "bit_loop m = countr_zero m # filter (bit (m AND (m - 1))) [0 ..< LENGTH('a)]"
      using False 1 by (simp add: bit_loop.simps [of m])
    also have "\<dots> = filter (bit m) [0 ..< LENGTH('a)]"
      using countr_zero_bit [OF False] bit_clear_lowest [OF False]
      by (subst (2) filter_Least_Cons [of _ "countr_zero m"]) (auto intro: filter_cong)
    finally show ?thesis .
  qed
qed

lemma set_bit_loop: "set (bit_loop m) = {k. k < LENGTH('a) \<and> bit m k}" for m :: "'a::len word"
  by (auto simp: bit_loop_eq)

end
