(* ===== verification/Api.thy ===== *)
theory Api
  imports Prelude
begin

text \<open>
  The public types of \<open>pergrep.hpp\<close> the search works with: pattern and search options,
  matches and captures.  \<open>should_cancel\<close> is the sequence of answers the hook gives, one per
  call; an absent hook never says yes.
\<close>

text \<open>The bytes of a character literal.\<close>

definition ascii_bytes :: "string \<Rightarrow> bytes" where
  "ascii_bytes s = map of_char s"

datatype pattern_kind = Regex | Fixed
datatype case_mode = Sensitive | Insensitive | Smart
datatype engine = Default | Pcre2Compat | Auto
datatype search_objective = Exhaustive | FirstHit | OrderedPrefix

record pattern_options =
  po_kind :: pattern_kind
  po_case :: case_mode
  po_engine :: engine
  po_word :: bool
  po_line :: bool
  po_multiline :: bool
  po_dotall :: bool
  po_unicode :: bool
  po_crlf :: bool

definition default_pattern_options :: pattern_options where
  "default_pattern_options = \<lparr>po_kind = Regex, po_case = Sensitive, po_engine = Default,
     po_word = False, po_line = False, po_multiline = False, po_dotall = False, po_unicode = True,
     po_crlf = False\<rparr>"

record search_options =
  so_overlapping :: bool
  so_invert_match :: bool
  so_files_with_matches :: bool
  so_files_without_match :: bool
  so_include_binary :: bool
  so_max_matches :: nat
  so_record_separator :: byte
  so_eligible :: "nat list"
  so_should_cancel :: "nat \<Rightarrow> bool"
  so_objective :: search_objective

definition default_search_options :: search_options where
  "default_search_options = \<lparr>so_overlapping = False, so_invert_match = False,
     so_files_with_matches = False, so_files_without_match = False, so_include_binary = False,
     so_max_matches = 0, so_record_separator = 10, so_eligible = [], so_should_cancel = (\<lambda>_. False),
     so_objective = Exhaustive\<rparr>"

record capture =
  cap_start :: nat
  cap_end :: nat
  cap_matched :: bool
  cap_name :: bytes

record match =
  m_file :: nat
  m_start :: nat
  m_end :: nat
  m_caps :: "capture list"

definition to_string_objective :: "search_objective \<Rightarrow> string" where
  "to_string_objective v =
     (case v of Exhaustive \<Rightarrow> ''exhaustive'' | FirstHit \<Rightarrow> ''first-hit'' | OrderedPrefix \<Rightarrow> ''ordered-prefix'')"

end
