(* ===== verification/Unicode.thy ===== *)
theory Unicode
  imports Prelude
begin

text \<open>
  Runes.  ICU is not part of the sources: what the code calls of it (the macros
  \<open>U8_NEXT\<close>/\<open>U8_PREV\<close> and the character-property functions) is the record \<open>icu\<close>, an
  argument of every definition that needs it.  A result with a negative code point is the
  macros' error value.  The wrappers \<open>rune_at\<close>, \<open>rune_before\<close> (\<open>regex.cpp\<close>) and
  \<open>decode_rune\<close>, \<open>decode_prev\<close> (\<open>search.cpp\<close>) are translated from the source; \<open>None\<close> is a
  rune whose \<open>ok\<close> is false.
\<close>

record icu =
  u8_next :: "bytes \<Rightarrow> nat \<Rightarrow> int \<times> nat"
  u8_prev :: "bytes \<Rightarrow> nat \<Rightarrow> int \<times> nat"
  u_fold_case :: "int \<Rightarrow> int"
  u_tolower :: "int \<Rightarrow> int"
  u_toupper :: "int \<Rightarrow> int"
  u_totitle :: "int \<Rightarrow> int"
  u_isalnum :: "int \<Rightarrow> bool"
  u_isupper :: "int \<Rightarrow> bool"
  u_char_type :: "int \<Rightarrow> int"
  u_has_binary_property :: "int \<Rightarrow> int \<Rightarrow> bool"
  u_is_uwhitespace :: "int \<Rightarrow> bool"
  u_script_is :: "int \<Rightarrow> int \<Rightarrow> bool"
  u_script_code :: "bytes \<Rightarrow> int option"
  u8_encode :: "int \<Rightarrow> bytes"

type_synonym rune = "int \<times> nat"

definition byte_cp :: "byte \<Rightarrow> int" where
  "byte_cp b = uint b"

definition rune_at :: "icu \<Rightarrow> bytes \<Rightarrow> nat \<Rightarrow> rune option" where
  "rune_at U s pos =
     (if length s \<le> pos then None
      else let (cp, i) = u8_next U s pos
           in if cp < 0 then Some (byte_cp (s ! pos), pos + 1) else Some (cp, i))"

definition rune_before :: "icu \<Rightarrow> bytes \<Rightarrow> nat \<Rightarrow> rune option" where
  "rune_before U s pos =
     (if pos = 0 then None
      else let (cp, i) = u8_prev U s pos
           in if cp < 0 then Some (byte_cp (s ! (pos - 1)), pos - 1) else Some (cp, i))"

definition decode_rune :: "icu \<Rightarrow> bytes \<Rightarrow> nat \<Rightarrow> rune option" where
  "decode_rune U s pos =
     (if length s \<le> pos then None
      else let (cp, i) = u8_next U s pos
           in if cp < 0 then Some (byte_cp (s ! pos), pos + 1) else Some (cp, i))"

definition decode_prev :: "icu \<Rightarrow> bytes \<Rightarrow> nat \<Rightarrow> rune option" where
  "decode_prev U s pos =
     (if pos = 0 then None
      else let (cp, i) = u8_prev U s pos
           in if cp < 0 then Some (byte_cp (s ! (pos - 1)), pos - 1) else Some (cp, i))"

lemma decode_rune_eq: "decode_rune = rune_at" "decode_prev = rune_before"
  by (intro ext; simp add: decode_rune_def rune_at_def decode_prev_def rune_before_def)+

section \<open>Word characters\<close>

definition ascii_alnum :: "byte \<Rightarrow> bool" where
  "ascii_alnum c \<longleftrightarrow> (48 \<le> c \<and> c \<le> 57) \<or> (65 \<le> c \<and> c \<le> 90) \<or> (97 \<le> c \<and> c \<le> 122)"

definition ascii_word :: "byte \<Rightarrow> bool" where
  "ascii_word c \<longleftrightarrow> ascii_alnum c \<or> c = 95"

text \<open>
  ICU's enumerators: \<open>U_CONNECTOR_PUNCTUATION\<close> 22, \<open>UCHAR_JOIN_CONTROL\<close> 20,
  \<open>U_NON_SPACING_MARK\<close> 6, \<open>U_COMBINING_SPACING_MARK\<close> 8, \<open>U_ENCLOSING_MARK\<close> 7.
\<close>

definition unicode_word :: "icu \<Rightarrow> int \<Rightarrow> bool" where
  "unicode_word U cp \<longleftrightarrow>
     u_isalnum U cp \<or> u_char_type U cp = 22 \<or> u_has_binary_property U cp 20 \<or>
     u_char_type U cp = 6 \<or> u_char_type U cp = 8 \<or> u_char_type U cp = 7"

definition unicode_word_cp :: "icu \<Rightarrow> int \<Rightarrow> bool" where
  "unicode_word_cp U cp \<longleftrightarrow>
     u_isalnum U cp \<or> u_char_type U cp = 22 \<or> u_has_binary_property U cp 20 \<or>
     u_char_type U cp = 6 \<or> u_char_type U cp = 8 \<or> u_char_type U cp = 7"

section \<open>What the code relies on\<close>

text \<open>
  Documented behaviour of the macros: on success \<open>U8_NEXT\<close> moves forward by one to four
  bytes, inside the string, over exactly the encoding of the code point it returns
  (\<open>U8_APPEND_UNSAFE\<close> writes that encoding); an ASCII byte is its own code point; \<open>U8_PREV\<close>
  moves backward, inside the string.
\<close>

definition next_advances :: "icu \<Rightarrow> bool" where
  "next_advances U \<longleftrightarrow>
     (\<forall>s pos cp i. pos < length s \<longrightarrow> u8_next U s pos = (cp, i) \<longrightarrow> 0 \<le> cp \<longrightarrow>
        pos < i \<and> i \<le> length s \<and> i \<le> pos + 4)"

definition next_ascii :: "icu \<Rightarrow> bool" where
  "next_ascii U \<longleftrightarrow>
     (\<forall>s pos. pos < length s \<longrightarrow> s ! pos < 0x80 \<longrightarrow> u8_next U s pos = (byte_cp (s ! pos), pos + 1))"

definition next_encodes :: "icu \<Rightarrow> bool" where
  "next_encodes U \<longleftrightarrow>
     (\<forall>s pos cp i. pos < length s \<longrightarrow> u8_next U s pos = (cp, i) \<longrightarrow> 0 \<le> cp \<longrightarrow>
        substr s pos (i - pos) = u8_encode U cp)"

definition prev_retreats :: "icu \<Rightarrow> bool" where
  "prev_retreats U \<longleftrightarrow>
     (\<forall>s pos cp i. 0 < pos \<longrightarrow> pos \<le> length s \<longrightarrow> u8_prev U s pos = (cp, i) \<longrightarrow> 0 \<le> cp \<longrightarrow> i < pos)"

definition icu_ok :: "icu \<Rightarrow> bool" where
  "icu_ok U \<longleftrightarrow> next_advances U \<and> next_ascii U \<and> next_encodes U \<and> prev_retreats U"

lemma icu_okD:
  "icu_ok U \<Longrightarrow> pos < length s \<Longrightarrow> u8_next U s pos = (cp, i) \<Longrightarrow> 0 \<le> cp \<Longrightarrow> pos < i \<and> i \<le> length s \<and> i \<le> pos + 4"
  "icu_ok U \<Longrightarrow> pos < length s \<Longrightarrow> s ! pos < 0x80 \<Longrightarrow> u8_next U s pos = (byte_cp (s ! pos), pos + 1)"
  "icu_ok U \<Longrightarrow> pos < length s \<Longrightarrow> u8_next U s pos = (cp, i) \<Longrightarrow> 0 \<le> cp \<Longrightarrow>
     substr s pos (i - pos) = u8_encode U cp"
  by (simp_all add: icu_ok_def next_advances_def next_ascii_def next_encodes_def)

lemma rune_at_bounds:
  assumes "icu_ok U" "rune_at U s pos = Some (cp, i)"
  shows "pos < i" "i \<le> length s" "pos < length s" "i \<le> pos + 4"
  using assms icu_okD(1) [OF assms(1), of pos s]
  by (auto simp: rune_at_def Let_def split: if_splits prod.splits)

lemma rune_at_total: "pos < length s \<Longrightarrow> \<exists>cp i. rune_at U s pos = Some (cp, i)"
  by (auto simp: rune_at_def Let_def split: prod.splits)

lemma rune_at_None: "rune_at U s pos = None \<longleftrightarrow> length s \<le> pos"
  by (auto simp: rune_at_def Let_def split: prod.splits if_splits)

lemma rune_at_ascii:
  assumes "icu_ok U" "pos < length s" "s ! pos < 0x80"
  shows "rune_at U s pos = Some (byte_cp (s ! pos), pos + 1)"
  using icu_okD(2) [OF assms] assms(2) by (simp add: rune_at_def byte_cp_def)

text \<open>
  A rune outside U+0080..U+00FF cannot come from the fallback for an undecodable byte, so the
  bytes under it are its encoding.
\<close>

definition plain_cp :: "int \<Rightarrow> bool" where
  "plain_cp cp \<longleftrightarrow> 0 \<le> cp \<and> (cp < 0x80 \<or> 0xFF < cp)"

lemma rune_at_plain:
  assumes "icu_ok U" "rune_at U s pos = Some (cp, i)" "plain_cp cp"
  shows "substr s pos (i - pos) = u8_encode U cp"
proof -
  have pos: "pos < length s" using rune_at_bounds [OF assms(1,2)] by simp
  obtain cp' i' where n: "u8_next U s pos = (cp', i')" by (cases "u8_next U s pos")
  show ?thesis
  proof (cases "cp' < 0")
    case False
    with assms(2) n pos have "cp' = cp" "i' = i" by (auto simp: rune_at_def Let_def)
    with icu_okD(3) [OF assms(1) pos n] False show ?thesis by simp
  next
    case True
    with assms(2) n pos have "cp = byte_cp (s ! pos)" by (auto simp: rune_at_def Let_def)
    moreover have "uint (s ! pos) < 256" using uint_lt2p [of "s ! pos"] by simp
    ultimately have "s ! pos < 0x80"
      using assms(3) by (auto simp: plain_cp_def byte_cp_def word_less_def)
    with icu_okD(2) [OF assms(1) pos] n True show ?thesis by (auto simp: byte_cp_def)
  qed
qed

section \<open>A concrete instance\<close>

text \<open>
  Strict UTF-8 decoding with ASCII-only case mapping and properties: an instance of the
  parameter on which the model's functions evaluate.
\<close>

definition cont_byte :: "bytes \<Rightarrow> nat \<Rightarrow> bool" where
  "cont_byte s i \<longleftrightarrow> i < length s \<and> 0x80 \<le> s ! i \<and> s ! i \<le> 0xBF"

definition utf8_next :: "bytes \<Rightarrow> nat \<Rightarrow> int \<times> nat" where
  "utf8_next s i =
     (if length s \<le> i then (- 1, i)
      else let b = uint (s ! i); c = (\<lambda>k. uint (s ! (i + k)) - 0x80) in
        if b < 0x80 then (b, i + 1)
        else if 0xC2 \<le> b \<and> b \<le> 0xDF \<and> cont_byte s (i + 1) then ((b - 0xC0) * 64 + c 1, i + 2)
        else if 0xE0 \<le> b \<and> b \<le> 0xEF \<and> cont_byte s (i + 1) \<and> cont_byte s (i + 2)
        then let cp = (b - 0xE0) * 4096 + c 1 * 64 + c 2
             in if cp < 0x800 \<or> (0xD800 \<le> cp \<and> cp \<le> 0xDFFF) then (- 1, i + 1) else (cp, i + 3)
        else if 0xF0 \<le> b \<and> b \<le> 0xF4 \<and> cont_byte s (i + 1) \<and> cont_byte s (i + 2) \<and> cont_byte s (i + 3)
        then let cp = (b - 0xF0) * 262144 + c 1 * 4096 + c 2 * 64 + c 3
             in if cp < 0x10000 \<or> 0x10FFFF < cp then (- 1, i + 1) else (cp, i + 4)
        else (- 1, i + 1))"

fun utf8_prev_try :: "bytes \<Rightarrow> nat \<Rightarrow> nat list \<Rightarrow> int \<times> nat" where
  "utf8_prev_try s pos [] = (- 1, pos - 1)"
| "utf8_prev_try s pos (k # ks) =
     (if k \<le> pos then
        (let (cp, i) = utf8_next s (pos - k)
         in if 0 \<le> cp \<and> i = pos then (cp, pos - k) else utf8_prev_try s pos ks)
      else (- 1, pos - 1))"

definition utf8_prev :: "bytes \<Rightarrow> nat \<Rightarrow> int \<times> nat" where
  "utf8_prev s pos = utf8_prev_try s pos [1, 2, 3, 4]"

definition utf8_bytes :: "int \<Rightarrow> bytes" where
  "utf8_bytes cp =
     (if cp < 0x80 then [word_of_int cp]
      else if cp < 0x800 then [word_of_int (0xC0 + cp div 64), word_of_int (0x80 + cp mod 64)]
      else if cp < 0x10000
      then [word_of_int (0xE0 + cp div 4096), word_of_int (0x80 + cp div 64 mod 64), word_of_int (0x80 + cp mod 64)]
      else [word_of_int (0xF0 + cp div 262144), word_of_int (0x80 + cp div 4096 mod 64),
            word_of_int (0x80 + cp div 64 mod 64), word_of_int (0x80 + cp mod 64)])"

definition ascii_lower :: "int \<Rightarrow> int" where
  "ascii_lower cp = (if 65 \<le> cp \<and> cp \<le> 90 then cp + 32 else cp)"

definition ascii_upper :: "int \<Rightarrow> int" where
  "ascii_upper cp = (if 97 \<le> cp \<and> cp \<le> 122 then cp - 32 else cp)"

definition ascii_isalnum :: "int \<Rightarrow> bool" where
  "ascii_isalnum cp \<longleftrightarrow> (48 \<le> cp \<and> cp \<le> 57) \<or> (65 \<le> cp \<and> cp \<le> 90) \<or> (97 \<le> cp \<and> cp \<le> 122)"

definition ascii_icu :: icu where
  "ascii_icu = \<lparr>u8_next = utf8_next, u8_prev = utf8_prev, u_fold_case = ascii_lower,
     u_tolower = ascii_lower, u_toupper = ascii_upper, u_totitle = ascii_upper,
     u_isalnum = ascii_isalnum, u_isupper = (\<lambda>cp. 65 \<le> cp \<and> cp \<le> 90),
     u_char_type = (\<lambda>cp. if cp = 95 then 22 else if 48 \<le> cp \<and> cp \<le> 57 then 9 else 0),
     u_has_binary_property = (\<lambda>_ _. False), u_is_uwhitespace = (\<lambda>cp. cp \<in> {9, 10, 11, 12, 13, 32}),
     u_script_is = (\<lambda>_ _. False), u_script_code = (\<lambda>_. None), u8_encode = utf8_bytes\<rparr>"

lemma utf8_next_ascii: "i < length s \<Longrightarrow> s ! i < 0x80 \<Longrightarrow> utf8_next s i = (uint (s ! i), i + 1)"
  by (simp add: utf8_next_def Let_def word_less_def)

lemma cont_byteD: "cont_byte s i \<Longrightarrow> i < length s"
  by (simp add: cont_byte_def)

lemma utf8_next_bounds:
  "i < length s \<Longrightarrow> utf8_next s i = (cp, j) \<Longrightarrow> i < j \<and> j \<le> length s \<and> j \<le> i + 4"
  unfolding utf8_next_def Let_def
  by (simp split: if_split_asm; (drule cont_byteD)+; simp)

lemma utf8_prev_try_less:
  "0 < pos \<Longrightarrow> 0 \<notin> set ks \<Longrightarrow> utf8_prev_try s pos ks = (cp, i) \<Longrightarrow> i < pos"
  by (induction s pos ks rule: utf8_prev_try.induct) (auto split: if_splits prod.splits)

lemma substr_two: "i + 1 < length s \<Longrightarrow> substr s i 2 = [s ! i, s ! (i + 1)]"
  by (simp add: substr_def numeral_2_eq_2 take_Suc_conv_app_nth)

lemma substr_three: "i + 2 < length s \<Longrightarrow> substr s i 3 = [s ! i, s ! (i + 1), s ! (i + 2)]"
  by (simp add: substr_def eval_nat_numeral take_Suc_conv_app_nth)

lemma substr_four: "i + 3 < length s \<Longrightarrow> substr s i 4 = [s ! i, s ! (i + 1), s ! (i + 2), s ! (i + 3)]"
  by (simp add: substr_def eval_nat_numeral take_Suc_conv_app_nth)

lemma word_of_uint: "x = uint w \<Longrightarrow> word_of_int x = w"
  by simp

lemma cont_byte_uint: "cont_byte s i \<Longrightarrow> 0x80 \<le> uint (s ! i) \<and> uint (s ! i) \<le> 0xBF"
  by (simp add: cont_byte_def word_le_def)

lemma digit64:
  fixes b k :: int
  assumes "0 \<le> k" "k < 64"
  shows "(b * 64 + k) div 64 = b" "(b * 64 + k) mod 64 = k"
  using assms by simp_all

lemma div64:
  fixes x :: int
  shows "x div 4096 = x div 64 div 64" "x div 262144 = x div 64 div 64 div 64"
  by (simp_all flip: zdiv_zmult2_eq)

lemma digits4:
  fixes b k m r :: int
  assumes "0 \<le> k" "k < 64" "0 \<le> m" "m < 64" "0 \<le> r" "r < 64"
  defines "x \<equiv> ((b * 64 + k) * 64 + m) * 64 + r"
  shows "x div 262144 = b" "x div 4096 mod 64 = k" "x div 64 mod 64 = m" "x mod 64 = r"
  unfolding x_def div64 digit64 [OF assms(5,6)] digit64 [OF assms(3,4)] digit64 [OF assms(1,2)] by (rule refl)+

lemma four_digits:
  fixes b c d e x :: int
  assumes "0x80 \<le> c" "c \<le> 0xBF" "0x80 \<le> d" "d \<le> 0xBF" "0x80 \<le> e" "e \<le> 0xBF"
    and x: "x = (b - 0xF0) * 262144 + (c - 0x80) * 4096 + (d - 0x80) * 64 + (e - 0x80)"
  shows "0xF0 + x div 262144 = b" "0x80 + x div 4096 mod 64 = c" "0x80 + x div 64 mod 64 = d" "0x80 + x mod 64 = e"
proof -
  have "(((y * 64 + k) * 64 + m) * 64 + r) = y * 262144 + k * 4096 + m * 64 + r" for y k m r :: int
    by (simp add: distrib_right)
  from this [of "b - 0xF0" "c - 0x80" "d - 0x80" "e - 0x80"]
  have x': "x = (((b - 0xF0) * 64 + (c - 0x80)) * 64 + (d - 0x80)) * 64 + (e - 0x80)"
    using x by (simp only:)
  have r: "0 \<le> c - 0x80" "c - 0x80 < 64" "0 \<le> d - 0x80" "d - 0x80 < 64" "0 \<le> e - 0x80" "e - 0x80 < 64"
    using assms(1-6) by simp_all
  note dg = digits4 [OF r, of "b - 0xF0", folded x']
  show "0xF0 + x div 262144 = b" "0x80 + x div 4096 mod 64 = c" "0x80 + x div 64 mod 64 = d" "0x80 + x mod 64 = e"
    unfolding dg by simp_all
qed

lemma utf8_next_encode:
  assumes i: "i < length s" and n: "utf8_next s i = (cp, j)" and "0 \<le> cp"
  shows "substr s i (j - i) = utf8_bytes cp"
proof -
  let ?b = "uint (s ! i)" and ?c = "\<lambda>k. uint (s ! (i + k))"
  have b: "0 \<le> ?b" by simp
  note n' = n [unfolded utf8_next_def Let_def]
  consider (one) "?b < 0x80"
    | (two) "0xC2 \<le> ?b" "?b \<le> 0xDF" "cont_byte s (i + 1)" "cp = (?b - 0xC0) * 64 + (?c 1 - 0x80)" "j = i + 2"
    | (three) "0xE0 \<le> ?b" "?b \<le> 0xEF" "cont_byte s (i + 1)" "cont_byte s (i + 2)"
        "cp = (?b - 0xE0) * 4096 + (?c 1 - 0x80) * 64 + (?c 2 - 0x80)" "0x800 \<le> cp" "j = i + 3"
    | (four) "0xF0 \<le> ?b" "?b \<le> 0xF4" "cont_byte s (i + 1)" "cont_byte s (i + 2)" "cont_byte s (i + 3)"
        "cp = (?b - 0xF0) * 262144 + (?c 1 - 0x80) * 4096 + (?c 2 - 0x80) * 64 + (?c 3 - 0x80)" "0x10000 \<le> cp" "j = i + 4"
    using n' i assms(3) by (auto split: if_splits)
  then show ?thesis
  proof cases
    case one
    with n' i have "cp = ?b" "j = i + 1" by auto
    with one i show ?thesis by (simp add: utf8_bytes_def substr_def take_Suc_conv_app_nth)
  next
    case two
    define k where "k = ?c 1 - 0x80"
    have k: "0 \<le> k" "k < 64" using cont_byte_uint [OF two(3)] by (simp_all add: k_def)
    have l: "i + 1 < length s" using two(3) by (simp add: cont_byte_def)
    have cp: "cp = (?b - 0xC0) * 64 + k" using two(4) by (simp add: k_def)
    have "0x80 \<le> cp" using k two(1) unfolding cp left_diff_distrib by simp
    moreover have "cp < 0x800" using k two(2) unfolding cp left_diff_distrib by simp
    moreover have "0xC0 + cp div 64 = ?b" "0x80 + cp mod 64 = ?c 1" unfolding cp digit64 [OF k] by (simp_all add: k_def)
    ultimately show ?thesis using two(5) l by (simp add: substr_two utf8_bytes_def)
  next
    case three
    define k where "k = ?c 1 - 0x80"
    define m where "m = ?c 2 - 0x80"
    have k: "0 \<le> k" "k < 64" using cont_byte_uint [OF three(3)] by (simp_all add: k_def)
    have m: "0 \<le> m" "m < 64" using cont_byte_uint [OF three(4)] by (simp_all add: m_def)
    have l: "i + 2 < length s" using three(4) by (simp add: cont_byte_def)
    have cp: "cp = ((?b - 0xE0) * 64 + k) * 64 + m" using three(5) by (simp add: k_def m_def algebra_simps)
    have "cp < 0x10000" using k m three(2) unfolding cp distrib_right left_diff_distrib by simp
    moreover have "0xE0 + cp div 4096 = ?b" "0x80 + cp div 64 mod 64 = ?c 1" "0x80 + cp mod 64 = ?c 2"
      unfolding cp div64 digit64 [OF m] digit64 [OF k] by (simp_all add: k_def m_def)
    ultimately show ?thesis using three(6,7) l by (simp add: substr_three utf8_bytes_def)
  next
    case four
    have l: "i + 3 < length s" using four(5) by (simp add: cont_byte_def)
    note c = cont_byte_uint [OF four(3)] cont_byte_uint [OF four(4)] cont_byte_uint [OF four(5)]
    note d = four_digits [OF conjunct1 [OF c(1)] conjunct2 [OF c(1)] conjunct1 [OF c(2)] conjunct2 [OF c(2)]
        conjunct1 [OF c(3)] conjunct2 [OF c(3)] four(6)]
    have "\<not> cp < 0x80" "\<not> cp < 0x800" "\<not> cp < 0x10000" using four(7) by simp_all
    then have "utf8_bytes cp = [s ! i, s ! (i + 1), s ! (i + 2), s ! (i + 3)]"
      unfolding utf8_bytes_def d word_of_int_uint by (simp only: if_False)
    with four(8) l show ?thesis by (simp add: substr_four)
  qed
qed

lemma icu_ok_ascii: "icu_ok ascii_icu"
proof -
  have "next_advances ascii_icu"
    unfolding next_advances_def
  proof (intro allI impI)
    fix s pos cp i
    assume "pos < length s" "u8_next ascii_icu s pos = (cp, i)"
    with utf8_next_bounds [of pos s cp i] show "pos < i \<and> i \<le> length s \<and> i \<le> pos + 4"
      by (simp add: ascii_icu_def)
  qed
  moreover have "next_ascii ascii_icu"
    using utf8_next_ascii by (simp add: next_ascii_def ascii_icu_def byte_cp_def)
  moreover have "next_encodes ascii_icu"
    using utf8_next_encode by (simp add: next_encodes_def ascii_icu_def)
  moreover have "prev_retreats ascii_icu"
    unfolding prev_retreats_def
  proof (intro allI impI)
    fix s :: bytes and pos cp i
    assume "0 < pos" "u8_prev ascii_icu s pos = (cp, i)"
    then have "utf8_prev_try s pos [1, 2, 3, 4] = (cp, i)"
      unfolding ascii_icu_def utf8_prev_def by (simp del: utf8_prev_try.simps)
    with \<open>0 < pos\<close> utf8_prev_try_less [of pos "[1, 2, 3, 4]"] show "i < pos" by simp
  qed
  ultimately show ?thesis by (simp add: icu_ok_def)
qed

end
