(* ===== verification/Regex_Syntax.thy ===== *)
theory Regex_Syntax
  imports Api Unicode
begin

text \<open>
  The regex syntax tree of \<open>internal.hpp\<close> and the character tests of \<open>regex.cpp\<close>.  A node's
  \<open>Kind\<close> is the constructor; the fields a kind uses are its arguments, the five option flags
  every node carries are the record \<open>rx_flags\<close>.  A repeat without maximum (\<open>SIZE_MAX\<close>) is
  \<open>None\<close>.
\<close>

section \<open>Character classes\<close>

datatype prop_kind = GeneralCategory | GeneralGroup | Script | Binary | Alphabetic | WhiteSpace
  | Word | DecimalDigit | AsciiDigit | AsciiWord | AsciiSpace

record unicode_property =
  up_kind :: prop_kind
  up_value :: int
  up_negated :: bool

record char_class_spec =
  cc_ranges :: "(int \<times> int) list"
  cc_properties :: "unicode_property list"
  cc_negated :: bool

text \<open>
  ICU's enumerators: \<open>UCHAR_ALPHABETIC\<close> 0, \<open>U_UNASSIGNED\<close> 0, \<open>U_DECIMAL_DIGIT_NUMBER\<close> 9;
  \<open>U_GET_GC_MASK(cp)\<close> is \<open>1 << u_charType(cp)\<close>.
\<close>

definition property_match :: "icu \<Rightarrow> unicode_property \<Rightarrow> int \<Rightarrow> bool" where
  "property_match U p cp =
     (let hit = (case up_kind p of
          Binary \<Rightarrow> if up_value p = - 1 then True
                    else if up_value p = - 2 then 0 \<le> cp \<and> cp \<le> 127
                    else if up_value p = - 3 then u_char_type U cp \<noteq> 0
                    else u_has_binary_property U cp (up_value p)
        | Alphabetic \<Rightarrow> u_has_binary_property U cp 0
        | WhiteSpace \<Rightarrow> u_is_uwhitespace U cp
        | Word \<Rightarrow> unicode_word U cp
        | DecimalDigit \<Rightarrow> u_char_type U cp = 9
        | AsciiDigit \<Rightarrow> 48 \<le> cp \<and> cp \<le> 57
        | AsciiWord \<Rightarrow> cp < 128 \<and> ascii_word (word_of_int cp)
        | AsciiSpace \<Rightarrow> cp = 32 \<or> cp = 9 \<or> cp = 10 \<or> cp = 13 \<or> cp = 12 \<or> cp = 11
        | GeneralGroup \<Rightarrow> push_bit (nat (u_char_type U cp)) 1 AND up_value p \<noteq> 0
        | GeneralCategory \<Rightarrow> u_char_type U cp = up_value p
        | Script \<Rightarrow> u_script_is U cp (up_value p))
      in if up_negated p then \<not> hit else hit)"

definition in_mapped_range :: "(int \<Rightarrow> int) \<Rightarrow> int \<Rightarrow> int \<Rightarrow> int \<Rightarrow> bool" where
  "in_mapped_range f a b x \<longleftrightarrow> f a \<le> f b \<and> f a \<le> f x \<and> f x \<le> f b"

definition match_raw :: "icu \<Rightarrow> char_class_spec \<Rightarrow> bool \<Rightarrow> int \<Rightarrow> bool" where
  "match_raw U cls icase x \<longleftrightarrow>
     (\<exists>(a, b) \<in> set (cc_ranges cls).
        (a \<le> x \<and> x \<le> b) \<or>
        (icase \<and> (in_mapped_range (u_fold_case U) a b x \<or> in_mapped_range (u_tolower U) a b x \<or>
                   in_mapped_range (u_toupper U) a b x))) \<or>
     (\<exists>p \<in> set (cc_properties cls). property_match U p x)"

definition class_match :: "icu \<Rightarrow> char_class_spec \<Rightarrow> int \<Rightarrow> bool \<Rightarrow> bool" where
  "class_match U cls cp icase =
     (let hit = match_raw U cls icase cp;
          hit' = (hit \<or> (icase \<and> (\<exists>v \<in> set [u_fold_case U cp, u_tolower U cp, u_toupper U cp, u_totitle U cp].
                                    v \<noteq> cp \<and> match_raw U cls icase v)))
      in if cc_negated cls then \<not> hit' else hit')"

definition cp_eq :: "icu \<Rightarrow> int \<Rightarrow> int \<Rightarrow> bool \<Rightarrow> bool" where
  "cp_eq U a b icase = (if icase then u_fold_case U a = u_fold_case U b else a = b)"

definition folded_cp_eq :: "icu \<Rightarrow> int \<Rightarrow> int \<Rightarrow> bool" where
  "folded_cp_eq U cp folded =
     (if cp < 0x80
      then if 0x80 \<le> folded then False
           else (if 65 \<le> cp \<and> cp \<le> 90 then cp + (97 - 65) else cp) = folded
      else u_fold_case U cp = folded)"

section \<open>Syntax trees\<close>

record rx_flags =
  rf_icase :: bool
  rf_dotall :: bool
  rf_multiline :: bool
  rf_unicode :: bool
  rf_crlf :: bool

datatype node =
    KEmpty rx_flags
  | KLiteral rx_flags bytes
  | KDot rx_flags
  | KClass rx_flags char_class_spec
  | KBegin rx_flags
  | KEnd rx_flags
  | KAbsBegin rx_flags
  | KAbsEnd rx_flags
  | KEndNewline rx_flags
  | KWordBoundary rx_flags bool
  | KWordStartHalf rx_flags
  | KWordEndHalf rx_flags
  | KConcat rx_flags "node list"
  | KAlt rx_flags "node list"
  | KRepeat rx_flags nat "nat option" bool node
  | KGroup rx_flags nat node
  | KBackRef rx_flags nat
  | KLookAhead rx_flags bool node
  | KLookBehind rx_flags bool node

definition no_flags :: rx_flags where
  "no_flags = \<lparr>rf_icase = False, rf_dotall = False, rf_multiline = False, rf_unicode = True, rf_crlf = False\<rparr>"

section \<open>The verifier's context\<close>

record verifier_context =
  c_source :: bytes
  c_source_begin :: nat
  c_source_end :: nat
  c_record_begin :: nat
  c_record_end :: nat
  c_candidate_begin :: nat
  c_candidate_end :: nat
  c_left_context_available :: bool
  c_right_context_available :: bool
  c_separator :: byte
  c_crlf :: bool
  c_region_begin :: nat
  c_region_end :: nat
  c_bounded_region :: bool

definition validate :: "verifier_context \<Rightarrow> bool" where
  "validate c =
     (if c_source_end c < c_source_begin c \<or> c_source_end c - c_source_begin c \<noteq> length (c_source c) then False
      else if c_record_begin c < c_source_begin c \<or> c_record_end c < c_record_begin c \<or> c_source_end c < c_record_end c then False
      else if c_candidate_begin c < c_record_begin c \<or> c_candidate_end c < c_candidate_begin c then False
      else if c_record_end c = 2 ^ 64 - 1 then False
      else if c_record_end c + 1 < c_candidate_end c then False
      else if c_bounded_region c \<and> (c_region_begin c < c_source_begin c \<or> c_region_end c < c_region_begin c \<or>
                                      c_source_end c < c_region_end c) then False
      else True)"

definition ctx_contains :: "verifier_context \<Rightarrow> nat \<Rightarrow> bool" where
  "ctx_contains c a \<longleftrightarrow> c_source_begin c \<le> a \<and> a < c_source_end c"

definition region_contains :: "verifier_context \<Rightarrow> nat \<Rightarrow> bool" where
  "region_contains c a \<longleftrightarrow>
     (if \<not> c_bounded_region c then ctx_contains c a else c_region_begin c \<le> a \<and> a < c_region_end c)"

definition context_rune_at :: "icu \<Rightarrow> verifier_context \<Rightarrow> nat \<Rightarrow> rune option" where
  "context_rune_at U c pos =
     (if \<not> validate c \<or> pos < c_record_begin c \<or> c_record_end c \<le> pos \<or> \<not> region_contains c pos then None
      else case rune_at U (c_source c) (pos - c_source_begin c) of
             None \<Rightarrow> None
           | Some (cp, nx) \<Rightarrow>
               if c_bounded_region c \<and> c_region_end c < c_source_begin c + nx then None
               else Some (cp, nx + c_source_begin c))"

definition context_rune_before :: "icu \<Rightarrow> verifier_context \<Rightarrow> nat \<Rightarrow> rune option" where
  "context_rune_before U c pos =
     (if \<not> validate c \<or> pos \<le> c_source_begin c \<or>
         (pos \<le> c_record_begin c \<and> \<not> c_left_context_available c) \<or> c_record_end c < pos then None
      else case rune_before U (c_source c) (pos - c_source_begin c) of
             None \<Rightarrow> None
           | Some (cp, nx) \<Rightarrow> Some (cp, nx + c_source_begin c))"

definition context_rune_right :: "icu \<Rightarrow> verifier_context \<Rightarrow> nat \<Rightarrow> rune option" where
  "context_rune_right U c pos =
     (if \<not> validate c \<or> pos < c_record_begin c \<or> c_record_end c < pos then None
      else if pos = c_record_end c \<and> (\<not> c_right_context_available c \<or> c_source_end c \<le> pos) then None
      else case rune_at U (c_source c) (pos - c_source_begin c) of
             None \<Rightarrow> None
           | Some (cp, nx) \<Rightarrow> Some (cp, nx + c_source_begin c))"

definition context_byte :: "verifier_context \<Rightarrow> nat \<Rightarrow> byte" where
  "context_byte c pos =
     (if \<not> validate c \<or> pos < c_source_begin c \<or> c_source_end c \<le> pos then 0
      else c_source c ! (pos - c_source_begin c))"

section \<open>Zero-width assertions\<close>

text \<open>
  The VM (\<open>eval\<close>) and the NFA (\<open>assert_begin\<close>, \<open>assert_end\<close>, \<dots>) spell out the same tests.
\<close>

definition assert_begin :: "rx_flags \<Rightarrow> verifier_context \<Rightarrow> nat \<Rightarrow> bool" where
  "assert_begin f c pos \<longleftrightarrow>
     pos = c_record_begin c \<or>
     (rf_multiline f \<and> c_source_begin c < pos \<and> context_byte c (pos - 1) = c_separator c)"

definition assert_end_newline :: "rx_flags \<Rightarrow> verifier_context \<Rightarrow> nat \<Rightarrow> bool" where
  "assert_end_newline f c pos \<longleftrightarrow>
     (let ok = (pos = c_record_end c \<or> (pos + 1 = c_record_end c \<and> context_byte c pos = c_separator c))
      in ok \<or> (rf_crlf f \<and> c_separator c = 10 \<and> pos + 2 = c_record_end c \<and>
               context_byte c pos = 13 \<and> context_byte c (pos + 1) = 10))"

definition assert_end :: "rx_flags \<Rightarrow> verifier_context \<Rightarrow> nat \<Rightarrow> bool" where
  "assert_end f c pos \<longleftrightarrow>
     (if rf_multiline f
      then let ok = (pos = c_record_end c \<or> (pos < c_record_end c \<and> context_byte c pos = c_separator c))
           in ok \<or> (rf_crlf f \<and> c_separator c = 10 \<and> pos + 1 < c_record_end c \<and>
                    context_byte c pos = 13 \<and> context_byte c (pos + 1) = 10)
      else let ok = (pos = c_record_end c \<or> (pos + 1 = c_record_end c \<and> context_byte c pos = c_separator c))
           in ok \<or> (rf_crlf f \<and> c_separator c = 10 \<and> pos + 2 = c_record_end c \<and>
                    context_byte c pos = 13 \<and> context_byte c (pos + 1) = 10))"

definition is_word_at :: "icu \<Rightarrow> rx_flags \<Rightarrow> rune option \<Rightarrow> bool" where
  "is_word_at U f r =
     (case r of None \<Rightarrow> False
      | Some (cp, _) \<Rightarrow> if rf_unicode f then unicode_word U cp else cp < 128 \<and> ascii_word (word_of_int cp))"

definition assert_word :: "icu \<Rightarrow> rx_flags \<Rightarrow> bool \<Rightarrow> verifier_context \<Rightarrow> nat \<Rightarrow> bool" where
  "assert_word U f negative c pos =
     (let ok = (is_word_at U f (context_rune_before U c pos) \<noteq> is_word_at U f (context_rune_right U c pos))
      in if negative then \<not> ok else ok)"

definition assert_word_start_half :: "icu \<Rightarrow> rx_flags \<Rightarrow> verifier_context \<Rightarrow> nat \<Rightarrow> bool" where
  "assert_word_start_half U f c pos \<longleftrightarrow> \<not> is_word_at U f (context_rune_before U c pos)"

definition assert_word_end_half :: "icu \<Rightarrow> rx_flags \<Rightarrow> verifier_context \<Rightarrow> nat \<Rightarrow> bool" where
  "assert_word_end_half U f c pos \<longleftrightarrow> \<not> is_word_at U f (context_rune_right U c pos)"

section \<open>Runes in context\<close>

lemma validateD:
  assumes "validate c"
  shows "c_source_begin c \<le> c_record_begin c" "c_record_begin c \<le> c_record_end c" "c_record_end c \<le> c_source_end c"
    "c_source_end c = c_source_begin c + length (c_source c)" "c_record_begin c \<le> c_candidate_begin c"
    "c_candidate_begin c \<le> c_candidate_end c" "c_candidate_end c \<le> c_record_end c + 1"
  using assms by (auto simp: validate_def split: if_splits)

lemma context_rune_at_bounds:
  assumes "icu_ok U" "context_rune_at U c pos = Some (cp, nx)"
  shows "pos < nx" "nx \<le> pos + 4" "nx \<le> c_source_end c" "pos < c_record_end c" "c_record_begin c \<le> pos" "validate c"
proof -
  from assms(2) obtain nx' where v: "validate c" "c_record_begin c \<le> pos" "pos < c_record_end c"
    and r: "rune_at U (c_source c) (pos - c_source_begin c) = Some (cp, nx')" "nx = nx' + c_source_begin c"
    by (auto simp: context_rune_at_def split: if_splits option.splits)
  from rune_at_bounds [OF assms(1) r(1)] r(2) validateD [OF v(1)] v(2,3)
  show "pos < nx" "nx \<le> pos + 4" "nx \<le> c_source_end c" "pos < c_record_end c" "c_record_begin c \<le> pos" "validate c"
    using v by auto
qed

lemma context_rune_at_source:
  assumes "context_rune_at U c pos = Some (cp, nx)"
  shows "\<exists>nx'. rune_at U (c_source c) (pos - c_source_begin c) = Some (cp, nx') \<and> nx = nx' + c_source_begin c"
  using assms by (auto simp: context_rune_at_def split: if_splits option.splits)

end
