(* ===== verification/Hashing.thy ===== *)
theory Hashing
  imports Prelude
begin

text \<open>
  The 4-byte q-gram hash and key of \<open>internal.hpp\<close>, the ASCII fold, and the FNV-1a mixers
  of \<open>index.cpp\<close>, \<open>search.cpp\<close> and \<open>tuned_cache.cpp\<close>.  The pointer argument of the C++
  functions is a byte string and an offset into it; callers stay inside the string.
\<close>

section \<open>Q-gram keys and hashes\<close>

definition qgram4_key :: "bytes \<Rightarrow> nat \<Rightarrow> u32" where
  "qgram4_key s i =
     ucast (s ! i) OR push_bit 8 (ucast (s ! (i + 1))) OR
     push_bit 16 (ucast (s ! (i + 2))) OR push_bit 24 (ucast (s ! (i + 3)))"

definition hash4 :: "bytes \<Rightarrow> nat \<Rightarrow> u32" where
  "hash4 s i =
     (let x = ucast (s ! i) OR push_bit 8 (ucast (s ! (i + 1))) OR
              push_bit 16 (ucast (s ! (i + 2))) OR push_bit 24 (ucast (s ! (i + 3)));
          x = x XOR drop_bit 16 x; x = x * 0x7feb352d;
          x = x XOR drop_bit 15 x; x = x * 0x846ca68b;
          x = x XOR drop_bit 16 x
      in x)"

definition fold_ascii :: "byte \<Rightarrow> byte" where
  "fold_ascii c = (if 65 \<le> c \<and> c \<le> 90 then c + (97 - 65) else c)"

lemma xorshift_inj:
  fixes x y :: "'a::len word"
  assumes "x XOR drop_bit n x = y XOR drop_bit n y" "0 < n"
  shows "x = y"
proof (rule bit_word_eqI)
  fix k assume "k < LENGTH('a)"
  then show "bit x k \<longleftrightarrow> bit y k"
  proof (induction "LENGTH('a) - k" arbitrary: k rule: less_induct)
    case less
    have "bit x (n + k) \<longleftrightarrow> bit y (n + k)"
    proof (cases "n + k < LENGTH('a)")
      case True
      with less assms(2) show ?thesis by simp
    next
      case False
      then show ?thesis by (auto dest: bit_imp_le_length)
    qed
    moreover have "bit (x XOR drop_bit n x) k \<longleftrightarrow> bit (y XOR drop_bit n y) k"
      using assms(1) by simp
    ultimately show ?case by (auto simp: bit_xor_iff bit_drop_bit_eq)
  qed
qed

lemma odd_times_inj:
  fixes a b x y :: "'a::len word"
  assumes "x * a = y * a" "a * b = 1"
  shows "x = y"
proof -
  have "x * (a * b) = y * (a * b)" using assms(1) by (simp add: mult.assoc [symmetric])
  with assms(2) show ?thesis by simp
qed

lemma hash4_mult_inv: "(0x7feb352d :: u32) * 493478565 = 1" "(0x846ca68b :: u32) * 1124208931 = 1"
  by simp_all

lemma hash4_key_inj: "hash4 s i = hash4 t j \<Longrightarrow> qgram4_key s i = qgram4_key t j"
  unfolding hash4_def qgram4_key_def Let_def
  by (drule xorshift_inj, simp, drule odd_times_inj [OF _ hash4_mult_inv(2)], drule xorshift_inj, simp,
      drule odd_times_inj [OF _ hash4_mult_inv(1)], drule xorshift_inj, simp, assumption)

lemma bit_qgram4_key:
  "bit (qgram4_key s i) k \<longleftrightarrow> k < 32 \<and> bit (s ! (i + k div 8)) (k mod 8)"
proof -
  have byte: "bit (w :: byte) n \<longleftrightarrow> n < 8 \<and> bit w n" for w n
    by (auto dest: bit_imp_le_length)
  consider "k < 8" | "8 \<le> k" "k < 16" | "16 \<le> k" "k < 24" | "24 \<le> k" "k < 32" | "32 \<le> k" by linarith
  then show ?thesis
  proof cases
    case 1
    then show ?thesis by (simp add: qgram4_key_def bit_or_iff bit_push_bit_iff bit_ucast_iff)
  next
    case 2
    then have "k div 8 = 1" "k mod 8 = k - 8" by (auto simp: mod_if div_if)
    with 2 show ?thesis
      by (auto simp: qgram4_key_def bit_or_iff bit_push_bit_iff bit_ucast_iff dest: bit_imp_le_length)
  next
    case 3
    then have "k div 8 = 2" "k mod 8 = k - 16" by (auto simp: mod_if div_if)
    with 3 show ?thesis
      by (auto simp: qgram4_key_def bit_or_iff bit_push_bit_iff bit_ucast_iff dest: bit_imp_le_length)
  next
    case 4
    then have "k div 8 = 3" "k mod 8 = k - 24" by (auto simp: mod_if div_if)
    with 4 show ?thesis
      by (auto simp: qgram4_key_def bit_or_iff bit_push_bit_iff bit_ucast_iff dest: bit_imp_le_length)
  next
    case 5
    then show ?thesis by (auto dest: bit_imp_le_length)
  qed
qed

lemma qgram4_key_inj:
  assumes "qgram4_key s i = qgram4_key t j" "n < 4"
  shows "s ! (i + n) = t ! (j + n)"
proof (rule bit_word_eqI)
  fix k assume "k < LENGTH(8)"
  then have k: "k < 8" by simp
  with assms(2) have d: "(8 * n + k) div 8 = n" "(8 * n + k) mod 8 = k" "8 * n + k < 32" by auto
  have "bit (qgram4_key s i) (8 * n + k) = bit (qgram4_key t j) (8 * n + k)"
    using assms(1) by simp
  with d show "bit (s ! (i + n)) k = bit (t ! (j + n)) k" by (simp add: bit_qgram4_key)
qed

text \<open>The 4-byte hash separates distinct windows; only masking to a row can collide.\<close>

theorem hash4_injective:
  "hash4 s i = hash4 t j \<longleftrightarrow> (\<forall>n < 4. s ! (i + n) = t ! (j + n))"
proof
  assume "hash4 s i = hash4 t j"
  then show "\<forall>n < 4. s ! (i + n) = t ! (j + n)"
    using hash4_key_inj qgram4_key_inj by blast
next
  assume "\<forall>n < 4. s ! (i + n) = t ! (j + n)"
  then have n: "s ! (i + n) = t ! (j + n)" if "n < 4" for n using that by blast
  have "s ! i = t ! j" "s ! (i + 1) = t ! (j + 1)" "s ! (i + 2) = t ! (j + 2)" "s ! (i + 3) = t ! (j + 3)"
    using n [of 0] n [of 1] n [of 2] n [of 3] by simp_all
  then show "hash4 s i = hash4 t j" by (simp add: hash4_def)
qed

section \<open>FNV-1a\<close>

definition fnv_prime :: u64 where "fnv_prime = 1099511628211"
definition fnv_offset :: u64 where "fnv_offset = 14695981039346656037"

fun fnv1a_bytes :: "u64 \<Rightarrow> bytes \<Rightarrow> u64" where
  "fnv1a_bytes h [] = h"
| "fnv1a_bytes h (c # cs) = fnv1a_bytes ((h XOR ucast c) * fnv_prime) cs"

fun fnv1a_u64 :: "nat \<Rightarrow> u64 \<Rightarrow> u64 \<Rightarrow> u64" where
  "fnv1a_u64 0 h v = h"
| "fnv1a_u64 (Suc n) h v = fnv1a_u64 n ((h XOR (v AND 0xFF)) * fnv_prime) (drop_bit 8 v)"

lemma fnv1a_bytes_append: "fnv1a_bytes h (a @ b) = fnv1a_bytes (fnv1a_bytes h a) b"
  by (induction a arbitrary: h) auto

end
