(* ===== verification/Floating.thy ===== *)
theory Floating
  imports Prelude Complex_Main
begin

text \<open>
  The C++ \<open>double\<close> values of the cost model, the index options and the gates.  A stored
  \<open>double\<close> is its 64-bit pattern; \<open>fp_value\<close> reads the pattern as an exact rational, an
  infinity or NaN, and the operations round to the nearest 53-bit significand (ties to even)
  as IEEE 754 binary64 does.  Signed zeros are one value: no source compares them apart
  except through the bit pattern itself.
\<close>

datatype fp = Fin rat | PInf | NInf | NaN

definition pow2 :: "int \<Rightarrow> rat" where
  "pow2 k = (if 0 \<le> k then 2 ^ nat k else 1 / 2 ^ nat (- k))"

definition fp_value :: "u64 \<Rightarrow> fp" where
  "fp_value b =
     (let e = unat (drop_bit 52 b AND 0x7FF); m = unat (b AND mask 52);
          sg = (if bit b 63 then - 1 else 1 :: rat)
      in if e = 2047 then (if m \<noteq> 0 then NaN else if bit b 63 then NInf else PInf)
         else if e = 0 then Fin (sg * of_nat m * pow2 (- 1074))
         else Fin (sg * of_nat (2 ^ 52 + m) * pow2 (int e - 1075)))"

fun nat_log2 :: "nat \<Rightarrow> nat" where
  "nat_log2 n = (if n < 2 then 0 else Suc (nat_log2 (n div 2)))"

declare nat_log2.simps [simp del]

definition rat_log2 :: "rat \<Rightarrow> int" where
  "rat_log2 r = (if 1 \<le> r then int (nat_log2 (nat (floor r)))
                 else - int (Suc (nat_log2 (nat (ceiling (1 / r) - 1)))))"

definition round_even :: "rat \<Rightarrow> int" where
  "round_even r = (let f = floor r; d = r - of_int f
     in if d < 1 / 2 then f else if d > 1 / 2 then f + 1 else if even f then f else f + 1)"

definition fp_round :: "rat \<Rightarrow> fp" where
  "fp_round r =
     (if r = 0 then Fin 0
      else let a = \<bar>r\<bar>; e = max (rat_log2 a - 52) (- 1074);
               v = of_int (round_even (a / pow2 e)) * pow2 e
           in if v \<ge> 2 ^ 1024 then (if r < 0 then NInf else PInf)
              else Fin (if r < 0 then - v else v))"

definition fp_of_nat :: "nat \<Rightarrow> fp" where
  "fp_of_nat n = fp_round (of_nat n)"

fun fp_add :: "fp \<Rightarrow> fp \<Rightarrow> fp" where
  "fp_add (Fin a) (Fin b) = fp_round (a + b)"
| "fp_add NaN _ = NaN" | "fp_add _ NaN = NaN"
| "fp_add PInf NInf = NaN" | "fp_add NInf PInf = NaN"
| "fp_add PInf _ = PInf" | "fp_add _ PInf = PInf"
| "fp_add NInf _ = NInf" | "fp_add _ NInf = NInf"

fun fp_neg :: "fp \<Rightarrow> fp" where
  "fp_neg (Fin a) = Fin (- a)" | "fp_neg PInf = NInf" | "fp_neg NInf = PInf" | "fp_neg NaN = NaN"

definition fp_sub :: "fp \<Rightarrow> fp \<Rightarrow> fp" where
  "fp_sub a b = fp_add a (fp_neg b)"

definition fp_negative :: "fp \<Rightarrow> bool" where
  "fp_negative a = (case a of Fin r \<Rightarrow> r < 0 | NInf \<Rightarrow> True | _ \<Rightarrow> False)"

definition fp_signed_inf :: "bool \<Rightarrow> fp" where
  "fp_signed_inf neg = (if neg then NInf else PInf)"

fun fp_mul :: "fp \<Rightarrow> fp \<Rightarrow> fp" where
  "fp_mul (Fin a) (Fin b) = fp_round (a * b)"
| "fp_mul NaN _ = NaN" | "fp_mul _ NaN = NaN"
| "fp_mul a b = (if a = Fin 0 \<or> b = Fin 0 then NaN else fp_signed_inf (fp_negative a \<noteq> fp_negative b))"

fun fp_div :: "fp \<Rightarrow> fp \<Rightarrow> fp" where
  "fp_div (Fin a) (Fin b) =
     (if b = 0 then (if a = 0 then NaN else fp_signed_inf (a < 0)) else fp_round (a / b))"
| "fp_div NaN _ = NaN" | "fp_div _ NaN = NaN"
| "fp_div (Fin a) _ = Fin 0"
| "fp_div a (Fin b) = fp_signed_inf (fp_negative a \<noteq> (b < 0))"
| "fp_div _ _ = NaN"

fun fp_less :: "fp \<Rightarrow> fp \<Rightarrow> bool" where
  "fp_less (Fin a) (Fin b) = (a < b)"
| "fp_less NaN _ = False" | "fp_less _ NaN = False"
| "fp_less NInf b = (b \<noteq> NInf)"
| "fp_less a PInf = (a \<noteq> PInf)"
| "fp_less _ _ = False"

definition fp_eq :: "fp \<Rightarrow> fp \<Rightarrow> bool" where
  "fp_eq a b = (a = b \<and> a \<noteq> NaN)"

definition fp_le :: "fp \<Rightarrow> fp \<Rightarrow> bool" where
  "fp_le a b = (fp_less a b \<or> fp_eq a b)"

text \<open>
  Conversion to an unsigned integer truncates towards zero.  C++ leaves a value outside the
  target type undefined; the model returns 0 there, and callers stay inside the range.
\<close>

definition fp_trunc :: "fp \<Rightarrow> nat" where
  "fp_trunc a = (case a of Fin r \<Rightarrow> nat (floor r) | _ \<Rightarrow> 0)"

definition fp_max :: "fp \<Rightarrow> fp \<Rightarrow> fp" where
  "fp_max a b = (if fp_less a b then b else a)"

definition fp_min :: "fp \<Rightarrow> fp \<Rightarrow> fp" where
  "fp_min a b = (if fp_less b a then b else a)"

definition fp_finite :: "fp \<Rightarrow> bool" where
  "fp_finite a = (case a of Fin _ \<Rightarrow> True | _ \<Rightarrow> False)"

lemma fp_less_asym: "fp_less a b \<Longrightarrow> \<not> fp_less b a"
  by (cases a; cases b) auto

lemma fp_less_irrefl [simp]: "\<not> fp_less a a"
  by (cases a) auto

lemma fp_less_trans: "fp_less a b \<Longrightarrow> fp_less b c \<Longrightarrow> fp_less a c"
  by (cases a; cases b; cases c) auto

lemma fp_le_trans: "fp_le a b \<Longrightarrow> fp_le b c \<Longrightarrow> fp_le a c"
  by (auto simp: fp_le_def fp_eq_def dest: fp_less_trans)

lemma fp_not_less: "a \<noteq> NaN \<Longrightarrow> b \<noteq> NaN \<Longrightarrow> \<not> fp_less a b \<longleftrightarrow> fp_le b a"
  by (cases a; cases b) (auto simp: fp_le_def fp_eq_def)

section \<open>Exactness on small integers\<close>

lemma nat_log2_bounds: "0 < n \<Longrightarrow> 2 ^ nat_log2 n \<le> n \<and> n < 2 ^ Suc (nat_log2 n)"
proof (induction n rule: nat_log2.induct)
  case (1 n)
  show ?case
  proof (cases "n < 2")
    case True
    with 1 show ?thesis by (auto simp: nat_log2.simps [of n])
  next
    case False
    with 1 have "2 ^ nat_log2 (n div 2) \<le> n div 2 \<and> n div 2 < 2 ^ Suc (nat_log2 (n div 2))" by simp
    with False show ?thesis by (auto simp: nat_log2.simps [of n])
  qed
qed

lemma pow2_powi: "pow2 k = 2 powi k"
  by (simp add: pow2_def power_int_def power_one_over)

lemma pow2_add: "pow2 (a + b) = pow2 a * pow2 b"
  by (simp add: pow2_powi power_int_add)

lemma pow2_pos [simp]: "0 < pow2 k" "pow2 k \<noteq> 0"
  by (simp_all add: pow2_def)

lemma pow2_mono: "a \<le> b \<Longrightarrow> pow2 a \<le> pow2 b"
  by (simp add: pow2_powi power_int_increasing)

lemma pow2_nat: "pow2 (int n) = of_nat (2 ^ n)"
  by (simp add: pow2_def)

lemma pow2_neg: "pow2 (- int n) = 1 / of_nat (2 ^ n)"
  by (simp add: pow2_powi power_int_minus divide_inverse)

lemma rat_log2_bounds:
  assumes "0 < r"
  shows "pow2 (rat_log2 r) \<le> r" "r < pow2 (rat_log2 r + 1)"
proof -
  have "pow2 (rat_log2 r) \<le> r \<and> r < pow2 (rat_log2 r + 1)"
  proof (cases "1 \<le> r")
    case True
    define f where "f = nat (floor r)"
    from True have f: "0 < f" "of_nat f \<le> r" "r < of_nat (Suc f)"
      unfolding f_def by (simp_all, linarith+)
    have "of_nat (2 ^ nat_log2 f) \<le> (of_nat f :: rat)" "(of_nat (Suc f) :: rat) \<le> of_nat (2 ^ Suc (nat_log2 f))"
      using nat_log2_bounds [OF f(1)] by (simp_all only: of_nat_le_iff)  auto
    then have b: "of_nat (2 ^ nat_log2 f) \<le> r" "r < of_nat (2 ^ Suc (nat_log2 f))"
      using f by linarith+
    moreover have "rat_log2 r = int (nat_log2 f)" "int (nat_log2 f) + 1 = int (Suc (nat_log2 f))"
      using True by (simp_all add: rat_log2_def f_def)
    ultimately show ?thesis by (simp only: pow2_nat)
  next
    case False
    define c where "c = nat (ceiling (1 / r) - 1)"
    from False assms have r1: "1 < 1 / r" by simp
    then have c: "0 < c" "of_nat c < 1 / r" "1 / r \<le> of_nat (Suc c)"
      unfolding c_def by (simp_all, linarith+)
    have "of_nat (2 ^ nat_log2 c) \<le> (of_nat c :: rat)" "(of_nat (Suc c) :: rat) \<le> of_nat (2 ^ Suc (nat_log2 c))"
      using nat_log2_bounds [OF c(1)] by (simp_all only: of_nat_le_iff) auto
    then have b: "of_nat (2 ^ nat_log2 c) < 1 / r" "1 / r \<le> of_nat (2 ^ Suc (nat_log2 c))"
      using c by linarith+
    have "r < 1 / of_nat (2 ^ nat_log2 c)" "1 / of_nat (2 ^ Suc (nat_log2 c)) \<le> r"
      using b assms by (simp_all add: field_simps)
    moreover have "rat_log2 r = - int (Suc (nat_log2 c))" "rat_log2 r + 1 = - int (nat_log2 c)"
      using False by (simp_all add: rat_log2_def c_def)
    ultimately show ?thesis by (simp only: pow2_neg)
  qed
  then show "pow2 (rat_log2 r) \<le> r" "r < pow2 (rat_log2 r + 1)" by blast+
qed

lemma rat_log2_less:
  assumes "0 < r" "r < pow2 k"
  shows "rat_log2 r < k"
proof (rule ccontr)
  assume "\<not> rat_log2 r < k"
  then have "pow2 k \<le> pow2 (rat_log2 r)" by (intro pow2_mono) simp
  with rat_log2_bounds(1) [OF assms(1)] assms(2) show False by linarith
qed

text \<open>A rational that is an integer multiple of its unit in the last place is kept exactly.\<close>

lemma fp_round_exact:
  assumes "0 < r" "e = max (rat_log2 r - 52) (- 1074)" "r = of_int z * pow2 e" "r < 2 ^ 1024"
  shows "fp_round r = Fin r"
proof -
  have "r / pow2 e = of_int z" using assms(3) by simp
  then have "of_int (round_even (r / pow2 e)) * pow2 e = r"
    using assms(3) by (simp add: round_even_def)
  then show ?thesis using assms(1,2,4) unfolding fp_round_def by (simp only: Let_def abs_of_pos) simp
qed

lemma fp_round_dyadic:
  assumes "n < 2 ^ 53" "k \<le> 64"
  shows "fp_round (of_nat n / 2 ^ k) = Fin (of_nat n / 2 ^ k)"
proof (cases "n = 0")
  case True
  then show ?thesis by (simp add: fp_round_def)
next
  case False
  define r :: rat where "r = of_nat n / 2 ^ k"
  define e where "e = max (rat_log2 r - 52) (- 1074)"
  from False have r0: "0 < r" by (simp add: r_def)
  have rk: "r = of_nat n * pow2 (- int k)" by (simp add: r_def pow2_neg)
  have n53: "(of_nat n :: rat) < pow2 53"
    using assms(1) by (metis (mono_tags) of_nat_less_iff of_nat_numeral pow2_nat)
  then have "r < pow2 53 * pow2 (- int k)" unfolding rk by simp
  then have "r < pow2 (53 - int k)" by (simp flip: pow2_add)
  then have "rat_log2 r < 53 - int k" by (rule rat_log2_less [OF r0])
  with assms(2) have ek: "e \<le> - int k" by (simp add: e_def)
  then obtain d where d: "- int k = int d + e" by (metis add.commute diff_add_cancel zero_le_imp_eq_int diff_ge_0_iff_ge)
  have "r = of_int (int n * 2 ^ d) * pow2 e"
    unfolding rk d pow2_add pow2_nat by simp
  moreover have "r < 2 ^ 1024"
  proof -
    have "r \<le> of_nat n" by (simp add: r_def divide_le_eq mult_le_cancel_left1)
    also have "\<dots> < pow2 53" by (rule n53)
    also have "\<dots> \<le> pow2 (int 1024)" by (rule pow2_mono) simp
    also have "pow2 (int 1024) = (2 :: rat) ^ 1024" unfolding pow2_nat by (simp only: of_nat_power of_nat_numeral)
    finally show ?thesis .
  qed
  ultimately have "fp_round r = Fin r" by (intro fp_round_exact [OF r0 e_def])
  then show ?thesis by (simp only: r_def)
qed

lemma fp_of_nat_exact: "n < 2 ^ 53 \<Longrightarrow> fp_of_nat n = Fin (of_nat n)"
  using fp_round_dyadic [of n 0] by (simp add: fp_of_nat_def)

end
