(* ===== verification/Index_Data.thy ===== *)
theory Index_Data
  imports Hashing Floating "HOL-Library.AList"
begin

text \<open>
  The in-memory index of \<open>internal.hpp\<close> and the construction of its filters in
  \<open>index.cpp\<close>: options and their validation, the chunk layout, the transposed q-gram group
  bitmaps, the positional block bitmaps, the frequency tables and the planner statistics.
  A fixed-size array indexed by a byte or a 16-bit bucket is a function on that word type;
  a \<open>vector\<close> is a list; an ordered map is an association list.  A provider (\<open>LoadedFile\<close>)
  is its file information together with the bytes its view shows.
\<close>

section \<open>Errors and records\<close>

datatype exn = Runtime_error string | Out_of_range string | Invalid_argument string

type_synonym 'a result = "exn + 'a"

record index_options =
  chunk_bytes :: nat
  chunk_overlap :: nat
  positional_block_bytes :: nat
  positional_budget_ratio :: u64
  planned_qgrams :: nat
  include_hidden :: bool
  follow_symlinks :: bool
  persist_corpus :: bool

definition default_index_options :: index_options where
  "default_index_options = \<lparr>chunk_bytes = 32 * 1024, chunk_overlap = 128,
     positional_block_bytes = 256, positional_budget_ratio = 0x3FE0000000000000,
     planned_qgrams = 4, include_hidden = True, follow_symlinks = False, persist_corpus = False\<rparr>"

record file_info =
  fi_path :: bytes
  fi_size :: nat
  fi_mtime_ns :: int
  fi_binary :: bool

record document =
  doc_path :: bytes
  doc_content :: bytes

record chunk =
  file_id :: nat
  core_begin :: nat
  core_end :: nat
  ext_end :: nat

record pos_desc =
  pd_off :: nat
  pd_m :: nat
  pd_mask_bytes :: nat
  pd_blocks :: nat

record group =
  g_lg :: nat
  g_m :: nat
  g_words :: nat
  g_gids :: "nat list"
  g_bits :: "u64 list"

record qgram_stats =
  occurrence_frequency :: nat
  chunk_frequency :: nat
  document_frequency :: nat
  qs_chunk_ids :: "nat list"
  qs_document_ids :: "nat list"

record index_data =
  exact_qgrams :: "(u32 \<times> qgram_stats) list"
  hash_chunk_ids :: "u16 \<Rightarrow> nat list"
  hash_chunk_freq :: "u16 \<Rightarrow> nat"
  planner_stats_ready :: bool
  ix_root :: bytes
  ix_opt :: index_options
  infos :: "file_info list"
  loaded :: "(file_info \<times> bytes) list"
  chunks :: "chunk list"
  groups :: "group list"
  pos_descs :: "pos_desc list"
  pos_bits :: "byte list"
  byte_freq :: "byte \<Rightarrow> u64"
  qgram_freq :: "u16 \<Rightarrow> u32"
  corp_bytes :: nat
  root_mtime_ns :: int
  pos_block :: nat
  ephemeral :: bool
  segment_count :: nat
  appended_bytes :: nat

definition empty_group :: group where
  "empty_group = \<lparr>g_lg = 9, g_m = 512, g_words = 0, g_gids = [], g_bits = []\<rparr>"

definition empty_index_data :: index_data where
  "empty_index_data = \<lparr>exact_qgrams = [], hash_chunk_ids = (\<lambda>_. []), hash_chunk_freq = (\<lambda>_. 0),
     planner_stats_ready = False, ix_root = [], ix_opt = default_index_options, infos = [], loaded = [],
     chunks = [], groups = replicate 8 empty_group, pos_descs = [], pos_bits = [],
     byte_freq = (\<lambda>_. 0), qgram_freq = (\<lambda>_. 0), corp_bytes = 0, root_mtime_ns = 0,
     pos_block = 256, ephemeral = False, segment_count = 0, appended_bytes = 0\<rparr>"

definition content :: "index_data \<Rightarrow> nat \<Rightarrow> bytes" where
  "content I fid = snd (loaded I ! fid)"

definition index_content :: "index_data \<Rightarrow> nat \<Rightarrow> bytes result" where
  "index_content I fid =
     (if length (loaded I) \<le> fid then Inl (Out_of_range ''pergrep: file_id out of range'')
      else Inr (content I fid))"

section \<open>Limits and option validation\<close>

definition kPlannerCorpusCap :: nat where "kPlannerCorpusCap = 128 * 1024 * 1024"
definition kPlannerDistinctQgramCap :: nat where "kPlannerDistinctQgramCap = 2 ^ 20"
definition kMaxCorpusBytes :: nat where "kMaxCorpusBytes = 2 ^ 30"

definition validate_index_options :: "index_options \<Rightarrow> unit result" where
  "validate_index_options opt =
     (if chunk_bytes opt < 64 \<or> chunk_bytes opt > 2 ^ 30
      then Inl (Runtime_error ''pergrep: chunk_bytes out of range [64, 1073741824]'')
      else if positional_block_bytes opt < 16 \<or> positional_block_bytes opt > 2 ^ 20
      then Inl (Runtime_error ''pergrep: positional_block_bytes out of range [16, 1048576]'')
      else if chunk_overlap opt > chunk_bytes opt div 2
      then Inl (Runtime_error ''pergrep: chunk_overlap must be <= chunk_bytes / 2'')
      else if planned_qgrams opt > 64
      then Inl (Runtime_error ''pergrep: planned_qgrams out of range [0, 64]'')
      else if fp_less (fp_value (positional_budget_ratio opt)) (Fin 0) \<or>
              fp_less (Fin 10) (fp_value (positional_budget_ratio opt))
      then Inl (Runtime_error ''pergrep: positional_budget_ratio out of range [0.0, 10.0]'')
      else Inr ())"

definition valid_index_options :: "index_options \<Rightarrow> bool" where
  "valid_index_options o' \<longleftrightarrow>
     64 \<le> chunk_bytes o' \<and> chunk_bytes o' \<le> 2 ^ 30 \<and>
     16 \<le> positional_block_bytes o' \<and> positional_block_bytes o' \<le> 2 ^ 20 \<and>
     chunk_overlap o' \<le> chunk_bytes o' div 2 \<and> planned_qgrams o' \<le> 64 \<and>
     fp_finite (fp_value (positional_budget_ratio o')) \<and>
     fp_le (Fin 0) (fp_value (positional_budget_ratio o')) \<and>
     fp_le (fp_value (positional_budget_ratio o')) (Fin 10)"

definition same_options :: "index_options \<Rightarrow> index_options \<Rightarrow> bool" where
  "same_options a b \<longleftrightarrow>
     chunk_bytes a = chunk_bytes b \<and> chunk_overlap a = chunk_overlap b \<and>
     positional_block_bytes a = positional_block_bytes b \<and>
     fp_eq (fp_value (positional_budget_ratio a)) (fp_value (positional_budget_ratio b)) \<and>
     planned_qgrams a = planned_qgrams b \<and> include_hidden a = include_hidden b \<and>
     follow_symlinks a = follow_symlinks b \<and> persist_corpus a = persist_corpus b"

lemma validate_index_options_Inr:
  "validate_index_options opt = Inr u \<Longrightarrow>
     64 \<le> chunk_bytes opt \<and> chunk_bytes opt \<le> 2 ^ 30 \<and> 16 \<le> positional_block_bytes opt \<and>
     positional_block_bytes opt \<le> 2 ^ 20 \<and> chunk_overlap opt \<le> chunk_bytes opt div 2 \<and>
     planned_qgrams opt \<le> 64"
  by (auto simp: validate_index_options_def split: if_splits)

section \<open>Chunk layout\<close>

function lg_loop :: "nat \<Rightarrow> nat \<Rightarrow> nat \<Rightarrow> nat" where
  "lg_loop b lg want = (if b < want \<and> lg < 16 then lg_loop (2 * b) (Suc lg) want else lg)"
  by pat_completeness auto
termination by (relation "measure (\<lambda>(b, lg, want). 16 - lg)") auto

declare lg_loop.simps [simp del]

definition lg_for :: "nat \<Rightarrow> nat" where
  "lg_for n = lg_loop 512 9 (max 512 (min (n * 2) 65536))"

text \<open>
  \<open>for (b = 0; b < n; b += core)\<close>.  The loop needs \<open>core > 0\<close>, which
  \<open>validate_index_options\<close> guarantees before any chunk is laid out.
\<close>

function chunk_loop :: "nat \<Rightarrow> nat \<Rightarrow> nat \<Rightarrow> nat \<Rightarrow> nat \<Rightarrow> chunk list" where
  "chunk_loop fid n core over b =
     (if b < n \<and> 0 < core
      then let e = min n (b + core); x = min n (e + over)
           in \<lparr>file_id = fid, core_begin = b, core_end = e, ext_end = x\<rparr> # chunk_loop fid n core over (b + core)
      else [])"
  by pat_completeness auto
termination by (relation "measure (\<lambda>(fid, n, core, over, b). n - b)") auto

declare chunk_loop.simps [simp del]

definition file_chunks :: "nat \<Rightarrow> nat \<Rightarrow> nat \<Rightarrow> nat \<Rightarrow> chunk list" where
  "file_chunks core over fid n =
     (if n = 0 then [\<lparr>file_id = fid, core_begin = 0, core_end = 0, ext_end = 0\<rparr>]
      else chunk_loop fid n core over 0)"

definition layout_chunks :: "index_data \<Rightarrow> chunk list" where
  "layout_chunks I =
     concat (map (\<lambda>fid. file_chunks (chunk_bytes (ix_opt I)) (chunk_overlap (ix_opt I)) fid
                          (length (content I fid)))
                 [0 ..< length (loaded I)])"

definition ext_len :: "chunk \<Rightarrow> nat" where
  "ext_len c = ext_end c - core_begin c"

definition core_len :: "chunk \<Rightarrow> nat" where
  "core_len c = core_end c - core_begin c"

definition chunk_view :: "index_data \<Rightarrow> chunk \<Rightarrow> bytes" where
  "chunk_view I c = substr (content I (file_id c)) (core_begin c) (ext_len c)"

text \<open>Offsets of the 4-byte windows of a string: \<open>for (j = 0; j + 4 <= size; ++j)\<close>.\<close>

definition windows :: "bytes \<Rightarrow> nat list" where
  "windows v = [0 ..< length v - 3]"

section \<open>Frequency tables\<close>

definition bucket16 :: "u32 \<Rightarrow> u16" where
  "bucket16 h = ucast (h AND 65535)"

definition count_bytes :: "(byte \<Rightarrow> u64) \<Rightarrow> bytes \<Rightarrow> byte \<Rightarrow> u64" where
  "count_bytes f s = fold (\<lambda>c f. f(c := f c + 1)) s f"

definition count_qgrams :: "(u16 \<Rightarrow> u32) \<Rightarrow> bytes \<Rightarrow> u16 \<Rightarrow> u32" where
  "count_qgrams f s =
     fold (\<lambda>q f. let h = bucket16 (hash4 s q) in if f h \<noteq> 0xFFFFFFFF then f(h := f h + 1) else f) (windows s) f"

definition looks_binary :: "bytes \<Rightarrow> bool" where
  "looks_binary s \<longleftrightarrow> 0 \<in> set (take (min (length s) 8192) s)"

section \<open>Planner statistics\<close>

definition empty_stats :: qgram_stats where
  "empty_stats = \<lparr>occurrence_frequency = 0, chunk_frequency = 0, document_frequency = 0,
     qs_chunk_ids = [], qs_document_ids = []\<rparr>"

text \<open>
  One occurrence of a window: the entry is created on first sight, unless the table has
  reached its cap, in which case the whole table is dropped (\<open>None\<close>).
\<close>

definition note_gram :: "u32 \<Rightarrow> (u32 \<times> qgram_stats) list \<Rightarrow> (u32 \<times> qgram_stats) list option" where
  "note_gram key t =
     (case map_of t key of
        Some st \<Rightarrow> Some (AList.update key (st\<lparr>occurrence_frequency := Suc (occurrence_frequency st)\<rparr>) t)
      | None \<Rightarrow> if kPlannerDistinctQgramCap \<le> length t then None
                else Some (AList.update key (empty_stats\<lparr>occurrence_frequency := 1\<rparr>) t))"

fun note_grams :: "u32 list \<Rightarrow> (u32 \<times> qgram_stats) list \<Rightarrow> (u32 \<times> qgram_stats) list option" where
  "note_grams [] t = Some t"
| "note_grams (k # ks) t = (case note_gram k t of None \<Rightarrow> None | Some t' \<Rightarrow> note_grams ks t')"

definition note_document :: "nat \<Rightarrow> u32 \<Rightarrow> (u32 \<times> qgram_stats) list \<Rightarrow> (u32 \<times> qgram_stats) list" where
  "note_document fid key t =
     (case map_of t key of None \<Rightarrow> t
      | Some st \<Rightarrow> AList.update key (st\<lparr>document_frequency := Suc (document_frequency st),
                                       qs_document_ids := qs_document_ids st @ [fid]\<rparr>) t)"

definition note_chunk :: "nat \<Rightarrow> u32 \<Rightarrow> (u32 \<times> qgram_stats) list \<Rightarrow> (u32 \<times> qgram_stats) list" where
  "note_chunk ci key t =
     (case map_of t key of None \<Rightarrow> t
      | Some st \<Rightarrow> AList.update key (st\<lparr>chunk_frequency := Suc (chunk_frequency st),
                                       qs_chunk_ids := qs_chunk_ids st @ [ci]\<rparr>) t)"

fun document_stats :: "nat \<Rightarrow> bytes list \<Rightarrow> (u32 \<times> qgram_stats) list \<Rightarrow> (u32 \<times> qgram_stats) list option" where
  "document_stats fid [] t = Some t"
| "document_stats fid (s # ss) t =
     (let keys = map (qgram4_key s) (windows s)
      in case note_grams keys t of None \<Rightarrow> None
         | Some t' \<Rightarrow> document_stats (Suc fid) ss (fold (note_document fid) (remdups keys) t'))"

definition chunk_stats :: "index_data \<Rightarrow> nat \<Rightarrow> index_data" where
  "chunk_stats I ci =
     (let c = chunks I ! ci in
      if length (loaded I) \<le> file_id c then I
      else let data_size = length (content I (file_id c)) in
        if core_begin c > data_size \<or> ext_end c < core_begin c \<or> ext_end c > data_size then I
        else let v = chunk_view I c;
                 exact_in_chunk = remdups (map (qgram4_key v) (windows v));
                 hash_in_chunk = remdups (map (\<lambda>q. bucket16 (hash4 v q)) (windows v))
             in I\<lparr>exact_qgrams := fold (note_chunk ci) exact_in_chunk (exact_qgrams I),
                  hash_chunk_freq := fold (\<lambda>b f. f(b := Suc (f b))) hash_in_chunk (hash_chunk_freq I),
                  hash_chunk_ids := fold (\<lambda>b f. f(b := f b @ [ci])) hash_in_chunk (hash_chunk_ids I)\<rparr>)"

definition rebuild_planner_stats :: "index_data \<Rightarrow> index_data" where
  "rebuild_planner_stats I0 =
     (let I = I0\<lparr>exact_qgrams := [], hash_chunk_freq := (\<lambda>_. 0), hash_chunk_ids := (\<lambda>_. []),
                 planner_stats_ready := False\<rparr>
      in if corp_bytes I > kPlannerCorpusCap then I
         else case document_stats 0 (map snd (loaded I)) [] of
                None \<Rightarrow> I
              | Some t \<Rightarrow>
                  (fold (\<lambda>ci J. chunk_stats J ci) [0 ..< length (chunks I)] (I\<lparr>exact_qgrams := t\<rparr>))
                    \<lparr>planner_stats_ready := True\<rparr>)"

section \<open>Group bitmaps\<close>

text \<open>
  \<open>mark_cell\<close> is \<open>cells[k] |= 1 << b\<close>, the only write either bitmap ever sees after it is
  zeroed.
\<close>

definition mark_cell :: "'a::len word list \<Rightarrow> nat \<Rightarrow> nat \<Rightarrow> 'a word list" where
  "mark_cell cells k b = cells[k := (cells ! k) OR push_bit b 1]"

definition row_of :: "u32 \<Rightarrow> nat \<Rightarrow> nat" where
  "row_of h m = unat (h AND of_nat (m - 1))"

definition chunk_class :: "chunk \<Rightarrow> nat" where
  "chunk_class c = lg_for (ext_len c) - 9"

definition init_groups :: "chunk list \<Rightarrow> group list" where
  "init_groups cs =
     map (\<lambda>k. let cnt = length (filter (\<lambda>c. chunk_class c = k) cs); lg = k + 9; m = 2 ^ lg;
                  words = (cnt + 63) div 64
              in \<lparr>g_lg = lg, g_m = m, g_words = words, g_gids = [], g_bits = replicate (m * words) 0\<rparr>)
         [0 ..< 8]"

definition mark_gram :: "nat \<Rightarrow> nat \<Rightarrow> nat \<Rightarrow> u32 \<Rightarrow> u64 list \<Rightarrow> u64 list" where
  "mark_gram m words li h bits = mark_cell bits (row_of h m * words + li div 64) (li mod 64)"

definition add_chunk_to_group :: "index_data \<Rightarrow> nat \<Rightarrow> group list \<Rightarrow> group list" where
  "add_chunk_to_group I ci gs =
     (let c = chunks I ! ci; k = chunk_class c; g = gs ! k; li = length (g_gids g);
          v = chunk_view I c
      in gs[k := g\<lparr>g_gids := g_gids g @ [ci],
                   g_bits := fold (\<lambda>j. mark_gram (g_m g) (g_words g) li (hash4 v j)) (windows v) (g_bits g)\<rparr>])"

definition build_groups :: "index_data \<Rightarrow> group list" where
  "build_groups I = fold (add_chunk_to_group I) [0 ..< length (chunks I)] (init_groups (chunks I))"

section \<open>Positional bitmaps\<close>

function choose_m_loop :: "nat \<Rightarrow> nat \<Rightarrow> nat" where
  "choose_m_loop m want = (if m < 1024 \<and> 0 < m \<and> m * 2 \<le> want then choose_m_loop (m * 2) want else m)"
  by pat_completeness auto
termination by (relation "measure (\<lambda>(m, want). 1024 - m)") auto

declare choose_m_loop.simps [simp del]

definition choose_m :: "index_options \<Rightarrow> nat \<Rightarrow> nat \<Rightarrow> nat" where
  "choose_m opt clen mask_bytes =
     (let budget = fp_trunc (fp_mul (fp_of_nat clen) (fp_value (positional_budget_ratio opt)));
          want = max 64 (budget div max 1 mask_bytes)
      in choose_m_loop 64 want)"

definition make_pos_desc :: "index_data \<Rightarrow> nat \<Rightarrow> chunk \<Rightarrow> pos_desc" where
  "make_pos_desc I off z =
     (let clen = core_len z; blocks = max 1 ((clen + pos_block I - 1) div pos_block I);
          mask_bytes = (blocks + 7) div 8; m = choose_m (ix_opt I) clen mask_bytes
      in \<lparr>pd_off = off, pd_m = m, pd_mask_bytes = mask_bytes, pd_blocks = blocks\<rparr>)"

fun layout_pos :: "index_data \<Rightarrow> nat \<Rightarrow> chunk list \<Rightarrow> pos_desc list \<times> nat" where
  "layout_pos I tot [] = ([], tot)"
| "layout_pos I tot (z # zs) =
     (let d = make_pos_desc I tot z;
          (ds, tot') = layout_pos I (tot + pd_m d * pd_mask_bytes d) zs
      in (d # ds, tot'))"

definition PO :: nat where "PO = 64"

definition block_view :: "index_data \<Rightarrow> chunk \<Rightarrow> nat \<Rightarrow> bytes" where
  "block_view I z bi =
     (let rb = bi * pos_block I; re = min (ext_len z) (rb + pos_block I + PO)
      in substr (content I (file_id z)) (core_begin z + rb) (re - rb))"

definition mark_block :: "index_data \<Rightarrow> chunk \<Rightarrow> pos_desc \<Rightarrow> nat \<Rightarrow> byte list \<Rightarrow> byte list" where
  "mark_block I z d bi pos =
     (let rb = bi * pos_block I; chunk_len = ext_len z in
      if chunk_len \<le> rb then pos
      else let re = min chunk_len (rb + pos_block I + PO) in
        if re \<le> rb \<or> re - rb < 4 then pos
        else let v = block_view I z bi
             in fold (\<lambda>j p. mark_cell p (pd_off d + row_of (hash4 v j) (pd_m d) * pd_mask_bytes d + bi div 8) (bi mod 8))
                     (windows v) pos)"

definition mark_positional :: "index_data \<Rightarrow> nat \<Rightarrow> byte list \<Rightarrow> byte list" where
  "mark_positional I ci pos =
     (let z = chunks I ! ci; d = pos_descs I ! ci
      in fold (mark_block I z d) [0 ..< pd_blocks d] pos)"

definition materialize_index_filters :: "index_data \<Rightarrow> index_data" where
  "materialize_index_filters I0 =
     (let I1 = rebuild_planner_stats (I0\<lparr>chunks := layout_chunks I0\<rparr>);
          I2 = I1\<lparr>groups := build_groups I1\<rparr>;
          (ds, tot) = layout_pos I2 0 (chunks I2);
          I3 = I2\<lparr>pos_descs := ds\<rparr>
      in I3\<lparr>pos_bits := fold (mark_positional I3) [0 ..< length (chunks I3)] (replicate tot 0)\<rparr>)"

section \<open>Building from documents\<close>

definition document_info :: "document \<Rightarrow> file_info" where
  "document_info d = \<lparr>fi_path = doc_path d, fi_size = length (doc_content d), fi_mtime_ns = 0,
     fi_binary = looks_binary (doc_content d)\<rparr>"

definition add_document :: "index_data \<Rightarrow> document \<Rightarrow> index_data result" where
  "add_document I d =
     (let s = doc_content d; fi = document_info d
      in if length s > kMaxCorpusBytes - min (corp_bytes I) kMaxCorpusBytes
         then Inl (Runtime_error ''index corpus exceeds 1 GiB limit'')
         else Inr (I\<lparr>corp_bytes := corp_bytes I + length s,
                     byte_freq := count_bytes (byte_freq I) s,
                     qgram_freq := count_qgrams (qgram_freq I) s,
                     infos := infos I @ [fi], loaded := loaded I @ [(fi, s)]\<rparr>))"

fun add_documents :: "index_data \<Rightarrow> document list \<Rightarrow> index_data result" where
  "add_documents I [] = Inr I"
| "add_documents I (d # ds) =
     (case add_document I d of Inl e \<Rightarrow> Inl e | Inr I' \<Rightarrow> add_documents I' ds)"

text \<open>\<open>std::sort\<close> on equal paths leaves their order open; the model keeps it stable.\<close>

definition from_documents :: "document list \<Rightarrow> index_options \<Rightarrow> index_data result" where
  "from_documents docs opt =
     (case validate_index_options opt of Inl e \<Rightarrow> Inl e
      | Inr _ \<Rightarrow>
          (case add_documents (empty_index_data\<lparr>ix_opt := opt, pos_block := positional_block_bytes opt,
                                                ephemeral := True\<rparr>)
                  (sort_key doc_path docs) of
             Inl e \<Rightarrow> Inl e
           | Inr I \<Rightarrow> Inr (materialize_index_filters I)))"

end
