(* ===== verification/Regex_Vm.thy ===== *)
theory Regex_Vm
  imports Regex_Syntax Index_Data
begin

text \<open>
  The backtracking matcher of \<open>regex.cpp\<close> for extended patterns: \<open>eval\<close> returns the ordered
  list of states a node can reach, or the exception it throws when a resource bound is hit.
  \<open>SIZE_MAX\<close> capture offsets are \<open>None\<close>.
\<close>

section \<open>States\<close>

type_synonym caps = "(nat option \<times> nat option) list"

record vm_state =
  vs_pos :: nat
  vs_caps :: caps

definition vm_limit_error :: exn where
  "vm_limit_error = Runtime_error ''pergrep regex: VM state limit exceeded''"

definition vm_depth_error :: exn where
  "vm_depth_error = Runtime_error ''pergrep regex: recursion depth exceeded''"

text \<open>\<open>resize(group + 1, \<dots>)\<close> when too short, then the assignment.\<close>

definition set_capture :: "nat \<Rightarrow> nat \<Rightarrow> nat \<Rightarrow> caps \<Rightarrow> caps" where
  "set_capture g a b cs =
     (let cs' = (if length cs \<le> g then cs @ replicate (g + 1 - length cs) (None, None) else cs)
      in cs'[g := (Some a, Some b)])"

function literal_loop :: "icu \<Rightarrow> verifier_context \<Rightarrow> bytes \<Rightarrow> bool \<Rightarrow> nat \<Rightarrow> nat \<Rightarrow> nat option" where
  "literal_loop U c lit icase tp lp =
     (if lp < length lit
      then (case (context_rune_at U c tp, rune_at U lit lp) of
              (Some (a, tp'), Some (b, lp')) \<Rightarrow>
                if \<not> cp_eq U a b icase \<or> lp' \<le> lp then None else literal_loop U c lit icase tp' lp'
            | _ \<Rightarrow> None)
      else Some tp)"
  by pat_completeness auto
termination by (relation "measure (\<lambda>(U, c, lit, ic, tp, lp). length lit - lp)") auto

declare literal_loop.simps [simp del]

definition context_literal_at :: "icu \<Rightarrow> verifier_context \<Rightarrow> nat \<Rightarrow> bytes \<Rightarrow> bool \<Rightarrow> nat option" where
  "context_literal_at U c pos lit icase = literal_loop U c lit icase pos 0"

section \<open>Loops over states\<close>

fun step_all :: "(vm_state \<Rightarrow> vm_state list result) \<Rightarrow> vm_state list \<Rightarrow> vm_state list \<Rightarrow> vm_state list result" where
  "step_all f [] acc = Inr acc"
| "step_all f (st # sts) acc =
     (case f st of Inl e \<Rightarrow> Inl e
      | Inr v \<Rightarrow> let acc' = acc @ v in if 50000 < length acc' then Inl vm_limit_error else step_all f sts acc')"

fun step_level :: "(vm_state \<Rightarrow> vm_state list result) \<Rightarrow> vm_state list \<Rightarrow> vm_state list result" where
  "step_level f [] = Inr []"
| "step_level f (st # sts) =
     (case f st of Inl e \<Rightarrow> Inl e
      | Inr v \<Rightarrow> (case step_level f sts of Inl e \<Rightarrow> Inl e
                  | Inr r \<Rightarrow> Inr (filter (\<lambda>z. vs_pos z \<noteq> vs_pos st) v @ r)))"

text \<open>\<open>for (k = 1; k <= limit; ++k)\<close>: the first argument counts the iterations left.\<close>

fun repeat_levels ::
  "(vm_state \<Rightarrow> vm_state list result) \<Rightarrow> nat \<Rightarrow> vm_state list \<Rightarrow> nat \<Rightarrow> vm_state list list \<Rightarrow> vm_state list list result" where
  "repeat_levels f 0 levels tot all = Inr all"
| "repeat_levels f (Suc n) levels tot all =
     (case step_level f levels of Inl e \<Rightarrow> Inl e
      | Inr nxt \<Rightarrow>
          if nxt = [] then Inr all
          else if 50000 < length nxt then Inl vm_limit_error
          else if 50000 < tot + length nxt then Inl vm_limit_error
          else repeat_levels f n nxt (tot + length nxt) (all @ [nxt]))"

definition repeat_limit :: "verifier_context \<Rightarrow> nat option \<Rightarrow> nat \<Rightarrow> nat" where
  "repeat_limit c mx pos =
     (let hard = (if pos \<le> c_record_end c then c_record_end c - pos + 1 else 0)
      in case mx of None \<Rightarrow> min hard 10000 | Some m \<Rightarrow> min m 10000)"

definition repeat_out :: "nat \<Rightarrow> bool \<Rightarrow> vm_state list list \<Rightarrow> vm_state list result" where
  "repeat_out mn greedy all =
     (let out = (if greedy then concat (rev (drop mn all)) else concat (drop mn all))
      in if 50000 < length out then Inl vm_limit_error else Inr out)"

text \<open>
  The start offsets a look-behind tries: from \<open>lo\<close>, rune by rune, up to the current position.
\<close>

function lookbehind_starts :: "icu \<Rightarrow> verifier_context \<Rightarrow> nat \<Rightarrow> nat \<Rightarrow> nat list" where
  "lookbehind_starts U c pos p =
     (if p < pos
      then let p' = (case context_rune_at U c p of Some (cp, nx) \<Rightarrow> nx | None \<Rightarrow> p + 1)
           in p # (if p < p' then lookbehind_starts U c pos p' else [])
      else if p = pos then [p] else [])"
  by pat_completeness auto
termination by (relation "measure (\<lambda>(U, c, pos, p). pos - p)") auto

declare lookbehind_starts.simps [simp del]

fun lookbehind_any :: "(vm_state \<Rightarrow> vm_state list result) \<Rightarrow> vm_state \<Rightarrow> nat list \<Rightarrow> bool result" where
  "lookbehind_any f s [] = Inr False"
| "lookbehind_any f s (p # ps) =
     (case f (s\<lparr>vs_pos := p\<rparr>) of Inl e \<Rightarrow> Inl e
      | Inr v \<Rightarrow> if \<exists>z \<in> set v. vs_pos z = vs_pos s then Inr True else lookbehind_any f s ps)"

fun lookbehind_all :: "(vm_state \<Rightarrow> vm_state list result) \<Rightarrow> vm_state \<Rightarrow> nat list \<Rightarrow> vm_state list result" where
  "lookbehind_all f s [] = Inr []"
| "lookbehind_all f s (p # ps) =
     (case f (s\<lparr>vs_pos := p\<rparr>) of Inl e \<Rightarrow> Inl e
      | Inr v \<Rightarrow> (case lookbehind_all f s ps of Inl e \<Rightarrow> Inl e
                  | Inr r \<Rightarrow> Inr (filter (\<lambda>z. vs_pos z = vs_pos s) v @ r)))"

definition lookbehind_context :: "verifier_context \<Rightarrow> verifier_context" where
  "lookbehind_context c =
     (let c1 = (if c_left_context_available c then c\<lparr>c_record_begin := c_source_begin c\<rparr> else c)
      in if c_right_context_available c then c1\<lparr>c_record_end := c_source_end c\<rparr> else c1)"

definition lookbehind_low :: "verifier_context \<Rightarrow> bool \<Rightarrow> nat \<Rightarrow> nat" where
  "lookbehind_low c negative pos =
     (let flr = (if negative \<or> \<not> c_left_context_available c then c_record_begin c else c_source_begin c)
      in if 8192 < pos then max flr (pos - 8192) else flr)"

section \<open>The matcher\<close>

definition single :: "bool \<Rightarrow> vm_state \<Rightarrow> vm_state list result" where
  "single ok s = Inr (if ok then [s] else [])"

fun eval :: "icu \<Rightarrow> node \<Rightarrow> verifier_context \<Rightarrow> nat \<Rightarrow> vm_state \<Rightarrow> vm_state list result"
  and eval_concat :: "icu \<Rightarrow> node list \<Rightarrow> verifier_context \<Rightarrow> nat \<Rightarrow> vm_state list \<Rightarrow> vm_state list result"
  and eval_alt :: "icu \<Rightarrow> node list \<Rightarrow> verifier_context \<Rightarrow> nat \<Rightarrow> vm_state \<Rightarrow> vm_state list \<Rightarrow> vm_state list result" where
  "eval U n c depth s =
     (if 10000 < depth then Inl vm_depth_error
      else case n of
        KEmpty f \<Rightarrow> Inr [s]
      | KLiteral f lit \<Rightarrow>
          (case context_literal_at U c (vs_pos s) lit (rf_icase f) of
             Some e \<Rightarrow> Inr [s\<lparr>vs_pos := e\<rparr>] | None \<Rightarrow> Inr [])
      | KDot f \<Rightarrow>
          (case context_rune_at U c (vs_pos s) of
             Some (cp, nx) \<Rightarrow> single (rf_dotall f \<or> cp \<noteq> byte_cp (c_separator c)) (s\<lparr>vs_pos := nx\<rparr>) | None \<Rightarrow> Inr [])
      | KClass f cls \<Rightarrow>
          (case context_rune_at U c (vs_pos s) of
             Some (cp, nx) \<Rightarrow> single (class_match U cls cp (rf_icase f)) (s\<lparr>vs_pos := nx\<rparr>) | None \<Rightarrow> Inr [])
      | KBegin f \<Rightarrow> single (assert_begin f c (vs_pos s)) s
      | KEnd f \<Rightarrow> single (assert_end f c (vs_pos s)) s
      | KAbsBegin f \<Rightarrow> single (vs_pos s = c_record_begin c) s
      | KAbsEnd f \<Rightarrow> single (vs_pos s = c_record_end c) s
      | KEndNewline f \<Rightarrow> single (assert_end_newline f c (vs_pos s)) s
      | KWordBoundary f negative \<Rightarrow> single (assert_word U f negative c (vs_pos s)) s
      | KWordStartHalf f \<Rightarrow> single (assert_word_start_half U f c (vs_pos s)) s
      | KWordEndHalf f \<Rightarrow> single (assert_word_end_half U f c (vs_pos s)) s
      | KConcat f chs \<Rightarrow> eval_concat U chs c depth [s]
      | KAlt f chs \<Rightarrow> eval_alt U chs c depth s []
      | KGroup f g ch \<Rightarrow>
          (case eval U ch c (depth + 1) s of Inl e \<Rightarrow> Inl e
           | Inr v \<Rightarrow> Inr (map (\<lambda>z. z\<lparr>vs_caps := set_capture g (vs_pos s) (vs_pos z) (vs_caps z)\<rparr>) v))
      | KBackRef f g \<Rightarrow>
          (if length (vs_caps s) \<le> g then Inr []
           else case vs_caps s ! g of
             (Some a, Some b) \<Rightarrow>
               if b < a \<or> c_record_end c < b then Inr []
               else (case context_literal_at U c (vs_pos s) (substr (c_source c) (a - c_source_begin c) (b - a)) (rf_icase f) of
                       Some e \<Rightarrow> Inr [s\<lparr>vs_pos := e\<rparr>] | None \<Rightarrow> Inr [])
           | _ \<Rightarrow> Inr [])
      | KLookAhead f negative ch \<Rightarrow>
          (case eval U ch c (depth + 1) s of Inl e \<Rightarrow> Inl e
           | Inr v \<Rightarrow> if negative then single (v = []) s else Inr (map (\<lambda>z. z\<lparr>vs_pos := vs_pos s\<rparr>) v))
      | KLookBehind f negative ch \<Rightarrow>
          (let look = lookbehind_context c;
               starts = lookbehind_starts U c (vs_pos s) (lookbehind_low c negative (vs_pos s))
           in if negative
              then (case lookbehind_any (\<lambda>q. eval U ch look (depth + 1) q) s starts of Inl e \<Rightarrow> Inl e
                    | Inr ok \<Rightarrow> single (\<not> ok) s)
              else (case lookbehind_all (\<lambda>q. eval U ch look (depth + 1) q) s starts of Inl e \<Rightarrow> Inl e
                    | Inr v \<Rightarrow> Inr (map (\<lambda>z. z\<lparr>vs_pos := vs_pos s\<rparr>) v)))
      | KRepeat f mn mx greedy ch \<Rightarrow>
          (case repeat_levels (\<lambda>q. eval U ch c (depth + 1) q) (repeat_limit c mx (vs_pos s)) [s] 1 [[s]] of
             Inl e \<Rightarrow> Inl e
           | Inr all \<Rightarrow> repeat_out mn greedy all))"
| "eval_concat U [] c depth cur = Inr cur"
| "eval_concat U (ch # chs) c depth cur =
     (case step_all (\<lambda>q. eval U ch c (depth + 1) q) cur [] of Inl e \<Rightarrow> Inl e
      | Inr nxt \<Rightarrow> if nxt = [] then Inr [] else eval_concat U chs c depth nxt)"
| "eval_alt U [] c depth s out = Inr out"
| "eval_alt U (ch # chs) c depth s out =
     (case eval U ch c (depth + 1) s of Inl e \<Rightarrow> Inl e
      | Inr v \<Rightarrow> let out' = out @ v in
          if 50000 < length out' then Inl vm_limit_error else eval_alt U chs c depth s out')"

declare eval.simps [simp del]

section \<open>Search over a context\<close>

record regex_program =
  rp_ast :: node
  rp_groups :: nat
  rp_group_names :: "bytes list"
  rp_extended :: bool
  rp_icase_literal :: "int list"

definition capture_list :: "regex_program \<Rightarrow> caps \<Rightarrow> nat \<Rightarrow> nat \<Rightarrow> capture list" where
  "capture_list p cs st en =
     \<lparr>cap_start = st, cap_end = en, cap_matched = True, cap_name = []\<rparr> #
     map (\<lambda>g. case (if g < length cs then cs ! g else (None, None)) of
                (Some a, Some b) \<Rightarrow> \<lparr>cap_start = a, cap_end = b, cap_matched = True,
                   cap_name = (if g < length (rp_group_names p) then rp_group_names p ! g else [])\<rparr>
              | _ \<Rightarrow> \<lparr>cap_start = 0, cap_end = 0, cap_matched = False, cap_name = []\<rparr>)
       [1 ..< rp_groups p + 1]"

function vm_search_loop :: "icu \<Rightarrow> regex_program \<Rightarrow> verifier_context \<Rightarrow> nat \<Rightarrow> nat \<Rightarrow> match option result" where
  "vm_search_loop U p c fid st =
     (if st < c_candidate_end c
      then (case eval U (rp_ast p) c 0 \<lparr>vs_pos = st, vs_caps = replicate (rp_groups p + 1) (None, None)\<rparr> of
              Inl e \<Rightarrow> Inl e
            | Inr (z # v) \<Rightarrow>
                Inr (Some \<lparr>m_file = fid, m_start = st, m_end = vs_pos z,
                           m_caps = capture_list p (vs_caps z) st (vs_pos z)\<rparr>)
            | Inr [] \<Rightarrow>
                if c_record_end c \<le> st then Inr None
                else let st' = (case context_rune_at U c st of Some (cp, nx) \<Rightarrow> nx | None \<Rightarrow> st + 1)
                     in if st' \<le> st then Inr None else vm_search_loop U p c fid st')
      else Inr None)"
  by pat_completeness auto
termination by (relation "measure (\<lambda>(U, p, c, fid, st). c_candidate_end c - st)") auto

declare vm_search_loop.simps [simp del]

end
