(* ===== verification/Query_IR.thy ===== *)
theory Query_IR
  imports Regex_Syntax
begin

text \<open>
  The optimiser's view of a pattern (\<open>internal.hpp\<close>, \<open>regex.cpp\<close>): the Boolean filter algebra
  \<open>FilterExpr\<close> with its simplifier, and the literals, prefixes and branch lists extracted from
  the syntax tree.  This theory holds the definitions and the algebra of filters; that the
  extracted filters never reject a match is in \<open>Query_Sound\<close>.
\<close>

section \<open>Filter expressions\<close>

datatype filter_expr = FTrue | FAtom bytes | FAnd "filter_expr list" | FOr "filter_expr list"

definition filter_atom :: "bytes \<Rightarrow> filter_expr" where
  "filter_atom lit = (if lit = [] then FTrue else FAtom lit)"

fun filter_matches :: "filter_expr \<Rightarrow> bytes \<Rightarrow> bool" where
  "filter_matches FTrue t = True"
| "filter_matches (FAtom lit) t = contains_str t lit"
| "filter_matches (FAnd ts) t = (\<forall>x \<in> set ts. filter_matches x t)"
| "filter_matches (FOr ts) t = (\<exists>x \<in> set ts. filter_matches x t)"

text \<open>The loop over \<open>bx\<close> with its \<open>used\<close> flags: the first unused entry that satisfies \<open>f\<close> is marked.\<close>

fun mark_first :: "('a \<Rightarrow> bool) \<Rightarrow> (bool \<times> 'a) list \<Rightarrow> (bool \<times> 'a) list option" where
  "mark_first f [] = None"
| "mark_first f ((u, b) # rs) =
     (if \<not> u \<and> f b then Some ((True, b) # rs) else map_option (Cons (u, b)) (mark_first f rs))"

fun filter_equal :: "filter_expr \<Rightarrow> filter_expr \<Rightarrow> bool"
  and filter_equal_terms :: "filter_expr list \<Rightarrow> (bool \<times> filter_expr) list \<Rightarrow> bool" where
  "filter_equal FTrue e = (e = FTrue)"
| "filter_equal (FAtom lit) e = (e = FAtom lit)"
| "filter_equal (FAnd xs) e =
     (case e of FAnd ys \<Rightarrow> length xs = length ys \<and> filter_equal_terms xs (map (Pair False) ys) | _ \<Rightarrow> False)"
| "filter_equal (FOr xs) e =
     (case e of FOr ys \<Rightarrow> length xs = length ys \<and> filter_equal_terms xs (map (Pair False) ys) | _ \<Rightarrow> False)"
| "filter_equal_terms [] used = True"
| "filter_equal_terms (x # xs) used =
     (case mark_first (\<lambda>b. filter_equal x b) used of None \<Rightarrow> False | Some used' \<Rightarrow> filter_equal_terms xs used')"

definition and_contains :: "filter_expr \<Rightarrow> filter_expr \<Rightarrow> bool" where
  "and_contains e t = (case e of FAnd ts \<Rightarrow> (\<exists>c \<in> set ts. filter_equal c t) | _ \<Rightarrow> False)"

definition filter_subsumes :: "filter_expr \<Rightarrow> filter_expr \<Rightarrow> bool" where
  "filter_subsumes l r =
     (if filter_equal l r then True
      else case (l, r) of (FAtom a, FAtom b) \<Rightarrow> contains_str b a | _ \<Rightarrow> and_contains r l)"

section \<open>Simplification\<close>

fun unique_terms :: "filter_expr list \<Rightarrow> filter_expr list \<Rightarrow> filter_expr list" where
  "unique_terms acc [] = acc"
| "unique_terms acc (t # ts) =
     unique_terms (if \<exists>p \<in> set acc. filter_equal p t then acc else acc @ [t]) ts"

text \<open>The inner \<open>while (j < unique.size())\<close>: the list left, and the index \<open>i\<close> after its decrements.\<close>

function absorb_at :: "nat \<Rightarrow> nat \<Rightarrow> filter_expr list \<Rightarrow> filter_expr list \<times> nat" where
  "absorb_at i j u =
     (if j < length u
      then if i \<noteq> j \<and> filter_subsumes (u ! i) (u ! j)
           then absorb_at (if j < i then i - 1 else i) j (take j u @ drop (Suc j) u)
           else absorb_at i (Suc j) u
      else (u, i))"
  by pat_completeness auto
termination by (relation "measure (\<lambda>(i, j, u). length u - j)") auto

declare absorb_at.simps [simp del]

lemma absorb_at_erase:
  assumes "j < length u" "i \<noteq> j" "filter_subsumes (u ! i) (u ! j)"
  shows "absorb_at i j u = absorb_at (if j < i then i - 1 else i) j (take j u @ drop (Suc j) u)"
  using assms by (simp add: absorb_at.simps [of i j u])

lemma absorb_at_keep:
  assumes "j < length u" "\<not> (i \<noteq> j \<and> filter_subsumes (u ! i) (u ! j))"
  shows "absorb_at i j u = absorb_at i (Suc j) u"
  by (subst absorb_at.simps) (use assms in \<open>simp only: if_True if_False\<close>)

lemma absorb_at_end: "\<not> j < length u \<Longrightarrow> absorb_at i j u = (u, i)"
  by (simp add: absorb_at.simps [of i j u])

lemma absorb_at_induct [consumes 1, case_names stop keep erase]:
  assumes "i < length u"
    and "\<And>i j u. i < length u \<Longrightarrow> \<not> j < length u \<Longrightarrow> P i j u (u, i)"
    and "\<And>i j u. i < length u \<Longrightarrow> j < length u \<Longrightarrow> P i (Suc j) u (absorb_at i (Suc j) u) \<Longrightarrow> P i j u (absorb_at i (Suc j) u)"
    and "\<And>i j u i' u'. i < length u \<Longrightarrow> j < length u \<Longrightarrow> i \<noteq> j \<Longrightarrow> filter_subsumes (u ! i) (u ! j) \<Longrightarrow>
           i' = (if j < i then i - 1 else i) \<Longrightarrow> u' = take j u @ drop (Suc j) u \<Longrightarrow> i' < length u' \<Longrightarrow>
           P i' j u' (absorb_at i' j u') \<Longrightarrow> P i j u (absorb_at i' j u')"
  shows "P i j u (absorb_at i j u)"
  using assms(1)
proof (induction i j u rule: absorb_at.induct)
  case (1 i j u)
  show ?case
  proof (cases "j < length u")
    case False
    then show ?thesis using assms(2) 1(3) by (simp add: absorb_at_end)
  next
    case True
    show ?thesis
    proof (cases "i \<noteq> j \<and> filter_subsumes (u ! i) (u ! j)")
      case False
      from assms(3) [OF 1(3) True 1(2) [OF True False 1(3)]] show ?thesis
        by (simp only: absorb_at_keep [OF True False])
    next
      case e: True
      define i' where "i' = (if j < i then i - 1 else i)"
      define u' where "u' = take j u @ drop (Suc j) u"
      have l: "i' < length u'" using True e 1(3) by (auto simp: i'_def u'_def)
      have "P i' j u' (absorb_at i' j u')"
        using 1(1) [OF True e] l unfolding i'_def u'_def by blast
      from assms(4) [OF 1(3) True conjunct1 [OF e] conjunct2 [OF e] i'_def u'_def l this] show ?thesis
        unfolding i'_def u'_def absorb_at_erase [OF True conjunct1 [OF e] conjunct2 [OF e]] .
    qed
  qed
qed

lemma absorb_at_bounds:
  assumes "i < length u"
  shows "snd (absorb_at i j u) < length (fst (absorb_at i j u)) \<and>
         length (fst (absorb_at i j u)) - snd (absorb_at i j u) \<le> length u - i"
proof (rule absorb_at_induct [OF assms, where P = "\<lambda>i j u r. snd r < length (fst r) \<and> length (fst r) - snd r \<le> length u - i"],
    goal_cases)
  case (3 i j u i' u')
  have "length u' - i' \<le> length u - i" using 3(1-3,5,6) by auto
  with 3(8) show ?case by linarith
qed auto

function absorb_all :: "nat \<Rightarrow> filter_expr list \<Rightarrow> filter_expr list" where
  "absorb_all i u =
     (if i < length u then (case absorb_at i 0 u of (u', i') \<Rightarrow> absorb_all (Suc i') u') else u)"
  by pat_completeness auto
termination
proof (relation "measure (\<lambda>(i, u). length u - i)", goal_cases)
  case (2 i u p q)
  from 2(2) have "fst (absorb_at i 0 u) = p" "snd (absorb_at i 0 u) = q" by (simp_all flip: 2(2))
  with 2(1) absorb_at_bounds [of i u 0] have "q < length p" "length p - q \<le> length u - i" by simp_all
  then show ?case by simp
qed simp

declare absorb_all.simps [simp del]

definition make_and :: "filter_expr list \<Rightarrow> filter_expr" where
  "make_and u = (case u of [] \<Rightarrow> FTrue | [x] \<Rightarrow> x | _ \<Rightarrow> FAnd u)"

definition make_or :: "filter_expr list \<Rightarrow> filter_expr" where
  "make_or u = (case u of [] \<Rightarrow> FTrue | [x] \<Rightarrow> x | _ \<Rightarrow> FOr u)"

fun and_terms :: "filter_expr \<Rightarrow> filter_expr list" where
  "and_terms FTrue = []"
| "and_terms (FAnd ts) = ts"
| "and_terms e = [e]"

fun or_terms :: "filter_expr \<Rightarrow> filter_expr list" where
  "or_terms (FOr ts) = ts"
| "or_terms e = [e]"

fun simplified :: "filter_expr \<Rightarrow> filter_expr" where
  "simplified FTrue = FTrue"
| "simplified (FAtom lit) = filter_atom lit"
| "simplified (FAnd ts) = make_and (unique_terms [] (concat (map (\<lambda>c. and_terms (simplified c)) ts)))"
| "simplified (FOr ts) =
     (let ss = map (\<lambda>c. simplified c) ts
      in if FTrue \<in> set ss then FTrue
         else make_or (absorb_all 0 (unique_terms [] (concat (map or_terms ss)))))"

section \<open>Extraction from the syntax tree\<close>

fun query_filter :: "node \<Rightarrow> filter_expr" where
  "query_filter (KLiteral f lit) = (if lit \<noteq> [] \<and> \<not> rf_icase f then filter_atom lit else FTrue)"
| "query_filter (KGroup f g c) = query_filter c"
| "query_filter (KLookAhead f neg c) = (if neg then FTrue else query_filter c)"
| "query_filter (KLookBehind f neg c) = (if neg then FTrue else query_filter c)"
| "query_filter (KRepeat f mn mx g c) = (if mn = 0 then FTrue else query_filter c)"
| "query_filter (KConcat f cs) = FAnd (map (\<lambda>c. query_filter c) cs)"
| "query_filter (KAlt f cs) = FOr (map (\<lambda>c. query_filter c) cs)"
| "query_filter _ = FTrue"

fun sensitive_literal :: "node \<Rightarrow> bytes option" where
  "sensitive_literal (KLiteral f lit) = (if rf_icase f then None else Some lit)"
| "sensitive_literal _ = None"

text \<open>The concatenation loop: \<open>run\<close> joins adjacent literals, anything else flushes it.\<close>

fun concat_runs :: "(bytes option \<times> bytes list) list \<Rightarrow> bytes \<Rightarrow> bytes list \<Rightarrow> bytes list" where
  "concat_runs [] run out = (if run = [] then out else out @ [run])"
| "concat_runs ((Some lit, m) # cs) run out = concat_runs cs (run @ lit) out"
| "concat_runs ((None, m) # cs) run out = concat_runs cs [] ((if run = [] then out else out @ [run]) @ m)"

fun query_mandatory :: "node \<Rightarrow> bytes list" where
  "query_mandatory (KLiteral f lit) = (if lit = [] \<or> rf_icase f then [] else [lit])"
| "query_mandatory (KGroup f g c) = query_mandatory c"
| "query_mandatory (KLookAhead f neg c) = (if neg then [] else query_mandatory c)"
| "query_mandatory (KLookBehind f neg c) = (if neg then [] else query_mandatory c)"
| "query_mandatory (KRepeat f mn mx g c) = (if mn = 0 then [] else query_mandatory c)"
| "query_mandatory (KConcat f cs) = concat_runs (map (\<lambda>c. (sensitive_literal c, query_mandatory c)) cs) [] []"
| "query_mandatory (KAlt f cs) =
     (case map (\<lambda>c. query_mandatory c) cs of [] \<Rightarrow> []
      | m # ms \<Rightarrow> foldl (\<lambda>acc cur. filter (\<lambda>a. a \<in> set cur) acc) m ms)"
| "query_mandatory _ = []"

fun query_prefixes :: "node \<Rightarrow> bytes list" where
  "query_prefixes (KLiteral f lit) = (if lit \<noteq> [] \<and> \<not> rf_icase f then [lit] else [])"
| "query_prefixes (KGroup f g c) = query_prefixes c"
| "query_prefixes (KRepeat f mn mx g c) = (if 0 < mn then query_prefixes c else [])"
| "query_prefixes (KConcat f cs) = (case cs of [] \<Rightarrow> [] | c # _ \<Rightarrow> query_prefixes c)"
| "query_prefixes (KAlt f cs) =
     (let ps = map (\<lambda>c. query_prefixes c) cs in if [] \<in> set ps then [] else sort_unique (concat ps))"
| "query_prefixes _ = []"

fun strip_groups :: "node \<Rightarrow> node" where
  "strip_groups (KGroup f g c) = strip_groups c"
| "strip_groups n = n"

definition query_branch_mandatory :: "node \<Rightarrow> bytes list list" where
  "query_branch_mandatory n =
     (case strip_groups n of
        KAlt f cs \<Rightarrow> let ms = map query_mandatory cs in if [] \<in> set ms then [] else ms
      | _ \<Rightarrow> [])"

fun query_is_pure_literal :: "node \<Rightarrow> bytes option" where
  "query_is_pure_literal (KLiteral f lit) = (if rf_icase f then None else Some lit)"
| "query_is_pure_literal (KGroup f g c) = query_is_pure_literal c"
| "query_is_pure_literal (KConcat f cs) =
     (let ls = map (\<lambda>c. query_is_pure_literal c) cs
      in if None \<in> set ls then None else Some (concat (map the ls)))"
| "query_is_pure_literal _ = None"

record query_ir =
  qi_filter :: filter_expr
  qi_mandatory :: "bytes list"
  qi_branch_mandatory :: "bytes list list"
  qi_prefixes :: "bytes list"
  qi_is_pure_literal :: bool
  qi_exact_literal :: bytes

text \<open>
  The final \<open>std::sort\<close> by decreasing length leaves the order of equal lengths open; a stable
  sort is one of its results.
\<close>

definition analyze_query :: "node \<Rightarrow> bool \<Rightarrow> query_ir" where
  "analyze_query n extended =
     (let pure = (if extended then None else query_is_pure_literal n)
      in \<lparr>qi_filter = simplified (query_filter n),
          qi_mandatory = rev (sort_key length (rev (sort_unique (query_mandatory n)))),
          qi_branch_mandatory = query_branch_mandatory n,
          qi_prefixes = query_prefixes n,
          qi_is_pure_literal = pure \<noteq> None,
          qi_exact_literal = (case pure of Some lit \<Rightarrow> lit | None \<Rightarrow> [])\<rparr>)"

section \<open>Equality and subsumption of filters\<close>

lemma mark_first_Some:
  "mark_first f bs = Some bs' \<Longrightarrow>
     \<exists>i < length bs. \<not> fst (bs ! i) \<and> f (snd (bs ! i)) \<and> bs' = bs[i := (True, snd (bs ! i))]"
proof (induction f bs arbitrary: bs' rule: mark_first.induct)
  case (2 f u b rs)
  show ?case
  proof (cases "\<not> u \<and> f b")
    case True
    with 2 show ?thesis by (intro exI [of _ 0]) auto
  next
    case False
    with 2 obtain rs' where "mark_first f rs = Some rs'" "bs' = (u, b) # rs'" by (auto split: if_splits)
    with "2.IH" [OF False] obtain i where "i < length rs" "\<not> fst (rs ! i)" "f (snd (rs ! i))"
      "rs' = rs[i := (True, snd (rs ! i))]" by blast
    with \<open>bs' = _\<close> show ?thesis by (intro exI [of _ "Suc i"]) auto
  qed
qed simp

definition unused :: "(bool \<times> 'a) list \<Rightarrow> nat" where
  "unused bs = length (filter (\<lambda>b. \<not> fst b) bs)"

lemma unused_mark: "i < length bs \<Longrightarrow> \<not> fst (bs ! i) \<Longrightarrow> unused bs = Suc (unused (bs[i := (True, x)]))"
proof (induction bs arbitrary: i)
  case (Cons b bs)
  then show ?case by (cases i) (auto simp: unused_def)
qed simp

lemma unused_zero: "unused bs = 0 \<Longrightarrow> b \<in> set bs \<Longrightarrow> fst b"
  by (auto simp: unused_def filter_empty_conv)

lemma unused_fresh: "unused (map (Pair False) ys) = length ys"
  by (simp add: unused_def filter_map o_def)

text \<open>
  If the marks run out exactly when the left terms do, every unmarked right term has been
  paired with a left term, and conversely.
\<close>

lemma filter_equal_terms_pairs:
  assumes "filter_equal_terms xs bs" "unused bs = length xs"
  shows "(\<forall>x \<in> set xs. \<exists>b \<in> set bs. filter_equal x (snd b) \<and> \<not> fst b) \<and>
         (\<forall>b \<in> set bs. \<not> fst b \<longrightarrow> (\<exists>x \<in> set xs. filter_equal x (snd b)))"
  using assms
proof (induction xs arbitrary: bs)
  case Nil
  then show ?case using unused_zero [of bs] by simp
next
  case (Cons x xs)
  from Cons.prems(1) obtain bs' where m: "mark_first (filter_equal x) bs = Some bs'" and r: "filter_equal_terms xs bs'"
    by (auto split: option.splits)
  from mark_first_Some [OF m] obtain i where i: "i < length bs" "\<not> fst (bs ! i)" "filter_equal x (snd (bs ! i))"
    and bs': "bs' = bs[i := (True, snd (bs ! i))]" by blast
  have "unused bs' = length xs" using unused_mark [OF i(1,2), of "snd (bs ! i)"] Cons.prems(2) by (simp add: bs')
  from Cons.IH [OF r this] have l: "\<And>y. y \<in> set xs \<Longrightarrow> \<exists>b \<in> set bs'. filter_equal y (snd b) \<and> \<not> fst b"
    and rr: "\<And>b. b \<in> set bs' \<Longrightarrow> \<not> fst b \<Longrightarrow> \<exists>y \<in> set xs. filter_equal y (snd b)" by blast+
  have sub: "b \<in> set bs" if "b \<in> set bs'" "\<not> fst b" for b
    using that set_update_subset_insert [of bs i "(True, snd (bs ! i))"] by (auto simp: bs')
  have sup: "b \<in> set bs' \<or> b = bs ! i" if b: "b \<in> set bs" for b
  proof -
    from b obtain k where "k < length bs" "b = bs ! k" by (auto simp: in_set_conv_nth)
    then show ?thesis using i(1) by (cases "k = i") (auto simp: bs' in_set_conv_nth intro!: exI [of _ k])
  qed
  show ?case
  proof (intro conjI ballI impI)
    fix y assume "y \<in> set (x # xs)"
    then show "\<exists>b \<in> set bs. filter_equal y (snd b) \<and> \<not> fst b"
      using i(2,3) l [of y] sub nth_mem [OF i(1)] by (metis set_ConsD)
  next
    fix b assume "b \<in> set bs" "\<not> fst b"
    with sup [of b] rr [of b] i(3) show "\<exists>y \<in> set (x # xs). filter_equal y (snd b)" by auto
  qed
qed

lemma filter_equal_lists:
  assumes "filter_equal_terms xs (map (Pair False) ys)" "length xs = length ys"
  shows "\<And>x. x \<in> set xs \<Longrightarrow> \<exists>y \<in> set ys. filter_equal x y" "\<And>y. y \<in> set ys \<Longrightarrow> \<exists>x \<in> set xs. filter_equal x y"
  using filter_equal_terms_pairs [OF assms(1)] assms(2) by (auto simp: unused_fresh)

lemma filter_equal_matches: "filter_equal a b \<Longrightarrow> filter_matches a t = filter_matches b t"
proof (induction a arbitrary: b)
  case (FAnd xs)
  then obtain ys where b: "b = FAnd ys" and eq: "filter_equal_terms xs (map (Pair False) ys)" "length xs = length ys"
    by (auto split: filter_expr.splits)
  show ?case unfolding b using filter_equal_lists [OF eq] FAnd.IH by simp blast
next
  case (FOr xs)
  then obtain ys where b: "b = FOr ys" and eq: "filter_equal_terms xs (map (Pair False) ys)" "length xs = length ys"
    by (auto split: filter_expr.splits)
  show ?case unfolding b using filter_equal_lists [OF eq] FOr.IH by simp blast
qed auto

lemma contains_str_trans: "contains_str t b \<Longrightarrow> contains_str b a \<Longrightarrow> contains_str t a"
  unfolding contains_str_iff by (blast intro: occurs_at_trans)

lemma filter_subsumes_matches:
  assumes "filter_subsumes l r" "filter_matches r t"
  shows "filter_matches l t"
proof (cases "filter_equal l r")
  case True
  with assms(2) filter_equal_matches show ?thesis by blast
next
  case False
  have anded: ?thesis if "and_contains r l"
    using that assms(2) filter_equal_matches by (auto simp: and_contains_def split: filter_expr.splits)
  show ?thesis
  proof (cases "\<exists>a b. l = FAtom a \<and> r = FAtom b")
    case True
    with assms False show ?thesis by (auto simp: filter_subsumes_def intro: contains_str_trans)
  next
    case not_atoms: False
    with assms(1) False have "and_contains r l"
      by (auto simp: filter_subsumes_def split: filter_expr.splits)
    then show ?thesis by (rule anded)
  qed
qed

section \<open>The simplifier\<close>

lemma unique_terms_sub: "x \<in> set (unique_terms acc ts) \<Longrightarrow> x \<in> set acc \<or> x \<in> set ts"
  by (induction acc ts rule: unique_terms.induct) (auto split: if_splits)

lemma unique_terms_acc: "x \<in> set acc \<Longrightarrow> x \<in> set (unique_terms acc ts)"
  by (induction acc ts rule: unique_terms.induct) auto

lemma unique_terms_covers:
  "x \<in> set ts \<Longrightarrow> \<exists>y \<in> set (unique_terms acc ts). filter_matches y t = filter_matches x t"
proof (induction acc ts rule: unique_terms.induct)
  case (2 acc u ts)
  show ?case
  proof (cases "x = u")
    case False
    with 2 show ?thesis by auto
  next
    case True
    show ?thesis
    proof (cases "\<exists>p \<in> set acc. filter_equal p u")
      case True
      then obtain p where "p \<in> set acc" "filter_equal p u" by blast
      with \<open>x = u\<close> filter_equal_matches unique_terms_acc [of p acc ts] show ?thesis by auto
    next
      case False
      with \<open>x = u\<close> unique_terms_acc [of u "acc @ [u]" ts] show ?thesis by auto
    qed
  qed
qed simp

lemma unique_terms_all: "(\<forall>x \<in> set (unique_terms [] ts). filter_matches x t) = (\<forall>x \<in> set ts. filter_matches x t)"
  using unique_terms_sub [of _ "[]" ts] unique_terms_covers [of _ ts "[]" t] by fastforce

lemma unique_terms_ex: "(\<exists>x \<in> set (unique_terms [] ts). filter_matches x t) = (\<exists>x \<in> set ts. filter_matches x t)"
  using unique_terms_sub [of _ "[]" ts] unique_terms_covers [of _ ts "[]" t] by fastforce

lemma erase_set:
  assumes "j < length u" "i < length u" "i \<noteq> j"
  shows "set u = insert (u ! j) (set (take j u @ drop (Suc j) u))" "u ! i \<in> set (take j u @ drop (Suc j) u)"
proof -
  have "u = take j u @ u ! j # drop (Suc j) u" using assms(1) by (rule id_take_nth_drop)
  then show "set u = insert (u ! j) (set (take j u @ drop (Suc j) u))"
    by (metis Un_insert_right list.simps(15) set_append)
  show "u ! i \<in> set (take j u @ drop (Suc j) u)"
  proof (cases "i < j")
    case True
    then have "u ! i = take j u ! i" "i < length (take j u)" using assms by auto
    then show ?thesis using nth_mem by (metis UnI1 set_append)
  next
    case False
    then have "u ! i = drop (Suc j) u ! (i - Suc j)" "i - Suc j < length (drop (Suc j) u)" using assms by auto
    then show ?thesis using nth_mem by (metis UnI2 set_append)
  qed
qed

lemma absorb_at_matches:
  assumes "i < length u"
  shows "(\<exists>x \<in> set (fst (absorb_at i j u)). filter_matches x t) = (\<exists>x \<in> set u. filter_matches x t)"
proof (rule absorb_at_induct [OF assms, where P = "\<lambda>i j u r. (\<exists>x \<in> set (fst r). filter_matches x t) = (\<exists>x \<in> set u. filter_matches x t)"],
    goal_cases)
  case (3 i j u i' u')
  have s: "set u = insert (u ! j) (set u')" and i: "u ! i \<in> set u'"
    using erase_set [OF 3(2,1,3)] 3(6) by simp_all
  have "(\<exists>x \<in> set u. filter_matches x t) = (\<exists>x \<in> set u'. filter_matches x t)"
    unfolding s using i filter_subsumes_matches [OF 3(4), of t] by auto
  with 3(8) show ?case by simp
qed auto

lemma absorb_all_matches: "(\<exists>x \<in> set (absorb_all i u). filter_matches x t) = (\<exists>x \<in> set u. filter_matches x t)"
proof (induction i u rule: absorb_all.induct)
  case (1 i u)
  show ?case
  proof (cases "i < length u")
    case True
    obtain u' i' where a: "absorb_at i 0 u = (u', i')" by (cases "absorb_at i 0 u")
    with True 1 absorb_at_matches [OF True, of 0 t] show ?thesis by (simp add: absorb_all.simps [of i u])
  next
    case False
    then show ?thesis by (simp add: absorb_all.simps [of i u])
  qed
qed

lemma make_and_matches: "filter_matches (make_and u) t = (\<forall>x \<in> set u. filter_matches x t)"
  by (auto simp: make_and_def split: list.splits)

lemma make_or_matches: "u \<noteq> [] \<Longrightarrow> filter_matches (make_or u) t = (\<exists>x \<in> set u. filter_matches x t)"
  by (auto simp: make_or_def split: list.splits)

lemma and_terms_matches: "(\<forall>x \<in> set (and_terms e). filter_matches x t) = filter_matches e t"
  by (cases e) auto

lemma or_terms_matches: "(\<exists>x \<in> set (or_terms e). filter_matches x t) = filter_matches e t"
  by (cases e) auto

lemma make_or_weaker: "(\<exists>x \<in> set u. filter_matches x t) \<Longrightarrow> filter_matches (make_or u) t"
  by (cases "u = []") (simp_all add: make_or_matches)

fun no_empty_or :: "filter_expr \<Rightarrow> bool" where
  "no_empty_or FTrue = True"
| "no_empty_or (FAtom lit) = True"
| "no_empty_or (FAnd ts) = (\<forall>x \<in> set ts. no_empty_or x)"
| "no_empty_or (FOr ts) = (ts \<noteq> [] \<and> (\<forall>x \<in> set ts. no_empty_or x))"

lemma contains_str_Nil: "contains_str t []"
  by (simp add: contains_str_iff exI [of _ 0])

lemma filter_atom_matches: "filter_matches (filter_atom lit) t = contains_str t lit"
  by (simp add: filter_atom_def contains_str_Nil)

lemma make_and_mono:
  "filter_matches (make_and (unique_terms [] (concat (map and_terms ss)))) t = (\<forall>s \<in> set ss. filter_matches s t)"
  using and_terms_matches [of _ t] by (simp add: make_and_matches unique_terms_all) 

lemma absorbed_matches:
  "(\<exists>x \<in> set (absorb_all 0 (unique_terms [] (concat (map or_terms ss)))). filter_matches x t) =
     (\<exists>s \<in> set ss. filter_matches s t)"
  using or_terms_matches [of _ t] by (simp add: absorb_all_matches unique_terms_ex)

lemma simplified_weaker: "filter_matches e t \<Longrightarrow> filter_matches (simplified e) t"
proof (induction e)
  case (FAnd ts)
  then show ?case using make_and_mono [of "map simplified ts" t] by (simp add: o_def)
next
  case (FOr ts)
  then obtain e where "e \<in> set ts" "filter_matches (simplified e) t" by auto
  then have "filter_matches (make_or (absorb_all 0 (unique_terms [] (concat (map or_terms (map simplified ts)))))) t"
    by (intro make_or_weaker iffD2 [OF absorbed_matches]) auto
  then show ?case by (simp add: Let_def)
qed (auto simp: filter_atom_matches)

end
