(* ===== verification/Nfa.thy ===== *)
theory Nfa
  imports Regex_Vm Query_IR
begin

text \<open>
  The default engine of \<open>regex.cpp\<close>: the compiler from syntax trees to \<open>NfaInst\<close> programs, the
  precomputed epsilon closures and the thread simulation \<open>nfa_search\<close>.  Program counters are
  \<open>int\<close> (\<open>-1\<close> is unset).  The generation counters that mark visited instructions are \<open>nat\<close>:
  they grow by one per rune, and a corpus has fewer than \<open>2 ^ 32\<close> runes, so the reset on
  wrap-around is never taken.
\<close>

section \<open>Programs\<close>

datatype nfa_op = OpRune | OpAny | OpClass | OpSplit | OpJmp | OpSaveStart | OpSaveEnd
  | OpAssertBegin | OpAssertEnd | OpAssertAbsBegin | OpAssertAbsEnd | OpAssertEndNewline
  | OpAssertWord | OpAssertWordStartHalf | OpAssertWordEndHalf | OpMatch

record nfa_inst =
  i_op :: nfa_op
  i_rune :: int
  i_class :: "char_class_spec option"
  i_x :: int
  i_y :: int
  i_group :: nat
  i_negative :: bool
  i_flags :: rx_flags

type_synonym code = "nfa_inst list"

definition blank_inst :: "rx_flags \<Rightarrow> nfa_op \<Rightarrow> nfa_inst" where
  "blank_inst f op = \<lparr>i_op = op, i_rune = 0, i_class = None, i_x = - 1, i_y = - 1, i_group = 0,
     i_negative = False, i_flags = f\<rparr>"

record nfa_program = regex_program +
  np_ir :: query_ir
  np_code :: code
  np_start :: int
  np_closure_offsets :: "nat list"
  np_closure_pcs :: "int list"

section \<open>The compiler\<close>

type_synonym patch_ref = "nat \<times> bool"

record frag =
  fr_start :: int
  fr_out :: "patch_ref list"

definition program_too_large :: exn where
  "program_too_large = Runtime_error ''pergrep regex: compiled program too large''"

definition non_regular :: exn where
  "non_regular = Runtime_error ''pergrep regex: non-regular construct in default NFA''"

definition emit :: "nfa_inst \<Rightarrow> code \<Rightarrow> (nat \<times> code) result" where
  "emit i p = (if 1000000 \<le> length p then Inl program_too_large else Inr (length p, p @ [i]))"

definition set_ref :: "int \<Rightarrow> patch_ref \<Rightarrow> code \<Rightarrow> code" where
  "set_ref target r p =
     p[fst r := (if snd r then (p ! fst r)\<lparr>i_y := target\<rparr> else (p ! fst r)\<lparr>i_x := target\<rparr>)]"

definition patch :: "patch_ref list \<Rightarrow> int \<Rightarrow> code \<Rightarrow> code" where
  "patch rs target p = fold (set_ref target) rs p"

definition one :: "nfa_inst \<Rightarrow> code \<Rightarrow> (frag \<times> code) result" where
  "one i p = (case emit i p of Inl e \<Rightarrow> Inl e
              | Inr (pc, q) \<Rightarrow> Inr (\<lparr>fr_start = int pc, fr_out = [(pc, False)]\<rparr>, q))"

definition epsilon :: "code \<Rightarrow> (frag \<times> code) result" where
  "epsilon p = one (blank_inst no_flags OpJmp) p"

definition frag_concat :: "frag \<Rightarrow> frag \<Rightarrow> code \<Rightarrow> frag \<times> code" where
  "frag_concat a b p = (\<lparr>fr_start = fr_start a, fr_out = fr_out b\<rparr>, patch (fr_out a) (fr_start b) p)"

text \<open>The loop of \<open>build_literal\<close>; \<open>all\<close> is \<open>None\<close> until the first rune (\<open>any\<close> is false).\<close>

function literal_frags :: "icu \<Rightarrow> rx_flags \<Rightarrow> bytes \<Rightarrow> nat \<Rightarrow> frag option \<Rightarrow> code \<Rightarrow> (frag option \<times> code) result" where
  "literal_frags U f lit p all code =
     (case rune_at U lit p of None \<Rightarrow> Inr (all, code)
      | Some (cp, nx) \<Rightarrow>
          (case one ((blank_inst f OpRune)\<lparr>i_rune := cp\<rparr>) code of Inl e \<Rightarrow> Inl e
           | Inr (g, code1) \<Rightarrow>
               let (all1, code2) = (case all of None \<Rightarrow> (g, code1) | Some a \<Rightarrow> frag_concat a g code1)
               in if p < nx \<and> nx \<le> length lit then literal_frags U f lit nx (Some all1) code2 else Inr (Some all1, code2)))"
  by pat_completeness auto
termination by (relation "measure (\<lambda>(U, f, lit, p, all, code). length lit - p)") auto

declare literal_frags.simps [simp del]

definition build_literal :: "icu \<Rightarrow> rx_flags \<Rightarrow> bytes \<Rightarrow> code \<Rightarrow> (frag \<times> code) result" where
  "build_literal U f lit p =
     (case epsilon p of Inl e \<Rightarrow> Inl e
      | Inr (e0, p1) \<Rightarrow>
          (case literal_frags U f lit 0 None p1 of Inl e \<Rightarrow> Inl e
           | Inr (Some a, p2) \<Rightarrow> Inr (a, p2)
           | Inr (None, p2) \<Rightarrow> epsilon p2))"

text \<open>
  \<open>build_copies\<close> and \<open>build_optional\<close> are the two counted loops of \<open>build_repeat\<close>; the
  argument \<open>k\<close> counts the iterations left.
\<close>

function (sequential) build :: "icu \<Rightarrow> node \<Rightarrow> code \<Rightarrow> (frag \<times> code) result"
  and build_concat :: "icu \<Rightarrow> node list \<Rightarrow> frag \<Rightarrow> code \<Rightarrow> (frag \<times> code) result"
  and build_alt :: "icu \<Rightarrow> rx_flags \<Rightarrow> node list \<Rightarrow> frag \<Rightarrow> code \<Rightarrow> (frag \<times> code) result"
  and build_copies :: "icu \<Rightarrow> node \<Rightarrow> nat \<Rightarrow> frag \<Rightarrow> code \<Rightarrow> (frag \<times> code) result"
  and build_optional :: "icu \<Rightarrow> rx_flags \<Rightarrow> bool \<Rightarrow> node \<Rightarrow> nat \<Rightarrow> frag \<Rightarrow> patch_ref list \<Rightarrow> code \<Rightarrow> (frag \<times> code) result"
  where
  "build U (KEmpty f) p = epsilon p"
| "build U (KLiteral f lit) p = build_literal U f lit p"
| "build U (KDot f) p = one (blank_inst f OpAny) p"
| "build U (KClass f cls) p = one ((blank_inst f OpClass)\<lparr>i_class := Some cls\<rparr>) p"
| "build U (KBegin f) p = one (blank_inst f OpAssertBegin) p"
| "build U (KEnd f) p = one (blank_inst f OpAssertEnd) p"
| "build U (KAbsBegin f) p = one (blank_inst f OpAssertAbsBegin) p"
| "build U (KAbsEnd f) p = one (blank_inst f OpAssertAbsEnd) p"
| "build U (KEndNewline f) p = one (blank_inst f OpAssertEndNewline) p"
| "build U (KWordBoundary f neg) p = one ((blank_inst f OpAssertWord)\<lparr>i_negative := neg\<rparr>) p"
| "build U (KWordStartHalf f) p = one (blank_inst f OpAssertWordStartHalf) p"
| "build U (KWordEndHalf f) p = one (blank_inst f OpAssertWordEndHalf) p"
| "build U (KGroup f g ch) p =
     (case build U ch p of Inl e \<Rightarrow> Inl e
      | Inr (c, p1) \<Rightarrow>
          (case emit ((blank_inst f OpSaveStart)\<lparr>i_group := g\<rparr>) p1 of Inl e \<Rightarrow> Inl e
           | Inr (a, p2) \<Rightarrow>
               (case emit ((blank_inst f OpSaveEnd)\<lparr>i_group := g\<rparr>) (set_ref (fr_start c) (a, False) p2) of Inl e \<Rightarrow> Inl e
                | Inr (b, p3) \<Rightarrow>
                    Inr (\<lparr>fr_start = int a, fr_out = [(b, False)]\<rparr>, patch (fr_out c) (int b) p3))))"
| "build U (KConcat f cs) p =
     (case epsilon p of Inl e \<Rightarrow> Inl e | Inr (r, p1) \<Rightarrow> build_concat U cs r p1)"
| "build U (KAlt f []) p = epsilon p"
| "build U (KAlt f (c # cs)) p =
     (case build U c p of Inl e \<Rightarrow> Inl e | Inr (r, p1) \<Rightarrow> build_alt U f cs r p1)"
| "build U (KRepeat f mn mx greedy ch) p =
     (case epsilon p of Inl e \<Rightarrow> Inl e
      | Inr (r0, p0) \<Rightarrow>
     (case build_copies U ch mn r0 p0 of Inl e \<Rightarrow> Inl e
      | Inr (res, p1) \<Rightarrow>
          if mx = Some mn then Inr (res, p1)
          else (case mx of
             None \<Rightarrow>
               (case build U ch p1 of Inl e \<Rightarrow> Inl e
                | Inr (c, p2) \<Rightarrow>
                    (case emit (blank_inst f OpSplit) p2 of Inl e \<Rightarrow> Inl e
                     | Inr (pc, p3) \<Rightarrow>
                         Inr (\<lparr>fr_start = fr_start res, fr_out = [(pc, greedy)]\<rparr>,
                              patch (fr_out res) (int pc)
                                (patch (fr_out c) (int pc) (set_ref (fr_start c) (pc, \<not> greedy) p3)))))
           | Some m \<Rightarrow> build_optional U f greedy ch (m - mn) res [] p1)))"
| "build U (KBackRef f g) p = Inl non_regular"
| "build U (KLookAhead f neg ch) p = Inl non_regular"
| "build U (KLookBehind f neg ch) p = Inl non_regular"
| "build_concat U [] r p = Inr (r, p)"
| "build_concat U (c # cs) r p =
     (case build U c p of Inl e \<Rightarrow> Inl e
      | Inr (b, p1) \<Rightarrow> (case frag_concat r b p1 of (r1, p2) \<Rightarrow> build_concat U cs r1 p2))"
| "build_alt U f [] r p = Inr (r, p)"
| "build_alt U f (c # cs) r p =
     (case build U c p of Inl e \<Rightarrow> Inl e
      | Inr (b, p1) \<Rightarrow>
          (case emit ((blank_inst f OpSplit)\<lparr>i_x := fr_start r, i_y := fr_start b\<rparr>) p1 of Inl e \<Rightarrow> Inl e
           | Inr (pc, p2) \<Rightarrow> build_alt U f cs \<lparr>fr_start = int pc, fr_out = fr_out r @ fr_out b\<rparr> p2))"
| "build_copies U ch 0 r p = Inr (r, p)"
| "build_copies U ch (Suc k) r p =
     (case build U ch p of Inl e \<Rightarrow> Inl e
      | Inr (b, p1) \<Rightarrow> (case frag_concat r b p1 of (r1, p2) \<Rightarrow> build_copies U ch k r1 p2))"
| "build_optional U f greedy ch 0 res exits p = Inr (\<lparr>fr_start = fr_start res, fr_out = exits @ fr_out res\<rparr>, p)"
| "build_optional U f greedy ch (Suc k) res exits p =
     (case build U ch p of Inl e \<Rightarrow> Inl e
      | Inr (c, p1) \<Rightarrow>
          (case emit (blank_inst f OpSplit) p1 of Inl e \<Rightarrow> Inl e
           | Inr (pc, p2) \<Rightarrow>
               build_optional U f greedy ch k \<lparr>fr_start = fr_start res, fr_out = fr_out c\<rparr> (exits @ [(pc, greedy)])
                 (patch (fr_out res) (int pc) (set_ref (fr_start c) (pc, \<not> greedy) p2))))"
  by pat_completeness auto
termination
  by (relation "inv_image (less_than <*lex*> less_than) (\<lambda>x. case x of
        Inl (Inl (U, n, p)) \<Rightarrow> (size n, 0)
      | Inl (Inr (U, cs, r, p)) \<Rightarrow> (size_list size cs, 0)
      | Inr (Inl (U, f, cs, r, p)) \<Rightarrow> (size_list size cs, 0)
      | Inr (Inr (Inl (U, ch, k, r, p))) \<Rightarrow> (size ch, k)
      | Inr (Inr (Inr (U, f, g, ch, k, r, e, p))) \<Rightarrow> (size ch, k))") auto

text \<open>\<open>NfaCompiler::compile\<close>: the code and its start.\<close>

definition compile_nfa :: "icu \<Rightarrow> node \<Rightarrow> (code \<times> int) result" where
  "compile_nfa U n =
     (case build U n [] of Inl e \<Rightarrow> Inl e
      | Inr (f, p) \<Rightarrow>
          (case emit (blank_inst no_flags OpMatch) p of Inl e \<Rightarrow> Inl e
           | Inr (mi, q) \<Rightarrow> Inr (patch (fr_out f) (int mi) q, fr_start f)))"

section \<open>Epsilon closures\<close>

definition closure_max_pcs :: nat where "closure_max_pcs = 256"
definition closure_max_entries :: nat where "closure_max_entries = 16384"

definition closure_op :: "nfa_op \<Rightarrow> bool" where
  "closure_op op \<longleftrightarrow> op \<in> set [OpRune, OpAny, OpClass, OpSplit, OpJmp, OpMatch]"

definition valid_pc :: "code \<Rightarrow> int \<Rightarrow> bool" where
  "valid_pc p pc \<longleftrightarrow> 0 \<le> pc \<and> pc < int (length p)"

text \<open>
  The worklist of one source: \<open>visited\<close> lists the flags; the stack's top is the head of the
  list.  \<open>None\<close> is the early return when the table is full.
\<close>

function closure_walk :: "code \<Rightarrow> bool list \<Rightarrow> int list \<Rightarrow> int list \<Rightarrow> int list option" where
  "closure_walk p visited [] pcs = Some pcs"
| "closure_walk p visited (pc # stack) pcs =
     (if \<not> valid_pc p pc \<or> length visited \<le> nat pc \<or> visited ! nat pc then closure_walk p visited stack pcs
      else let i = p ! nat pc; visited' = visited[nat pc := True]
           in case i_op i of
                OpSplit \<Rightarrow> closure_walk p visited' (i_x i # i_y i # stack) pcs
              | OpJmp \<Rightarrow> closure_walk p visited' (i_x i # stack) pcs
              | _ \<Rightarrow> if length pcs = closure_max_entries then None else closure_walk p visited' stack (pcs @ [pc]))"
  by pat_completeness auto

lemma count_marked:
  "n < length bs \<Longrightarrow> \<not> bs ! n \<Longrightarrow> length (filter Not (bs[n := True])) < length (filter Not bs)"
proof (induction bs arbitrary: n)
  case (Cons b bs)
  then show ?case by (cases n) auto
qed simp

termination closure_walk
  by (relation "inv_image (less_than <*lex*> less_than) (\<lambda>(p, visited, stack, pcs). (length (filter Not visited), length stack))")
    (auto simp: count_marked not_le)

fun closure_table :: "code \<Rightarrow> nat list \<Rightarrow> nat list \<Rightarrow> int list \<Rightarrow> (nat list \<times> int list) option" where
  "closure_table p [] offsets pcs = Some (offsets, pcs)"
| "closure_table p (src # srcs) offsets pcs =
     (case closure_walk p (replicate (length p) False) [int src] pcs of None \<Rightarrow> None
      | Some pcs' \<Rightarrow> closure_table p srcs (offsets @ [length pcs']) pcs')"

definition build_nfa_closures :: "nat \<Rightarrow> code \<Rightarrow> nat list \<times> int list" where
  "build_nfa_closures ngroups p =
     (if ngroups \<noteq> 0 \<or> p = [] \<or> closure_max_pcs < length p then ([], [])
      else if \<not> (\<forall>i \<in> set p. closure_op (i_op i)) then ([], [])
      else case closure_table p [0 ..< length p] [0] [] of None \<Rightarrow> ([], []) | Some t \<Rightarrow> t)"

section \<open>Threads\<close>

record nfa_thread =
  t_pc :: int
  t_start :: nat
  t_caps :: "(nat option \<times> nat option) list"

definition thread_assert :: "icu \<Rightarrow> nfa_inst \<Rightarrow> verifier_context \<Rightarrow> nat \<Rightarrow> bool" where
  "thread_assert U i c pos =
     (case i_op i of
        OpAssertBegin \<Rightarrow> assert_begin (i_flags i) c pos
      | OpAssertEnd \<Rightarrow> assert_end (i_flags i) c pos
      | OpAssertAbsBegin \<Rightarrow> pos = c_record_begin c
      | OpAssertAbsEnd \<Rightarrow> pos = c_record_end c
      | OpAssertEndNewline \<Rightarrow> assert_end_newline (i_flags i) c pos
      | OpAssertWord \<Rightarrow> assert_word U (i_flags i) (i_negative i) c pos
      | OpAssertWordStartHalf \<Rightarrow> assert_word_start_half U (i_flags i) c pos
      | OpAssertWordEndHalf \<Rightarrow> assert_word_end_half U (i_flags i) c pos
      | _ \<Rightarrow> False)"

definition save_start :: "nat \<Rightarrow> nat \<Rightarrow> nfa_thread \<Rightarrow> nfa_thread" where
  "save_start g pos t = (if g < length (t_caps t) then t\<lparr>t_caps := (t_caps t)[g := (Some pos, snd (t_caps t ! g))]\<rparr> else t)"

definition save_end :: "nat \<Rightarrow> nat \<Rightarrow> nfa_thread \<Rightarrow> nfa_thread" where
  "save_end g pos t = (if g < length (t_caps t) then t\<lparr>t_caps := (t_caps t)[g := (fst (t_caps t ! g), Some pos)]\<rparr> else t)"

text \<open>What the expansion of one thread pushes (topmost first); \<open>None\<close> for a thread that stays in the list.\<close>

definition expand_thread :: "icu \<Rightarrow> code \<Rightarrow> verifier_context \<Rightarrow> nat \<Rightarrow> nfa_thread \<Rightarrow> nfa_thread list option" where
  "expand_thread U p c pos t =
     (let i = p ! nat (t_pc t) in
      case i_op i of
        OpJmp \<Rightarrow> Some [t\<lparr>t_pc := i_x i\<rparr>]
      | OpSplit \<Rightarrow> Some [t\<lparr>t_pc := i_x i\<rparr>, t\<lparr>t_pc := i_y i\<rparr>]
      | OpSaveStart \<Rightarrow> Some [(save_start (i_group i) pos t)\<lparr>t_pc := i_x i\<rparr>]
      | OpSaveEnd \<Rightarrow> Some [(save_end (i_group i) pos t)\<lparr>t_pc := i_x i\<rparr>]
      | OpRune \<Rightarrow> None
      | OpAny \<Rightarrow> None
      | OpClass \<Rightarrow> None
      | OpMatch \<Rightarrow> None
      | _ \<Rightarrow> Some (if thread_assert U i c pos then [t\<lparr>t_pc := i_x i\<rparr>] else []))"

function add_threads ::
  "icu \<Rightarrow> code \<Rightarrow> verifier_context \<Rightarrow> nat \<Rightarrow> nat \<Rightarrow> nfa_thread list \<Rightarrow> nat list \<Rightarrow> nfa_thread list \<Rightarrow> nat list \<times> nfa_thread list" where
  "add_threads U p c pos gen [] seen ts = (seen, ts)"
| "add_threads U p c pos gen (t # stack) seen ts =
     (if \<not> valid_pc p (t_pc t) \<or> length seen \<le> nat (t_pc t) then add_threads U p c pos gen stack seen ts
      else if seen ! nat (t_pc t) = gen then add_threads U p c pos gen stack seen ts
      else let seen' = seen[nat (t_pc t) := gen]
           in case expand_thread U p c pos t of
                Some new \<Rightarrow> add_threads U p c pos gen (new @ stack) seen' ts
              | None \<Rightarrow> add_threads U p c pos gen stack seen' (ts @ [t]))"
  by pat_completeness auto

lemma count_seen:
  "n < length xs \<Longrightarrow> xs ! n \<noteq> g \<Longrightarrow> length (filter (\<lambda>x. x \<noteq> g) (xs[n := g])) < length (filter (\<lambda>x. x \<noteq> g) xs)"
proof (induction xs arbitrary: n)
  case (Cons b bs)
  then show ?case by (cases n) auto
qed simp

termination add_threads
  by (relation "inv_image (less_than <*lex*> less_than)
      (\<lambda>(U, p, c, pos, gen, stack, seen, ts). (length (filter (\<lambda>x. x \<noteq> gen) seen), length stack))")
    (auto simp: count_seen not_le)

fun add_closure :: "nat \<Rightarrow> nat \<Rightarrow> int list \<Rightarrow> nat list \<Rightarrow> nfa_thread list \<Rightarrow> nat list \<times> nfa_thread list" where
  "add_closure gen start [] seen ts = (seen, ts)"
| "add_closure gen start (pc # pcs) seen ts =
     (if seen ! nat pc = gen then add_closure gen start pcs seen ts
      else add_closure gen start pcs (seen[nat pc := gen]) (ts @ [\<lparr>t_pc = pc, t_start = start, t_caps = []\<rparr>]))"

definition add_nfa_thread ::
  "icu \<Rightarrow> nfa_program \<Rightarrow> verifier_context \<Rightarrow> nat \<Rightarrow> nfa_thread \<Rightarrow> nat \<Rightarrow> nat list \<Rightarrow> nfa_thread list \<Rightarrow> nat list \<times> nfa_thread list" where
  "add_nfa_thread U p c pos seed gen seen ts =
     (let offs = np_closure_offsets p in
      if valid_pc (np_code p) (t_pc seed) \<and> length offs = length (np_code p) + 1 \<and> t_caps seed = []
      then let b = offs ! nat (t_pc seed); e = offs ! (nat (t_pc seed) + 1)
           in add_closure gen (t_start seed) (substr (np_closure_pcs p) b (e - b)) seen ts
      else add_threads U (np_code p) c pos gen [seed] seen ts)"

definition nfa_consume :: "icu \<Rightarrow> nfa_inst \<Rightarrow> int \<Rightarrow> byte \<Rightarrow> bool" where
  "nfa_consume U i cp sep =
     (case i_op i of
        OpRune \<Rightarrow> cp_eq U cp (i_rune i) (rf_icase (i_flags i))
      | OpAny \<Rightarrow> rf_dotall (i_flags i) \<or> cp \<noteq> byte_cp sep
      | OpClass \<Rightarrow> (case i_class i of None \<Rightarrow> False | Some cls \<Rightarrow> class_match U cls cp (rf_icase (i_flags i)))
      | _ \<Rightarrow> False)"

definition context_rune_at_validated :: "icu \<Rightarrow> verifier_context \<Rightarrow> nat \<Rightarrow> rune option" where
  "context_rune_at_validated U c pos =
     (if pos < c_record_begin c \<or> c_record_end c \<le> pos then None
      else let offset = pos - c_source_begin c in
        if offset < length (c_source c) \<and> c_source c ! offset < 0x80
        then (if \<not> c_bounded_region c \<or> pos + 1 \<le> c_region_end c then Some (byte_cp (c_source c ! offset), pos + 1) else None)
        else case rune_at U (c_source c) offset of
               None \<Rightarrow> None
             | Some (cp, nx) \<Rightarrow>
                 if c_bounded_region c \<and> c_region_end c < c_source_begin c + nx then None
                 else Some (cp, nx + c_source_begin c))"

section \<open>The case-folded literal scan\<close>

fun context_literal_at_validated :: "icu \<Rightarrow> verifier_context \<Rightarrow> nat \<Rightarrow> int list \<Rightarrow> nat option" where
  "context_literal_at_validated U c pos [] = Some pos"
| "context_literal_at_validated U c pos (x # xs) =
     (case context_rune_at_validated U c pos of None \<Rightarrow> None
      | Some (cp, nx) \<Rightarrow> if folded_cp_eq U cp x then context_literal_at_validated U c nx xs else None)"

text \<open>The inner loop that skips ASCII bytes when the first folded rune is not ASCII.\<close>

function skip_ascii :: "verifier_context \<Rightarrow> nat \<Rightarrow> nat \<Rightarrow> nat" where
  "skip_ascii c scan_end pos =
     (if pos < scan_end \<and> (\<not> c_bounded_region c \<or> pos < c_region_end c)
      then let offset = pos - c_source_begin c
           in if length (c_source c) \<le> offset then pos
              else if 0x80 \<le> c_source c ! offset then pos
              else skip_ascii c scan_end (pos + 1)
      else pos)"
  by pat_completeness auto
termination by (relation "measure (\<lambda>(c, scan_end, pos). scan_end - pos)") auto

declare skip_ascii.simps [simp del]

definition whole_match :: "nat \<Rightarrow> nat \<Rightarrow> nat \<Rightarrow> nat \<Rightarrow> match" where
  "whole_match ngroups fid a b =
     \<lparr>m_file = fid, m_start = a, m_end = b,
      m_caps = \<lparr>cap_start = a, cap_end = b, cap_matched = True, cap_name = []\<rparr> #
        replicate ngroups \<lparr>cap_start = 0, cap_end = 0, cap_matched = False, cap_name = []\<rparr>\<rparr>"

lemma skip_ascii_ge: "pos \<le> skip_ascii c e pos"
  by (induction c e pos rule: skip_ascii.induct) (subst skip_ascii.simps, auto simp: Let_def)

function icase_scan :: "icu \<Rightarrow> nfa_program \<Rightarrow> verifier_context \<Rightarrow> nat \<Rightarrow> nat \<Rightarrow> nat \<Rightarrow> match option" where
  "icase_scan U p c fid scan_end pos =
     (if \<not> pos < scan_end then None
      else let hi = 0x80 \<le> hd (rp_icase_literal p);
               pos' = (if hi then skip_ascii c scan_end pos else pos)
           in if hi \<and> (scan_end \<le> pos' \<or> (c_bounded_region c \<and> c_region_end c \<le> pos')) then None
              else case context_literal_at_validated U c pos' (rp_icase_literal p) of
                Some e \<Rightarrow> Some (whole_match (rp_groups p) fid pos' e)
              | None \<Rightarrow>
                  (case context_rune_at_validated U c pos' of None \<Rightarrow> None
                   | Some (cp, nx) \<Rightarrow> if pos' < nx then icase_scan U p c fid scan_end nx else None))"
  by pat_completeness auto
termination
proof (relation "measure (\<lambda>(U, p, c, fid, scan_end, pos). scan_end - pos)", goal_cases)
  case (2 U p c fid scan_end pos hi pos' r cp nx)
  then have "pos \<le> pos'" using skip_ascii_ge by simp
  with 2 show ?case by simp
qed simp

declare icase_scan.simps [simp del]

definition icase_literal_program :: "nfa_program \<Rightarrow> bool" where
  "icase_literal_program p \<longleftrightarrow>
     \<not> rp_extended p \<and> rp_icase_literal p \<noteq> [] \<and>
     (case rp_ast p of KLiteral f lit \<Rightarrow> rf_icase f \<and> lit \<noteq> [] | _ \<Rightarrow> False)"

section \<open>The simulation\<close>

fun prefix_jump :: "bytes \<Rightarrow> nat \<Rightarrow> bytes list \<Rightarrow> nat option \<Rightarrow> nat option" where
  "prefix_jump s from [] best = best"
| "prefix_jump s from (q # qs) best =
     prefix_jump s from qs (case str_find s q from of None \<Rightarrow> best
       | Some i \<Rightarrow> (case best of None \<Rightarrow> Some i | Some b \<Rightarrow> Some (if i < b then i else b)))"

fun step_threads ::
  "icu \<Rightarrow> nfa_program \<Rightarrow> verifier_context \<Rightarrow> int \<Rightarrow> nat \<Rightarrow> nat \<Rightarrow> nfa_thread list \<Rightarrow> nat list \<Rightarrow> nfa_thread list \<Rightarrow> nat list \<times> nfa_thread list" where
  "step_threads U p c cp nx gen [] seen ts = (seen, ts)"
| "step_threads U p c cp nx gen (t # cur) seen ts =
     (let i = np_code p ! nat (t_pc t)
      in if nfa_consume U i cp (c_separator c)
         then (case add_nfa_thread U p c nx (t\<lparr>t_pc := i_x i\<rparr>) gen seen ts of
                 (seen', ts') \<Rightarrow> step_threads U p c cp nx gen cur seen' ts')
         else step_threads U p c cp nx gen cur seen ts)"

text \<open>The scan for a thread on \<open>Match\<close>: the threads before it, and the first such thread.\<close>

definition split_match :: "code \<Rightarrow> nfa_thread list \<Rightarrow> nfa_thread list \<times> nfa_thread option" where
  "split_match p cur =
     (let pre = takeWhile (\<lambda>t. i_op (p ! nat (t_pc t)) \<noteq> OpMatch) cur
      in (pre, if length pre < length cur then Some (cur ! length pre) else None))"

definition start_thread :: "nfa_program \<Rightarrow> nat \<Rightarrow> nfa_thread" where
  "start_thread p pos =
     \<lparr>t_pc = np_start p, t_start = pos,
      t_caps = (if 0 < rp_groups p then replicate (rp_groups p + 1) (None, None) else [])\<rparr>"

text \<open>
  One pass of \<open>for (;;)\<close> with the variables \<open>cur\<close>, \<open>seen\<close>, the two generations, \<open>best\<close> with
  \<open>best_end\<close>, and \<open>pos\<close>.  The result is \<open>best\<close> when the loop ends.
\<close>

function nfa_loop ::
  "icu \<Rightarrow> nfa_program \<Rightarrow> verifier_context \<Rightarrow> nfa_thread list \<Rightarrow> nat list \<Rightarrow> nat \<Rightarrow> nat \<Rightarrow> (nfa_thread \<times> nat) option \<Rightarrow> nat \<Rightarrow> (nfa_thread \<times> nat) option" where
  "nfa_loop U p c cur seen cg ng best pos0 =
     (if cur = [] \<and> best = None \<and> c_candidate_end c \<le> pos0 then best
      else
        let jumping = (cur = [] \<and> best = None \<and> qi_prefixes (np_ir p) \<noteq> [] \<and> pos0 < c_record_end c);
            jump = prefix_jump (c_source c) (pos0 - c_source_begin c) (qi_prefixes (np_ir p)) None
        in if jumping \<and> (case jump of None \<Rightarrow> True | Some j \<Rightarrow> c_candidate_end c \<le> c_source_begin c + j) then best
        else
          let pos = (if jumping then c_source_begin c + the jump else pos0);
              (seen1, cur1) = (if pos < c_candidate_end c
                               then add_nfa_thread U p c pos (start_thread p pos) cg seen cur else (seen, cur));
              (cur2, hit) = split_match (np_code p) cur1;
              best' = (case hit of None \<Rightarrow> best | Some t \<Rightarrow> Some (t, pos))
          in if best' \<noteq> None \<and> cur2 = [] then best'
             else if c_record_end c \<le> pos then best'
             else (case context_rune_at_validated U c pos of None \<Rightarrow> best'
               | Some (cp, nx) \<Rightarrow>
                   (case step_threads U p c cp nx ng cur2 seen1 [] of (seen2, next) \<Rightarrow>
                      if next = [] \<and> best' \<noteq> None then best'
                      else if pos0 < nx then nfa_loop U p c next seen2 ng (ng + 1) best' nx
                      else best')))"
  by pat_completeness auto

lemma context_rune_at_validated_pos: "context_rune_at_validated U c pos = Some (cp, nx) \<Longrightarrow> pos < c_record_end c"
  by (auto simp: context_rune_at_validated_def split: if_splits)

lemma prefix_jump_ge:
  "prefix_jump s from qs best = Some j \<Longrightarrow> (\<forall>b. best = Some b \<longrightarrow> from \<le> b) \<Longrightarrow> from \<le> j"
proof (induction s "from" qs best rule: prefix_jump.induct)
  case (2 s "from" q qs best)
  from "2.prems"(1) show ?case
    by (simp only: prefix_jump.simps, elim "2.IH") (use "2.prems"(2) in \<open>auto simp: str_find_Some split: option.splits if_splits\<close>)
qed auto

termination nfa_loop
proof (relation "measure (\<lambda>(U, p, c, cur, seen, cg, ng, best, pos). c_record_end c - pos)", goal_cases)
  case (2 U p c cur seen cg ng best pos0 jumping jump pos)
  have "pos0 < c_record_end c"
  proof (cases jumping)
    case True
    with 2(2) show ?thesis by blast
  next
    case False
    with 2(5) have "pos = pos0" by (simp only: if_False)
    with 2(12) show ?thesis by (simp only: not_le)
  qed
  with 2(17) show ?case by simp
qed simp

declare nfa_loop.simps [simp del]

definition nfa_match :: "nfa_program \<Rightarrow> nat \<Rightarrow> nfa_thread \<Rightarrow> nat \<Rightarrow> match" where
  "nfa_match p fid t e =
     \<lparr>m_file = fid, m_start = t_start t, m_end = e,
      m_caps = \<lparr>cap_start = t_start t, cap_end = e, cap_matched = True, cap_name = []\<rparr> #
        map (\<lambda>g. case (if g < length (t_caps t) then t_caps t ! g else (None, None)) of
                  (Some a, Some b) \<Rightarrow> \<lparr>cap_start = a, cap_end = b, cap_matched = True,
                     cap_name = (if g < length (rp_group_names p) then rp_group_names p ! g else [])\<rparr>
                | _ \<Rightarrow> \<lparr>cap_start = 0, cap_end = 0, cap_matched = False, cap_name = []\<rparr>)
          [1 ..< rp_groups p + 1]\<rparr>"

definition nfa_search :: "icu \<Rightarrow> nfa_program \<Rightarrow> verifier_context \<Rightarrow> nat \<Rightarrow> match option" where
  "nfa_search U p c fid =
     (if \<not> validate c \<or> np_start p < 0 then None
      else if icase_literal_program p
      then icase_scan U p c fid (min (c_candidate_end c) (c_record_end c)) (c_candidate_begin c)
      else case nfa_loop U p c [] (replicate (length (np_code p)) 0) 1 2 None (c_candidate_begin c) of
             None \<Rightarrow> None
           | Some (t, e) \<Rightarrow> Some (nfa_match p fid t e))"

section \<open>\<open>regex_search\<close> and \<open>regex_find_all\<close>\<close>

definition regex_search :: "icu \<Rightarrow> nfa_program \<Rightarrow> verifier_context \<Rightarrow> nat \<Rightarrow> match option result" where
  "regex_search U p c fid =
     (if \<not> validate c then Inr None
      else if \<not> rp_extended p then Inr (nfa_search U p c fid)
      else vm_search_loop U (regex_program.truncate p) c fid (c_candidate_begin c))"

text \<open>
  \<open>max_matches = 0\<close> is no limit; \<open>count\<close> is \<open>out.size()\<close>.  The next position is beyond the
  current one because every engine reports a start at or after \<open>candidate_begin\<close>.
\<close>

function find_all_loop ::
  "icu \<Rightarrow> nfa_program \<Rightarrow> verifier_context \<Rightarrow> bool \<Rightarrow> nat \<Rightarrow> nat \<Rightarrow> nat \<Rightarrow> match list \<Rightarrow> match list result" where
  "find_all_loop U p c overlapping fid max_matches pos out =
     (if pos < c_candidate_end c
      then (case regex_search U p (c\<lparr>c_candidate_begin := pos\<rparr>) fid of
              Inl e \<Rightarrow> Inl e
            | Inr None \<Rightarrow> Inr out
            | Inr (Some m) \<Rightarrow>
                let out' = out @ [m];
                    after = (case context_rune_at U c (m_start m) of Some (cp, nx) \<Rightarrow> nx | None \<Rightarrow> m_start m + 1);
                    pos' = (if overlapping then after else if m_start m < m_end m then m_end m else after)
                in if max_matches \<noteq> 0 \<and> max_matches \<le> length out' then Inr out'
                   else if pos < pos' then find_all_loop U p c overlapping fid max_matches pos' out' else Inr out')
      else Inr out)"
  by pat_completeness auto
termination by (relation "measure (\<lambda>(U, p, c, ov, fid, mm, pos, out). c_candidate_end c - pos)") auto

declare find_all_loop.simps [simp del]

definition regex_find_all :: "icu \<Rightarrow> nfa_program \<Rightarrow> verifier_context \<Rightarrow> bool \<Rightarrow> nat \<Rightarrow> nat \<Rightarrow> match list result" where
  "regex_find_all U p c overlapping fid max_matches =
     find_all_loop U p c overlapping fid max_matches (c_candidate_begin c) []"

end
