(* ===== verification/Parser.thy ===== *)
theory Parser
  imports Nfa
begin

text \<open>
  The pattern parser of \<open>regex.cpp\<close> (class \<open>Parser\<close>), \<open>property_from_name\<close>, and what wraps
  them: \<open>parse_regex\<close> and \<open>Pattern::compile\<close>.  The parser's members are the record
  \<open>parser_state\<close>; every \<open>fail\<close> is a \<open>Runtime_error\<close> with its message and byte offset.  The
  mutually recursive methods take a fuel argument, and \<open>None\<close> means that it ran out;
  \<open>Parser_Correct\<close> shows that the fuel \<open>parse\<close> supplies always suffices.
\<close>

section \<open>Characters and messages\<close>

definition ascii_isspace :: "byte \<Rightarrow> bool" where
  "ascii_isspace c \<longleftrightarrow> c = 32 \<or> (9 \<le> c \<and> c \<le> 13)"

definition ascii_isdigit :: "byte \<Rightarrow> bool" where
  "ascii_isdigit c \<longleftrightarrow> 48 \<le> c \<and> c \<le> 57"

definition ascii_tolower :: "byte \<Rightarrow> byte" where
  "ascii_tolower c = (if 65 \<le> c \<and> c \<le> 90 then c + 32 else c)"

fun nat_digits :: "nat \<Rightarrow> string" where
  "nat_digits n = (if n < 10 then [char_of (48 + n)] else nat_digits (n div 10) @ [char_of (48 + n mod 10)])"

declare nat_digits.simps [simp del]

definition text_of :: "bytes \<Rightarrow> string" where
  "text_of s = map (\<lambda>b. char_of (unat b)) s"

definition fail_at :: "string \<Rightarrow> nat \<Rightarrow> exn" where
  "fail_at m i = Runtime_error (''pergrep regex: '' @ m @ '' at byte '' @ nat_digits i)"

section \<open>Unicode property names\<close>

definition trim :: "bytes \<Rightarrow> bytes" where
  "trim s = (let ws = (\<lambda>c. c \<in> set [32, 9, 13, 10]) in rev (dropWhile ws (rev (dropWhile ws s))))"

definition normalize_name :: "bytes \<Rightarrow> bytes" where
  "normalize_name s = map ascii_tolower (filter (\<lambda>c. c \<notin> set [95, 45, 32]) s)"

definition mk_prop :: "prop_kind \<Rightarrow> int \<Rightarrow> bool \<Rightarrow> unicode_property" where
  "mk_prop k v neg = \<lparr>up_kind = k, up_value = v, up_negated = neg\<rparr>"

text \<open>
  The chain of \<open>if (norm == \<dots>)\<close> tests as a table; the values are ICU's public enumerators and
  masks (\<open>U_GC_L_MASK\<close>, \<open>U_UPPERCASE_LETTER\<close>, \<open>UCHAR_HEX_DIGIT\<close>, \<dots>).
\<close>

definition property_table :: "(string list \<times> prop_kind \<times> int) list" where
  "property_table =
    [([''any''], Binary, - 1), ([''ascii''], Binary, - 2), ([''assigned''], Binary, - 3), ([''word''], Word, 0),
     ([''l'', ''letter''], GeneralGroup, 0x3E), ([''m'', ''mark'', ''combiningmark''], GeneralGroup, 0x1C0),
     ([''n'', ''number''], GeneralGroup, 0xE00), ([''p'', ''punctuation'', ''punct''], GeneralGroup, 0x30F80000),
     ([''s'', ''symbol''], GeneralGroup, 0x0F000000), ([''z'', ''separator''], GeneralGroup, 0x7000),
     ([''c'', ''other''], GeneralGroup, 0x78001),
     ([''lu'', ''uppercaseletter''], GeneralCategory, 1), ([''ll'', ''lowercaseletter''], GeneralCategory, 2),
     ([''lt'', ''titlecaseletter''], GeneralCategory, 3), ([''lm'', ''modifierletter''], GeneralCategory, 4),
     ([''lo'', ''otherletter''], GeneralCategory, 5), ([''mn'', ''nonspacingmark''], GeneralCategory, 6),
     ([''mc'', ''spacingmark'', ''combiningspacingmark''], GeneralCategory, 8),
     ([''me'', ''enclosingmark''], GeneralCategory, 7),
     ([''nd'', ''decimalnumber'', ''digit'', ''decimaldigit''], DecimalDigit, 0),
     ([''nl'', ''letternumber''], GeneralCategory, 10), ([''no'', ''othernumber''], GeneralCategory, 11),
     ([''pc'', ''connectorpunctuation''], GeneralCategory, 22), ([''pd'', ''dashpunctuation''], GeneralCategory, 19),
     ([''ps'', ''openpunctuation''], GeneralCategory, 20), ([''pe'', ''closepunctuation''], GeneralCategory, 21),
     ([''pi'', ''initialpunctuation''], GeneralCategory, 28), ([''pf'', ''finalpunctuation''], GeneralCategory, 29),
     ([''po'', ''otherpunctuation''], GeneralCategory, 23), ([''sm'', ''mathsymbol''], GeneralCategory, 24),
     ([''sc'', ''currencysymbol''], GeneralCategory, 25), ([''sk'', ''modifiersymbol''], GeneralCategory, 26),
     ([''so'', ''othersymbol''], GeneralCategory, 27), ([''zs'', ''spaceseparator''], GeneralCategory, 12),
     ([''zl'', ''lineseparator''], GeneralCategory, 13), ([''zp'', ''paragraphseparator''], GeneralCategory, 14),
     ([''cc'', ''control'', ''cntrl''], GeneralCategory, 15), ([''cf'', ''format''], GeneralCategory, 16),
     ([''cs'', ''surrogate''], GeneralCategory, 18), ([''co'', ''privateuse''], GeneralCategory, 17),
     ([''cn'', ''unassigned''], GeneralCategory, 0),
     ([''alphabetic'', ''alpha''], Alphabetic, 0), ([''whitespace'', ''space''], WhiteSpace, 0),
     ([''asciihexdigit'', ''ahex''], Binary, 1), ([''hexdigit'', ''hex''], Binary, 13), ([''bidicontrol''], Binary, 2),
     ([''cased''], Binary, 49), ([''caseignorable''], Binary, 50), ([''changeswhencasefolded''], Binary, 54),
     ([''changeswhencasemapped''], Binary, 55), ([''changeswhenlowercased''], Binary, 51),
     ([''changeswhentitlecased''], Binary, 53), ([''changeswhenuppercased''], Binary, 52),
     ([''defaultignorablecodepoint''], Binary, 5), ([''deprecated''], Binary, 6), ([''diacritic''], Binary, 7),
     ([''extender''], Binary, 8), ([''graphemebase''], Binary, 10), ([''graphemeextend''], Binary, 11),
     ([''idcontinue'', ''idc''], Binary, 15), ([''idstart'', ''ids''], Binary, 16),
     ([''ideographic'', ''ideo''], Binary, 17), ([''joincontrol''], Binary, 20),
     ([''logicalorderexception''], Binary, 21), ([''lowercase'', ''lower''], Binary, 22), ([''math''], Binary, 23),
     ([''noncharactercodepoint''], Binary, 24), ([''quotationmark'', ''qmark''], Binary, 25), ([''radical''], Binary, 26),
     ([''softdotted''], Binary, 27), ([''terminalpunctuation''], Binary, 28), ([''unifiedideograph''], Binary, 29),
     ([''uppercase'', ''upper''], Binary, 30), ([''xidcontinue'', ''xidc''], Binary, 32),
     ([''xidstart'', ''xids''], Binary, 33)]"

definition lookup_property :: "bytes \<Rightarrow> (prop_kind \<times> int) option" where
  "lookup_property nm =
     map_option snd (List.find (\<lambda>(names, _). \<exists>x \<in> set names. ascii_bytes x = nm) property_table)"

definition is_separator :: "byte \<Rightarrow> bool" where
  "is_separator c \<longleftrightarrow> c = 61 \<or> c = 58"

definition named :: "string list \<Rightarrow> bytes \<Rightarrow> bool" where
  "named names s \<longleftrightarrow> (\<exists>x \<in> set names. ascii_bytes x = s)"

text \<open>The part after the key: the table, then the script names.\<close>

definition property_of_value :: "icu \<Rightarrow> bytes \<Rightarrow> bool \<Rightarrow> unicode_property result" where
  "property_of_value U name neg =
     (case lookup_property (normalize_name name) of
        Some (k, v) \<Rightarrow> Inr (mk_prop k v neg)
      | None \<Rightarrow> (case u_script_code U name of
                   Some v \<Rightarrow> Inr (mk_prop Script v neg)
                 | None \<Rightarrow> Inl (Runtime_error (''pergrep regex: unknown Unicode property: '' @ text_of name))))"

lemma length_trim: "length (trim s) \<le> length s"
proof -
  have "length (dropWhile P (rev (dropWhile P s))) \<le> length s" for P
    using length_dropWhile_le [of P "rev (dropWhile P s)"] length_dropWhile_le [of P s] by simp
  then show ?thesis by (simp add: trim_def Let_def)
qed

function property_from_name :: "icu \<Rightarrow> bytes \<Rightarrow> bool \<Rightarrow> unicode_property result" where
  "property_from_name U name0 neg =
     (let name = trim name0 in
      if \<exists>c \<in> set name. is_separator c
      then let raw_key = trim (takeWhile (\<lambda>c. \<not> is_separator c) name);
               raw_val = trim (tl (dropWhile (\<lambda>c. \<not> is_separator c) name));
               key = normalize_name raw_key
           in if named [''sc'', ''script'', ''scx'', ''scriptextensions''] key
              then (case u_script_code U raw_val of
                      Some v \<Rightarrow> Inr (mk_prop Script v neg)
                    | None \<Rightarrow> Inl (Runtime_error (''pergrep regex: unknown Unicode script: '' @ text_of raw_val)))
              else if named [''gc'', ''generalcategory'', ''category''] key then property_from_name U raw_val neg
              else property_of_value U raw_val neg
      else property_of_value U name neg)"
  by pat_completeness auto
termination
proof (relation "measure (\<lambda>(U, name, neg). length name)", goal_cases)
  case (2 U name0 neg name raw_key raw_val key)
  let ?d = "dropWhile (\<lambda>c. \<not> is_separator c) name"
  from 2(2) have "?d \<noteq> []" by (simp add: dropWhile_eq_Nil_conv)
  then have "length (tl ?d) < length ?d" by simp
  moreover have "length ?d \<le> length name" by (rule length_dropWhile_le)
  moreover have "length name \<le> length name0" unfolding 2(1) by (rule length_trim)
  moreover have "length raw_val \<le> length (tl ?d)" unfolding 2(4) by (rule length_trim)
  ultimately have "length raw_val < length name0" by linarith
  then show ?case by simp
qed simp

declare property_from_name.simps [simp del]

section \<open>State\<close>

record parser_state =
  ps_i :: nat
  ps_groups :: nat
  ps_extended :: bool
  ps_names :: "bytes list"
  ps_case :: case_mode
  ps_dotall :: bool
  ps_multiline :: bool
  ps_unicode :: bool
  ps_crlf :: bool
  ps_ws :: bool
  ps_swap :: bool

definition initial_state :: "pattern_options \<Rightarrow> parser_state" where
  "initial_state o1 = \<lparr>ps_i = 0, ps_groups = 0, ps_extended = False, ps_names = [[]], ps_case = po_case o1,
     ps_dotall = po_dotall o1, ps_multiline = po_multiline o1, ps_unicode = po_unicode o1, ps_crlf = po_crlf o1,
     ps_ws = False, ps_swap = False\<rparr>"

text \<open>The flags \<open>node\<close> copies into a new syntax node.\<close>

definition state_flags :: "parser_state \<Rightarrow> rx_flags" where
  "state_flags st = \<lparr>rf_icase = (ps_case st = Insensitive), rf_dotall = ps_dotall st,
     rf_multiline = ps_multiline st, rf_unicode = ps_unicode st, rf_crlf = ps_crlf st\<rparr>"

definition peeks :: "bytes \<Rightarrow> parser_state \<Rightarrow> byte \<Rightarrow> bool" where
  "peeks s st c \<longleftrightarrow> ps_i st < length s \<and> s ! ps_i st = c"

definition advance :: "nat \<Rightarrow> parser_state \<Rightarrow> parser_state" where
  "advance k st = st\<lparr>ps_i := ps_i st + k\<rparr>"

definition char_byte :: "char \<Rightarrow> byte" where
  "char_byte c = of_char c"

definition fail :: "string \<Rightarrow> parser_state \<Rightarrow> 'a result" where
  "fail m st = Inl (fail_at m (ps_i st))"

section \<open>Scanning loops\<close>

function skip_while :: "(byte \<Rightarrow> bool) \<Rightarrow> bytes \<Rightarrow> nat \<Rightarrow> nat" where
  "skip_while P s i = (if i < length s \<and> P (s ! i) then skip_while P s (i + 1) else i)"
  by pat_completeness auto
termination by (relation "measure (\<lambda>(P, s, i). length s - i)") auto

declare skip_while.simps [simp del]

lemma skip_while_ge: "i \<le> skip_while P s i"
  by (induction P s i rule: skip_while.induct) (subst skip_while.simps, auto)

lemma skip_while_le: "i \<le> length s \<Longrightarrow> skip_while P s i \<le> length s"
  by (induction P s i rule: skip_while.induct) (subst skip_while.simps, auto)

text \<open>\<open>skip_ignored\<close>: white space and \<open>#\<close> comments, when the \<open>x\<close> flag is on.\<close>

function skip_ws :: "bytes \<Rightarrow> nat \<Rightarrow> nat" where
  "skip_ws s i =
     (let j = skip_while ascii_isspace s i
      in if j < length s \<and> s ! j = 35 then skip_ws s (skip_while (\<lambda>c. c \<noteq> 10) s (j + 1)) else j)"
  by pat_completeness auto
termination
proof (relation "measure (\<lambda>(s, i). length s - i)", goal_cases)
  case (2 s i j)
  have "i \<le> j" using skip_while_ge 2(1) by simp
  moreover have "j + 1 \<le> skip_while (\<lambda>c. c \<noteq> 10) s (j + 1)" by (rule skip_while_ge)
  ultimately have "i < skip_while (\<lambda>c. c \<noteq> 10) s (j + 1)" "i < length s" using 2(2) by linarith+
  then show ?case by (simp add: diff_less_mono2)
qed simp

declare skip_ws.simps [simp del]

definition skip_ignored :: "bytes \<Rightarrow> parser_state \<Rightarrow> parser_state" where
  "skip_ignored s st = (if ps_ws st then st\<lparr>ps_i := skip_ws s (ps_i st)\<rparr> else st)"

function number_loop :: "bytes \<Rightarrow> nat \<Rightarrow> nat \<Rightarrow> (nat \<times> nat) result" where
  "number_loop s i x =
     (if i < length s \<and> ascii_isdigit (s ! i)
      then let d = unat (s ! i) - 48
           in if (2 ^ 64 - 1 - d) div 10 < x then Inl (fail_at ''repetition overflow'' (i + 1))
              else number_loop s (i + 1) (x * 10 + d)
      else Inr (x, i))"
  by pat_completeness auto
termination by (relation "measure (\<lambda>(s, i, x). length s - i)") auto

declare number_loop.simps [simp del]

definition number :: "bytes \<Rightarrow> parser_state \<Rightarrow> (nat \<times> parser_state) result" where
  "number s st =
     (if \<not> (ps_i st < length s \<and> ascii_isdigit (s ! ps_i st)) then fail ''expected number'' st
      else case number_loop s (ps_i st) 0 of Inl e \<Rightarrow> Inl e | Inr (x, i) \<Rightarrow> Inr (x, st\<lparr>ps_i := i\<rparr>))"

text \<open>Group names: word characters up to \<open>>\<close>.\<close>

function name_loop :: "bytes \<Rightarrow> nat \<Rightarrow> bytes \<Rightarrow> (bytes \<times> nat) result" where
  "name_loop s i acc =
     (if i < length s \<and> s ! i \<noteq> 62
      then (if ascii_alnum (s ! i) \<or> s ! i = 95 then name_loop s (i + 1) (acc @ [s ! i])
            else Inl (fail_at ''bad capture name'' (i + 1)))
      else Inr (acc, i))"
  by pat_completeness auto
termination by (relation "measure (\<lambda>(s, i, acc). length s - i)") auto

declare name_loop.simps [simp del]

definition group_name :: "bytes \<Rightarrow> parser_state \<Rightarrow> (bytes \<times> parser_state) result" where
  "group_name s st =
     (case name_loop s (ps_i st) [] of Inl e \<Rightarrow> Inl e
      | Inr (name, i) \<Rightarrow>
          let st1 = st\<lparr>ps_i := i\<rparr>
          in if name = [] \<or> \<not> peeks s st1 62 then fail ''bad named capture'' st1 else Inr (name, advance 1 st1))"

text \<open>The name after \<open>\\p\<close>: in braces, or one byte.\<close>

definition property_name :: "bytes \<Rightarrow> parser_state \<Rightarrow> (bytes \<times> parser_state) result" where
  "property_name s st =
     (if peeks s st (char_byte CHR ''{'')
      then let b = ps_i st + 1; e = skip_while (\<lambda>c. c \<noteq> char_byte CHR ''}'') s b; st1 = st\<lparr>ps_i := e\<rparr>
           in if peeks s st1 (char_byte CHR ''}'') then Inr (substr s b (e - b), advance 1 st1)
              else fail ''unclosed Unicode property'' st1
      else if length s \<le> ps_i st then fail ''missing Unicode property'' st
      else Inr ([s ! ps_i st], advance 1 st))"

definition hex_digit :: "byte \<Rightarrow> nat option" where
  "hex_digit h =
     (if 48 \<le> h \<and> h \<le> 57 then Some (unat (h - 48))
      else if 97 \<le> h \<and> h \<le> 102 then Some (unat (h - 97) + 10)
      else if 65 \<le> h \<and> h \<le> 70 then Some (unat (h - 65) + 10) else None)"

definition hex_escape :: "bytes \<Rightarrow> parser_state \<Rightarrow> (byte \<times> parser_state) result" where
  "hex_escape s st =
     (if length s < ps_i st + 2 then fail ''short hex escape'' st
      else case (hex_digit (s ! ps_i st), hex_digit (s ! (ps_i st + 1))) of
        (Some a, Some b) \<Rightarrow> Inr (of_nat (16 * a + b), advance 2 st)
      | _ \<Rightarrow> fail ''bad hex escape'' (advance 2 st))"

definition pattern_rune :: "icu \<Rightarrow> bytes \<Rightarrow> parser_state \<Rightarrow> (int \<times> parser_state) result" where
  "pattern_rune U s st =
     (if length s \<le> ps_i st then fail ''unexpected end of pattern'' st
      else let (cp, j) = u8_next U s (ps_i st)
           in if cp < 0 then Inr (byte_cp (s ! ps_i st), advance 1 st) else Inr (cp, st\<lparr>ps_i := j\<rparr>))"

text \<open>The class of \<open>\\d\<close>, \<open>\\w\<close>, \<open>\\s\<close> and their negations.\<close>

definition perl_class :: "parser_state \<Rightarrow> byte \<Rightarrow> unicode_property" where
  "perl_class st c =
     (let lc = ascii_tolower c;
          k = (if \<not> ps_unicode st
               then (if lc = char_byte CHR ''d'' then AsciiDigit else if lc = char_byte CHR ''w'' then AsciiWord else AsciiSpace)
               else (if lc = char_byte CHR ''d'' then DecimalDigit else if lc = char_byte CHR ''w'' then Word else WhiteSpace))
      in mk_prop k 0 (c \<in> set (ascii_bytes ''DWS'')))"

definition control_escapes :: "(char \<times> byte) list" where
  "control_escapes = [(CHR ''n'', 10), (CHR ''r'', 13), (CHR ''t'', 9), (CHR ''f'', 12), (CHR ''v'', 11), (CHR ''a'', 7), (CHR ''e'', 27)]"

definition control_escape :: "byte \<Rightarrow> byte option" where
  "control_escape c = map_of (map (\<lambda>(k, v). (char_byte k, v)) control_escapes) c"

definition class_rune :: "icu \<Rightarrow> bytes \<Rightarrow> parser_state \<Rightarrow> (int \<times> parser_state) result" where
  "class_rune U s st =
     (if peeks s st 92
      then let st1 = advance 1 st in
        if length s \<le> ps_i st1 then fail ''unexpected end of pattern'' st1
        else let e = s ! ps_i st1; st2 = advance 1 st1 in
          case control_escape e of Some v \<Rightarrow> Inr (byte_cp v, st2)
          | None \<Rightarrow>
              if e = char_byte CHR ''x''
              then (case hex_escape s st2 of Inl x \<Rightarrow> Inl x | Inr (b, st3) \<Rightarrow> Inr (byte_cp b, st3))
              else if ascii_alnum e
              then fail (''unrecognized escape sequence inside character class: '' @ [char_of (92 :: nat), char_of (unat e)]) st2
              else Inr (byte_cp e, st2)
      else pattern_rune U s st)"

text \<open>
  The loop of \<open>char_class\<close>; \<open>cls\<close> is the class so far.  A range end replaces the second
  component of the last range.
\<close>

definition set_last_end :: "(int \<times> int) list \<Rightarrow> int \<Rightarrow> (int \<times> int) list" where
  "set_last_end rs e = butlast rs @ [(fst (last rs), e)]"

definition class_item ::
  "icu \<Rightarrow> bytes \<Rightarrow> parser_state \<Rightarrow> char_class_spec \<Rightarrow> int option \<Rightarrow> ((char_class_spec \<times> int option) \<times> parser_state) result" where
  "class_item U s st cls prev =
     (let i = ps_i st; e = s ! (i + 1) in
      if s ! i = 92 \<and> i + 1 < length s \<and> e \<in> set (ascii_bytes ''pP'')
      then (case property_name s (advance 2 st) of Inl x \<Rightarrow> Inl x
            | Inr (name, st1) \<Rightarrow>
                (case property_from_name U name (e = char_byte CHR ''P'') of Inl x \<Rightarrow> Inl x
                 | Inr pr \<Rightarrow> Inr ((cls\<lparr>cc_properties := cc_properties cls @ [pr]\<rparr>, None), st1)))
      else if s ! i = 92 \<and> i + 1 < length s \<and> e \<in> set (ascii_bytes ''dDwWsS'')
      then Inr ((cls\<lparr>cc_properties := cc_properties cls @ [perl_class st e]\<rparr>, None), advance 2 st)
      else if s ! i = 45 \<and> prev \<noteq> None \<and> i + 1 < length s \<and> s ! (i + 1) \<noteq> 93
      then (case class_rune U s (advance 1 st) of Inl x \<Rightarrow> Inl x
            | Inr (hi, st1) \<Rightarrow>
                if hi < the prev then fail ''descending class range'' st1
                else Inr ((cls\<lparr>cc_ranges := set_last_end (cc_ranges cls) hi\<rparr>, None), st1))
      else (case class_rune U s st of Inl x \<Rightarrow> Inl x
            | Inr (cp, st1) \<Rightarrow> Inr ((cls\<lparr>cc_ranges := cc_ranges cls @ [(cp, cp)]\<rparr>, Some cp), st1)))"

function class_loop ::
  "icu \<Rightarrow> bytes \<Rightarrow> parser_state \<Rightarrow> bool \<Rightarrow> char_class_spec \<Rightarrow> int option \<Rightarrow> (char_class_spec \<times> parser_state) result" where
  "class_loop U s st first cls prev =
     (if length s \<le> ps_i st then fail ''unclosed character class'' st
      else if s ! ps_i st = 93 \<and> \<not> first then Inr (cls, advance 1 st)
      else (case class_item U s st cls prev of Inl e \<Rightarrow> Inl e
            | Inr ((cls', prev'), st') \<Rightarrow>
                if ps_i st < ps_i st' then class_loop U s st' False cls' prev' else fail ''unclosed character class'' st'))"
  by pat_completeness auto
termination by (relation "measure (\<lambda>(U, s, st, f, cls, prev). length s - ps_i st)") auto

declare class_loop.simps [simp del]

definition char_class :: "icu \<Rightarrow> bytes \<Rightarrow> parser_state \<Rightarrow> (node \<times> parser_state) result" where
  "char_class U s st =
     (let neg = peeks s st 94; st1 = (if neg then advance 1 st else st)
      in case class_loop U s st1 True \<lparr>cc_ranges = [], cc_properties = [], cc_negated = neg\<rparr> None of
           Inl e \<Rightarrow> Inl e
         | Inr (cls, st2) \<Rightarrow> Inr (KClass (state_flags st) cls, st2))"

definition escaped :: "icu \<Rightarrow> bytes \<Rightarrow> parser_state \<Rightarrow> (node \<times> parser_state) result" where
  "escaped U s st0 =
     (if length s \<le> ps_i st0 then fail ''unexpected end of pattern'' st0
      else let c = s ! ps_i st0; st = advance 1 st0; f = state_flags st in
        if 49 \<le> c \<and> c \<le> 57 then Inr (KBackRef f (unat c - 48), st\<lparr>ps_extended := True\<rparr>)
        else if c = char_byte CHR ''b'' then Inr (KWordBoundary f False, st)
        else if c = char_byte CHR ''B'' then Inr (KWordBoundary f True, st)
        else if c = char_byte CHR ''A'' then Inr (KAbsBegin f, st)
        else if c = char_byte CHR ''z'' then Inr (KAbsEnd f, st)
        else if c = char_byte CHR ''Z'' then Inr (KEndNewline f, st)
        else if c = char_byte CHR ''p'' \<or> c = char_byte CHR ''P''
        then (case property_name s st of Inl e \<Rightarrow> Inl e
              | Inr (name, st1) \<Rightarrow>
                  (case property_from_name U name (c = char_byte CHR ''P'') of Inl e \<Rightarrow> Inl e
                   | Inr pr \<Rightarrow> Inr (KClass f \<lparr>cc_ranges = [], cc_properties = [pr], cc_negated = False\<rparr>, st1)))
        else if c \<in> set (ascii_bytes ''dDwWsS'')
        then Inr (KClass f \<lparr>cc_ranges = [], cc_properties = [perl_class st c], cc_negated = False\<rparr>, st)
        else case control_escape c of Some v \<Rightarrow> Inr (KLiteral f [v], st)
        | None \<Rightarrow>
            if c = 48 then Inr (KLiteral f [0], st)
            else if c = char_byte CHR ''x''
            then (case hex_escape s st of Inl e \<Rightarrow> Inl e | Inr (b, st1) \<Rightarrow> Inr (KLiteral f [b], st1))
            else if ascii_alnum c then fail (''unrecognized escape sequence: '' @ [char_of (92 :: nat), char_of (unat c)]) st
            else Inr (KLiteral f [c], st))"

section \<open>The recursive descent\<close>

type_synonym 'a parsed = "('a \<times> parser_state) result option"

definition then_parse :: "'a parsed \<Rightarrow> ('a \<Rightarrow> parser_state \<Rightarrow> 'b parsed) \<Rightarrow> 'b parsed" where
  "then_parse m k = (case m of None \<Rightarrow> None | Some (Inl e) \<Rightarrow> Some (Inl e) | Some (Inr (x, st)) \<Rightarrow> k x st)"

definition merge_literals :: "node list \<Rightarrow> node list" where
  "merge_literals xs =
     foldl (\<lambda>ys x. case (ys, x) of
              (_ # _, KLiteral g b) \<Rightarrow>
                (case last ys of KLiteral f a \<Rightarrow> if rf_icase f = rf_icase g then butlast ys @ [KLiteral f (a @ b)] else ys @ [x]
                 | _ \<Rightarrow> ys @ [x])
            | _ \<Rightarrow> ys @ [x]) [] xs"

definition finish_concat :: "node list \<Rightarrow> parser_state \<Rightarrow> node" where
  "finish_concat xs st =
     (if xs = [] then KEmpty (state_flags st)
      else case merge_literals xs of [y] \<Rightarrow> y | ys \<Rightarrow> KConcat (state_flags st) ys)"

definition finish_alt :: "node list \<Rightarrow> parser_state \<Rightarrow> node" where
  "finish_alt xs st = (case xs of [x] \<Rightarrow> x | _ \<Rightarrow> KAlt (state_flags st) xs)"

text \<open>A repetition count of \<open>SIZE_MAX\<close> is how the code writes \<open>no maximum\<close>.\<close>

definition max_count :: "nat \<Rightarrow> nat option" where
  "max_count n = (if n = 2 ^ 64 - 1 then None else Some n)"

text \<open>The quantifier after an atom: bounds, if there is one.\<close>

definition quantifier :: "bytes \<Rightarrow> parser_state \<Rightarrow> ((nat \<times> nat option) option \<times> parser_state) result" where
  "quantifier s st =
     (if peeks s st (char_byte CHR ''*'') then Inr (Some (0, None), advance 1 st)
      else if peeks s st (char_byte CHR ''+'') then Inr (Some (1, None), advance 1 st)
      else if peeks s st (char_byte CHR ''?'') then Inr (Some (0, Some 1), advance 1 st)
      else if \<not> peeks s st (char_byte CHR ''{'') then Inr (None, st)
      else case number s (advance 1 st) of Inl e \<Rightarrow> Inl e
      | Inr (mn, st1) \<Rightarrow>
          (case (if \<not> peeks s st1 (char_byte CHR '','') then Inr (max_count mn, st1)
                 else let st2 = advance 1 st1
                      in if ps_i st2 < length s \<and> s ! ps_i st2 \<noteq> char_byte CHR ''}''
                         then (case number s st2 of Inl e \<Rightarrow> Inl e | Inr (m, st3) \<Rightarrow> Inr (max_count m, st3))
                         else Inr (None, st2)) of
             Inl e \<Rightarrow> Inl e
           | Inr (mx, st4) \<Rightarrow>
               if \<not> peeks s st4 (char_byte CHR ''}'') then fail ''unclosed repetition'' st4
               else let st5 = advance 1 st4
                    in case mx of
                         None \<Rightarrow> Inr (Some (mn, None), st5)
                       | Some m \<Rightarrow> if m < mn then fail ''invalid repetition range'' st5 else Inr (Some (mn, Some m), st5)))"

text \<open>The loop over inline flags; \<open>None\<close> for \<open>seen\<close> being false is the Boolean component.\<close>

definition set_flag :: "byte \<Rightarrow> bool \<Rightarrow> parser_state \<Rightarrow> parser_state" where
  "set_flag f v st =
     (if f = char_byte CHR ''i'' then st\<lparr>ps_case := if v then Insensitive else Sensitive\<rparr>
      else if f = char_byte CHR ''m'' then st\<lparr>ps_multiline := v\<rparr>
      else if f = char_byte CHR ''s'' then st\<lparr>ps_dotall := v\<rparr>
      else if f = char_byte CHR ''x'' then st\<lparr>ps_ws := v\<rparr>
      else if f = char_byte CHR ''U'' then st\<lparr>ps_swap := v\<rparr>
      else st\<lparr>ps_unicode := v\<rparr>)"

lemma ps_i_set_flag [simp]: "ps_i (set_flag f v st) = ps_i st"
  by (simp add: set_flag_def)

function flag_loop :: "bytes \<Rightarrow> parser_state \<Rightarrow> bool \<Rightarrow> bool \<Rightarrow> (bool \<times> parser_state) result" where
  "flag_loop s st seen unset =
     (if length s \<le> ps_i st then Inr (seen, st)
      else let f = s ! ps_i st in
        if f = char_byte CHR ''-'' then flag_loop s (advance 1 st) seen True
        else if f = char_byte CHR '':'' \<or> f = char_byte CHR '')'' then Inr (seen, st)
        else if f \<notin> set (ascii_bytes ''imsUxu'') then fail ''unsupported inline flag'' st
        else flag_loop s (set_flag f (\<not> unset) (advance 1 st)) True unset)"
  by pat_completeness auto
termination by (relation "measure (\<lambda>(s, st, seen, unset). length s - ps_i st)") (auto simp: advance_def)

declare flag_loop.simps [simp del]

text \<open>\<open>opt_ = saved; ignore_ws_ = saved_x; swap_greed_ = saved_U\<close>.\<close>

definition restore_flags :: "parser_state \<Rightarrow> parser_state \<Rightarrow> parser_state" where
  "restore_flags old st = st\<lparr>ps_case := ps_case old, ps_dotall := ps_dotall old, ps_multiline := ps_multiline old,
     ps_unicode := ps_unicode old, ps_crlf := ps_crlf old, ps_ws := ps_ws old, ps_swap := ps_swap old\<rparr>"

definition close_group :: "bytes \<Rightarrow> string \<Rightarrow> node \<Rightarrow> parser_state \<Rightarrow> node parsed" where
  "close_group s msg x st =
     Some (if peeks s st (char_byte CHR '')'') then Inr (x, advance 1 st) else fail msg st)"

text \<open>What follows \<open>(\<close>: a capture name, a group to parse, or a finished node.\<close>

definition open_capture :: "bytes \<Rightarrow> parser_state \<Rightarrow> nat \<times> parser_state" where
  "open_capture name st =
     (let g = ps_groups st + 1;
          names = (if length (ps_names st) \<le> g then ps_names st @ replicate (g + 1 - length (ps_names st)) [] else ps_names st)
      in (g, st\<lparr>ps_groups := g, ps_names := names[g := name]\<rparr>))"

definition literal_atom :: "icu \<Rightarrow> bytes \<Rightarrow> parser_state \<Rightarrow> (node \<times> parser_state) result" where
  "literal_atom U s st =
     (case pattern_rune U s st of Inl e \<Rightarrow> Inl e
      | Inr (cp, st1) \<Rightarrow> Inr (KLiteral (state_flags st) (u8_encode U cp), st1))"

datatype group_open =
    GDone node
  | GPlain
  | GLookAhead bool
  | GLookBehind bool
  | GFlagged parser_state
  | GCapture bytes

text \<open>The extension after \<open>(?\<close>, up to the point where a sub-pattern has to be parsed.\<close>

definition group_extension :: "bytes \<Rightarrow> parser_state \<Rightarrow> (group_open \<times> parser_state) result" where
  "group_extension s st =
     (if peeks s st (char_byte CHR ''P'')
      then let st1 = advance 1 st in
        if \<not> peeks s st1 60 then fail ''expected < after ?P'' st1
        else (case group_name s (advance 1 st1) of Inl e \<Rightarrow> Inl e | Inr (nm, st2) \<Rightarrow> Inr (GCapture nm, st2))
      else if peeks s st (char_byte CHR '':'') then Inr (GPlain, advance 1 st)
      else if peeks s st 61 then Inr (GLookAhead False, (advance 1 st)\<lparr>ps_extended := True\<rparr>)
      else if peeks s st (char_byte CHR ''!'') then Inr (GLookAhead True, (advance 1 st)\<lparr>ps_extended := True\<rparr>)
      else if peeks s st 60
      then let st1 = advance 1 st in
        if peeks s st1 61 then Inr (GLookBehind False, (advance 1 st1)\<lparr>ps_extended := True\<rparr>)
        else if peeks s st1 (char_byte CHR ''!'') then Inr (GLookBehind True, (advance 1 st1)\<lparr>ps_extended := True\<rparr>)
        else (case group_name s st1 of Inl e \<Rightarrow> Inl e | Inr (nm, st2) \<Rightarrow> Inr (GCapture nm, st2))
      else (case flag_loop s st False False of Inl e \<Rightarrow> Inl e
            | Inr (seen, st1) \<Rightarrow>
                if \<not> seen then fail ''unknown group extension'' st1
                else if peeks s st1 (char_byte CHR '')'') then Inr (GDone (KEmpty (state_flags st1)), advance 1 st1)
                else if peeks s st1 (char_byte CHR '':'') then Inr (GFlagged st, advance 1 st1)
                else fail ''malformed inline flags'' st1))"

definition group_start :: "bytes \<Rightarrow> parser_state \<Rightarrow> (group_open \<times> parser_state) result" where
  "group_start s st =
     (if peeks s st (char_byte CHR ''?'') then group_extension s (advance 1 st) else Inr (GCapture [], st))"

definition stops_concat :: "bytes \<Rightarrow> parser_state \<Rightarrow> bool" where
  "stops_concat s st \<longleftrightarrow> length s \<le> ps_i st \<or> s ! ps_i st = char_byte CHR '')'' \<or> s ! ps_i st = char_byte CHR ''|''"

text \<open>One step of each parsing method, over the methods it calls.\<close>

definition parse_alt :: "(parser_state \<Rightarrow> node parsed) \<Rightarrow> (node list \<Rightarrow> parser_state \<Rightarrow> node parsed) \<Rightarrow> parser_state \<Rightarrow> node parsed" where
  "parse_alt concat_p loop_p st = then_parse (concat_p st) (\<lambda>x st1. loop_p [x] st1)"

definition parse_alternatives :: "bytes \<Rightarrow> (parser_state \<Rightarrow> node parsed) \<Rightarrow> (node list \<Rightarrow> parser_state \<Rightarrow> node parsed)
    \<Rightarrow> node list \<Rightarrow> parser_state \<Rightarrow> node parsed" where
  "parse_alternatives s concat_p loop_p xs st =
     (if peeks s st (char_byte CHR ''|'')
      then then_parse (concat_p (advance 1 st)) (\<lambda>x st1. loop_p (xs @ [x]) st1)
      else Some (Inr (finish_alt xs st, st)))"

definition parse_concat :: "bytes \<Rightarrow> (parser_state \<Rightarrow> node parsed) \<Rightarrow> (node list \<Rightarrow> parser_state \<Rightarrow> node parsed)
    \<Rightarrow> node list \<Rightarrow> parser_state \<Rightarrow> node parsed" where
  "parse_concat s repeat_p loop_p xs st0 =
     (let st = skip_ignored s st0 in
      if stops_concat s st then Some (Inr (finish_concat xs st, st))
      else then_parse (repeat_p st) (\<lambda>x st1. loop_p (xs @ [x]) st1))"

definition quantified :: "bytes \<Rightarrow> node \<Rightarrow> parser_state \<Rightarrow> (node \<times> parser_state) result" where
  "quantified s a st1 =
     (case quantifier s st1 of Inl e \<Rightarrow> Inl e
      | Inr (None, st2) \<Rightarrow> Inr (a, st2)
      | Inr (Some (mn, mx), st2) \<Rightarrow>
          let lazy = peeks s st2 (char_byte CHR ''?''); st3 = (if lazy then advance 1 st2 else st2);
              greedy = (if ps_swap st3 then lazy else \<not> lazy)
          in Inr (KRepeat (state_flags st2) mn mx greedy a, st3))"

definition parse_repeat :: "bytes \<Rightarrow> (parser_state \<Rightarrow> node parsed) \<Rightarrow> parser_state \<Rightarrow> node parsed" where
  "parse_repeat s atom_p st = then_parse (atom_p st) (\<lambda>a st1. Some (quantified s a st1))"

definition close_flagged :: "bytes \<Rightarrow> parser_state \<Rightarrow> node \<Rightarrow> parser_state \<Rightarrow> node parsed" where
  "close_flagged s old x st2 =
     (let st3 = skip_ignored s st2
      in if peeks s st3 (char_byte CHR '')'') then Some (Inr (x, restore_flags old (advance 1 st3)))
         else Some (fail ''unclosed flagged group'' st3))"

definition group_body :: "bytes \<Rightarrow> (parser_state \<Rightarrow> node parsed) \<Rightarrow> group_open \<Rightarrow> parser_state \<Rightarrow> node parsed" where
  "group_body s alt_p g st1 =
     (case g of
        GDone x \<Rightarrow> Some (Inr (x, st1))
      | GPlain \<Rightarrow> then_parse (alt_p st1) (close_group s ''unclosed group'')
      | GLookAhead neg \<Rightarrow>
          then_parse (alt_p st1) (\<lambda>x. close_group s ''unclosed lookahead'' (KLookAhead (state_flags st1) neg x))
      | GLookBehind neg \<Rightarrow>
          then_parse (alt_p st1) (\<lambda>x. close_group s ''unclosed lookbehind'' (KLookBehind (state_flags st1) neg x))
      | GFlagged old \<Rightarrow> then_parse (alt_p st1) (close_flagged s old)
      | GCapture nm \<Rightarrow>
          (case open_capture nm st1 of (k, st2) \<Rightarrow>
             then_parse (alt_p st2) (\<lambda>x. close_group s ''unclosed group'' (KGroup (state_flags st2) k x))))"

definition parse_atom :: "icu \<Rightarrow> bytes \<Rightarrow> (parser_state \<Rightarrow> node parsed) \<Rightarrow> parser_state \<Rightarrow> node parsed" where
  "parse_atom U s alt_p st =
     (if peeks s st 94 then Some (Inr (KBegin (state_flags st), advance 1 st))
      else if peeks s st (char_byte CHR ''$'') then Some (Inr (KEnd (state_flags st), advance 1 st))
      else if peeks s st (char_byte CHR ''.'') then Some (Inr (KDot (state_flags st), advance 1 st))
      else if peeks s st 91 then Some (char_class U s (advance 1 st))
      else if peeks s st (char_byte CHR ''('')
      then (case group_start s (advance 1 st) of Inl e \<Rightarrow> Some (Inl e) | Inr (g, st1) \<Rightarrow> group_body s alt_p g st1)
      else if peeks s st 92 then Some (escaped U s (advance 1 st))
      else Some (literal_atom U s st))"

text \<open>The recursive descent, with fuel for the depth of the calls and the length of the loops.
  The methods \<open>alt\<close>, \<open>concat\<close>, \<open>repeat\<close> and \<open>atom\<close> call each other, so one function runs
  all of them; the two loops carry the list of what they have parsed.\<close>

datatype grammar_rule = PAlt | PAltLoop "node list" | PConcat "node list" | PRepeat | PAtom

primrec run_parser :: "nat \<Rightarrow> icu \<Rightarrow> bytes \<Rightarrow> grammar_rule \<Rightarrow> parser_state \<Rightarrow> node parsed" where
  "run_parser 0 U s g st = None"
| "run_parser (Suc n) U s g st =
     (case g of
        PAlt \<Rightarrow> parse_alt (run_parser n U s (PConcat [])) (\<lambda>xs. run_parser n U s (PAltLoop xs)) st
      | PAltLoop xs \<Rightarrow> parse_alternatives s (run_parser n U s (PConcat [])) (\<lambda>ys. run_parser n U s (PAltLoop ys)) xs st
      | PConcat xs \<Rightarrow> parse_concat s (run_parser n U s PRepeat) (\<lambda>ys. run_parser n U s (PConcat ys)) xs st
      | PRepeat \<Rightarrow> parse_repeat s (run_parser n U s PAtom) st
      | PAtom \<Rightarrow> parse_atom U s (run_parser n U s PAlt) st)"

section \<open>Whole patterns\<close>

definition parse_fuel :: "bytes \<Rightarrow> nat" where
  "parse_fuel s = 6 * length s + 6"

definition no_program_error :: exn where
  "no_program_error = Runtime_error ''pergrep regex: backreferences/look-around require -P/--pcre2''"

text \<open>The folded code points of a literal pattern, for the scan of \<open>nfa_search\<close>.\<close>

function folded_runes :: "icu \<Rightarrow> bytes \<Rightarrow> nat \<Rightarrow> int list" where
  "folded_runes U lit p =
     (case rune_at U lit p of None \<Rightarrow> []
      | Some (cp, nx) \<Rightarrow> u_fold_case U cp # (if p < nx \<and> nx \<le> length lit then folded_runes U lit nx else []))"
  by pat_completeness auto
termination by (relation "measure (\<lambda>(U, lit, p). length lit - p)") auto

declare folded_runes.simps [simp del]

definition icase_runes :: "icu \<Rightarrow> node \<Rightarrow> bool \<Rightarrow> int list" where
  "icase_runes U n extended =
     (case n of KLiteral f lit \<Rightarrow> if \<not> extended \<and> rf_icase f \<and> lit \<noteq> [] then folded_runes U lit 0 else [] | _ \<Rightarrow> [])"

text \<open>\<open>Parser::parse\<close>: the syntax tree and the members the program takes over.\<close>

definition parse :: "icu \<Rightarrow> bytes \<Rightarrow> pattern_options \<Rightarrow> node parsed" where
  "parse U s o1 =
     then_parse (run_parser (parse_fuel s) U s PAlt (initial_state o1)) (\<lambda>n st.
       Some (if ps_i st \<noteq> length s then fail ''unexpected trailing input'' st else Inr (n, st)))"

definition wrap_node :: "pattern_options \<Rightarrow> node \<Rightarrow> node" where
  "wrap_node o1 n =
     (let fl = (\<lambda>ml. \<lparr>rf_icase = (po_case o1 = Insensitive), rf_dotall = po_dotall o1, rf_multiline = ml,
                     rf_unicode = po_unicode o1, rf_crlf = po_crlf o1\<rparr>)
      in if po_line o1 then KConcat (fl False) [KBegin (fl True), n, KEnd (fl True)]
         else if po_word o1 then KConcat (fl False) [KWordStartHalf (fl False), n, KWordEndHalf (fl False)]
         else n)"

definition parse_regex :: "icu \<Rightarrow> bytes \<Rightarrow> pattern_options \<Rightarrow> nfa_program result option" where
  "parse_regex U s o1 =
     (case parse U s o1 of None \<Rightarrow> None | Some (Inl e) \<Rightarrow> Some (Inl e)
      | Some (Inr (n, st)) \<Rightarrow>
          Some (if ps_extended st \<and> po_engine o1 = Default then Inl no_program_error
                else let ast = wrap_node o1 n in
                  case (if ps_extended st then Inr ([], - 1) else compile_nfa U ast) of
                    Inl e \<Rightarrow> Inl e
                  | Inr (code, start) \<Rightarrow>
                      (case build_nfa_closures (ps_groups st) code of (offs, pcs) \<Rightarrow>
                         Inr \<lparr>rp_ast = ast, rp_groups = ps_groups st, rp_group_names = ps_names st,
                              rp_extended = ps_extended st, rp_icase_literal = icase_runes U n (ps_extended st),
                              np_ir = analyze_query n (ps_extended st), np_code = code, np_start = start,
                              np_closure_offsets = offs, np_closure_pcs = pcs\<rparr>)))"

text \<open>\<open>Pattern::compile\<close>: smart case looks for an upper-case letter in the pattern.\<close>

function has_upper :: "icu \<Rightarrow> bytes \<Rightarrow> nat \<Rightarrow> bool" where
  "has_upper U s p =
     (if p < length s
      then let (cp, j) = u8_next U s p
           in if 0 \<le> cp \<and> u_isupper U cp then True else if p < j then has_upper U s j else False
      else False)"
  by pat_completeness auto
termination by (relation "measure (\<lambda>(U, s, p). length s - p)") auto

declare has_upper.simps [simp del]

definition resolve_case :: "icu \<Rightarrow> bytes \<Rightarrow> pattern_options \<Rightarrow> pattern_options" where
  "resolve_case U s o1 =
     (if po_case o1 \<noteq> Smart then o1
      else let upper = (if po_unicode o1 then has_upper U s 0 else (\<exists>c \<in> set s. 65 \<le> c \<and> c \<le> 90))
           in o1\<lparr>po_case := if upper then Sensitive else Insensitive\<rparr>)"

definition compile :: "icu \<Rightarrow> bytes \<Rightarrow> pattern_options \<Rightarrow> (pattern_options \<times> nfa_program option) result option" where
  "compile U s o1 =
     (let o2 = resolve_case U s o1 in
      if po_kind o1 = Fixed then Some (Inr (o2, None))
      else case parse_regex U s o2 of None \<Rightarrow> None | Some (Inl e) \<Rightarrow> Some (Inl e) | Some (Inr p) \<Rightarrow> Some (Inr (o2, Some p)))"

end
