(* ===== verification/Regex_Analysis.thy ===== *)
theory Regex_Analysis
  imports Regex_Syntax
begin

text \<open>
  The width and context metadata of a pattern: \<open>RegexBound\<close>, \<open>RegexAnalysis\<close>
  (\<open>internal.hpp\<close>) and \<open>analyze_regex\<close> (\<open>regex.cpp\<close>).  Finite bounds are 64-bit values held
  as \<open>nat\<close>; the overflow tests of the code are written out.
\<close>

section \<open>Bounds\<close>

datatype regex_bound = Finite nat | Unknown | Unbounded

definition u64_max :: nat where
  "u64_max = 2 ^ 64 - 1"

fun add_bound :: "regex_bound \<Rightarrow> regex_bound \<Rightarrow> regex_bound" where
  "add_bound Unbounded b = Unbounded"
| "add_bound a Unbounded = Unbounded"
| "add_bound Unknown b = Unknown"
| "add_bound a Unknown = Unknown"
| "add_bound (Finite a) (Finite b) = (if u64_max - b < a then Unbounded else Finite (a + b))"

definition mul_bound :: "regex_bound \<Rightarrow> nat \<Rightarrow> regex_bound" where
  "mul_bound a n =
     (if n = 0 then Finite 0
      else case a of Unbounded \<Rightarrow> Unbounded | Unknown \<Rightarrow> Unknown
           | Finite v \<Rightarrow> if u64_max div n < v then Unbounded else Finite (v * n))"

fun max_bound :: "regex_bound \<Rightarrow> regex_bound \<Rightarrow> regex_bound" where
  "max_bound Unbounded b = Unbounded"
| "max_bound a Unbounded = Unbounded"
| "max_bound Unknown b = Unknown"
| "max_bound a Unknown = Unknown"
| "max_bound (Finite a) (Finite b) = Finite (max a b)"

fun min_bound :: "regex_bound \<Rightarrow> regex_bound \<Rightarrow> regex_bound" where
  "min_bound (Finite a) (Finite b) = Finite (min a b)"
| "min_bound a b = Unknown"

section \<open>The analysis record\<close>

record regex_analysis =
  ra_byte_lower :: regex_bound
  ra_byte_upper :: regex_bound
  ra_rune_lower :: regex_bound
  ra_rune_upper :: regex_bound
  ra_forward_bytes :: regex_bound
  ra_forward_runes :: regex_bound
  ra_backward_bytes :: regex_bound
  ra_backward_runes :: regex_bound
  ra_nullable :: bool
  ra_nullable_known :: bool
  ra_record_boundary :: bool
  ra_absolute_begin :: bool
  ra_absolute_end :: bool
  ra_line_begin :: bool
  ra_line_end :: bool
  ra_word_boundary :: bool
  ra_word_start :: bool
  ra_word_end :: bool
  ra_icase :: bool
  ra_unicode :: bool
  ra_dotall :: bool
  ra_multiline :: bool
  ra_crlf :: bool
  ra_contains_nul :: bool
  ra_pattern_contains_nul :: bool
  ra_custom_separator :: bool
  ra_separator_is_nul :: bool
  ra_record_separator :: byte
  ra_has_backreference :: bool
  ra_has_lookahead :: bool
  ra_has_lookbehind :: bool
  ra_has_unbounded_repeat :: bool
  ra_repeat_limit_applied :: bool
  ra_lookbehind_limit_applied :: bool
  ra_vm_state_limit_relevant :: bool
  ra_notes :: "string list"

definition default_analysis :: regex_analysis where
  "default_analysis =
     \<lparr>ra_byte_lower = Finite 0, ra_byte_upper = Finite 0, ra_rune_lower = Finite 0, ra_rune_upper = Finite 0,
      ra_forward_bytes = Finite 0, ra_forward_runes = Finite 0, ra_backward_bytes = Finite 0, ra_backward_runes = Finite 0,
      ra_nullable = False, ra_nullable_known = True, ra_record_boundary = False,
      ra_absolute_begin = False, ra_absolute_end = False, ra_line_begin = False, ra_line_end = False,
      ra_word_boundary = False, ra_word_start = False, ra_word_end = False,
      ra_icase = False, ra_unicode = True, ra_dotall = False, ra_multiline = False, ra_crlf = False,
      ra_contains_nul = False, ra_pattern_contains_nul = False, ra_custom_separator = False,
      ra_separator_is_nul = False, ra_record_separator = 10, ra_has_backreference = False,
      ra_has_lookahead = False, ra_has_lookbehind = False, ra_has_unbounded_repeat = False,
      ra_repeat_limit_applied = False, ra_lookbehind_limit_applied = False,
      ra_vm_state_limit_relevant = False, ra_notes = []\<rparr>"

definition merge_notes :: "string list \<Rightarrow> string list \<Rightarrow> string list" where
  "merge_notes ds ss = foldl (\<lambda>ds n. if n \<in> set ds then ds else ds @ [n]) ds ss"

definition merge_analysis :: "regex_analysis \<Rightarrow> regex_analysis \<Rightarrow> regex_analysis" where
  "merge_analysis d s = d\<lparr>
     ra_forward_bytes := max_bound (ra_forward_bytes d) (ra_forward_bytes s),
     ra_forward_runes := max_bound (ra_forward_runes d) (ra_forward_runes s),
     ra_backward_bytes := max_bound (ra_backward_bytes d) (ra_backward_bytes s),
     ra_backward_runes := max_bound (ra_backward_runes d) (ra_backward_runes s),
     ra_record_boundary := ra_record_boundary d \<or> ra_record_boundary s,
     ra_absolute_begin := ra_absolute_begin d \<or> ra_absolute_begin s,
     ra_absolute_end := ra_absolute_end d \<or> ra_absolute_end s,
     ra_line_begin := ra_line_begin d \<or> ra_line_begin s,
     ra_line_end := ra_line_end d \<or> ra_line_end s,
     ra_word_boundary := ra_word_boundary d \<or> ra_word_boundary s,
     ra_word_start := ra_word_start d \<or> ra_word_start s,
     ra_word_end := ra_word_end d \<or> ra_word_end s,
     ra_icase := ra_icase d \<or> ra_icase s,
     ra_unicode := ra_unicode d \<or> ra_unicode s,
     ra_dotall := ra_dotall d \<or> ra_dotall s,
     ra_multiline := ra_multiline d \<or> ra_multiline s,
     ra_crlf := ra_crlf d \<or> ra_crlf s,
     ra_contains_nul := ra_contains_nul d \<or> ra_contains_nul s,
     ra_pattern_contains_nul := ra_pattern_contains_nul d \<or> ra_pattern_contains_nul s,
     ra_has_backreference := ra_has_backreference d \<or> ra_has_backreference s,
     ra_has_lookahead := ra_has_lookahead d \<or> ra_has_lookahead s,
     ra_has_lookbehind := ra_has_lookbehind d \<or> ra_has_lookbehind s,
     ra_has_unbounded_repeat := ra_has_unbounded_repeat d \<or> ra_has_unbounded_repeat s,
     ra_repeat_limit_applied := ra_repeat_limit_applied d \<or> ra_repeat_limit_applied s,
     ra_lookbehind_limit_applied := ra_lookbehind_limit_applied d \<or> ra_lookbehind_limit_applied s,
     ra_vm_state_limit_relevant := ra_vm_state_limit_relevant d \<or> ra_vm_state_limit_relevant s,
     ra_notes := merge_notes (ra_notes d) (ra_notes s)\<rparr>"

section \<open>The analyser\<close>

definition node_flags :: "node \<Rightarrow> rx_flags" where
  "node_flags n = (case n of
       KEmpty f \<Rightarrow> f | KLiteral f _ \<Rightarrow> f | KDot f \<Rightarrow> f | KClass f _ \<Rightarrow> f | KBegin f \<Rightarrow> f | KEnd f \<Rightarrow> f
     | KAbsBegin f \<Rightarrow> f | KAbsEnd f \<Rightarrow> f | KEndNewline f \<Rightarrow> f | KWordBoundary f _ \<Rightarrow> f
     | KWordStartHalf f \<Rightarrow> f | KWordEndHalf f \<Rightarrow> f | KConcat f _ \<Rightarrow> f | KAlt f _ \<Rightarrow> f | KRepeat f _ _ _ _ \<Rightarrow> f
     | KGroup f _ _ \<Rightarrow> f | KBackRef f _ \<Rightarrow> f | KLookAhead f _ _ \<Rightarrow> f | KLookBehind f _ _ \<Rightarrow> f)"

text \<open>The initial \<open>RA o\<close> of a node.\<close>

definition start_analysis :: "rx_flags \<Rightarrow> byte \<Rightarrow> regex_analysis" where
  "start_analysis f sep = default_analysis\<lparr>
     ra_record_separator := sep, ra_custom_separator := sep \<noteq> 10, ra_separator_is_nul := sep = 0,
     ra_contains_nul := sep = 0, ra_icase := rf_icase f, ra_unicode := rf_unicode f,
     ra_dotall := rf_dotall f, ra_multiline := rf_multiline f, ra_crlf := rf_crlf f\<rparr>"

text \<open>The last line of the analyser, common to every kind.\<close>

definition finish_analysis :: "byte \<Rightarrow> regex_analysis \<Rightarrow> regex_analysis" where
  "finish_analysis sep a = a\<lparr>
     ra_record_boundary := ra_record_boundary a \<or> ra_line_begin a \<or> ra_line_end a,
     ra_record_separator := sep, ra_custom_separator := sep \<noteq> 10, ra_separator_is_nul := sep = 0\<rparr>"

function rune_count_from :: "icu \<Rightarrow> bytes \<Rightarrow> nat \<Rightarrow> nat" where
  "rune_count_from U s p =
     (if p < length s
      then Suc (rune_count_from U s (case rune_at U s p of Some (cp, nx) \<Rightarrow> if nx \<le> p then p + 1 else nx | None \<Rightarrow> p + 1))
      else 0)"
  by pat_completeness auto
termination by (relation "measure (\<lambda>(U, s, p). length s - p)") (auto split: option.splits)

declare rune_count_from.simps [simp del]

definition analyze_literal :: "icu \<Rightarrow> rx_flags \<Rightarrow> bytes \<Rightarrow> regex_analysis \<Rightarrow> regex_analysis" where
  "analyze_literal U f lit a =
     (let rn = rune_count_from U lit 0;
          has_nul = (0 \<in> set lit);
          a1 = a\<lparr>ra_rune_lower := Finite rn, ra_rune_upper := Finite rn,
                 ra_pattern_contains_nul := ra_pattern_contains_nul a \<or> has_nul,
                 ra_contains_nul := ra_contains_nul a \<or> has_nul\<rparr>;
          a2 = (if rf_icase f
                then a1\<lparr>ra_byte_lower := Unknown, ra_byte_upper := Unknown,
                        ra_notes := ra_notes a1 @ [''case-folded literal has unknown UTF-8 byte width'']\<rparr>
                else a1\<lparr>ra_byte_lower := Finite (length lit), ra_byte_upper := Finite (length lit)\<rparr>)
      in a2\<lparr>ra_nullable := lit = []\<rparr>)"

definition one_rune :: "regex_analysis \<Rightarrow> regex_analysis" where
  "one_rune a = a\<lparr>ra_byte_lower := Finite 1, ra_byte_upper := Finite 4, ra_rune_lower := Finite 1, ra_rune_upper := Finite 1\<rparr>"

definition concat_step :: "regex_analysis \<Rightarrow> regex_analysis \<Rightarrow> regex_analysis" where
  "concat_step a c = merge_analysis
     (a\<lparr>ra_byte_lower := add_bound (ra_byte_lower a) (ra_byte_lower c),
        ra_byte_upper := add_bound (ra_byte_upper a) (ra_byte_upper c),
        ra_rune_lower := add_bound (ra_rune_lower a) (ra_rune_lower c),
        ra_rune_upper := add_bound (ra_rune_upper a) (ra_rune_upper c),
        ra_nullable := ra_nullable a \<and> ra_nullable c,
        ra_nullable_known := ra_nullable_known a \<and> ra_nullable_known c\<rparr>) c"

definition alt_first :: "regex_analysis \<Rightarrow> regex_analysis \<Rightarrow> regex_analysis" where
  "alt_first a c = merge_analysis
     (a\<lparr>ra_byte_lower := ra_byte_lower c, ra_byte_upper := ra_byte_upper c,
        ra_rune_lower := ra_rune_lower c, ra_rune_upper := ra_rune_upper c\<rparr>) c"

definition alt_step :: "regex_analysis \<Rightarrow> regex_analysis \<Rightarrow> regex_analysis" where
  "alt_step a c = merge_analysis
     (a\<lparr>ra_byte_lower := min_bound (ra_byte_lower a) (ra_byte_lower c),
        ra_byte_upper := max_bound (ra_byte_upper a) (ra_byte_upper c),
        ra_rune_lower := min_bound (ra_rune_lower a) (ra_rune_lower c),
        ra_rune_upper := max_bound (ra_rune_upper a) (ra_rune_upper c)\<rparr>) c"

definition analyze_repeat :: "regex_analysis \<Rightarrow> regex_analysis \<Rightarrow> nat \<Rightarrow> nat option \<Rightarrow> regex_analysis" where
  "analyze_repeat a c mn mx =
     (let a1 = (merge_analysis (a\<lparr>ra_vm_state_limit_relevant := True\<rparr>) c)
                 \<lparr>ra_nullable := mn = 0 \<or> ra_nullable c, ra_nullable_known := ra_nullable_known c,
                  ra_byte_lower := mul_bound (ra_byte_lower c) mn, ra_rune_lower := mul_bound (ra_rune_lower c) mn\<rparr>
      in case mx of
           None \<Rightarrow> a1\<lparr>ra_has_unbounded_repeat := True, ra_repeat_limit_applied := True,
                      ra_byte_upper := Unbounded, ra_rune_upper := Unbounded,
                      ra_notes := ra_notes a1 @ [''unbounded repeat remains unbounded; VM repeat cap is 10000 iterations'']\<rparr>
         | Some m \<Rightarrow>
             let a2 = a1\<lparr>ra_byte_upper := mul_bound (ra_byte_upper c) m, ra_rune_upper := mul_bound (ra_rune_upper c) m\<rparr>
             in if 10000 < m
                then a2\<lparr>ra_repeat_limit_applied := True,
                        ra_notes := ra_notes a2 @ [''repeat maximum exceeds VM 10000-iteration limit; upper width is unknown'']\<rparr>
                else a2)"

fun analyze_regex :: "icu \<Rightarrow> node \<Rightarrow> byte \<Rightarrow> regex_analysis" where
  "analyze_regex U n sep = finish_analysis sep
     (let a = start_analysis (node_flags n) sep in
      case n of
        KEmpty f \<Rightarrow> a\<lparr>ra_nullable := True\<rparr>
      | KLiteral f lit \<Rightarrow> analyze_literal U f lit a
      | KDot f \<Rightarrow> one_rune a
      | KClass f cls \<Rightarrow> one_rune a
      | KBegin f \<Rightarrow> a\<lparr>ra_nullable := True, ra_record_boundary := True, ra_line_begin := rf_multiline f,
                      ra_backward_bytes := Finite (if rf_crlf f then 2 else 1), ra_backward_runes := Finite 1\<rparr>
      | KEnd f \<Rightarrow> a\<lparr>ra_nullable := True, ra_record_boundary := True, ra_line_end := rf_multiline f,
                    ra_forward_bytes := Finite (if rf_crlf f then 2 else 1), ra_forward_runes := Finite 1\<rparr>
      | KEndNewline f \<Rightarrow> a\<lparr>ra_nullable := True, ra_record_boundary := True, ra_line_end := rf_multiline f,
                    ra_forward_bytes := Finite (if rf_crlf f then 2 else 1), ra_forward_runes := Finite 1\<rparr>
      | KAbsBegin f \<Rightarrow> a\<lparr>ra_nullable := True, ra_absolute_begin := True\<rparr>
      | KAbsEnd f \<Rightarrow> a\<lparr>ra_nullable := True, ra_absolute_end := True\<rparr>
      | KWordBoundary f neg \<Rightarrow> a\<lparr>ra_nullable := True, ra_word_boundary := True, ra_backward_bytes := Finite 4,
                    ra_forward_bytes := Finite 4, ra_backward_runes := Finite 1, ra_forward_runes := Finite 1\<rparr>
      | KWordStartHalf f \<Rightarrow> a\<lparr>ra_nullable := True, ra_word_start := True,
                    ra_backward_bytes := Finite 4, ra_backward_runes := Finite 1\<rparr>
      | KWordEndHalf f \<Rightarrow> a\<lparr>ra_nullable := True, ra_word_end := True,
                    ra_forward_bytes := Finite 4, ra_forward_runes := Finite 1\<rparr>
      | KGroup f g c \<Rightarrow> (analyze_regex U c sep)\<lparr>ra_record_separator := sep, ra_custom_separator := sep \<noteq> 10\<rparr>
      | KConcat f cs \<Rightarrow>
          foldl concat_step (a\<lparr>ra_nullable := True, ra_vm_state_limit_relevant := 1 < length cs\<rparr>)
            (map (\<lambda>c. analyze_regex U c sep) cs)
      | KAlt f cs \<Rightarrow>
          (let b = a\<lparr>ra_vm_state_limit_relevant := 1 < length cs\<rparr>;
               ras = map (\<lambda>c. analyze_regex U c sep) cs
           in case ras of [] \<Rightarrow> b\<lparr>ra_nullable := True\<rparr>
              | r # rs \<Rightarrow> (foldl alt_step (alt_first b r) rs)
                           \<lparr>ra_nullable := \<exists>x \<in> set ras. ra_nullable x,
                            ra_nullable_known := \<forall>x \<in> set ras. ra_nullable_known x\<rparr>)
      | KRepeat f mn mx g c \<Rightarrow> analyze_repeat a (analyze_regex U c sep) mn mx
      | KBackRef f g \<Rightarrow> a\<lparr>ra_has_backreference := True, ra_nullable_known := False,
                    ra_byte_lower := Unknown, ra_rune_lower := Unknown, ra_byte_upper := Unbounded, ra_rune_upper := Unbounded,
                    ra_notes := ra_notes a @ [''backreference width depends on a capture and is unknown/unbounded'']\<rparr>
      | KLookAhead f neg c \<Rightarrow>
          (let r = analyze_regex U c sep;
               b = merge_analysis (a\<lparr>ra_nullable := True, ra_has_lookahead := True,
                     ra_forward_bytes := add_bound (ra_byte_upper r) (ra_forward_bytes r),
                     ra_forward_runes := add_bound (ra_rune_upper r) (ra_forward_runes r),
                     ra_backward_bytes := ra_backward_bytes r, ra_backward_runes := ra_backward_runes r\<rparr>) r
           in b\<lparr>ra_notes := ra_notes b @ [''lookahead has zero match width; forward context is metadata only'']\<rparr>)
      | KLookBehind f neg c \<Rightarrow>
          (let r = analyze_regex U c sep;
               b = merge_analysis (a\<lparr>ra_nullable := True, ra_has_lookbehind := True, ra_lookbehind_limit_applied := True,
                     ra_backward_bytes := add_bound (ra_byte_upper r) (ra_backward_bytes r),
                     ra_backward_runes := add_bound (ra_rune_upper r) (ra_backward_runes r),
                     ra_forward_bytes := ra_forward_bytes r, ra_forward_runes := ra_forward_runes r\<rparr>) r
           in b\<lparr>ra_notes := ra_notes b @ [''lookbehind uses existing 8192-byte VM window; exact execution is unchanged'']\<rparr>))"

declare analyze_regex.simps [simp del]

lemmas analyze_node =
  analyze_regex.simps [of U "KEmpty f" for U f, simplified node.case]
  analyze_regex.simps [of U "KLiteral f l" for U f l, simplified node.case]
  analyze_regex.simps [of U "KDot f" for U f, simplified node.case]
  analyze_regex.simps [of U "KClass f k" for U f k, simplified node.case]
  analyze_regex.simps [of U "KBegin f" for U f, simplified node.case]
  analyze_regex.simps [of U "KEnd f" for U f, simplified node.case]
  analyze_regex.simps [of U "KAbsBegin f" for U f, simplified node.case]
  analyze_regex.simps [of U "KAbsEnd f" for U f, simplified node.case]
  analyze_regex.simps [of U "KEndNewline f" for U f, simplified node.case]
  analyze_regex.simps [of U "KWordBoundary f g" for U f g, simplified node.case]
  analyze_regex.simps [of U "KWordStartHalf f" for U f, simplified node.case]
  analyze_regex.simps [of U "KWordEndHalf f" for U f, simplified node.case]
  analyze_regex.simps [of U "KConcat f cs" for U f cs, simplified node.case]
  analyze_regex.simps [of U "KAlt f cs" for U f cs, simplified node.case]
  analyze_regex.simps [of U "KRepeat f a b g n" for U f a b g n, simplified node.case]
  analyze_regex.simps [of U "KGroup f g n" for U f g n, simplified node.case]
  analyze_regex.simps [of U "KBackRef f g" for U f g, simplified node.case]
  analyze_regex.simps [of U "KLookAhead f g n" for U f g n, simplified node.case]
  analyze_regex.simps [of U "KLookBehind f g n" for U f g n, simplified node.case]

end
