(* ===== verification/Regions.thy ===== *)
theory Regions
  imports Nfa Regex_Analysis
begin

text \<open>
  Bounded regions of \<open>search.cpp\<close>: when every match of a pattern is at most \<open>byte_upper\<close> bytes
  wide and contains a known literal, only the offsets close enough to an occurrence of the
  literal are tried.  The sums that the code guards against overflow saturate here too.
\<close>

section \<open>Regions\<close>

record bounded_region =
  candidate_begin :: nat
  candidate_end :: nat
  region_begin :: nat
  region_end :: nat

fun top_level_branches :: "node \<Rightarrow> node list" where
  "top_level_branches (KGroup f g c) = top_level_branches c"
| "top_level_branches (KAlt f cs) = cs"
| "top_level_branches n = [n]"

fun node_children :: "node \<Rightarrow> node list" where
  "node_children (KConcat f cs) = cs"
| "node_children (KAlt f cs) = cs"
| "node_children (KRepeat f mn mx g c) = [c]"
| "node_children (KGroup f g c) = [c]"
| "node_children (KLookAhead f neg c) = [c]"
| "node_children (KLookBehind f neg c) = [c]"
| "node_children n = []"

text \<open>\<open>regex_has_kind\<close> and its two variants: some node of the tree satisfies the test.\<close>

lemma node_children_size: "c \<in> set (node_children n) \<Longrightarrow> size c < size n"
  by (cases n) (auto dest: size_list_estimation' [where f = size] simp: less_Suc_eq_le intro: size_list_estimation')

function has_node :: "(node \<Rightarrow> bool) \<Rightarrow> node \<Rightarrow> bool" where
  "has_node P n = (P n \<or> (\<exists>c \<in> set (node_children n). has_node P c))"
  by pat_completeness auto
termination by (relation "measure (\<lambda>(P, n). size n)") (auto dest: node_children_size)

declare has_node.simps [simp del]

definition is_back_ref :: "node \<Rightarrow> bool" where
  "is_back_ref n = (case n of KBackRef f g \<Rightarrow> True | _ \<Rightarrow> False)"

definition is_look_ahead :: "node \<Rightarrow> bool" where
  "is_look_ahead n = (case n of KLookAhead f neg c \<Rightarrow> True | _ \<Rightarrow> False)"

definition is_look_behind :: "node \<Rightarrow> bool" where
  "is_look_behind n = (case n of KLookBehind f neg c \<Rightarrow> True | _ \<Rightarrow> False)"

definition is_limited_repeat :: "node \<Rightarrow> bool" where
  "is_limited_repeat n = (case n of KRepeat f mn (Some m) g c \<Rightarrow> 10000 < m | _ \<Rightarrow> False)"

definition is_unbounded_repeat :: "node \<Rightarrow> bool" where
  "is_unbounded_repeat n = (case n of KRepeat f mn None g c \<Rightarrow> True | _ \<Rightarrow> False)"

definition regex_has_region_fallback_construct :: "node \<Rightarrow> bool" where
  "regex_has_region_fallback_construct n \<longleftrightarrow>
     has_node is_unbounded_repeat n \<or> has_node is_limited_repeat n \<or>
     has_node is_back_ref n \<or> has_node is_look_ahead n \<or> has_node is_look_behind n"

fun bound_value :: "regex_bound \<Rightarrow> nat" where
  "bound_value (Finite v) = v"
| "bound_value b = 0"

fun is_finite :: "regex_bound \<Rightarrow> bool" where
  "is_finite (Finite v) = True"
| "is_finite b = False"

text \<open>\<open>Some\<close> of the analysis when the region plan is allowed.\<close>

definition branch_multi_mandatory :: "nfa_program \<Rightarrow> bool" where
  "branch_multi_mandatory p \<longleftrightarrow>
     (let bm = qi_branch_mandatory (np_ir p); brs = top_level_branches (rp_ast p);
          direct = (bm \<noteq> [] \<and> (\<forall>b \<in> set bm. 2 \<le> length b))
      in if \<not> direct \<and> 1 < length brs then (\<forall>b \<in> set brs. 2 \<le> length (query_mandatory b)) else direct)"

definition bounded_regex_eligible ::
  "icu \<Rightarrow> nfa_program \<Rightarrow> pattern_options \<Rightarrow> byte \<Rightarrow> regex_analysis option" where
  "bounded_regex_eligible U p opt sep =
     (let multi_mandatory = 2 \<le> length (qi_mandatory (np_ir p));
          branch_multi = branch_multi_mandatory p;
          a = analyze_regex U (rp_ast p) sep;
          up = bound_value (ra_byte_upper a)
      in if rp_extended p \<or> 1 < rp_groups p \<or> (\<not> multi_mandatory \<and> \<not> branch_multi) \<or> po_case opt \<noteq> Sensitive then None
         else if \<not> is_finite (ra_byte_upper a) \<or> up = 0 \<or> 2 ^ 20 < up then None
         else if \<not> is_finite (ra_rune_upper a) \<or> \<not> is_finite (ra_forward_bytes a) \<or>
                 \<not> is_finite (ra_backward_bytes a) \<or> ra_repeat_limit_applied a \<or> ra_lookbehind_limit_applied a then None
         else if ra_has_backreference a \<or> ra_has_lookahead a \<or> ra_has_lookbehind a \<or> ra_has_unbounded_repeat a then None
         else if qi_mandatory (np_ir p) = [] \<and> \<not> branch_multi then None
         else if (\<exists>l \<in> set (qi_mandatory (np_ir p)). l = [] \<or> up < length l) then None
         else Some a)"

section \<open>Occurrences of a literal\<close>

function occurrences :: "bytes \<Rightarrow> bytes \<Rightarrow> nat \<Rightarrow> nat list" where
  "occurrences s q p =
     (case str_find s q p of None \<Rightarrow> []
      | Some i \<Rightarrow> i # (if length s - length q < i then [] else occurrences s q (i + 1)))"
  by pat_completeness auto
termination
  by (relation "measure (\<lambda>(s, q, p). length s + 1 - p)") (auto simp: str_find_Some dest: occurs_at_bound)

declare occurrences.simps [simp del]

lemma set_occurrences: "set (occurrences s q p) = {i. p \<le> i \<and> occurs_at s q i}"
proof (induction s q p rule: occurrences.induct)
  case (1 s q p)
  show ?case
  proof (cases "str_find s q p")
    case None
    then have "\<forall>i \<ge> p. \<not> occurs_at s q i" by (simp add: str_find_None)
    with None show ?thesis by (auto simp: occurrences.simps [of s q p])
  next
    case (Some i)
    then have i: "p \<le> i" "occurs_at s q i" "\<And>j. p \<le> j \<Longrightarrow> j < i \<Longrightarrow> \<not> occurs_at s q j" by (auto simp: str_find_Some)
    then have le: "\<not> length s - length q < i" using occurs_at_bound [of s q i] by simp
    have "set (occurrences s q p) = insert i {j. i + 1 \<le> j \<and> occurs_at s q j}"
      using 1 [OF Some le] Some le by (simp add: occurrences.simps [of s q p])
    also have "\<dots> = {j. p \<le> j \<and> occurs_at s q j}"
      using i by (auto simp: Suc_le_eq) (metis linorder_neqE_nat)
    finally show ?thesis .
  qed
qed

lemma sorted_occurrences: "sorted (occurrences s q p)"
proof (induction s q p rule: occurrences.induct)
  case (1 s q p)
  then show ?case
    by (subst occurrences.simps) (auto split: option.splits simp: set_occurrences)
qed

section \<open>Regions around one literal\<close>

definition push_region :: "bounded_region list \<Rightarrow> bounded_region \<Rightarrow> bounded_region list" where
  "push_region rs r =
     (if rs \<noteq> [] \<and> candidate_begin r \<le> candidate_end (last rs)
      then butlast rs @ [(last rs)\<lparr>candidate_end := max (candidate_end (last rs)) (candidate_end r),
                                  region_begin := min (region_begin (last rs)) (region_begin r),
                                  region_end := max (region_end (last rs)) (region_end r)\<rparr>]
      else rs @ [r])"

definition literal_region :: "nat \<Rightarrow> nat \<Rightarrow> nat \<Rightarrow> nat \<Rightarrow> nat \<Rightarrow> nat \<Rightarrow> bounded_region" where
  "literal_region rb re len width lookahead off =
     (let absolute = rb + off;
          start_slack = width - len;
          b = (if start_slack < absolute then max rb (absolute - start_slack) else rb);
          e = min (re + 1) (absolute + 1);
          extension = (if u64_max - lookahead < width then u64_max else width + lookahead)
      in \<lparr>candidate_begin = b, candidate_end = e, region_begin = b,
          region_end = (if re - e < extension then re else e + extension)\<rparr>)"

definition proper_region :: "bounded_region \<Rightarrow> bool" where
  "proper_region r \<longleftrightarrow> candidate_begin r < candidate_end r \<and> candidate_begin r < region_end r"

definition bounded_regex_regions ::
  "bytes \<Rightarrow> nat \<Rightarrow> nat \<Rightarrow> bytes \<Rightarrow> regex_analysis \<Rightarrow> bounded_region list" where
  "bounded_regex_regions rec rb re lit a =
     (if lit = [] \<or> rec = [] then []
      else let width = bound_value (ra_byte_upper a) in
        if width < length lit then []
        else foldl push_region []
               (filter proper_region
                 (map (literal_region rb re (length lit) width (bound_value (ra_forward_bytes a)))
                   (occurrences rec lit 0))))"

section \<open>Literal offsets\<close>

record literal_offset =
  lo_literal :: bytes
  lo_min_start :: nat
  lo_max_start :: nat

record literal_summary =
  ls_min_width :: nat
  ls_max_width :: nat
  ls_finite :: bool
  ls_mandatory_known :: bool
  ls_literals :: "literal_offset list"

definition sat_add :: "nat \<Rightarrow> nat \<Rightarrow> nat" where
  "sat_add a b = (if u64_max - b < a then u64_max else a + b)"

definition sat_mul :: "nat \<Rightarrow> nat \<Rightarrow> nat" where
  "sat_mul a b = (if a \<noteq> 0 \<and> u64_max div a < b then u64_max else a * b)"

definition empty_summary :: literal_summary where
  "empty_summary = \<lparr>ls_min_width = 0, ls_max_width = 0, ls_finite = True, ls_mandatory_known = True, ls_literals = []\<rparr>"

definition shift_literal :: "nat \<Rightarrow> nat \<Rightarrow> literal_offset \<Rightarrow> literal_offset" where
  "shift_literal mn mx l = l\<lparr>lo_min_start := sat_add mn (lo_min_start l), lo_max_start := sat_add mx (lo_max_start l)\<rparr>"

text \<open>The concatenation loop keeps the two prefix widths in the summary's width fields.\<close>

definition summary_concat :: "literal_summary \<Rightarrow> literal_summary \<Rightarrow> literal_summary" where
  "summary_concat o1 part =
     \<lparr>ls_min_width = sat_add (ls_min_width o1) (ls_min_width part),
      ls_max_width = sat_add (ls_max_width o1) (ls_max_width part),
      ls_finite = ls_finite o1 \<and> ls_finite part,
      ls_mandatory_known = ls_mandatory_known o1 \<and> ls_mandatory_known part,
      ls_literals = ls_literals o1 @ map (shift_literal (ls_min_width o1) (ls_max_width o1)) (ls_literals part)\<rparr>"

definition summary_alt :: "literal_summary list \<Rightarrow> literal_summary" where
  "summary_alt parts =
     \<lparr>ls_min_width = (case parts of [] \<Rightarrow> 0 | x # xs \<Rightarrow> foldl (\<lambda>m y. min m (ls_min_width y)) (ls_min_width x) xs),
      ls_max_width = (case parts of [] \<Rightarrow> 0 | x # xs \<Rightarrow> foldl (\<lambda>m y. max m (ls_max_width y)) (ls_max_width x) xs),
      ls_finite = (\<forall>x \<in> set parts. ls_finite x), ls_mandatory_known = False, ls_literals = []\<rparr>"

definition summary_repeat :: "nat \<Rightarrow> nat option \<Rightarrow> literal_summary \<Rightarrow> literal_summary" where
  "summary_repeat mn mx part =
     (let maxw = (case mx of None \<Rightarrow> u64_max | Some m \<Rightarrow> sat_mul (ls_max_width part) m)
      in \<lparr>ls_min_width = sat_mul (ls_min_width part) mn,
          ls_max_width = maxw,
          ls_finite = ls_finite part \<and> mx \<noteq> None,
          ls_mandatory_known = ls_mandatory_known part \<and> mn \<noteq> 0,
          ls_literals = (if mn = 0 \<or> mx = None then []
             else map (\<lambda>l. l\<lparr>lo_min_start := 0,
                             lo_max_start := if length (lo_literal l) < maxw then maxw - length (lo_literal l) else 0\<rparr>)
                    (ls_literals part))\<rparr>)"

fun literal_offsets :: "node \<Rightarrow> literal_summary" where
  "literal_offsets (KLiteral f lit) =
     empty_summary\<lparr>ls_min_width := length lit, ls_max_width := length lit,
       ls_literals := (if lit \<noteq> [] \<and> \<not> rf_icase f then [\<lparr>lo_literal = lit, lo_min_start = 0, lo_max_start = 0\<rparr>] else [])\<rparr>"
| "literal_offsets (KDot f) = empty_summary\<lparr>ls_min_width := 1, ls_max_width := 4\<rparr>"
| "literal_offsets (KClass f cls) = empty_summary\<lparr>ls_min_width := 1, ls_max_width := 4\<rparr>"
| "literal_offsets (KGroup f g c) = literal_offsets c"
| "literal_offsets (KConcat f cs) = foldl summary_concat empty_summary (map (\<lambda>c. literal_offsets c) cs)"
| "literal_offsets (KAlt f cs) = summary_alt (map (\<lambda>c. literal_offsets c) cs)"
| "literal_offsets (KRepeat f mn mx g c) = summary_repeat mn mx (literal_offsets c)"
| "literal_offsets (KBackRef f g) = empty_summary\<lparr>ls_finite := False, ls_mandatory_known := False\<rparr>"
| "literal_offsets (KLookAhead f neg c) = empty_summary\<lparr>ls_finite := False, ls_mandatory_known := False\<rparr>"
| "literal_offsets (KLookBehind f neg c) = empty_summary\<lparr>ls_finite := False, ls_mandatory_known := False\<rparr>"
| "literal_offsets n = empty_summary"

section \<open>Joins\<close>

type_synonym interval = "nat \<times> nat"

definition constraint_interval :: "nat \<Rightarrow> nat \<Rightarrow> literal_offset \<Rightarrow> nat \<Rightarrow> interval list" where
  "constraint_interval rb re l off =
     (let absolute = rb + off in
      if lo_min_start l \<le> absolute - rb
      then let low = (if lo_max_start l < absolute then max rb (absolute - lo_max_start l) else rb);
               start = absolute - lo_min_start l;
               high = min (re + 1) (sat_add start 1)
           in if low < high then [(low, high)] else []
      else [])"

function intersect_intervals :: "interval list \<Rightarrow> interval list \<Rightarrow> interval list" where
  "intersect_intervals (x # xs) (y # ys) =
     (let b = max (fst x) (fst y); e = min (snd x) (snd y);
          rest = (if snd x < snd y then intersect_intervals xs (y # ys) else intersect_intervals (x # xs) ys)
      in if b < e then (b, e) # rest else rest)"
| "intersect_intervals [] ys = []"
| "intersect_intervals (x # xs) [] = []"
  by pat_completeness auto
termination by (relation "measure (\<lambda>(xs, ys). length xs + length ys)") auto

text \<open>\<open>None\<close> is the early return of an empty list of regions.\<close>

fun join_constraints :: "bytes \<Rightarrow> nat \<Rightarrow> nat \<Rightarrow> literal_offset list \<Rightarrow> interval list \<Rightarrow> interval list option" where
  "join_constraints rec rb re [] joined = Some joined"
| "join_constraints rec rb re (l # ls) joined =
     (if lo_literal l = [] then None
      else let current = concat (map (constraint_interval rb re l) (occurrences rec (lo_literal l) 0))
           in if current = [] then None
              else if joined = [] then join_constraints rec rb re ls current
              else let next = intersect_intervals joined current
                   in if next = [] then None else join_constraints rec rb re ls next)"

definition joined_region :: "nat \<Rightarrow> nat \<Rightarrow> regex_analysis \<Rightarrow> interval \<Rightarrow> bounded_region" where
  "joined_region rb re a iv =
     (let back = bound_value (ra_backward_bytes a);
          ext = sat_add (bound_value (ra_byte_upper a)) (bound_value (ra_forward_bytes a))
      in \<lparr>candidate_begin = fst iv, candidate_end = snd iv,
          region_begin = (if back < fst iv then max rb (fst iv - back) else rb),
          region_end = min re (sat_add (snd iv) ext)\<rparr>)"

definition bounded_regex_regions_joined ::
  "bytes \<Rightarrow> nat \<Rightarrow> nat \<Rightarrow> literal_offset list \<Rightarrow> regex_analysis \<Rightarrow> bounded_region list" where
  "bounded_regex_regions_joined rec rb re cs a =
     (if cs = [] \<or> rec = [] then []
      else case join_constraints rec rb re cs [] of
             None \<Rightarrow> []
           | Some joined \<Rightarrow>
               foldl push_region []
                 (filter (\<lambda>r. candidate_begin r < candidate_end r \<and> region_begin r < region_end r)
                   (map (joined_region rb re a) joined)))"

end
