(* ===== verification/Vm_Reach.thy ===== *)
theory Vm_Reach
  imports Regex_Vm
begin

text \<open>
  A declarative reading of the patterns: \<open>vm_reach U c n s z\<close> says that node \<open>n\<close> can take state
  \<open>s\<close> to state \<open>z\<close>.  It leaves out the resource bounds and the order of the alternatives, and
  over-approximates back-references and negated look-arounds.  Everything \<open>eval\<close> returns is
  reachable in this sense, so bounds and necessary conditions are proved by rule induction.
\<close>

section \<open>One equation per node kind\<close>

lemmas eval_node =
  eval.simps [of U "KEmpty f" for U f, simplified node.case]
  eval.simps [of U "KLiteral f l" for U f l, simplified node.case]
  eval.simps [of U "KDot f" for U f, simplified node.case]
  eval.simps [of U "KClass f k" for U f k, simplified node.case]
  eval.simps [of U "KBegin f" for U f, simplified node.case]
  eval.simps [of U "KEnd f" for U f, simplified node.case]
  eval.simps [of U "KAbsBegin f" for U f, simplified node.case]
  eval.simps [of U "KAbsEnd f" for U f, simplified node.case]
  eval.simps [of U "KEndNewline f" for U f, simplified node.case]
  eval.simps [of U "KWordBoundary f g" for U f g, simplified node.case]
  eval.simps [of U "KWordStartHalf f" for U f, simplified node.case]
  eval.simps [of U "KWordEndHalf f" for U f, simplified node.case]
  eval.simps [of U "KConcat f cs" for U f cs, simplified node.case]
  eval.simps [of U "KAlt f cs" for U f cs, simplified node.case]
  eval.simps [of U "KRepeat f a b g n" for U f a b g n, simplified node.case]
  eval.simps [of U "KGroup f g n" for U f g n, simplified node.case]
  eval.simps [of U "KBackRef f g" for U f g, simplified node.case]
  eval.simps [of U "KLookAhead f g n" for U f g n, simplified node.case]
  eval.simps [of U "KLookBehind f g n" for U f g n, simplified node.case]

section \<open>Reachability\<close>

inductive vm_reach :: "icu \<Rightarrow> verifier_context \<Rightarrow> node \<Rightarrow> vm_state \<Rightarrow> vm_state \<Rightarrow> bool"
  and vm_path :: "icu \<Rightarrow> verifier_context \<Rightarrow> node list \<Rightarrow> vm_state \<Rightarrow> vm_state \<Rightarrow> bool"
  and vm_iter :: "icu \<Rightarrow> verifier_context \<Rightarrow> node \<Rightarrow> nat \<Rightarrow> vm_state \<Rightarrow> vm_state \<Rightarrow> bool"
  for U :: icu where
  reach_empty: "vm_reach U c (KEmpty f) s s"
| reach_literal: "context_literal_at U c (vs_pos s) lit (rf_icase f) = Some e \<Longrightarrow>
    vm_reach U c (KLiteral f lit) s (s\<lparr>vs_pos := e\<rparr>)"
| reach_dot: "context_rune_at U c (vs_pos s) = Some (cp, nx) \<Longrightarrow> rf_dotall f \<or> cp \<noteq> byte_cp (c_separator c) \<Longrightarrow>
    vm_reach U c (KDot f) s (s\<lparr>vs_pos := nx\<rparr>)"
| reach_class: "context_rune_at U c (vs_pos s) = Some (cp, nx) \<Longrightarrow> class_match U cls cp (rf_icase f) \<Longrightarrow>
    vm_reach U c (KClass f cls) s (s\<lparr>vs_pos := nx\<rparr>)"
| reach_begin: "assert_begin f c (vs_pos s) \<Longrightarrow> vm_reach U c (KBegin f) s s"
| reach_end: "assert_end f c (vs_pos s) \<Longrightarrow> vm_reach U c (KEnd f) s s"
| reach_abs_begin: "vs_pos s = c_record_begin c \<Longrightarrow> vm_reach U c (KAbsBegin f) s s"
| reach_abs_end: "vs_pos s = c_record_end c \<Longrightarrow> vm_reach U c (KAbsEnd f) s s"
| reach_end_newline: "assert_end_newline f c (vs_pos s) \<Longrightarrow> vm_reach U c (KEndNewline f) s s"
| reach_word: "assert_word U f neg c (vs_pos s) \<Longrightarrow> vm_reach U c (KWordBoundary f neg) s s"
| reach_word_start: "assert_word_start_half U f c (vs_pos s) \<Longrightarrow> vm_reach U c (KWordStartHalf f) s s"
| reach_word_end: "assert_word_end_half U f c (vs_pos s) \<Longrightarrow> vm_reach U c (KWordEndHalf f) s s"
| reach_concat: "vm_path U c chs s z \<Longrightarrow> vm_reach U c (KConcat f chs) s z"
| reach_alt: "ch \<in> set chs \<Longrightarrow> vm_reach U c ch s z \<Longrightarrow> vm_reach U c (KAlt f chs) s z"
| reach_group: "vm_reach U c ch s z \<Longrightarrow>
    vm_reach U c (KGroup f g ch) s (z\<lparr>vs_caps := set_capture g (vs_pos s) (vs_pos z) (vs_caps z)\<rparr>)"
| reach_backref: "context_literal_at U c (vs_pos s) lit (rf_icase f) = Some e \<Longrightarrow>
    vm_reach U c (KBackRef f g) s (s\<lparr>vs_pos := e\<rparr>)"
| reach_lookahead_neg: "vm_reach U c (KLookAhead f True ch) s s"
| reach_lookahead: "vm_reach U c ch s z \<Longrightarrow> vm_reach U c (KLookAhead f False ch) s (z\<lparr>vs_pos := vs_pos s\<rparr>)"
| reach_lookbehind_neg: "vm_reach U c (KLookBehind f True ch) s s"
| reach_lookbehind: "vm_reach U (lookbehind_context c) ch (s\<lparr>vs_pos := p\<rparr>) z \<Longrightarrow>
    p \<in> set (lookbehind_starts U c (vs_pos s) (lookbehind_low c False (vs_pos s))) \<Longrightarrow> vs_pos z = vs_pos s \<Longrightarrow>
    vm_reach U c (KLookBehind f False ch) s z"
| reach_repeat: "vm_iter U c ch k s z \<Longrightarrow> mn \<le> k \<Longrightarrow> (case mx of None \<Rightarrow> True | Some m \<Rightarrow> k \<le> m) \<Longrightarrow>
    vm_reach U c (KRepeat f mn mx greedy ch) s z"
| path_nil: "vm_path U c [] s s"
| path_cons: "vm_reach U c ch s m \<Longrightarrow> vm_path U c chs m z \<Longrightarrow> vm_path U c (ch # chs) s z"
| iter_zero: "vm_iter U c ch 0 s s"
| iter_Suc: "vm_iter U c ch k s m \<Longrightarrow> vm_reach U c ch m z \<Longrightarrow> vm_iter U c ch (Suc k) s z"

inductive_cases vm_path_NilE: "vm_path U c [] s z"
inductive_cases vm_path_ConsE: "vm_path U c (ch # chs) s z"

section \<open>The loops only produce reachable states\<close>

lemma step_all_mem:
  "step_all f sts acc = Inr r \<Longrightarrow> z \<in> set r \<Longrightarrow> z \<in> set acc \<or> (\<exists>st \<in> set sts. \<exists>v. f st = Inr v \<and> z \<in> set v)"
proof (induction f sts acc rule: step_all.induct)
  case (2 f st sts acc)
  then obtain v where v: "f st = Inr v" by (auto split: sum.splits)
  with 2 have "z \<in> set (acc @ v) \<or> (\<exists>st \<in> set sts. \<exists>v. f st = Inr v \<and> z \<in> set v)"
    by (auto simp: Let_def split: if_splits)
  with v show ?case by auto
qed auto

lemma step_level_mem:
  "step_level f sts = Inr r \<Longrightarrow> z \<in> set r \<Longrightarrow>
     \<exists>st \<in> set sts. \<exists>v. f st = Inr v \<and> z \<in> set v \<and> vs_pos z \<noteq> vs_pos st"
  by (induction sts arbitrary: r) (auto split: sum.splits; fastforce)+

lemma repeat_levels_mem:
  assumes "repeat_levels f n levels tot all = Inr r" "all \<noteq> []" "levels = last all"
    and "\<And>k z. k < length all \<Longrightarrow> z \<in> set (all ! k) \<Longrightarrow> P k z"
    and "\<And>k m v z. P k m \<Longrightarrow> f m = Inr v \<Longrightarrow> z \<in> set v \<Longrightarrow> vs_pos z \<noteq> vs_pos m \<Longrightarrow> P (Suc k) z"
  shows "length r \<le> length all + n \<and> (\<forall>k < length r. \<forall>z \<in> set (r ! k). P k z)"
  using assms
proof (induction f n levels tot all rule: repeat_levels.induct)
  case (2 f n levels tot all)
  obtain nxt where nxt: "step_level f levels = Inr nxt"
    using "2.prems"(1) by (auto split: sum.splits)
  show ?case
  proof (cases "nxt = []")
    case True
    with 2 nxt show ?thesis by auto
  next
    case False
    with "2.prems"(1) nxt have r: "repeat_levels f n nxt (tot + length nxt) (all @ [nxt]) = Inr r"
      and lim: "\<not> 50000 < length nxt" "\<not> 50000 < tot + length nxt" by (auto split: if_splits)
    have new: "P (length all) z" if "z \<in> set nxt" for z
    proof -
      from step_level_mem [OF nxt that] obtain st v where st: "st \<in> set levels" "f st = Inr v" "z \<in> set v" "vs_pos z \<noteq> vs_pos st"
        by blast
      have "P (length all - 1) st"
        using "2.prems"(2,3) st(1) by (intro "2.prems"(4)) (auto simp: last_conv_nth)
      from "2.prems"(5) [OF this st(2-4)] "2.prems"(2) show ?thesis by (cases all) auto
    qed
    have "length r \<le> length (all @ [nxt]) + n \<and> (\<forall>k < length r. \<forall>z \<in> set (r ! k). P k z)"
      by (rule "2.IH" [OF nxt False lim r]) (use "2.prems"(4,5) new in \<open>auto simp: nth_append less_Suc_eq\<close>)
    then show ?thesis by simp
  qed
qed auto

lemma repeat_out_mem:
  "repeat_out mn greedy all = Inr out \<Longrightarrow> z \<in> set out \<Longrightarrow> \<exists>k. mn \<le> k \<and> k < length all \<and> z \<in> set (all ! k)"
proof -
  assume "repeat_out mn greedy all = Inr out" "z \<in> set out"
  then have "z \<in> set (concat (drop mn all))" by (auto simp: repeat_out_def Let_def split: if_splits)
  then obtain l where "l \<in> set (drop mn all)" "z \<in> set l" by auto
  then obtain i where "i < length (drop mn all)" "z \<in> set (drop mn all ! i)" by (metis in_set_conv_nth)
  then show ?thesis by (intro exI [of _ "mn + i"]) auto
qed

lemma lookbehind_all_mem:
  "lookbehind_all f s ps = Inr r \<Longrightarrow> z \<in> set r \<Longrightarrow>
     \<exists>p \<in> set ps. \<exists>v. f (s\<lparr>vs_pos := p\<rparr>) = Inr v \<and> z \<in> set v \<and> vs_pos z = vs_pos s"
  by (induction ps arbitrary: r) (auto split: sum.splits; fastforce)+

lemma repeat_limit_le: "k \<le> repeat_limit c mx pos \<Longrightarrow> (case mx of None \<Rightarrow> True | Some m \<Rightarrow> k \<le> m)"
  by (auto simp: repeat_limit_def Let_def split: option.splits)

section \<open>Soundness of the matcher\<close>

definition eval_sound :: "icu \<Rightarrow> node \<Rightarrow> bool" where
  "eval_sound U n \<longleftrightarrow>
     (\<forall>c depth s v z. eval U n c depth s = Inr v \<longrightarrow> z \<in> set v \<longrightarrow> vm_reach U c n s z)"

lemma eval_soundD: "eval_sound U n \<Longrightarrow> eval U n c depth s = Inr v \<Longrightarrow> z \<in> set v \<Longrightarrow> vm_reach U c n s z"
  unfolding eval_sound_def by blast

lemma eval_concat_sound:
  assumes "\<And>ch. ch \<in> set chs \<Longrightarrow> eval_sound U ch" "eval_concat U chs c depth cur = Inr r" "z \<in> set r"
  shows "\<exists>s \<in> set cur. vm_path U c chs s z"
  using assms
proof (induction chs arbitrary: cur)
  case Nil
  then show ?case by (auto intro: path_nil)
next
  case (Cons ch chs)
  from Cons.prems(2) obtain nxt where nxt: "step_all (\<lambda>q. eval U ch c (depth + 1) q) cur [] = Inr nxt"
    by (auto split: sum.splits)
  with Cons.prems have "eval_concat U chs c depth nxt = Inr r" by (auto split: if_splits)
  with Cons obtain m where m: "m \<in> set nxt" "vm_path U c chs m z" by auto
  from step_all_mem [OF nxt m(1)] obtain s v where "s \<in> set cur" "eval U ch c (depth + 1) s = Inr v" "m \<in> set v" by auto
  moreover from this have "vm_reach U c ch s m" using Cons.prems(1) eval_soundD by auto
  ultimately show ?case using m(2) by (auto intro: path_cons)
qed

lemma eval_alt_sound:
  assumes "\<And>ch. ch \<in> set chs \<Longrightarrow> eval_sound U ch" "eval_alt U chs c depth s out = Inr r" "z \<in> set r"
  shows "z \<in> set out \<or> (\<exists>ch \<in> set chs. vm_reach U c ch s z)"
  using assms
proof (induction chs arbitrary: out)
  case (Cons ch chs)
  from Cons.prems(2) obtain v where v: "eval U ch c (depth + 1) s = Inr v" by (auto split: sum.splits)
  with Cons.prems have "eval_alt U chs c depth s (out @ v) = Inr r" by (auto simp: Let_def split: if_splits)
  from Cons.IH [OF Cons.prems(1) this Cons.prems(3)]
  have "z \<in> set (out @ v) \<or> (\<exists>ch \<in> set chs. vm_reach U c ch s z)" by simp
  moreover have "vm_reach U c ch s z" if "z \<in> set v" using eval_soundD [OF Cons.prems(1) v that] by simp
  ultimately show ?case by auto
qed auto

lemma eval_repeat_sound:
  assumes "eval_sound U ch"
    and "repeat_levels (\<lambda>q. eval U ch c depth q) n [s] 1 [[s]] = Inr all" "repeat_out mn greedy all = Inr r" "z \<in> set r"
  shows "\<exists>k. vm_iter U c ch k s z \<and> mn \<le> k \<and> k \<le> n"
proof -
  have "length all \<le> length [[s]] + n \<and> (\<forall>k < length all. \<forall>z \<in> set (all ! k). vm_iter U c ch k s z)"
    by (rule repeat_levels_mem [OF assms(2), where P = "\<lambda>k z. vm_iter U c ch k s z"])
      (auto intro: iter_zero iter_Suc eval_soundD [OF assms(1)])
  with repeat_out_mem [OF assms(3,4)] show ?thesis by fastforce
qed

lemma single_mem: "single ok s = Inr v \<Longrightarrow> z \<in> set v \<Longrightarrow> ok \<and> z = s"
  by (auto simp: single_def split: if_splits)

lemma eval_sound_all: "eval_sound U n"
proof (induction n)
  case (KConcat f chs)
  show ?case
    unfolding eval_sound_def
  proof (intro allI impI)
    fix c depth and s :: vm_state and v and z :: vm_state
    assume "eval U (KConcat f chs) c depth s = Inr v" "z \<in> set v"
    with eval_concat_sound [OF KConcat, of chs c depth "[s]" v z] show "vm_reach U c (KConcat f chs) s z"
      by (auto simp: eval_node split: if_splits intro: reach_concat)
  qed
next
  case (KAlt f chs)
  show ?case
    unfolding eval_sound_def
  proof (intro allI impI)
    fix c depth and s :: vm_state and v and z :: vm_state
    assume "eval U (KAlt f chs) c depth s = Inr v" "z \<in> set v"
    with eval_alt_sound [OF KAlt, of chs c depth s "[]" v z] show "vm_reach U c (KAlt f chs) s z"
      by (auto simp: eval_node split: if_splits intro: reach_alt)
  qed
next
  case (KRepeat f mn mx greedy ch)
  show ?case
    unfolding eval_sound_def
  proof (intro allI impI)
    fix c depth and s :: vm_state and v and z :: vm_state
    assume ev: "eval U (KRepeat f mn mx greedy ch) c depth s = Inr v" and z: "z \<in> set v"
    from ev obtain all where all: "repeat_levels (\<lambda>q. eval U ch c (depth + 1) q) (repeat_limit c mx (vs_pos s)) [s] 1 [[s]] = Inr all"
      "repeat_out mn greedy all = Inr v" by (auto simp: eval_node split: if_splits sum.splits)
    from eval_repeat_sound [OF KRepeat all z] obtain k where "vm_iter U c ch k s z" "mn \<le> k" "k \<le> repeat_limit c mx (vs_pos s)"
      by blast
    with repeat_limit_le show "vm_reach U c (KRepeat f mn mx greedy ch) s z" by (blast intro: reach_repeat)
  qed
next
  case (KGroup f g ch)
  then show ?case
    unfolding eval_sound_def [of U "KGroup f g ch"]
    by (auto simp: eval_node split: if_splits sum.splits dest!: eval_soundD intro!: reach_group)
next
  case (KLookAhead f neg ch)
  then show ?case
    unfolding eval_sound_def [of U "KLookAhead f neg ch"]
    by (auto simp: eval_node split: if_splits sum.splits dest!: single_mem eval_soundD intro: reach_lookahead reach_lookahead_neg)
next
  case (KLookBehind f neg ch)
  show ?case
    unfolding eval_sound_def [of U "KLookBehind f neg ch"]
  proof (intro allI impI)
    fix c depth and s :: vm_state and v and z :: vm_state
    let ?look = "lookbehind_context c"
    let ?st = "lookbehind_starts U c (vs_pos s) (lookbehind_low c neg (vs_pos s))"
    assume ev: "eval U (KLookBehind f neg ch) c depth s = Inr v" and z: "z \<in> set v"
    show "vm_reach U c (KLookBehind f neg ch) s z"
    proof (cases neg)
      case True
      with ev z have "z = s" by (auto simp: eval_node Let_def split: if_splits sum.splits dest!: single_mem)
      with True show ?thesis by (simp add: reach_lookbehind_neg)
    next
      case False
      with ev z obtain r z' where r: "lookbehind_all (\<lambda>q. eval U ch ?look (depth + 1) q) s ?st = Inr r"
        and z': "z' \<in> set r" "z = z'\<lparr>vs_pos := vs_pos s\<rparr>"
        by (auto simp: eval_node Let_def split: if_splits sum.splits)
      from lookbehind_all_mem [OF r z'(1)] obtain p w where p: "p \<in> set ?st"
        "eval U ch ?look (depth + 1) (s\<lparr>vs_pos := p\<rparr>) = Inr w" "z' \<in> set w" "vs_pos z' = vs_pos s" by blast
      then have "vm_reach U ?look ch (s\<lparr>vs_pos := p\<rparr>) z'" using KLookBehind eval_soundD by blast
      moreover have "z = z'" using z'(2) p(4) by simp
      ultimately show ?thesis using False p by (auto intro: reach_lookbehind)
    qed
  qed
next
  case (KBackRef f g)
  then show ?case
    unfolding eval_sound_def
    by (auto simp: eval_node split: if_splits option.splits prod.splits intro: reach_backref)
qed (auto simp: eval_sound_def eval_node single_def split: if_splits option.splits
      intro: reach_empty reach_literal reach_dot reach_class reach_begin reach_end reach_abs_begin reach_abs_end
        reach_end_newline reach_word reach_word_start reach_word_end)

end
