(* ===== verification/Query_Sound.thy ===== *)
theory Query_Sound
  imports Vm_Reach Query_IR
begin

text \<open>
  The literals and filters extracted from a pattern are necessary conditions of a match.  The
  literals must consist of runes that decode only from their own encoding
  (\<open>plain_literal\<close>): a code point in U+0080..U+00FF also matches the undecodable byte of the
  same value, which a byte-wise filter does not see.
\<close>

section \<open>Plain literals\<close>

function plain_from :: "icu \<Rightarrow> bytes \<Rightarrow> nat \<Rightarrow> bool" where
  "plain_from U s p =
     (case rune_at U s p of None \<Rightarrow> True
      | Some (cp, nx) \<Rightarrow> plain_cp cp \<and> (if p < nx \<and> nx \<le> length s then plain_from U s nx else True))"
  by pat_completeness auto
termination by (relation "measure (\<lambda>(U, s, p). length s - p)") auto

declare plain_from.simps [simp del]

definition plain_literal :: "icu \<Rightarrow> bytes \<Rightarrow> bool" where
  "plain_literal U lit = plain_from U lit 0"

fun plain_node :: "icu \<Rightarrow> node \<Rightarrow> bool" where
  "plain_node U (KLiteral f lit) = (rf_icase f \<or> plain_literal U lit)"
| "plain_node U (KConcat f cs) = (\<forall>c \<in> set cs. plain_node U c)"
| "plain_node U (KAlt f cs) = (\<forall>c \<in> set cs. plain_node U c)"
| "plain_node U (KRepeat f mn mx g c) = plain_node U c"
| "plain_node U (KGroup f g c) = plain_node U c"
| "plain_node U (KLookAhead f neg c) = plain_node U c"
| "plain_node U (KLookBehind f neg c) = plain_node U c"
| "plain_node U _ = True"

section \<open>A matched literal occurs in the source\<close>

lemma drop_split: "i \<le> j \<Longrightarrow> drop i s = substr s i (j - i) @ drop j s"
  unfolding substr_def by (metis append_take_drop_id drop_drop le_add_diff_inverse2)

lemma substr_split:
  assumes "i \<le> j" "j \<le> k"
  shows "substr s i (k - i) = substr s i (j - i) @ substr s j (k - j)"
proof -
  have "k - i = (j - i) + (k - j)" "(j - i) + i = j" using assms by simp_all
  then show ?thesis unfolding substr_def by (simp only: take_add drop_drop)
qed

lemma literal_loop_plain:
  assumes "icu_ok U" "literal_loop U c lit False tp lp = Some e" "plain_from U lit lp"
    "c_source_begin c \<le> tp" "tp \<le> c_source_end c" "lp \<le> length lit"
  shows "tp \<le> e \<and> e \<le> c_source_end c \<and> substr (c_source c) (tp - c_source_begin c) (e - tp) = drop lp lit"
  using assms
proof (induction U c lit "False" tp lp rule: literal_loop.induct)
  case (1 U c lit tp lp)
  show ?case
  proof (cases "lp < length lit")
    case False
    with 1 show ?thesis by (simp add: literal_loop.simps [of U c lit False tp lp] substr_def)
  next
    case True
    with "1.prems"(2) obtain a tp' b lp' where a: "context_rune_at U c tp = Some (a, tp')"
      and b: "rune_at U lit lp = Some (b, lp')" and eq: "cp_eq U a b False" "\<not> lp' \<le> lp"
      and rest: "literal_loop U c lit False tp' lp' = Some e"
      by (auto simp: literal_loop.simps [of U c lit False tp lp] split: option.splits if_splits)
    have ab: "a = b" using eq by (simp add: cp_eq_def)
    from context_rune_at_source [OF a] obtain q where q: "rune_at U (c_source c) (tp - c_source_begin c) = Some (a, q)"
      "tp' = q + c_source_begin c" by blast
    note bt = context_rune_at_bounds [OF "1.prems"(1) a] and bl = rune_at_bounds [OF "1.prems"(1) b]
    have pl: "plain_cp b" "plain_from U lit lp'"
      using "1.prems"(3) b bl by (auto simp: plain_from.simps [of U lit lp])
    have step: "substr (c_source c) (tp - c_source_begin c) (tp' - tp) = substr lit lp (lp' - lp)"
      using rune_at_plain [OF "1.prems"(1) q(1)] rune_at_plain [OF "1.prems"(1) b] ab pl(1) q(2) "1.prems"(4)
      by simp
    have IH: "tp' \<le> e \<and> e \<le> c_source_end c \<and> substr (c_source c) (tp' - c_source_begin c) (e - tp') = drop lp' lit"
      by (rule "1.hyps" [OF True _ a refl b refl _ "1.prems"(1) rest pl(2)])
        (use eq bt bl "1.prems" in auto)
    have "substr (c_source c) (tp - c_source_begin c) (e - tp) =
        substr (c_source c) (tp - c_source_begin c) (tp' - tp) @ substr (c_source c) (tp' - c_source_begin c) (e - tp')"
      using substr_split [of "tp - c_source_begin c" "tp' - c_source_begin c" "e - c_source_begin c" "c_source c"]
        bt(1) IH "1.prems"(4) by (simp add: diff_le_mono)
    also have "\<dots> = drop lp lit"
      using step IH drop_split [of lp lp' lit] bl(1) by simp
    finally show ?thesis using IH bt(1) by simp
  qed
qed


section \<open>Positions\<close>

inductive_cases reach_LiteralE: "vm_reach U c (KLiteral f lit) s z"
inductive_cases reach_AltE: "vm_reach U c (KAlt f cs) s z"
inductive_cases reach_GroupE: "vm_reach U c (KGroup f g ch) s z"
inductive_cases vm_iter_zeroE: "vm_iter U c ch 0 s z"

definition in_source :: "verifier_context \<Rightarrow> nat \<Rightarrow> bool" where
  "in_source c pos \<longleftrightarrow> c_source_end c = c_source_begin c + length (c_source c) \<and>
     c_source_begin c \<le> c_record_begin c \<and> c_source_begin c \<le> pos \<and> pos \<le> c_source_end c"

lemma in_sourceD: "in_source c pos \<Longrightarrow> c_source_begin c \<le> pos" "in_source c pos \<Longrightarrow> pos \<le> c_source_end c"
  by (simp_all add: in_source_def)

lemma in_source_le: "in_source c p \<Longrightarrow> p \<le> q \<Longrightarrow> q \<le> c_source_end c \<Longrightarrow> in_source c q"
  by (simp add: in_source_def)

lemma lookbehind_context_source [simp]:
  "c_source (lookbehind_context c) = c_source c" "c_source_begin (lookbehind_context c) = c_source_begin c"
  "c_source_end (lookbehind_context c) = c_source_end c"
  by (simp_all add: lookbehind_context_def)

lemma lookbehind_starts_mem: "p \<in> set (lookbehind_starts U c pos lo) \<Longrightarrow> lo \<le> p \<and> p \<le> pos"
proof (induction U c pos lo rule: lookbehind_starts.induct)
  case (1 U c pos lo)
  then show ?case
    by (subst (asm) (2) lookbehind_starts.simps) (fastforce simp: Let_def split: if_splits)
qed

lemma in_source_lookbehind:
  assumes "in_source c pos" "p \<in> set (lookbehind_starts U c pos (lookbehind_low c neg pos))"
  shows "in_source (lookbehind_context c) p"
  using assms lookbehind_starts_mem [OF assms(2)]
  by (auto simp: in_source_def lookbehind_low_def lookbehind_context_def Let_def split: if_splits)

lemma literal_loop_mono:
  "icu_ok U \<Longrightarrow> literal_loop U c lit ic tp lp = Some e \<Longrightarrow> tp \<le> c_source_end c \<Longrightarrow> tp \<le> e \<and> e \<le> c_source_end c"
proof (induction U c lit ic tp lp rule: literal_loop.induct)
  case (1 U c lit ic tp lp)
  show ?case
  proof (cases "lp < length lit")
    case False
    with 1 show ?thesis by (simp add: literal_loop.simps [of U c lit ic tp lp])
  next
    case True
    with "1.prems"(2) obtain a tp' b lp' where a: "context_rune_at U c tp = Some (a, tp')"
      and b: "rune_at U lit lp = Some (b, lp')" and eq: "\<not> (\<not> cp_eq U a b ic \<or> lp' \<le> lp)"
      and rest: "literal_loop U c lit ic tp' lp' = Some e"
      by (auto simp: literal_loop.simps [of U c lit ic tp lp] split: option.splits if_splits)
    from "1.IH" [OF True _ a refl b refl eq "1.prems"(1) rest] context_rune_at_bounds [OF "1.prems"(1) a]
    show ?thesis by simp
  qed
qed

lemma context_literal_mono:
  "icu_ok U \<Longrightarrow> context_literal_at U c pos lit ic = Some e \<Longrightarrow> pos \<le> c_source_end c \<Longrightarrow> pos \<le> e \<and> e \<le> c_source_end c"
  unfolding context_literal_at_def by (rule literal_loop_mono)

lemma reach_mono:
  assumes "icu_ok U"
  shows "vm_reach U c n s z \<Longrightarrow> vs_pos s \<le> c_source_end c \<Longrightarrow> vs_pos s \<le> vs_pos z \<and> vs_pos z \<le> c_source_end c"
    and "vm_path U c chs s z \<Longrightarrow> vs_pos s \<le> c_source_end c \<Longrightarrow> vs_pos s \<le> vs_pos z \<and> vs_pos z \<le> c_source_end c"
    and "vm_iter U c ch k s z \<Longrightarrow> vs_pos s \<le> c_source_end c \<Longrightarrow> vs_pos s \<le> vs_pos z \<and> vs_pos z \<le> c_source_end c"
proof (induction rule: vm_reach_vm_path_vm_iter.inducts)
  case (reach_dot c s cp nx f)
  from context_rune_at_bounds [OF assms reach_dot(1)] show ?case by simp
next
  case (reach_class c s cp nx cls f)
  from context_rune_at_bounds [OF assms reach_class(1)] show ?case by simp
qed (use context_literal_mono [OF assms] in auto)

lemma reach_literal_occurs:
  assumes "icu_ok U" "vm_reach U c (KLiteral f lit) s z" "plain_literal U lit" "\<not> rf_icase f" "in_source c (vs_pos s)"
  shows "occurs_at (c_source c) lit (vs_pos s - c_source_begin c) \<and> vs_pos z = vs_pos s + length lit"
proof -
  from assms(2) obtain e where e: "context_literal_at U c (vs_pos s) lit False = Some e" "z = s\<lparr>vs_pos := e\<rparr>"
    using assms(4) by (auto elim: reach_LiteralE)
  from literal_loop_plain [OF assms(1) e(1) [unfolded context_literal_at_def]] assms(3,5)
  have le: "vs_pos s \<le> e" "substr (c_source c) (vs_pos s - c_source_begin c) (e - vs_pos s) = lit"
    and "e \<le> c_source_end c" by (simp_all add: plain_literal_def in_source_def)
  have len: "length lit = e - vs_pos s" "vs_pos s - c_source_begin c + length lit \<le> length (c_source c)"
    using arg_cong [OF le(2), of length] \<open>e \<le> c_source_end c\<close> le(1) assms(5) by (auto simp: in_source_def)
  with le e(2) show ?thesis by (simp add: occurs_at_def substr_def)
qed

section \<open>The filter\<close>

lemma reach_filter_all:
  assumes "icu_ok U"
  shows "vm_reach U c n s z \<Longrightarrow> plain_node U n \<Longrightarrow> in_source c (vs_pos s) \<Longrightarrow> filter_matches (query_filter n) (c_source c)"
    and "vm_path U c chs s z \<Longrightarrow> \<forall>ch \<in> set chs. plain_node U ch \<Longrightarrow> in_source c (vs_pos s) \<Longrightarrow>
           \<forall>ch \<in> set chs. filter_matches (query_filter ch) (c_source c)"
    and "vm_iter U c ch k s z \<Longrightarrow> plain_node U ch \<Longrightarrow> in_source c (vs_pos s) \<Longrightarrow> 0 < k \<Longrightarrow>
           filter_matches (query_filter ch) (c_source c)"
proof (induction rule: vm_reach_vm_path_vm_iter.inducts)
  case (reach_literal c s lit f e)
  then have "vm_reach U c (KLiteral f lit) s (s\<lparr>vs_pos := e\<rparr>)" by (simp add: vm_reach_vm_path_vm_iter.reach_literal)
  from reach_literal_occurs [OF assms this] reach_literal show ?case
    by (auto simp: filter_atom_matches contains_str_iff)
next
  case (reach_lookbehind c ch s p z f)
  from in_source_lookbehind [OF reach_lookbehind(6,3)] reach_lookbehind show ?case by simp
next
  case (path_cons c ch s m chs z)
  have "in_source c (vs_pos m)"
    using reach_mono(1) [OF assms path_cons(1)] path_cons(6) in_sourceD in_source_le by blast
  with path_cons show ?case by simp
next
  case (iter_Suc c ch k s m z)
  have "in_source c (vs_pos m)"
    using reach_mono(3) [OF assms iter_Suc(1)] iter_Suc(6) in_sourceD in_source_le by blast
  with iter_Suc show ?case by simp
qed auto

lemmas reach_filter = reach_filter_all(1)

section \<open>Mandatory literals\<close>

lemma occurs_at_append:
  assumes "occurs_at s a (i - length a)" "length a \<le> i" "occurs_at s b i"
  shows "occurs_at s (a @ b) (i - length a)"
proof -
  have "s ! (i - length a + k) = (a @ b) ! k" if "k < length a + length b" for k
  proof (cases "k < length a")
    case True
    with assms(1) show ?thesis by (simp add: occurs_at_nth nth_append)
  next
    case False
    then have "k - length a < length b" using that by simp
    with assms(3) have "s ! (i + (k - length a)) = b ! (k - length a)" unfolding occurs_at_nth by blast
    moreover have "i + (k - length a) = i - length a + k" using False assms(2) by simp
    ultimately show ?thesis using False by (simp only: nth_append if_False)
  qed
  with assms show ?thesis by (simp add: occurs_at_nth)
qed

lemma foldl_inter:
  "m \<in> set (foldl (\<lambda>acc cur. filter (\<lambda>a. a \<in> set cur) acc) acc xs) \<Longrightarrow> m \<in> set acc \<and> (\<forall>x \<in> set xs. m \<in> set x)"
proof (induction xs arbitrary: acc)
  case (Cons x xs)
  from Cons.IH [of "filter (\<lambda>a. a \<in> set x) acc"] Cons.prems show ?case by simp
qed simp

lemma mandatory_alt: "m \<in> set (query_mandatory (KAlt f cs)) \<Longrightarrow> ch \<in> set cs \<Longrightarrow> m \<in> set (query_mandatory ch)"
proof (cases cs)
  case (Cons a as)
  assume "m \<in> set (query_mandatory (KAlt f cs))" "ch \<in> set cs"
  with foldl_inter [of m "query_mandatory a" "map query_mandatory as"] Cons show ?thesis by auto
qed simp

text \<open>The bytes of \<open>run\<close> are those just before offset \<open>i\<close> of \<open>s\<close>.\<close>

definition run_before :: "bytes \<Rightarrow> bytes \<Rightarrow> nat \<Rightarrow> bool" where
  "run_before s run i \<longleftrightarrow> length run \<le> i \<and> occurs_at s run (i - length run)"

lemma run_before_Nil: "run_before s [] i \<longleftrightarrow> i \<le> length s"
  by (simp add: run_before_def)

lemma run_before_contains: "run_before s run i \<Longrightarrow> contains_str s run"
  by (auto simp: run_before_def contains_str_iff)

lemma run_before_append: "run_before s run i \<Longrightarrow> occurs_at s b i \<Longrightarrow> run_before s (run @ b) (i + length b)"
  using occurs_at_append [of s run i b] by (auto simp: run_before_def)

lemma sensitive_literal_Some: "sensitive_literal n = Some lit \<longleftrightarrow> (\<exists>f. n = KLiteral f lit \<and> \<not> rf_icase f)"
  by (cases n) auto

lemma reach_mandatory_all:
  assumes "icu_ok U"
  shows "vm_reach U c n s z \<Longrightarrow> plain_node U n \<Longrightarrow> in_source c (vs_pos s) \<Longrightarrow>
           \<forall>m \<in> set (query_mandatory n). contains_str (c_source c) m"
    and "vm_path U c chs s z \<Longrightarrow> \<forall>ch \<in> set chs. plain_node U ch \<Longrightarrow> in_source c (vs_pos s) \<Longrightarrow>
           \<forall>run out. run_before (c_source c) run (vs_pos s - c_source_begin c) \<longrightarrow> (\<forall>m \<in> set out. contains_str (c_source c) m) \<longrightarrow>
             (\<forall>m \<in> set (concat_runs (map (\<lambda>c. (sensitive_literal c, query_mandatory c)) chs) run out). contains_str (c_source c) m)"
    and "vm_iter U c ch k s z \<Longrightarrow> plain_node U ch \<Longrightarrow> in_source c (vs_pos s) \<Longrightarrow> 0 < k \<Longrightarrow>
           \<forall>m \<in> set (query_mandatory ch). contains_str (c_source c) m"
proof (induction rule: vm_reach_vm_path_vm_iter.inducts)
  case (reach_literal c s lit f e)
  then have "vm_reach U c (KLiteral f lit) s (s\<lparr>vs_pos := e\<rparr>)" by (simp add: vm_reach_vm_path_vm_iter.reach_literal)
  from reach_literal_occurs [OF assms this] reach_literal show ?case
    by (auto simp: contains_str_iff)
next
  case (reach_lookbehind c ch s p z f)
  from in_source_lookbehind [OF reach_lookbehind(6,3)] reach_lookbehind show ?case by simp
next
  case (reach_concat c chs s z f)
  have "run_before (c_source c) [] (vs_pos s - c_source_begin c)"
    using reach_concat(4) by (auto simp: run_before_Nil in_source_def)
  moreover have "\<forall>ch \<in> set chs. plain_node U ch" using reach_concat(3) by simp
  moreover have "\<forall>m \<in> set []. contains_str (c_source c) m" by simp
  ultimately show ?case
    using reach_concat(2) [OF _ reach_concat(4)] unfolding query_mandatory.simps by blast
next
  case (reach_alt ch chs c s z f)
  then have "\<forall>m \<in> set (query_mandatory ch). contains_str (c_source c) m" by simp
  with mandatory_alt [of _ f chs ch] reach_alt(1) show ?case by blast
next
  case (path_nil c s)
  then show ?case using run_before_contains by auto
next
  case (path_cons c ch s m chs z)
  have ins: "in_source c (vs_pos m)"
    using reach_mono(1) [OF assms path_cons(1)] path_cons(6) in_sourceD in_source_le by blast
  have bound: "vs_pos m - c_source_begin c \<le> length (c_source c)" using ins by (auto simp: in_source_def)
  show ?case
  proof (intro allI impI)
    fix run out
    assume run: "run_before (c_source c) run (vs_pos s - c_source_begin c)"
      and out: "\<forall>m \<in> set out. contains_str (c_source c) m"
    show "\<forall>m \<in> set (concat_runs (map (\<lambda>c. (sensitive_literal c, query_mandatory c)) (ch # chs)) run out). contains_str (c_source c) m"
    proof (cases "sensitive_literal ch")
      case (Some lit)
      then obtain f where f: "ch = KLiteral f lit" "\<not> rf_icase f" by (auto simp: sensitive_literal_Some)
      have "occurs_at (c_source c) lit (vs_pos s - c_source_begin c) \<and> vs_pos m = vs_pos s + length lit"
        by (rule reach_literal_occurs [OF assms]) (use path_cons(1,5,6) f in auto)
      moreover from this have "run_before (c_source c) (run @ lit) (vs_pos m - c_source_begin c)"
        using run_before_append [OF run, of lit] path_cons(6) by (simp add: in_source_def)
      ultimately show ?thesis using path_cons(4,5) ins out Some by simp
    next
      case None
      have "\<forall>m \<in> set ((if run = [] then out else out @ [run]) @ query_mandatory ch). contains_str (c_source c) m"
        using path_cons(2,5,6) out run_before_contains [OF run] by auto
      moreover have "run_before (c_source c) [] (vs_pos m - c_source_begin c)" using bound by (simp add: run_before_Nil)
      ultimately show ?thesis using path_cons(4) [OF _ ins] path_cons(5)
        unfolding list.map None concat_runs.simps by (meson list.set_intros(2))
    qed
  qed
next
  case (iter_Suc c ch k s m z)
  have "in_source c (vs_pos m)"
    using reach_mono(3) [OF assms iter_Suc(1)] iter_Suc(6) in_sourceD in_source_le by blast
  with iter_Suc show ?case by simp
qed auto

lemmas reach_mandatory = reach_mandatory_all(1)

lemma reach_strip_groups: "vm_reach U c n s z \<Longrightarrow> \<exists>z'. vm_reach U c (strip_groups n) s z'"
  by (induction n arbitrary: z rule: strip_groups.induct) (auto elim: reach_GroupE)

lemma plain_strip_groups: "plain_node U n \<Longrightarrow> plain_node U (strip_groups n)"
  by (induction n rule: strip_groups.induct) auto

lemma reach_branch_mandatory:
  assumes "icu_ok U" "vm_reach U c n s z" "plain_node U n" "in_source c (vs_pos s)" "query_branch_mandatory n \<noteq> []"
  shows "\<exists>branch \<in> set (query_branch_mandatory n). \<forall>m \<in> set branch. contains_str (c_source c) m"
proof -
  from assms(5) obtain f cs where n: "strip_groups n = KAlt f cs"
    by (auto simp: query_branch_mandatory_def split: node.splits)
  with assms(5) have q: "query_branch_mandatory n = map query_mandatory cs"
    by (auto simp: query_branch_mandatory_def Let_def split: if_splits)
  from reach_strip_groups [OF assms(2)] n obtain z' where "vm_reach U c (KAlt f cs) s z'" by auto
  then obtain ch where "ch \<in> set cs" "vm_reach U c ch s z'" by (auto elim: reach_AltE)
  moreover from this have "plain_node U ch" using plain_strip_groups [OF assms(3)] n by simp
  ultimately show ?thesis using reach_mandatory [OF assms(1), of c ch s z'] assms(4) q by auto
qed

section \<open>Prefixes and pure literals\<close>

lemma reach_prefixes_all:
  assumes "icu_ok U"
  shows "vm_reach U c n s z \<Longrightarrow> plain_node U n \<Longrightarrow> in_source c (vs_pos s) \<Longrightarrow> query_prefixes n \<noteq> [] \<Longrightarrow>
           \<exists>p \<in> set (query_prefixes n). occurs_at (c_source c) p (vs_pos s - c_source_begin c)"
    and "vm_path U c chs s z \<Longrightarrow> \<forall>ch \<in> set chs. plain_node U ch \<Longrightarrow> in_source c (vs_pos s) \<Longrightarrow>
           chs \<noteq> [] \<Longrightarrow> query_prefixes (hd chs) \<noteq> [] \<Longrightarrow>
           \<exists>p \<in> set (query_prefixes (hd chs)). occurs_at (c_source c) p (vs_pos s - c_source_begin c)"
    and "vm_iter U c ch k s z \<Longrightarrow> plain_node U ch \<Longrightarrow> in_source c (vs_pos s) \<Longrightarrow> 0 < k \<Longrightarrow> query_prefixes ch \<noteq> [] \<Longrightarrow>
           \<exists>p \<in> set (query_prefixes ch). occurs_at (c_source c) p (vs_pos s - c_source_begin c)"
proof (induction rule: vm_reach_vm_path_vm_iter.inducts)
  case (reach_literal c s lit f e)
  then have "vm_reach U c (KLiteral f lit) s (s\<lparr>vs_pos := e\<rparr>)" by (simp add: vm_reach_vm_path_vm_iter.reach_literal)
  from reach_literal_occurs [OF assms this] reach_literal show ?case
    by (auto split: if_splits)
next
  case (reach_concat c chs s z f)
  then show ?case by (cases chs) auto
next
  case (reach_alt ch chs c s z f)
  then have "query_prefixes ch \<noteq> []" by (auto simp: Let_def image_iff split: if_splits)
  with reach_alt show ?case by (auto simp: Let_def split: if_splits)
next
  case (reach_repeat c ch k s z mn mx f greedy)
  then have "0 < mn" by (auto split: if_splits)
  with reach_repeat show ?case by simp
next
  case (iter_Suc c ch k s m z)
  show ?case
  proof (cases k)
    case 0
    with iter_Suc have "m = s" by (auto elim: vm_iter_zeroE)
    with iter_Suc show ?thesis by simp
  next
    case (Suc j)
    with iter_Suc show ?thesis by simp
  qed
qed auto

lemmas reach_prefixes = reach_prefixes_all(1)

lemma pure_concat:
  "query_is_pure_literal (KConcat f (c # cs)) = Some lit \<longleftrightarrow>
     (\<exists>a b. query_is_pure_literal c = Some a \<and> query_is_pure_literal (KConcat f cs) = Some b \<and> lit = a @ b)"
  by (auto simp: Let_def split: if_splits) 

lemma reach_pure_all:
  assumes "icu_ok U"
  shows "vm_reach U c n s z \<Longrightarrow> plain_node U n \<Longrightarrow> in_source c (vs_pos s) \<Longrightarrow> query_is_pure_literal n = Some lit \<Longrightarrow>
           occurs_at (c_source c) lit (vs_pos s - c_source_begin c) \<and> vs_pos z = vs_pos s + length lit"
    and "vm_path U c chs s z \<Longrightarrow> \<forall>ch \<in> set chs. plain_node U ch \<Longrightarrow> in_source c (vs_pos s) \<Longrightarrow>
           query_is_pure_literal (KConcat f chs) = Some lit \<Longrightarrow>
           occurs_at (c_source c) lit (vs_pos s - c_source_begin c) \<and> vs_pos z = vs_pos s + length lit"
    and "vm_iter U c ch k s z \<Longrightarrow> True"
proof (induction arbitrary: lit and lit f rule: vm_reach_vm_path_vm_iter.inducts)
  case (reach_literal c s lit' f e)
  then have "vm_reach U c (KLiteral f lit') s (s\<lparr>vs_pos := e\<rparr>)" by (simp add: vm_reach_vm_path_vm_iter.reach_literal)
  from reach_literal_occurs [OF assms this] reach_literal show ?case
    by (auto split: if_splits)
next
  case (path_nil c s)
  then show ?case by (auto simp: in_source_def)
next
  case (path_cons c ch s m chs z)
  from path_cons(7) obtain a b where ab: "query_is_pure_literal ch = Some a" "query_is_pure_literal (KConcat f chs) = Some b"
    "lit = a @ b" by (auto simp only: pure_concat)
  have ins: "in_source c (vs_pos m)"
    using reach_mono(1) [OF assms path_cons(1)] path_cons(6) in_sourceD in_source_le by blast
  have 1: "occurs_at (c_source c) a (vs_pos s - c_source_begin c)" "vs_pos m = vs_pos s + length a"
    using path_cons(2) [OF _ path_cons(6) ab(1)] path_cons(5) by auto
  have 2: "occurs_at (c_source c) b (vs_pos m - c_source_begin c)" "vs_pos z = vs_pos m + length b"
    using path_cons(4) [OF _ ins ab(2)] path_cons(5) by auto
  have "occurs_at (c_source c) (a @ b) (vs_pos m - c_source_begin c - length a)"
    by (rule occurs_at_append) (use 1 2 path_cons(6) in \<open>auto simp: in_source_def\<close>)
  with 1 2 ab(3) path_cons(6) show ?case by (simp add: in_source_def)
qed (auto simp: Let_def)

lemmas reach_pure_literal = reach_pure_all(1)

end
