(* ===== verification/Analysis_Sound.thy ===== *)
theory Analysis_Sound
  imports Query_Sound Regex_Analysis
begin

text \<open>
  The byte widths of \<open>analyze_regex\<close> bound every match, and a pattern it reports as not
  nullable has no empty match.
\<close>

section \<open>What a bound promises\<close>

fun lower_ok :: "regex_bound \<Rightarrow> nat \<Rightarrow> bool" where
  "lower_ok (Finite v) w = (v \<le> w)"
| "lower_ok b w = True"

fun upper_ok :: "regex_bound \<Rightarrow> nat \<Rightarrow> bool" where
  "upper_ok (Finite v) w = (w \<le> v)"
| "upper_ok b w = True"

lemma add_bound_ok:
  "lower_ok a x \<Longrightarrow> lower_ok b y \<Longrightarrow> lower_ok (add_bound a b) (x + y)"
  "upper_ok a x \<Longrightarrow> upper_ok b y \<Longrightarrow> upper_ok (add_bound a b) (x + y)"
  by (cases a; cases b; simp)+

lemma max_bound_ok: "upper_ok a x \<or> upper_ok b x \<Longrightarrow> upper_ok (max_bound a b) x"
  by (cases a; cases b) auto

lemma min_bound_ok: "lower_ok a x \<or> lower_ok b x \<Longrightarrow> lower_ok (min_bound a b) x"
  by (cases a; cases b) auto

definition width_ok :: "regex_analysis \<Rightarrow> nat \<Rightarrow> bool" where
  "width_ok a w \<longleftrightarrow> lower_ok (ra_byte_lower a) w \<and> upper_ok (ra_byte_upper a) w \<and>
     (w = 0 \<and> ra_nullable_known a \<longrightarrow> ra_nullable a)"

lemma finish_analysis_simps [simp]:
  "ra_byte_lower (finish_analysis sep a) = ra_byte_lower a" "ra_byte_upper (finish_analysis sep a) = ra_byte_upper a"
  "ra_nullable (finish_analysis sep a) = ra_nullable a" "ra_nullable_known (finish_analysis sep a) = ra_nullable_known a"
  by (simp_all add: finish_analysis_def)

lemma merge_analysis_simps [simp]:
  "ra_byte_lower (merge_analysis a b) = ra_byte_lower a" "ra_byte_upper (merge_analysis a b) = ra_byte_upper a"
  "ra_nullable (merge_analysis a b) = ra_nullable a" "ra_nullable_known (merge_analysis a b) = ra_nullable_known a"
  by (simp_all add: merge_analysis_def)

lemma start_analysis_simps [simp]:
  "ra_byte_lower (start_analysis f sep) = Finite 0" "ra_byte_upper (start_analysis f sep) = Finite 0"
  "ra_nullable (start_analysis f sep) = False" "ra_nullable_known (start_analysis f sep) = True"
  by (simp_all add: start_analysis_def default_analysis_def)

lemma width_finish [simp]: "width_ok (finish_analysis sep a) w = width_ok a w"
  by (simp add: width_ok_def)

lemma concat_step_ok: "width_ok a x \<Longrightarrow> width_ok c y \<Longrightarrow> width_ok (concat_step a c) (x + y)"
  by (auto simp: width_ok_def concat_step_def intro: add_bound_ok)

definition span_ok :: "regex_analysis \<Rightarrow> nat \<Rightarrow> bool" where
  "span_ok a w \<longleftrightarrow> lower_ok (ra_byte_lower a) w \<and> upper_ok (ra_byte_upper a) w"

lemma width_span: "width_ok a w \<Longrightarrow> span_ok a w"
  by (simp add: width_ok_def span_ok_def)

lemma alt_fold_ok: "span_ok a w \<or> (\<exists>r \<in> set rs. span_ok r w) \<Longrightarrow> span_ok (foldl alt_step a rs) w"
proof (induction rs arbitrary: a)
  case (Cons r rs)
  have "span_ok (alt_step a r) w \<or> (\<exists>r \<in> set rs. span_ok r w)"
    using Cons.prems by (auto simp: span_ok_def alt_step_def intro: max_bound_ok min_bound_ok)
  then show ?case using Cons.IH by simp
qed simp

lemma alt_ok:
  assumes "r \<in> set ras" "width_ok r w"
  shows "width_ok ((foldl alt_step (alt_first b (hd ras)) (tl ras))
           \<lparr>ra_nullable := \<exists>x \<in> set ras. ra_nullable x, ra_nullable_known := \<forall>x \<in> set ras. ra_nullable_known x\<rparr>) w"
proof -
  have "span_ok (alt_first b (hd ras)) w \<or> (\<exists>r \<in> set (tl ras). span_ok r w)"
    using assms width_span by (cases ras) (auto simp: alt_first_def span_ok_def)
  from alt_fold_ok [OF this] assms show ?thesis by (auto simp: width_ok_def span_ok_def)
qed

definition iter_ok :: "regex_analysis \<Rightarrow> nat \<Rightarrow> nat \<Rightarrow> bool" where
  "iter_ok a k w \<longleftrightarrow> (\<forall>v. ra_byte_lower a = Finite v \<longrightarrow> k * v \<le> w) \<and> (\<forall>v. ra_byte_upper a = Finite v \<longrightarrow> w \<le> k * v) \<and>
     (w = 0 \<and> 0 < k \<and> ra_nullable_known a \<longrightarrow> ra_nullable a) \<and> (k = 0 \<longrightarrow> w = 0)"

lemma iter_ok_Suc: "iter_ok a k x \<Longrightarrow> width_ok a y \<Longrightarrow> iter_ok a (Suc k) (x + y)"
  by (fastforce simp: iter_ok_def width_ok_def)

lemma repeat_ok:
  assumes "iter_ok c k w" "mn \<le> k" "case mx of None \<Rightarrow> True | Some m \<Rightarrow> k \<le> m"
  shows "width_ok (analyze_repeat a c mn mx) w"
proof -
  have lo: "lower_ok (mul_bound (ra_byte_lower c) mn) w"
  proof (cases "ra_byte_lower c")
    case (Finite v)
    have "v * mn \<le> k * v" using assms(2) by (simp add: mult.commute)
    also have "\<dots> \<le> w" using assms(1) Finite by (simp add: iter_ok_def)
    finally show ?thesis using Finite by (simp add: mul_bound_def)
  qed (simp_all add: mul_bound_def)
  have nu: "w = 0 \<and> ra_nullable_known c \<longrightarrow> mn = 0 \<or> ra_nullable c"
    using assms(1,2) by (auto simp: iter_ok_def)
  have up: "upper_ok (mul_bound (ra_byte_upper c) m) w" if "mx = Some m" for m
  proof (cases "m = 0")
    case True
    then show ?thesis using that assms(1,3) by (simp add: mul_bound_def iter_ok_def)
  next
    case False
    show ?thesis
    proof (cases "ra_byte_upper c")
      case (Finite v)
      have "w \<le> k * v" using assms(1) Finite by (simp add: iter_ok_def)
      also have "\<dots> \<le> v * m" using assms(3) that by (simp add: mult.commute)
      finally show ?thesis using Finite False by (simp add: mul_bound_def)
    qed (use False in \<open>simp_all add: mul_bound_def\<close>)
  qed
  from lo nu up show ?thesis
    by (auto simp: width_ok_def analyze_repeat_def Let_def split: option.splits)
qed

section \<open>Soundness\<close>

lemma fold_concat_Cons: "foldl concat_step a (map f (c # cs)) = foldl concat_step (concat_step a (f c)) (map f cs)"
  by simp

lemma reach_width_all:
  assumes "icu_ok U"
  shows "vm_reach U c n s z \<Longrightarrow> plain_node U n \<Longrightarrow> in_source c (vs_pos s) \<Longrightarrow>
           width_ok (analyze_regex U n sep) (vs_pos z - vs_pos s)"
    and "vm_path U c chs s z \<Longrightarrow> \<forall>ch \<in> set chs. plain_node U ch \<Longrightarrow> in_source c (vs_pos s) \<Longrightarrow> width_ok a w \<Longrightarrow>
           width_ok (foldl concat_step a (map (\<lambda>ch. analyze_regex U ch sep) chs)) (w + (vs_pos z - vs_pos s))"
    and "vm_iter U c ch k s z \<Longrightarrow> plain_node U ch \<Longrightarrow> in_source c (vs_pos s) \<Longrightarrow>
           iter_ok (analyze_regex U ch sep) k (vs_pos z - vs_pos s)"
proof (induction arbitrary: and a w rule: vm_reach_vm_path_vm_iter.inducts)
  case (reach_literal c s lit f e)
  then have r: "vm_reach U c (KLiteral f lit) s (s\<lparr>vs_pos := e\<rparr>)" by (simp add: vm_reach_vm_path_vm_iter.reach_literal)
  show ?case
  proof (cases "rf_icase f")
    case False
    with reach_literal_occurs [OF assms r] reach_literal show ?thesis
      by (auto simp: analyze_node analyze_literal_def Let_def width_ok_def node_flags_def)
  next
    case True
    have "e = vs_pos s \<longrightarrow> lit = []"
    proof
      assume "e = vs_pos s"
      show "lit = []"
      proof (rule ccontr)
        assume "lit \<noteq> []"
        with reach_literal(1) obtain a tp' b lp' where a: "context_rune_at U c (vs_pos s) = Some (a, tp')"
          and "literal_loop U c lit (rf_icase f) tp' lp' = Some e"
          by (auto simp: context_literal_at_def literal_loop.simps [of U c lit _ "vs_pos s" 0] split: option.splits if_splits)
        with context_rune_at_bounds [OF assms a] literal_loop_mono [OF assms, of c lit _ tp' lp' e] \<open>e = vs_pos s\<close>
        show False by auto
      qed
    qed
    moreover have "vs_pos s \<le> e" using reach_mono(1) [OF assms r] reach_literal(3) in_sourceD by fastforce
    ultimately show ?thesis using True
      by (auto simp: analyze_node analyze_literal_def Let_def width_ok_def node_flags_def)
  qed
next
  case (reach_dot c s cp nx f)
  from context_rune_at_bounds [OF assms reach_dot(1)] show ?case by (auto simp: analyze_node one_rune_def width_ok_def)
next
  case (reach_class c s cp nx cls f)
  from context_rune_at_bounds [OF assms reach_class(1)] show ?case by (auto simp: analyze_node one_rune_def width_ok_def)
next
  case (reach_concat c chs s z f)
  have "width_ok ((start_analysis f sep)\<lparr>ra_nullable := True, ra_vm_state_limit_relevant := 1 < length chs\<rparr>) 0"
    by (simp add: width_ok_def)
  from reach_concat(2) [OF _ reach_concat(4) this] reach_concat(3) show ?case
    by (simp add: analyze_node node_flags_def)
next
  case (reach_alt ch chs c s z f)
  then have "width_ok (analyze_regex U ch sep) (vs_pos z - vs_pos s)" by simp
  with alt_ok [of "analyze_regex U ch sep" "map (\<lambda>c. analyze_regex U c sep) chs"] reach_alt(1) show ?case
    by (cases chs) (auto simp: analyze_node Let_def node_flags_def)
next
  case (reach_group c ch s z f g)
  then show ?case by (simp add: analyze_node width_ok_def)
next
  case (reach_repeat c ch k s z mn mx f greedy)
  then show ?case by (simp add: analyze_node repeat_ok)
next
  case (path_cons c ch s m chs z)
  have m: "vs_pos s \<le> vs_pos m \<and> vs_pos m \<le> c_source_end c"
    using reach_mono(1) [OF assms path_cons(1)] path_cons(6) in_sourceD by blast
  then have ins: "in_source c (vs_pos m)" using path_cons(6) in_source_le by blast
  have "vs_pos m \<le> vs_pos z" using reach_mono(2) [OF assms path_cons(3)] ins in_sourceD by blast
  then have sum: "w + (vs_pos z - vs_pos s) = (w + (vs_pos m - vs_pos s)) + (vs_pos z - vs_pos m)" using m by simp
  have "width_ok (concat_step a (analyze_regex U ch sep)) (w + (vs_pos m - vs_pos s))"
    using path_cons by (intro concat_step_ok) auto
  from path_cons(4) [OF _ ins this] path_cons(5) show ?case unfolding sum fold_concat_Cons by simp
next
  case (iter_zero c ch s)
  then show ?case by (simp add: iter_ok_def)
next
  case (iter_Suc c ch k s m z)
  have m: "vs_pos s \<le> vs_pos m \<and> vs_pos m \<le> c_source_end c"
    using reach_mono(3) [OF assms iter_Suc(1)] iter_Suc(6) in_sourceD by blast
  then have ins: "in_source c (vs_pos m)" using iter_Suc(6) in_source_le by blast
  have "vs_pos m \<le> vs_pos z" using reach_mono(1) [OF assms iter_Suc(3)] ins in_sourceD by blast
  then have sum: "vs_pos z - vs_pos s = (vs_pos m - vs_pos s) + (vs_pos z - vs_pos m)" using m by simp
  show ?case unfolding sum using iter_Suc ins by (intro iter_ok_Suc) auto
qed (auto simp: analyze_node width_ok_def Let_def)

lemmas reach_width = reach_width_all(1)

end
