(* ===== verification/Regions_Sound.thy ===== *)
theory Regions_Sound
  imports Regions Analysis_Sound
begin

text \<open>
  The region plans lose no match: an offset at which a match can start lies in the candidate
  range of some region, and the region is wide enough for the whole match.  The candidate
  ranges of one plan are disjoint, so no offset is tried twice within it.
\<close>

section \<open>Coverage\<close>

definition covers :: "bounded_region list \<Rightarrow> nat \<Rightarrow> nat \<Rightarrow> bool" where
  "covers rs st en \<longleftrightarrow>
     (\<exists>r \<in> set rs. candidate_begin r \<le> st \<and> st < candidate_end r \<and> region_begin r \<le> st \<and> en \<le> region_end r)"

lemma covers_simps [simp]:
  "covers [] st en = False"
  "covers (rs @ qs) st en \<longleftrightarrow> covers rs st en \<or> covers qs st en"
  by (auto simp: covers_def)

lemma covers_single: "covers [r] st en \<longleftrightarrow>
    candidate_begin r \<le> st \<and> st < candidate_end r \<and> region_begin r \<le> st \<and> en \<le> region_end r"
  by (simp add: covers_def)

definition disjoint_regions :: "bounded_region list \<Rightarrow> bool" where
  "disjoint_regions rs \<longleftrightarrow> sorted_wrt (\<lambda>a b. candidate_end a < candidate_begin b) rs"

lemma push_region_covers:
  assumes "\<forall>x \<in> set rs. candidate_begin x \<le> candidate_begin r" "covers rs st en \<or> covers [r] st en"
  shows "covers (push_region rs r) st en"
proof (cases "rs \<noteq> [] \<and> candidate_begin r \<le> candidate_end (last rs)")
  case False
  with assms(2) show ?thesis by (auto simp: push_region_def)
next
  case True
  then have rs: "rs = butlast rs @ [last rs]" by simp
  have "candidate_begin (last rs) \<le> candidate_begin r" using True assms(1) by simp
  moreover have "covers (butlast rs) st en \<or> covers [last rs] st en \<or> covers [r] st en"
    using assms(2) covers_simps(2) [of "butlast rs" "[last rs]"] rs by metis
  ultimately show ?thesis using True by (auto simp: push_region_def covers_single)
qed

lemma push_region_begin:
  assumes "\<forall>x \<in> set rs. candidate_begin x \<le> candidate_begin r"
  shows "\<forall>x \<in> set (push_region rs r). candidate_begin x \<le> candidate_begin r"
proof (cases "rs \<noteq> [] \<and> candidate_begin r \<le> candidate_end (last rs)")
  case True
  then have "candidate_begin (last rs) \<le> candidate_begin r" using assms by simp
  with True assms show ?thesis by (auto simp: push_region_def dest: in_set_butlastD)
next
  case False
  with assms show ?thesis by (auto simp: push_region_def)
qed

lemma push_region_disjoint:
  assumes "disjoint_regions rs" "\<forall>x \<in> set rs. candidate_begin x \<le> candidate_begin r"
    "\<forall>x \<in> set rs. candidate_begin x < candidate_end x" "candidate_begin r < candidate_end r"
  shows "disjoint_regions (push_region rs r)" "\<forall>x \<in> set (push_region rs r). candidate_begin x < candidate_end x"
proof -
  have "disjoint_regions (push_region rs r) \<and> (\<forall>x \<in> set (push_region rs r). candidate_begin x < candidate_end x)"
  proof (cases "rs \<noteq> [] \<and> candidate_begin r \<le> candidate_end (last rs)")
    case True
    then have rs: "rs = butlast rs @ [last rs]" by simp
    have b: "disjoint_regions (butlast rs)" "\<forall>x \<in> set (butlast rs). candidate_end x < candidate_begin (last rs)"
      using assms(1) unfolding disjoint_regions_def by (subst (asm) rs, simp add: sorted_wrt_append)+
    moreover have "candidate_begin (last rs) < max (candidate_end (last rs)) (candidate_end r)" 
      using True assms(3) by (simp add: less_max_iff_disj)
    ultimately show ?thesis using True assms(3)
      by (auto simp: push_region_def disjoint_regions_def sorted_wrt_append dest: in_set_butlastD)
  next
    case False
    have "candidate_end x < candidate_begin r" if "x \<in> set rs" for x
    proof -
      from that have "rs \<noteq> []" by auto
      with False have l: "candidate_end (last rs) < candidate_begin r" by simp
      show ?thesis
      proof (cases "x = last rs")
        case False
        with that \<open>rs \<noteq> []\<close> have "x \<in> set (butlast rs)"
          by (metis append_butlast_last_id in_set_conv_decomp rotate1.simps(2) set_ConsD set_rotate1)
        then have "candidate_end x < candidate_begin (last rs)"
          using assms(1) \<open>rs \<noteq> []\<close> unfolding disjoint_regions_def
          by (metis append_butlast_last_id list.set_intros(1) sorted_wrt_append)
        also have "\<dots> < candidate_end (last rs)" using assms(3) \<open>rs \<noteq> []\<close> by simp
        finally show ?thesis using l by simp
      qed (use l in simp)
    qed
    with False assms show ?thesis by (auto simp: push_region_def disjoint_regions_def sorted_wrt_append)
  qed
  then show "disjoint_regions (push_region rs r)" "\<forall>x \<in> set (push_region rs r). candidate_begin x < candidate_end x"
    by simp_all
qed

lemma merge_covers:
  assumes "sorted (map candidate_begin rs)" "\<forall>x \<in> set acc. \<forall>y \<in> set rs. candidate_begin x \<le> candidate_begin y"
    "covers acc st en \<or> covers rs st en"
  shows "covers (foldl push_region acc rs) st en"
  using assms
proof (induction rs arbitrary: acc)
  case (Cons r rs)
  have "covers (foldl push_region (push_region acc r) rs) st en"
  proof (rule Cons.IH)
    show "\<forall>x \<in> set (push_region acc r). \<forall>y \<in> set rs. candidate_begin x \<le> candidate_begin y"
      using push_region_begin [of acc r] Cons.prems(1,2) by fastforce
    show "covers (push_region acc r) st en \<or> covers rs st en"
      using push_region_covers [of acc r st en] Cons.prems(2,3) covers_simps(2) [of "[r]" rs] by auto
  qed (use Cons.prems(1) in simp)
  then show ?case by simp
qed simp

lemma merge_disjoint:
  assumes "sorted (map candidate_begin rs)" "\<forall>x \<in> set acc. \<forall>y \<in> set rs. candidate_begin x \<le> candidate_begin y"
    "disjoint_regions acc" "\<forall>x \<in> set acc. candidate_begin x < candidate_end x" "\<forall>x \<in> set rs. candidate_begin x < candidate_end x"
  shows "disjoint_regions (foldl push_region acc rs)"
  using assms
proof (induction rs arbitrary: acc)
  case (Cons r rs)
  have le: "\<forall>x \<in> set acc. candidate_begin x \<le> candidate_begin r" using Cons.prems(2) by simp
  have r: "candidate_begin r < candidate_end r" using Cons.prems(5) by simp
  have "\<forall>x \<in> set (push_region acc r). \<forall>y \<in> set rs. candidate_begin x \<le> candidate_begin y"
    using push_region_begin [OF le] Cons.prems(1) by fastforce
  with push_region_disjoint [OF Cons.prems(3) le Cons.prems(4) r] Cons.prems(1,5)
  have "disjoint_regions (foldl push_region (push_region acc r) rs)" by (intro Cons.IH) simp_all
  then show ?case by simp
qed simp

section \<open>One literal\<close>

lemma sorted_filter_map:
  assumes "sorted xs" "\<And>x y. x \<le> y \<Longrightarrow> f x \<le> f y"
  shows "sorted (map f (filter P xs))"
  using assms(1) by (induction xs) (auto intro: assms(2))

lemma literal_region_mono:
  "x \<le> y \<Longrightarrow> candidate_begin (literal_region rb re len w la x) \<le> candidate_begin (literal_region rb re len w la y)"
  by (auto simp: literal_region_def Let_def)

lemma bounded_regions_sorted:
  "sorted (map candidate_begin (filter P (map (literal_region rb re len w la) (occurrences rec lit 0))))"
  using sorted_filter_map [OF sorted_occurrences [of rec lit 0], of "\<lambda>x. candidate_begin (literal_region rb re len w la x)" "P \<circ> literal_region rb re len w la"]
    literal_region_mono by (simp add: filter_map o_def)

lemma regions_complete:
  assumes "occurs_at rec lit off" "lit \<noteq> []" "re = rb + length rec" "re < u64_max"
    and "rb \<le> st" "st \<le> rb + off" "rb + off + length lit \<le> st + bound_value (ra_byte_upper a)"
  shows "covers (bounded_regex_regions rec rb re lit a) st (min re (st + bound_value (ra_byte_upper a)))"
proof -
  let ?w = "bound_value (ra_byte_upper a)" and ?la = "bound_value (ra_forward_bytes a)"
  let ?r = "literal_region rb re (length lit) ?w ?la off"
  have off: "off + length lit \<le> length rec" using assms(1) by (rule occurs_at_bound)
  then have "rec \<noteq> []" "\<not> ?w < length lit" using assms(2,6,7) by auto
  have c: "covers [?r] st (min re (st + ?w))"
    using assms off by (auto simp: covers_single literal_region_def Let_def)
  have len: "0 < length lit" using assms(2) by simp
  have "st < re" using assms(3,6) off len by linarith
  moreover have "st < st + ?w" using assms(6,7) len by linarith
  ultimately have "st < min re (st + ?w)" by simp
  with c have "proper_region ?r" unfolding covers_single proper_region_def by linarith
  then have "?r \<in> set (filter proper_region (map (literal_region rb re (length lit) ?w ?la) (occurrences rec lit 0)))"
    using assms(1) by (auto simp: set_occurrences)
  with c have "covers (filter proper_region (map (literal_region rb re (length lit) ?w ?la) (occurrences rec lit 0))) st (min re (st + ?w))"
    unfolding covers_def by auto
  with merge_covers [OF bounded_regions_sorted, of "[]"] show ?thesis
    using \<open>rec \<noteq> []\<close> \<open>\<not> ?w < length lit\<close> assms(2) by (simp add: bounded_regex_regions_def Let_def)
qed

lemma regions_disjoint: "disjoint_regions (bounded_regex_regions rec rb re lit a)"
proof -
  have "disjoint_regions (foldl push_region [] (filter proper_region
      (map (literal_region rb re (length lit) w la) (occurrences rec lit 0))))" for w la
    by (rule merge_disjoint [OF bounded_regions_sorted]) (auto simp: disjoint_regions_def proper_region_def)
  then show ?thesis by (simp add: bounded_regex_regions_def Let_def disjoint_regions_def)
qed

section \<open>Joins\<close>

definition in_interval :: "nat \<Rightarrow> interval \<Rightarrow> bool" where
  "in_interval st iv \<longleftrightarrow> fst iv \<le> st \<and> st < snd iv"

definition monotone_intervals :: "interval list \<Rightarrow> bool" where
  "monotone_intervals xs = sorted_wrt (\<lambda>a b. fst a \<le> fst b \<and> snd a \<le> snd b) xs"

lemma intersect_sub: "z \<in> set (intersect_intervals xs ys) \<Longrightarrow>
    \<exists>x \<in> set xs. \<exists>y \<in> set ys. fst z = max (fst x) (fst y) \<and> snd z = min (snd x) (snd y)"
proof (induction xs ys rule: intersect_intervals.induct)
  case (1 x xs y ys)
  let ?rest = "if snd x < snd y then intersect_intervals xs (y # ys) else intersect_intervals (x # xs) ys"
  have "z \<in> set ?rest \<or> z = (max (fst x) (fst y), min (snd x) (snd y))"
    using "1.prems" by (auto simp: Let_def split: if_splits)
  then show ?case
  proof
    assume "z \<in> set ?rest"
    show ?thesis
    proof (cases "snd x < snd y")
      case True
      from "1.IH"(1) [OF refl refl True] \<open>z \<in> set ?rest\<close> True show ?thesis by simp
    next
      case False
      from "1.IH"(2) [OF refl refl False] \<open>z \<in> set ?rest\<close> False show ?thesis by simp blast
    qed
  next
    assume z: "z = (max (fst x) (fst y), min (snd x) (snd y))"
    then show ?thesis by (intro bexI [of _ x] bexI [of _ y]) simp_all
  qed
qed auto

lemma intersect_complete:
  assumes "monotone_intervals xs" "monotone_intervals ys"
    and "x \<in> set xs" "in_interval st x" "y \<in> set ys" "in_interval st y"
  shows "\<exists>z \<in> set (intersect_intervals xs ys). in_interval st z"
  using assms
proof (induction xs ys rule: intersect_intervals.induct)
  case (1 a xs b ys)
  show ?case
  proof (cases "in_interval st a \<and> in_interval st b")
    case True
    then show ?thesis by (auto simp: in_interval_def Let_def)
  next
    case False
    have m: "\<And>u. u \<in> set xs \<Longrightarrow> fst a \<le> fst u \<and> snd a \<le> snd u" "\<And>u. u \<in> set ys \<Longrightarrow> fst b \<le> fst u \<and> snd b \<le> snd u"
      and mt: "monotone_intervals xs" "monotone_intervals ys"
      using "1.prems"(1,2) by (auto simp: monotone_intervals_def)
    have "\<exists>z \<in> set (if snd a < snd b then intersect_intervals xs (b # ys) else intersect_intervals (a # xs) ys). in_interval st z"
    proof (cases "snd a < snd b")
      case True
      have "x \<noteq> a"
      proof
        assume "x = a"
        with False "1.prems"(4,5,6) have "y \<in> set ys" "st < snd a" by (auto simp: in_interval_def)
        with m(2) [of y] "1.prems"(6) have "fst b \<le> st" by (simp add: in_interval_def)
        with True False \<open>x = a\<close> "1.prems"(4) \<open>st < snd a\<close> show False
          by (auto simp: in_interval_def) 
      qed
      with "1.prems"(3) have "x \<in> set xs" by simp
      with "1.IH"(1) True mt "1.prems" show ?thesis by auto
    next
      case nle: False
      have "y \<noteq> b"
      proof
        assume "y = b"
        with False "1.prems"(3,4,6) have "x \<in> set xs" "st < snd b" by (auto simp: in_interval_def)
        with m(1) [of x] "1.prems"(4) have "fst a \<le> st" by (simp add: in_interval_def)
        with nle False \<open>y = b\<close> "1.prems"(6) \<open>st < snd b\<close> show False
          by (auto simp: in_interval_def)
      qed
      with "1.prems"(5) have "y \<in> set ys" by simp
      with "1.IH"(2) nle mt "1.prems" show ?thesis by auto
    qed
    then show ?thesis by (auto simp: Let_def)
  qed
qed auto

lemma monotone_intersect:
  "monotone_intervals xs \<Longrightarrow> monotone_intervals ys \<Longrightarrow> monotone_intervals (intersect_intervals xs ys)"
proof (induction xs ys rule: intersect_intervals.induct)
  case (1 a xs b ys)
  have m: "\<And>u. u \<in> set (a # xs) \<Longrightarrow> fst a \<le> fst u \<and> snd a \<le> snd u" "\<And>u. u \<in> set (b # ys) \<Longrightarrow> fst b \<le> fst u \<and> snd b \<le> snd u"
    and mt: "monotone_intervals xs" "monotone_intervals ys"
    using "1.prems" by (auto simp: monotone_intervals_def)
  let ?rest = "if snd a < snd b then intersect_intervals xs (b # ys) else intersect_intervals (a # xs) ys"
  have r: "monotone_intervals ?rest" using "1.IH" "1.prems" mt by (cases "snd a < snd b") simp_all
  have "max (fst a) (fst b) \<le> fst z \<and> min (snd a) (snd b) \<le> snd z" if z: "z \<in> set ?rest" for z
  proof -
    have "\<exists>u \<in> set (a # xs). \<exists>v \<in> set (b # ys). fst z = max (fst u) (fst v) \<and> snd z = min (snd u) (snd v)"
    proof (cases "snd a < snd b")
      case True
      with z intersect_sub [of z xs "b # ys"] show ?thesis by (simp only: if_True) (meson list.set_intros(2))
    next
      case False
      with z intersect_sub [of z "a # xs" ys] show ?thesis by (simp only: if_False) (meson list.set_intros(2))
    qed
    then obtain u v where "u \<in> set (a # xs)" "v \<in> set (b # ys)" "fst z = max (fst u) (fst v)" "snd z = min (snd u) (snd v)"
      by blast
    with m(1) [of u] m(2) [of v] show ?thesis by auto
  qed
  with r show ?case by (auto simp: Let_def monotone_intervals_def)
qed (auto simp: monotone_intervals_def)

lemma sat_add_min: "b \<le> u64_max \<Longrightarrow> sat_add a b = min (a + b) u64_max"
  by (auto simp: sat_add_def min_def)

lemma constraint_interval_single: "constraint_interval rb re l off = [] \<or> (\<exists>iv. constraint_interval rb re l off = [iv])"
  by (auto simp: constraint_interval_def Let_def)

lemma constraint_interval_bounds:
  assumes "iv \<in> set (constraint_interval rb re l off)"
  shows "fst iv = (if lo_max_start l < rb + off then max rb (rb + off - lo_max_start l) else rb)"
    "snd iv = min (re + 1) (min (rb + off - lo_min_start l + 1) u64_max)"
  using assms by (auto simp: constraint_interval_def Let_def sat_add_min u64_max_def split: if_splits)

lemma constraint_interval_mono:
  assumes "x \<le> y" "iv \<in> set (constraint_interval rb re l x)" "jv \<in> set (constraint_interval rb re l y)"
  shows "fst iv \<le> fst jv \<and> snd iv \<le> snd jv"
proof
  show "fst iv \<le> fst jv"
    unfolding constraint_interval_bounds(1) [OF assms(2)] constraint_interval_bounds(1) [OF assms(3)]
    using assms(1) by auto
  show "snd iv \<le> snd jv"
    unfolding constraint_interval_bounds(2) [OF assms(2)] constraint_interval_bounds(2) [OF assms(3)]
    using assms(1) by (intro min.mono add_mono diff_le_mono) simp_all
qed

lemma monotone_constraint_intervals:
  "sorted xs \<Longrightarrow> monotone_intervals (concat (map (constraint_interval rb re l) xs))"
proof (induction xs)
  case (Cons x xs)
  then have "monotone_intervals (concat (map (constraint_interval rb re l) xs))" by simp
  moreover have "fst iv \<le> fst jv \<and> snd iv \<le> snd jv"
    if "iv \<in> set (constraint_interval rb re l x)" "jv \<in> set (concat (map (constraint_interval rb re l) xs))" for iv jv
    using that Cons.prems constraint_interval_mono [of x _ iv rb re l jv] by auto
  moreover have "monotone_intervals (constraint_interval rb re l x)"
    using constraint_interval_single [of rb re l x] by (auto simp: monotone_intervals_def)
  ultimately show ?case unfolding monotone_intervals_def by (simp only: list.map concat.simps sorted_wrt_append) blast
qed (simp add: monotone_intervals_def)

text \<open>
  \<open>fits l rec rb st\<close>: the literal of \<open>l\<close> occurs in the record at a distance from \<open>st\<close> that its
  offsets allow.
\<close>

definition fits :: "literal_offset \<Rightarrow> bytes \<Rightarrow> nat \<Rightarrow> nat \<Rightarrow> bool" where
  "fits l rec rb st \<longleftrightarrow>
     lo_literal l \<noteq> [] \<and>
     (\<exists>off. occurs_at rec (lo_literal l) off \<and> st + lo_min_start l \<le> rb + off \<and> rb + off \<le> st + lo_max_start l)"

lemma constraint_covers:
  assumes "fits l rec rb st" "rb \<le> st" "re = rb + length rec" "re < u64_max"
  shows "\<exists>iv \<in> set (concat (map (constraint_interval rb re l) (occurrences rec (lo_literal l) 0))). in_interval st iv"
proof -
  from assms(1) obtain off where off: "occurs_at rec (lo_literal l) off" "st + lo_min_start l \<le> rb + off"
    "rb + off \<le> st + lo_max_start l" by (auto simp: fits_def)
  have b: "off \<le> length rec" using occurs_at_bound [OF off(1)] by simp
  have "\<exists>iv \<in> set (constraint_interval rb re l off). in_interval st iv"
    using off(2,3) assms(2-4) b by (auto simp: constraint_interval_def Let_def in_interval_def sat_add_min u64_max_def)
  moreover have "off \<in> set (occurrences rec (lo_literal l) 0)" using off(1) by (simp add: set_occurrences)
  ultimately show ?thesis by auto
qed

lemma join_complete:
  assumes "\<forall>l \<in> set ls. fits l rec rb st" "rb \<le> st" "re = rb + length rec" "re < u64_max"
    and "monotone_intervals joined" "joined = [] \<and> ls \<noteq> [] \<or> (\<exists>iv \<in> set joined. in_interval st iv)"
  shows "\<exists>js. join_constraints rec rb re ls joined = Some js \<and> monotone_intervals js \<and> (\<exists>iv \<in> set js. in_interval st iv)"
  using assms
proof (induction ls arbitrary: joined)
  case (Cons l ls)
  define current where "current = concat (map (constraint_interval rb re l) (occurrences rec (lo_literal l) 0))"
  have l: "lo_literal l \<noteq> []" "fits l rec rb st" using Cons.prems(1) by (auto simp: fits_def)
  obtain iv where iv: "iv \<in> set current" "in_interval st iv"
    using constraint_covers [OF l(2) Cons.prems(2-4)] unfolding current_def by blast
  then have ne: "current \<noteq> []" by auto
  have mono: "monotone_intervals current" unfolding current_def by (rule monotone_constraint_intervals [OF sorted_occurrences])
  note step = join_constraints.simps(2) [of rec rb re l ls joined, folded current_def]
  show ?case
  proof (cases "joined = []")
    case True
    then show ?thesis using Cons.IH [OF _ Cons.prems(2-4) mono] Cons.prems(1) iv l ne step by (auto simp: Let_def)
  next
    case False
    with Cons.prems(6) obtain jv where "jv \<in> set joined" "in_interval st jv" by auto
    from intersect_complete [OF Cons.prems(5) mono this iv] obtain z
      where z: "z \<in> set (intersect_intervals joined current)" "in_interval st z" by blast
    then have ne2: "intersect_intervals joined current \<noteq> []" by auto
    from Cons.IH [OF _ Cons.prems(2-4) monotone_intersect [OF Cons.prems(5) mono]] Cons.prems(1) z l ne ne2 False step
    show ?thesis by (auto simp: Let_def)
  qed
qed auto

lemma joined_regions_sorted:
  "monotone_intervals js \<Longrightarrow> sorted (map candidate_begin (filter P (map (joined_region rb re a) js)))"
  by (induction js) (auto simp: monotone_intervals_def joined_region_def Let_def)

lemma joined_complete:
  assumes "cs \<noteq> []" "\<forall>l \<in> set cs. fits l rec rb st" "rb \<le> st" "re = rb + length rec" "re < u64_max"
    and "0 < bound_value (ra_byte_upper a)"
  shows "covers (bounded_regex_regions_joined rec rb re cs a) st (min re (st + bound_value (ra_byte_upper a)))"
proof -
  let ?w = "bound_value (ra_byte_upper a)"
  let ?ok = "\<lambda>r. candidate_begin r < candidate_end r \<and> region_begin r < region_end r"
  from assms(1,2) obtain l where "fits l rec rb st" by (cases cs) auto
  then obtain off where off: "occurs_at rec (lo_literal l) off" "lo_literal l \<noteq> []" "st \<le> rb + off"
    by (auto simp: fits_def)
  have len: "0 < length (lo_literal l)" using off(2) by simp
  have "off + length (lo_literal l) \<le> length rec" using off(1) by (rule occurs_at_bound)
  with off(3) len have st: "st < re" "rec \<noteq> []" unfolding assms(4) by (linarith, auto)
  from join_complete [OF assms(2-5), of "[]"] assms(1) obtain js iv
    where js: "join_constraints rec rb re cs [] = Some js" "monotone_intervals js"
      and iv: "iv \<in> set js" "in_interval st iv" by (auto simp: monotone_intervals_def)
  have "covers [joined_region rb re a iv] st (min re (st + ?w))"
    using iv(2) assms(3,5) st(1)
    by (auto simp: covers_single joined_region_def Let_def in_interval_def sat_add_def)
  moreover from this have "?ok (joined_region rb re a iv)"
    using st(1) assms(6) by (auto simp: covers_single)
  ultimately have "covers (filter ?ok (map (joined_region rb re a) js)) st (min re (st + ?w))"
    using iv(1) unfolding covers_def by (auto intro!: bexI [of _ iv])
  moreover have "sorted (map candidate_begin (filter ?ok (map (joined_region rb re a) js)))"
    by (rule joined_regions_sorted [OF js(2)])
  ultimately have "covers (foldl push_region [] (filter ?ok (map (joined_region rb re a) js))) st (min re (st + ?w))"
    by (intro merge_covers) simp_all
  then show ?thesis
    using assms(1) st(2) js(1) by (simp add: bounded_regex_regions_joined_def)
qed

lemma join_constraints_mono:
  "join_constraints rec rb re ls joined = Some js \<Longrightarrow> monotone_intervals joined \<Longrightarrow> monotone_intervals js"
proof (induction ls arbitrary: joined)
  case (Cons l ls)
  define current where "current = concat (map (constraint_interval rb re l) (occurrences rec (lo_literal l) 0))"
  have c: "monotone_intervals current" unfolding current_def by (rule monotone_constraint_intervals [OF sorted_occurrences])
  note step = join_constraints.simps(2) [of rec rb re l ls joined, folded current_def]
  from Cons.prems(1) have "join_constraints rec rb re ls (if joined = [] then current else intersect_intervals joined current) = Some js"
    unfolding step by (auto simp: Let_def split: if_splits)
  then show ?case using Cons.IH c monotone_intersect [OF Cons.prems(2) c] by (auto split: if_splits)
qed simp

lemma joined_regions_disjoint: "disjoint_regions (bounded_regex_regions_joined rec rb re cs a)"
proof (cases "join_constraints rec rb re cs []")
  case (Some js)
  have "monotone_intervals js" using join_constraints_mono [OF Some] by (simp add: monotone_intervals_def)
  from joined_regions_sorted [OF this] have "disjoint_regions (foldl push_region []
      (filter (\<lambda>r. candidate_begin r < candidate_end r \<and> region_begin r < region_end r) (map (joined_region rb re a) js)))"
    by (rule merge_disjoint) (auto simp: disjoint_regions_def)
  with Some show ?thesis by (simp add: bounded_regex_regions_joined_def disjoint_regions_def)
qed (simp add: bounded_regex_regions_joined_def disjoint_regions_def)

section \<open>Offsets of literals in a match\<close>

fun icase_free :: "node \<Rightarrow> bool" where
  "icase_free (KLiteral f lit) = (\<not> rf_icase f)"
| "icase_free (KConcat f cs) = (\<forall>c \<in> set cs. icase_free c)"
| "icase_free (KAlt f cs) = (\<forall>c \<in> set cs. icase_free c)"
| "icase_free (KRepeat f mn mx g c) = icase_free c"
| "icase_free (KGroup f g c) = icase_free c"
| "icase_free (KLookAhead f neg c) = icase_free c"
| "icase_free (KLookBehind f neg c) = icase_free c"
| "icase_free _ = True"

text \<open>
  A summary describes a match of width \<open>w\<close> that starts at offset \<open>st\<close> of the source.
\<close>

definition describes :: "literal_summary \<Rightarrow> bytes \<Rightarrow> nat \<Rightarrow> nat \<Rightarrow> bool" where
  "describes m s st w \<longleftrightarrow> ls_min_width m \<le> w \<and> w \<le> ls_max_width m \<and>
     (\<forall>l \<in> set (ls_literals m). \<exists>off. occurs_at s (lo_literal l) off \<and> st + lo_min_start l \<le> off \<and>
        off \<le> st + lo_max_start l \<and> off + length (lo_literal l) \<le> st + w)"

lemma sat_add_le: "sat_add a b \<le> a + b" and sat_add_ge: "w \<le> u64_max \<Longrightarrow> w \<le> a + b \<Longrightarrow> w \<le> sat_add a b"
  by (auto simp: sat_add_def)

lemma sat_mul_le: "sat_mul a b \<le> a * b"
proof (cases "a \<noteq> 0 \<and> u64_max div a < b")
  case True
  then have "u64_max < b * a" using div_less_iff_less_mult [of a u64_max b] by blast
  then have "u64_max < a * b" by (simp only: mult.commute)
  then have "u64_max \<le> a * b" by simp
  then show ?thesis unfolding sat_mul_def if_P [OF True] .
next
  case False
  show ?thesis unfolding sat_mul_def if_not_P [OF False] ..
qed

lemma sat_mul_ge: "w \<le> u64_max \<Longrightarrow> w \<le> a * b \<Longrightarrow> w \<le> sat_mul a b"
  by (auto simp: sat_mul_def)

lemma describes_concat:
  assumes "describes m s st v" "describes part s (st + v) w" "length s \<le> u64_max" "st + (v + w) \<le> length s"
  shows "describes (summary_concat m part) s st (v + w)"
  unfolding describes_def
proof (intro conjI ballI)
  have m: "ls_min_width m \<le> v" "v \<le> ls_max_width m" "ls_min_width part \<le> w" "w \<le> ls_max_width part"
    using assms(1,2) by (simp_all add: describes_def)
  show "ls_min_width (summary_concat m part) \<le> v + w"
    using m sat_add_le [of "ls_min_width m" "ls_min_width part"] by (simp add: summary_concat_def)
  show "v + w \<le> ls_max_width (summary_concat m part)"
    using m sat_add_ge [of "v + w"] assms(3,4) by (simp add: summary_concat_def)
  fix l assume "l \<in> set (ls_literals (summary_concat m part))"
  then consider "l \<in> set (ls_literals m)" | l' where "l' \<in> set (ls_literals part)" "l = shift_literal (ls_min_width m) (ls_max_width m) l'"
    by (auto simp: summary_concat_def)
  then show "\<exists>off. occurs_at s (lo_literal l) off \<and> st + lo_min_start l \<le> off \<and> off \<le> st + lo_max_start l \<and>
      off + length (lo_literal l) \<le> st + (v + w)"
  proof cases
    case 1
    then show ?thesis using assms(1) unfolding describes_def by force
  next
    case 2
    then obtain off where off: "occurs_at s (lo_literal l') off" "st + v + lo_min_start l' \<le> off"
      "off \<le> st + v + lo_max_start l'" "off + length (lo_literal l') \<le> st + v + w"
      using assms(2) unfolding describes_def by blast
    have "sat_add (ls_min_width m) (lo_min_start l') \<le> v + lo_min_start l'"
      using sat_add_le [of "ls_min_width m" "lo_min_start l'"] m(1) by linarith
    moreover have "off - st \<le> sat_add (ls_max_width m) (lo_max_start l')"
      using off(3,4) m(2) assms(3,4) by (intro sat_add_ge) auto
    ultimately show ?thesis using off 2(2) by (intro exI [of _ off]) (simp add: shift_literal_def)
  qed
qed

lemma foldl_min_le: "foldl (\<lambda>m y. min m (f y)) (a::nat) xs \<le> a" "x \<in> set xs \<Longrightarrow> foldl (\<lambda>m y. min m (f y)) a xs \<le> f x"
proof (induction xs arbitrary: a)
  case (Cons y ys)
  { case 1 show ?case using Cons(1) [of "min a (f y)"] by simp }
  { case 2 then show ?case using Cons(1) [of "min a (f y)"] Cons(2) [of "min a (f y)"] by auto }
qed simp_all

lemma foldl_max_ge: "a \<le> foldl (\<lambda>m y. max m (f y)) (a::nat) xs" "x \<in> set xs \<Longrightarrow> f x \<le> foldl (\<lambda>m y. max m (f y)) a xs"
proof (induction xs arbitrary: a)
  case (Cons y ys)
  { case 1 show ?case using Cons(1) [of "max a (f y)"] by simp }
  { case 2 then show ?case using Cons(1) [of "max a (f y)"] Cons(2) [of "max a (f y)"] by auto }
qed simp_all

lemma describes_alt:
  assumes "p \<in> set parts" "describes p s st w"
  shows "describes (summary_alt parts) s st w"
proof -
  obtain x xs where parts: "parts = x # xs" using assms(1) by (cases parts) auto
  have "ls_min_width (summary_alt parts) \<le> ls_min_width p"
    using assms(1) foldl_min_le(1) [of ls_min_width "ls_min_width x" xs] foldl_min_le(2) [of p xs ls_min_width "ls_min_width x"]
    unfolding parts by (simp add: summary_alt_def) (elim disjE, simp_all)
  moreover have "ls_max_width p \<le> ls_max_width (summary_alt parts)"
    using assms(1) foldl_max_ge(1) [of "ls_max_width x" ls_max_width xs] foldl_max_ge(2) [of p xs ls_max_width "ls_max_width x"]
    unfolding parts by (simp add: summary_alt_def) (elim disjE, simp_all)
  moreover have "ls_literals (summary_alt parts) = []" by (simp add: summary_alt_def)
  ultimately show ?thesis using assms(2) by (auto simp: describes_def)
qed

definition describes_iter :: "literal_summary \<Rightarrow> bytes \<Rightarrow> nat \<Rightarrow> nat \<Rightarrow> nat \<Rightarrow> bool" where
  "describes_iter m s st k w \<longleftrightarrow> k * ls_min_width m \<le> w \<and> w \<le> k * ls_max_width m \<and>
     (0 < k \<longrightarrow> (\<forall>l \<in> set (ls_literals m). \<exists>off. occurs_at s (lo_literal l) off \<and> st \<le> off \<and> off + length (lo_literal l) \<le> st + w))"

lemma describes_iter_Suc:
  assumes "describes_iter m s st k v" "describes m s (st + v) w"
  shows "describes_iter m s st (Suc k) (v + w)"
  unfolding describes_iter_def
proof (intro conjI impI ballI)
  fix l assume l: "l \<in> set (ls_literals m)"
  from assms(2) l obtain off where "occurs_at s (lo_literal l) off" "st + v + lo_min_start l \<le> off" "off + length (lo_literal l) \<le> st + v + w"
    unfolding describes_def by blast
  then show "\<exists>off. occurs_at s (lo_literal l) off \<and> st \<le> off \<and> off + length (lo_literal l) \<le> st + (v + w)"
    by (intro exI [of _ off]) simp
qed (use assms in \<open>simp_all add: describes_iter_def describes_def\<close>)

lemma describes_repeat:
  assumes "describes_iter m s st k w" "mn \<le> k" "k \<le> mx" "length s \<le> u64_max" "st + w \<le> length s"
  shows "describes (summary_repeat mn (Some mx) m) s st w"
  unfolding describes_def
proof (intro conjI ballI)
  let ?r = "summary_repeat mn (Some mx) m"
  have "ls_min_width ?r \<le> ls_min_width m * mn" by (simp add: summary_repeat_def Let_def sat_mul_le)
  also have "\<dots> \<le> k * ls_min_width m" using assms(2) by (simp add: mult.commute)
  finally show "ls_min_width ?r \<le> w" using assms(1) by (simp add: describes_iter_def)
  have "w \<le> k * ls_max_width m" using assms(1) by (simp add: describes_iter_def)
  also have "\<dots> \<le> ls_max_width m * mx" using assms(3) by (simp add: mult.commute)
  finally have "w \<le> sat_mul (ls_max_width m) mx" using assms(4,5) by (intro sat_mul_ge) simp_all
  then show w: "w \<le> ls_max_width ?r" by (simp add: summary_repeat_def Let_def)
  fix l assume "l \<in> set (ls_literals ?r)"
  then obtain l' where l': "l' \<in> set (ls_literals m)" "lo_literal l = lo_literal l'" "lo_min_start l = 0"
    "lo_max_start l = (if length (lo_literal l') < ls_max_width ?r then ls_max_width ?r - length (lo_literal l') else 0)"
    and "mn \<noteq> 0" by (auto simp: summary_repeat_def Let_def split: if_splits)
  with assms(1,2) obtain off where "occurs_at s (lo_literal l') off" "st \<le> off" "off + length (lo_literal l') \<le> st + w"
    unfolding describes_iter_def by fastforce
  with l' w show "\<exists>off. occurs_at s (lo_literal l) off \<and> st + lo_min_start l \<le> off \<and> off \<le> st + lo_max_start l \<and>
      off + length (lo_literal l) \<le> st + w"
    by (intro exI [of _ off]) auto
qed

lemma summary_concat_finite: "ls_finite (foldl summary_concat m ps) \<longleftrightarrow> ls_finite m \<and> (\<forall>p \<in> set ps. ls_finite p)"
  by (induction ps arbitrary: m) (auto simp: summary_concat_def)

lemma reach_offsets_all:
  assumes "icu_ok U"
  shows "vm_reach U c n s z \<Longrightarrow> plain_node U n \<Longrightarrow> icase_free n \<Longrightarrow> ls_finite (literal_offsets n) \<Longrightarrow>
           in_source c (vs_pos s) \<Longrightarrow> length (c_source c) \<le> u64_max \<Longrightarrow>
           describes (literal_offsets n) (c_source c) (vs_pos s - c_source_begin c) (vs_pos z - vs_pos s)"
    and "vm_path U c chs s z \<Longrightarrow> \<forall>ch \<in> set chs. plain_node U ch \<and> icase_free ch \<and> ls_finite (literal_offsets ch) \<Longrightarrow>
           in_source c (vs_pos s) \<Longrightarrow> length (c_source c) \<le> u64_max \<Longrightarrow>
           v \<le> vs_pos s - c_source_begin c \<Longrightarrow> describes m (c_source c) (vs_pos s - c_source_begin c - v) v \<Longrightarrow>
           describes (foldl summary_concat m (map (\<lambda>ch. literal_offsets ch) chs)) (c_source c)
             (vs_pos s - c_source_begin c - v) (v + (vs_pos z - vs_pos s))"
    and "vm_iter U c ch k s z \<Longrightarrow> plain_node U ch \<Longrightarrow> icase_free ch \<Longrightarrow> ls_finite (literal_offsets ch) \<Longrightarrow>
           in_source c (vs_pos s) \<Longrightarrow> length (c_source c) \<le> u64_max \<Longrightarrow>
           describes_iter (literal_offsets ch) (c_source c) (vs_pos s - c_source_begin c) k (vs_pos z - vs_pos s)"
proof (induction arbitrary: and v m rule: vm_reach_vm_path_vm_iter.inducts)
  case (reach_literal c s lit f e)
  then have r: "vm_reach U c (KLiteral f lit) s (s\<lparr>vs_pos := e\<rparr>)" by (simp add: vm_reach_vm_path_vm_iter.reach_literal)
  from reach_literal_occurs [OF assms r] reach_literal show ?case
    by (auto simp: describes_def empty_summary_def)
next
  case (reach_dot c s cp nx f)
  from context_rune_at_bounds [OF assms reach_dot(1)] show ?case by (auto simp: describes_def empty_summary_def)
next
  case (reach_class c s cp nx cls f)
  from context_rune_at_bounds [OF assms reach_class(1)] show ?case by (auto simp: describes_def empty_summary_def)
next
  case (reach_concat c chs s z f)
  have "describes empty_summary (c_source c) (vs_pos s - c_source_begin c - 0) 0"
    by (simp add: describes_def empty_summary_def)
  from reach_concat(2) [OF _ reach_concat(6,7) _ this] reach_concat(3-5) show ?case
    by (simp add: summary_concat_finite empty_summary_def)
next
  case (reach_alt ch chs c s z f)
  then have "describes (literal_offsets ch) (c_source c) (vs_pos s - c_source_begin c) (vs_pos z - vs_pos s)"
    by (simp add: summary_alt_def)
  with reach_alt(1) show ?case by (auto intro: describes_alt [of "literal_offsets ch"])
next
  case (reach_repeat c ch k s z mn mx f greedy)
  then obtain m where m: "mx = Some m" "k \<le> m" by (cases mx) (auto simp: summary_repeat_def Let_def)
  have "vs_pos s \<le> vs_pos z \<and> vs_pos z \<le> c_source_end c"
    using reach_mono(3) [OF assms reach_repeat(1)] reach_repeat(8) in_sourceD by blast
  then have "vs_pos s - c_source_begin c + (vs_pos z - vs_pos s) \<le> length (c_source c)"
    using reach_repeat(8) by (auto simp: in_source_def)
  moreover have "describes_iter (literal_offsets ch) (c_source c) (vs_pos s - c_source_begin c) k (vs_pos z - vs_pos s)"
    using reach_repeat by (simp add: summary_repeat_def Let_def)
  ultimately have "describes (summary_repeat mn (Some m) (literal_offsets ch)) (c_source c) (vs_pos s - c_source_begin c) (vs_pos z - vs_pos s)"
    using reach_repeat(3,9) m(2) by (intro describes_repeat)
  then show ?case by (simp add: m(1))
next
  case (path_cons c ch s q chs z)
  have q: "vs_pos s \<le> vs_pos q \<and> vs_pos q \<le> c_source_end c"
    using reach_mono(1) [OF assms path_cons(1)] path_cons(6) in_sourceD by blast
  then have ins: "in_source c (vs_pos q)" using path_cons(6) in_source_le by blast
  have z: "vs_pos q \<le> vs_pos z" using reach_mono(2) [OF assms path_cons(3)] ins in_sourceD by blast
  let ?st = "vs_pos s - c_source_begin c - v" and ?w = "v + (vs_pos q - vs_pos s)"
  have st: "?st + v = vs_pos s - c_source_begin c" "vs_pos q - c_source_begin c - ?w = ?st" "?w \<le> vs_pos q - c_source_begin c"
    using path_cons(6,8) q by (auto simp: in_source_def)
  have "describes (literal_offsets ch) (c_source c) (?st + v) (vs_pos q - vs_pos s)"
    unfolding st(1) using path_cons(2,5,6,7) by simp
  then have "describes (summary_concat m (literal_offsets ch)) (c_source c) ?st ?w"
    using path_cons(6,7,8) q by (intro describes_concat [OF path_cons(9)]) (auto simp: in_source_def)
  with path_cons(4) [OF _ ins path_cons(7) st(3)] path_cons(5) z q show ?case by (simp add: st(2))
next
  case (iter_zero c ch s)
  then show ?case by (simp add: describes_iter_def)
next
  case (iter_Suc c ch k s q z)
  have q: "vs_pos s \<le> vs_pos q \<and> vs_pos q \<le> c_source_end c"
    using reach_mono(3) [OF assms iter_Suc(1)] iter_Suc(8) in_sourceD by blast
  then have ins: "in_source c (vs_pos q)" using iter_Suc(8) in_source_le by blast
  have "vs_pos q \<le> vs_pos z" using reach_mono(1) [OF assms iter_Suc(3)] ins in_sourceD by blast
  then have sum: "vs_pos z - vs_pos s = (vs_pos q - vs_pos s) + (vs_pos z - vs_pos q)" using q by simp
  have "describes (literal_offsets ch) (c_source c) (vs_pos s - c_source_begin c + (vs_pos q - vs_pos s)) (vs_pos z - vs_pos q)"
    using iter_Suc ins q in_sourceD(1) [OF iter_Suc(8)] by simp
  with iter_Suc show ?case unfolding sum by (intro describes_iter_Suc) auto
qed (auto simp: describes_def empty_summary_def)

lemmas reach_offsets = reach_offsets_all(1)

end
