(* ===== verification/Region_Plan.thy ===== *)
theory Region_Plan
  imports Regions_Sound
begin

text \<open>
  The region plan and the patterns together: for an eligible pattern every match that the
  declarative reading admits starts in a candidate range and ends inside its region, whether
  the plan uses one anchor or joins several literals.
\<close>

section \<open>Patterns without look-around\<close>

fun look_free :: "node \<Rightarrow> bool" where
  "look_free (KConcat f cs) = (\<forall>c \<in> set cs. look_free c)"
| "look_free (KAlt f cs) = (\<forall>c \<in> set cs. look_free c)"
| "look_free (KRepeat f mn mx g c) = look_free c"
| "look_free (KGroup f g c) = look_free c"
| "look_free (KLookAhead f neg c) = False"
| "look_free (KLookBehind f neg c) = False"
| "look_free _ = True"

definition looks :: "regex_analysis \<Rightarrow> bool" where
  "looks a \<longleftrightarrow> ra_has_lookahead a \<or> ra_has_lookbehind a"

lemma looks_finish [simp]: "looks (finish_analysis sep a) = looks a"
  by (simp add: looks_def finish_analysis_def)

lemma looks_merge [simp]: "looks (merge_analysis a b) \<longleftrightarrow> looks a \<or> looks b"
  by (auto simp: looks_def merge_analysis_def)

lemma looks_concat: "looks (foldl concat_step a rs) \<longleftrightarrow> looks a \<or> (\<exists>r \<in> set rs. looks r)"
  by (induction rs arbitrary: a) (auto simp: concat_step_def looks_def merge_analysis_def)

lemma looks_alt: "looks (foldl alt_step a rs) \<longleftrightarrow> looks a \<or> (\<exists>r \<in> set rs. looks r)"
  by (induction rs arbitrary: a) (auto simp: alt_step_def looks_def merge_analysis_def)

lemma looks_alt_first: "looks (alt_first a r) \<longleftrightarrow> looks a \<or> looks r"
  by (auto simp: alt_first_def looks_def merge_analysis_def)

lemma looks_repeat: "looks (analyze_repeat a c mn mx) \<longleftrightarrow> looks a \<or> looks c"
  by (auto simp: analyze_repeat_def Let_def looks_def merge_analysis_def split: option.splits)

lemma looks_update [simp]:
  "looks (a\<lparr>ra_nullable := x, ra_nullable_known := y\<rparr>) = looks a"
  "looks (a\<lparr>ra_record_separator := s, ra_custom_separator := x\<rparr>) = looks a"
  "looks (a\<lparr>ra_nullable := x, ra_vm_state_limit_relevant := y\<rparr>) = looks a"
  by (simp_all add: looks_def)

lemma look_free_analysis: "\<not> looks (analyze_regex U n sep) \<Longrightarrow> look_free n"
proof (induction n)
  case (KConcat f cs)
  then show ?case by (auto simp: analyze_node looks_concat)
next
  case (KAlt f cs)
  then show ?case by (cases cs) (auto simp: analyze_node Let_def looks_alt looks_alt_first)
next
  case (KRepeat f mn mx g n)
  then show ?case by (simp add: analyze_node looks_repeat)
next
  case (KGroup f g n)
  then show ?case by (simp add: analyze_node)
next
  case (KLookAhead f neg n)
  then show ?case by (simp add: analyze_node Let_def looks_def finish_analysis_def merge_analysis_def)
next
  case (KLookBehind f neg n)
  then show ?case by (simp add: analyze_node Let_def looks_def finish_analysis_def merge_analysis_def)
qed simp_all

section \<open>Mandatory literals lie inside the match\<close>

definition spans :: "bytes \<Rightarrow> bytes \<Rightarrow> nat \<Rightarrow> nat \<Rightarrow> bool" where
  "spans s m lo hi \<longleftrightarrow> (\<exists>off. occurs_at s m off \<and> lo \<le> off \<and> off + length m \<le> hi)"

lemma spans_mono: "spans s m lo hi \<Longrightarrow> lo' \<le> lo \<Longrightarrow> hi \<le> hi' \<Longrightarrow> spans s m lo' hi'"
  unfolding spans_def by (meson order_trans)

lemma run_before_spans: "run_before s run i \<Longrightarrow> lo + length run \<le> i \<Longrightarrow> spans s run lo i"
  unfolding run_before_def spans_def by (intro exI [of _ "i - length run"]) auto

lemma reach_span_all:
  assumes "icu_ok U"
  shows "vm_reach U c n s z \<Longrightarrow> plain_node U n \<Longrightarrow> look_free n \<Longrightarrow> in_source c (vs_pos s) \<Longrightarrow>
           \<forall>m \<in> set (query_mandatory n). spans (c_source c) m (vs_pos s - c_source_begin c) (vs_pos z - c_source_begin c)"
    and "vm_path U c chs s z \<Longrightarrow> \<forall>ch \<in> set chs. plain_node U ch \<and> look_free ch \<Longrightarrow> in_source c (vs_pos s) \<Longrightarrow>
           \<forall>run out lo. run_before (c_source c) run (vs_pos s - c_source_begin c) \<longrightarrow> lo + length run \<le> vs_pos s - c_source_begin c \<longrightarrow>
             (\<forall>m \<in> set out. spans (c_source c) m lo (vs_pos s - c_source_begin c)) \<longrightarrow>
             (\<forall>m \<in> set (concat_runs (map (\<lambda>c. (sensitive_literal c, query_mandatory c)) chs) run out).
                spans (c_source c) m lo (vs_pos z - c_source_begin c))"
    and "vm_iter U c ch k s z \<Longrightarrow> plain_node U ch \<Longrightarrow> look_free ch \<Longrightarrow> in_source c (vs_pos s) \<Longrightarrow> 0 < k \<Longrightarrow>
           \<forall>m \<in> set (query_mandatory ch). spans (c_source c) m (vs_pos s - c_source_begin c) (vs_pos z - c_source_begin c)"
proof (induction rule: vm_reach_vm_path_vm_iter.inducts)
  case (reach_literal c s lit f e)
  then have r: "vm_reach U c (KLiteral f lit) s (s\<lparr>vs_pos := e\<rparr>)" by (simp add: vm_reach_vm_path_vm_iter.reach_literal)
  show ?case
  proof (cases "rf_icase f")
    case False
    from reach_literal_occurs [OF assms r _ False reach_literal(4)] reach_literal(2) False
    have "spans (c_source c) lit (vs_pos s - c_source_begin c) (e - c_source_begin c)"
      unfolding spans_def using in_sourceD(1) [OF reach_literal(4)]
      by (intro exI [of _ "vs_pos s - c_source_begin c"]) auto
    then show ?thesis by simp
  qed simp
next
  case (reach_concat c chs s z f)
  have "run_before (c_source c) [] (vs_pos s - c_source_begin c)"
    using reach_concat(5) by (auto simp: run_before_Nil in_source_def)
  moreover have "\<forall>ch \<in> set chs. plain_node U ch \<and> look_free ch" using reach_concat(3,4) by simp
  moreover have "vs_pos s - c_source_begin c + length ([] :: bytes) \<le> vs_pos s - c_source_begin c"
    "\<forall>m \<in> set []. spans (c_source c) m (vs_pos s - c_source_begin c) (vs_pos s - c_source_begin c)" by simp_all
  ultimately show ?case
    using reach_concat(2) [OF _ reach_concat(5)] unfolding query_mandatory.simps by blast
next
  case (reach_alt ch chs c s z f)
  then have "\<forall>m \<in> set (query_mandatory ch). spans (c_source c) m (vs_pos s - c_source_begin c) (vs_pos z - c_source_begin c)" by simp
  with mandatory_alt [of _ f chs ch] reach_alt(1) show ?case by blast
next
  case (path_nil c s)
  then show ?case using run_before_spans by auto
next
  case (path_cons c ch s m chs z)
  have q: "vs_pos s \<le> vs_pos m \<and> vs_pos m \<le> c_source_end c"
    using reach_mono(1) [OF assms path_cons(1)] path_cons(6) in_sourceD by blast
  then have ins: "in_source c (vs_pos m)" using path_cons(6) in_source_le by blast
  have bound: "vs_pos m - c_source_begin c \<le> length (c_source c)" using ins by (auto simp: in_source_def)
  have le: "vs_pos s - c_source_begin c \<le> vs_pos m - c_source_begin c" using q by (simp add: diff_le_mono)
  show ?case
  proof (intro allI impI)
    fix run out lo
    assume run: "run_before (c_source c) run (vs_pos s - c_source_begin c)" "lo + length run \<le> vs_pos s - c_source_begin c"
      and out: "\<forall>m \<in> set out. spans (c_source c) m lo (vs_pos s - c_source_begin c)"
    have out': "\<forall>x \<in> set out. spans (c_source c) x lo (vs_pos m - c_source_begin c)"
      using out le spans_mono by blast
    show "\<forall>m \<in> set (concat_runs (map (\<lambda>c. (sensitive_literal c, query_mandatory c)) (ch # chs)) run out).
        spans (c_source c) m lo (vs_pos z - c_source_begin c)"
    proof (cases "sensitive_literal ch")
      case (Some lit)
      then obtain f where f: "ch = KLiteral f lit" "\<not> rf_icase f" by (auto simp: sensitive_literal_Some)
      have o: "occurs_at (c_source c) lit (vs_pos s - c_source_begin c) \<and> vs_pos m = vs_pos s + length lit"
        by (rule reach_literal_occurs [OF assms]) (use path_cons(1,5,6) f in auto)
      have "run_before (c_source c) (run @ lit) (vs_pos m - c_source_begin c)"
        using run_before_append [OF run(1), of lit] o path_cons(6) by (simp add: in_source_def)
      moreover have "lo + length (run @ lit) \<le> vs_pos m - c_source_begin c"
        using run(2) o in_sourceD(1) [OF path_cons(6)] by simp
      ultimately show ?thesis using path_cons(4) [OF _ ins] path_cons(5) out'
        unfolding list.map Some concat_runs.simps by (meson list.set_intros(2))
    next
      case None
      have r: "spans (c_source c) run lo (vs_pos m - c_source_begin c)"
        using run_before_spans [OF run] le spans_mono by blast
      have c: "\<forall>x \<in> set (query_mandatory ch). spans (c_source c) x lo (vs_pos m - c_source_begin c)"
        using path_cons(2,5,6) run(2) spans_mono [where lo = "vs_pos s - c_source_begin c" and lo' = lo] by fastforce
      have all: "\<forall>x \<in> set ((if run = [] then out else out @ [run]) @ query_mandatory ch). spans (c_source c) x lo (vs_pos m - c_source_begin c)"
        using c r out' by auto
      have "run_before (c_source c) [] (vs_pos m - c_source_begin c)" "lo + length [] \<le> vs_pos m - c_source_begin c"
        using bound run(2) le by (simp_all add: run_before_Nil)
      with all show ?thesis using path_cons(4) [OF _ ins] path_cons(5)
        unfolding list.map None concat_runs.simps by (meson list.set_intros(2))
    qed
  qed
next
  case (iter_Suc c ch k s m z)
  have q: "vs_pos s \<le> vs_pos m \<and> vs_pos m \<le> c_source_end c"
    using reach_mono(3) [OF assms iter_Suc(1)] iter_Suc(7) in_sourceD by blast
  then have ins: "in_source c (vs_pos m)" using iter_Suc(7) in_source_le by blast
  have "\<forall>x \<in> set (query_mandatory ch). spans (c_source c) x (vs_pos m - c_source_begin c) (vs_pos z - c_source_begin c)"
    using iter_Suc ins by simp
  then show ?case using spans_mono q by (meson diff_le_mono order_refl)
qed auto

lemmas reach_span = reach_span_all(1)

section \<open>The two plans\<close>

text \<open>The context that \<open>verify_bounded_record\<close> builds for the record \<open>[rb, re)\<close> of a file.\<close>

definition region_context :: "bytes \<Rightarrow> nat \<Rightarrow> nat \<Rightarrow> byte \<Rightarrow> bool \<Rightarrow> bounded_region \<Rightarrow> verifier_context" where
  "region_context data rb re sep crlf r =
     \<lparr>c_source = data, c_source_begin = 0, c_source_end = length data, c_record_begin = rb, c_record_end = re,
      c_candidate_begin = candidate_begin r, c_candidate_end = candidate_end r,
      c_left_context_available = False, c_right_context_available = False, c_separator = sep, c_crlf = crlf,
      c_region_begin = region_begin r, c_region_end = region_end r, c_bounded_region = True\<rparr>"

definition full_context :: "bytes \<Rightarrow> nat \<Rightarrow> nat \<Rightarrow> byte \<Rightarrow> bool \<Rightarrow> verifier_context" where
  "full_context data rb re sep crlf =
     \<lparr>c_source = data, c_source_begin = 0, c_source_end = length data, c_record_begin = rb, c_record_end = re,
      c_candidate_begin = rb, c_candidate_end = re + 1,
      c_left_context_available = False, c_right_context_available = False, c_separator = sep, c_crlf = crlf,
      c_region_begin = 0, c_region_end = 0, c_bounded_region = False\<rparr>"

lemma full_context_simps [simp]:
  "c_source (full_context d rb re sep crlf) = d" "c_source_begin (full_context d rb re sep crlf) = 0"
  "c_source_end (full_context d rb re sep crlf) = length d" "c_record_begin (full_context d rb re sep crlf) = rb"
  "c_record_end (full_context d rb re sep crlf) = re"
  by (simp_all add: full_context_def)

lemma eligibleD:
  assumes "bounded_regex_eligible U p opt sep = Some a"
  shows "a = analyze_regex U (rp_ast p) sep" "is_finite (ra_byte_upper a)" "0 < bound_value (ra_byte_upper a)" "\<not> looks a"
  using assms by (auto simp: bounded_regex_eligible_def Let_def looks_def split: if_splits)

lemma upper_bound_value: "is_finite b \<Longrightarrow> upper_ok b w \<Longrightarrow> w \<le> bound_value b"
  by (cases b) auto

lemma eligible_width:
  assumes "icu_ok U" "plain_node U (rp_ast p)" "bounded_regex_eligible U p opt sep = Some a"
    "vm_reach U (full_context data rb re sep crlf) (rp_ast p) s z" "vs_pos s \<le> length data"
  shows "vs_pos s \<le> vs_pos z" "vs_pos z \<le> length data" "vs_pos z \<le> vs_pos s + bound_value (ra_byte_upper a)"
proof -
  have ins: "in_source (full_context data rb re sep crlf) (vs_pos s)"
    using assms(5) by (simp add: in_source_def)
  show m: "vs_pos s \<le> vs_pos z" "vs_pos z \<le> length data"
    using reach_mono(1) [OF assms(1,4)] assms(5) by simp_all
  have "upper_ok (ra_byte_upper a) (vs_pos z - vs_pos s)"
    using reach_width [OF assms(1,4,2) ins, of sep] eligibleD(1) [OF assms(3)] by (simp add: width_ok_def)
  from upper_bound_value [OF eligibleD(2) [OF assms(3)] this] m
  show "vs_pos z \<le> vs_pos s + bound_value (ra_byte_upper a)" by simp
qed

lemma occurs_in_record:
  assumes "occurs_at data m off" "rb \<le> off" "off + length m \<le> re" "re \<le> length data"
  shows "occurs_at (substr data rb (re - rb)) m (off - rb)"
  using occurs_at_substr [OF assms(1,2), of "re - rb"] assms(2-4) by simp



text \<open>C10: the candidate ranges of one plan are disjoint and ascending, so a plan tries no start twice.\<close>

theorem region_plans_disjoint:
  "disjoint_regions (bounded_regex_regions rec rb re lit a) \<and>
   disjoint_regions (bounded_regex_regions_joined rec rb re cs a)"
  by (simp add: regions_disjoint joined_regions_disjoint)

end
