(* ===== verification/Index_Filters.thy ===== *)
theory Index_Filters
  imports Index_Data
begin

text \<open>
  What the constructed filters contain.  The chunks of a file partition its bytes, every
  chunk sits in exactly the group its size selects, every 4-byte window of a chunk has its
  bit set in the group's row, and every window of a positional block has its bit set in the
  block matrix.  \<open>wf_index\<close> says that an index carries exactly the filters that
  \<open>materialize_index_filters\<close> computes; \<open>from_documents\<close> establishes it.
\<close>

section \<open>Marked cells\<close>

lemma nth_mark_cell:
  fixes cells :: "'a::len word list"
  assumes "k < length cells" "b < LENGTH('a)" "k' < length cells"
  shows "bit (mark_cell cells k b ! k') b' \<longleftrightarrow> bit (cells ! k') b' \<or> (k' = k \<and> b' = b)"
  using assms
  by (auto simp: mark_cell_def nth_list_update bit_or_iff bit_exp_iff)

lemma length_mark_cell [simp]: "length (mark_cell cells k b) = length cells"
  by (simp add: mark_cell_def)

definition mark_all :: "(nat \<times> nat) list \<Rightarrow> 'a::len word list \<Rightarrow> 'a word list" where
  "mark_all ms cells = fold (\<lambda>(k, b) c. mark_cell c k b) ms cells"

lemma mark_all_simps [simp]:
  "mark_all [] cells = cells"
  "mark_all ((k, b) # ms) cells = mark_all ms (mark_cell cells k b)"
  by (simp_all add: mark_all_def)

lemma mark_all_append: "mark_all (ms @ ns) cells = mark_all ns (mark_all ms cells)"
  by (simp add: mark_all_def)

lemma length_mark_all [simp]: "length (mark_all ms cells) = length cells"
  by (induction ms arbitrary: cells) (auto simp: split_paired_all)

lemma nth_mark_all:
  fixes cells :: "'a::len word list"
  assumes "\<forall>(k, b) \<in> set ms. k < length cells \<and> b < LENGTH('a)" "k < length cells"
  shows "bit (mark_all ms cells ! k) b \<longleftrightarrow> bit (cells ! k) b \<or> (k, b) \<in> set ms"
  using assms
proof (induction ms arbitrary: cells)
  case (Cons kb ms)
  obtain k0 b0 where "kb = (k0, b0)" by (cases kb)
  with Cons show ?case by (auto simp: nth_mark_cell)
qed simp

lemma fold_mark_cell:
  "fold (\<lambda>x c. mark_cell c (f x) (g x)) xs cells = mark_all (map (\<lambda>x. (f x, g x)) xs) cells"
  by (induction xs arbitrary: cells) auto

lemma fold_mark_all_concat:
  "fold (\<lambda>x. mark_all (h x)) xs cells = mark_all (concat (map h xs)) cells"
  by (induction xs arbitrary: cells) (auto simp: mark_all_append)

lemma row_of_less: "0 < m \<Longrightarrow> row_of h m < m"
proof -
  assume "0 < m"
  have "h AND of_nat (m - 1) \<le> of_nat (m - 1)" by (rule word_and_le1)
  then have "unat (h AND of_nat (m - 1)) \<le> unat (of_nat (m - 1) :: u32)"
    by (simp add: word_le_nat_alt)
  also have "\<dots> \<le> m - 1" by (simp add: unat_of_nat)
  finally show ?thesis using \<open>0 < m\<close> by (simp add: row_of_def)
qed

section \<open>Chunk layout\<close>

lemma lg_loop_bounds: "lg \<le> 16 \<Longrightarrow> lg \<le> lg_loop b lg want \<and> lg_loop b lg want \<le> 16"
proof (induction b lg want rule: lg_loop.induct)
  case (1 b lg want)
  then show ?case by (subst (1 2) lg_loop.simps) auto
qed

lemma lg_for_bounds: "9 \<le> lg_for n" "lg_for n \<le> 16"
  using lg_loop_bounds [of 9] by (auto simp: lg_for_def)

lemma lg_loop_capacity:
  "b = 2 ^ lg \<Longrightarrow> lg \<le> 16 \<Longrightarrow> want \<le> 65536 \<Longrightarrow> want \<le> 2 ^ lg_loop b lg want"
proof (induction b lg want rule: lg_loop.induct)
  case (1 b lg want)
  show ?case
  proof (cases "b < want \<and> lg < 16")
    case True
    with 1 show ?thesis by (subst lg_loop.simps) simp
  next
    case False
    then have "want \<le> b \<or> lg = 16" using "1.prems" by linarith
    with False "1.prems" show ?thesis by (subst lg_loop.simps) auto
  qed
qed

lemma lg_for_capacity: "min (2 * n) 65536 \<le> 2 ^ lg_for n"
proof -
  have "max 512 (min (n * 2) 65536) \<le> 2 ^ lg_for n"
    unfolding lg_for_def by (rule lg_loop_capacity) auto
  then show ?thesis by (simp add: mult.commute)
qed

lemma chunk_class_less: "chunk_class c < 8" "chunk_class c + 9 = lg_for (ext_len c)"
  using lg_for_bounds [of "ext_len c"] by (auto simp: chunk_class_def)

lemma chunk_loop_members:
  assumes "c \<in> set (chunk_loop fid n core over b)"
  shows "file_id c = fid \<and> b \<le> core_begin c \<and> core_begin c < core_end c \<and> core_end c \<le> n \<and>
         core_end c \<le> core_begin c + core \<and> ext_end c = min n (core_end c + over)"
  using assms
proof (induction fid n core over b rule: chunk_loop.induct)
  case (1 fid n core over b)
  then show ?case
    by (subst (asm) (2) chunk_loop.simps) (fastforce simp: Let_def split: if_splits)
qed

lemma chunk_loop_cores:
  assumes "0 < core"
  shows "concat (map (\<lambda>c. [core_begin c ..< core_end c]) (chunk_loop fid n core over b)) = [b ..< n]"
  using assms
proof (induction fid n core over b rule: chunk_loop.induct)
  case (1 fid n core over b)
  show ?case
  proof (cases "b < n")
    case False
    then show ?thesis by (subst chunk_loop.simps) auto
  next
    case True
    have "[b ..< n] = [b ..< min n (b + core)] @ [b + core ..< n]"
      using upt_add_eq_append [of b "b + core" "n - (b + core)"] True by (cases "b + core \<le> n") (auto simp: min_def)
    with True 1 show ?thesis by (subst chunk_loop.simps) (simp add: Let_def)
  qed
qed

lemma file_chunks_members:
  assumes "c \<in> set (file_chunks core over fid n)"
  shows "file_id c = fid \<and> core_begin c \<le> core_end c \<and> core_end c \<le> n \<and>
         core_len c \<le> core \<and> ext_end c = min n (core_end c + over)"
  using assms chunk_loop_members [of c fid n core over 0]
  by (auto simp: file_chunks_def core_len_def split: if_splits)

lemma concat_file_chunks:
  "0 < core \<Longrightarrow>
   concat (map (\<lambda>c. [core_begin c ..< core_end c]) (file_chunks core over fid n)) = [0 ..< n]"
  using chunk_loop_cores by (simp add: file_chunks_def)

text \<open>C14: the chunk cores of a file are consecutive and cover every byte exactly once.\<close>

theorem file_chunks_partition:
  assumes "0 < core"
  shows "concat (map (\<lambda>c. [core_begin c ..< core_end c]) (file_chunks core over fid n)) = [0 ..< n]"
  using assms by (rule concat_file_chunks)

theorem file_chunks_partition_witness:
  "(0::nat) < 64 \<and>
   concat (map (\<lambda>c. [core_begin c ..< core_end c]) (file_chunks 64 16 3 150)) = [0 ..< 150]"
  using file_chunks_partition [of 64 16 3 150] by simp

section \<open>Well-formed indexes\<close>

definition wf_index :: "index_data \<Rightarrow> bool" where
  "wf_index I \<longleftrightarrow>
     0 < chunk_bytes (ix_opt I) \<and> 0 < pos_block I \<and> length (infos I) = length (loaded I) \<and>
     chunks I = layout_chunks I \<and> groups I = build_groups I \<and>
     pos_descs I = fst (layout_pos I 0 (chunks I)) \<and>
     pos_bits I = fold (mark_positional I) [0 ..< length (chunks I)] (replicate (snd (layout_pos I 0 (chunks I))) 0)"

lemma chunk_stats_frame:
  "chunks (chunk_stats I ci) = chunks I \<and> loaded (chunk_stats I ci) = loaded I \<and>
   infos (chunk_stats I ci) = infos I \<and> ix_opt (chunk_stats I ci) = ix_opt I \<and>
   pos_block (chunk_stats I ci) = pos_block I \<and> corp_bytes (chunk_stats I ci) = corp_bytes I \<and>
   byte_freq (chunk_stats I ci) = byte_freq I \<and> qgram_freq (chunk_stats I ci) = qgram_freq I"
  by (simp add: chunk_stats_def Let_def)

lemma fold_chunk_stats_frame:
  "let J = fold (\<lambda>ci J. chunk_stats J ci) ks I in
   chunks J = chunks I \<and> loaded J = loaded I \<and> infos J = infos I \<and> ix_opt J = ix_opt I \<and>
   pos_block J = pos_block I \<and> corp_bytes J = corp_bytes I \<and> byte_freq J = byte_freq I \<and>
   qgram_freq J = qgram_freq I"
  by (induction ks arbitrary: I) (simp_all add: Let_def chunk_stats_frame)

lemma rebuild_planner_stats_frame:
  "chunks (rebuild_planner_stats I) = chunks I \<and> loaded (rebuild_planner_stats I) = loaded I \<and>
   infos (rebuild_planner_stats I) = infos I \<and> ix_opt (rebuild_planner_stats I) = ix_opt I \<and>
   pos_block (rebuild_planner_stats I) = pos_block I \<and> corp_bytes (rebuild_planner_stats I) = corp_bytes I \<and>
   byte_freq (rebuild_planner_stats I) = byte_freq I \<and> qgram_freq (rebuild_planner_stats I) = qgram_freq I"
  using fold_chunk_stats_frame
  by (auto simp: rebuild_planner_stats_def Let_def split: option.splits)

text \<open>The construction steps read the chunk table and the corpus only.\<close>

lemma layout_chunks_cong:
  "loaded I = loaded J \<Longrightarrow> ix_opt I = ix_opt J \<Longrightarrow> layout_chunks I = layout_chunks J"
  by (simp add: layout_chunks_def content_def)

lemma build_groups_cong:
  assumes "loaded I = loaded J" "chunks I = chunks J"
  shows "build_groups I = build_groups J"
proof -
  have "add_chunk_to_group I = add_chunk_to_group J"
    using assms by (intro ext) (simp add: add_chunk_to_group_def chunk_view_def content_def)
  with assms show ?thesis by (simp add: build_groups_def)
qed

lemma layout_pos_cong:
  assumes "ix_opt I = ix_opt J" "pos_block I = pos_block J"
  shows "layout_pos I off zs = layout_pos J off zs"
  using assms by (induction zs arbitrary: off) (auto simp: make_pos_desc_def Let_def)

lemma mark_positional_cong:
  assumes "loaded I = loaded J" "chunks I = chunks J" "pos_descs I = pos_descs J" "pos_block I = pos_block J"
  shows "mark_positional I = mark_positional J"
proof -
  have "mark_block I = mark_block J"
    using assms by (intro ext) (simp add: mark_block_def block_view_def content_def Let_def)
  with assms show ?thesis by (intro ext) (simp add: mark_positional_def Let_def)
qed

lemma wf_index_materialize:
  assumes "0 < chunk_bytes (ix_opt I)" "0 < pos_block I" "length (infos I) = length (loaded I)"
  shows "wf_index (materialize_index_filters I)"
proof -
  define I1 where "I1 = rebuild_planner_stats (I\<lparr>chunks := layout_chunks I\<rparr>)"
  define I2 where "I2 = I1\<lparr>groups := build_groups I1\<rparr>"
  define I3 where "I3 = I2\<lparr>pos_descs := fst (layout_pos I2 0 (chunks I2))\<rparr>"
  define I4 where "I4 = I3\<lparr>pos_bits := fold (mark_positional I3) [0 ..< length (chunks I3)]
                            (replicate (snd (layout_pos I2 0 (chunks I2))) 0)\<rparr>"
  have I4: "materialize_index_filters I = I4"
    by (simp add: materialize_index_filters_def I4_def I3_def I2_def I1_def Let_def split: prod.splits)
  have fr: "chunks I1 = layout_chunks I" "loaded I1 = loaded I" "infos I1 = infos I"
      "ix_opt I1 = ix_opt I" "pos_block I1 = pos_block I"
    using rebuild_planner_stats_frame [of "I\<lparr>chunks := layout_chunks I\<rparr>"] by (simp_all add: I1_def)
  have f4: "chunks I4 = chunks I1" "loaded I4 = loaded I1" "ix_opt I4 = ix_opt I1" "pos_block I4 = pos_block I1"
    "infos I4 = infos I1" "pos_descs I4 = pos_descs I3"
    by (simp_all add: I4_def I3_def I2_def)
  have "layout_pos I4 0 (chunks I4) = layout_pos I2 0 (chunks I2)"
    using f4 layout_pos_cong [of I4 I2] by (simp add: I2_def)
  moreover have "mark_positional I4 = mark_positional I3"
    by (rule mark_positional_cong) (simp_all add: I4_def)
  moreover have "layout_chunks I4 = layout_chunks I"
    using f4 fr by (intro layout_chunks_cong) simp_all
  moreover have "build_groups I4 = build_groups I1"
    using f4 by (intro build_groups_cong) simp_all
  ultimately show ?thesis
    unfolding I4 wf_index_def using assms fr f4
    by (auto simp: I4_def I3_def I2_def)
qed

lemma add_document_frame:
  assumes "add_document I d = Inr I'"
  shows "ix_opt I' = ix_opt I \<and> pos_block I' = pos_block I \<and> ephemeral I' = ephemeral I \<and>
         loaded I' = loaded I @ [(document_info d, doc_content d)] \<and>
         infos I' = infos I @ [document_info d] \<and>
         corp_bytes I' = corp_bytes I + length (doc_content d)"
  using assms by (auto simp: add_document_def Let_def split: if_splits)

lemma add_documents_frame:
  assumes "add_documents I ds = Inr I'"
  shows "ix_opt I' = ix_opt I \<and> pos_block I' = pos_block I \<and> ephemeral I' = ephemeral I \<and>
         loaded I' = loaded I @ map (\<lambda>d. (document_info d, doc_content d)) ds \<and>
         infos I' = infos I @ map document_info ds \<and>
         corp_bytes I' = corp_bytes I + sum_list (map (length \<circ> doc_content) ds)"
  using assms
proof (induction ds arbitrary: I)
  case (Cons d ds)
  then obtain J where J: "add_document I d = Inr J" "add_documents J ds = Inr I'"
    by (auto split: sum.splits)
  from Cons.IH [OF J(2)] add_document_frame [OF J(1)] show ?case by auto
qed simp

lemma wf_index_from_documents:
  assumes "from_documents docs opt = Inr I"
  shows "wf_index I"
proof -
  let ?E = "empty_index_data\<lparr>ix_opt := opt, pos_block := positional_block_bytes opt, ephemeral := True\<rparr>"
  from assms obtain u J where v: "validate_index_options opt = Inr u"
    and J: "add_documents ?E (sort_key doc_path docs) = Inr J" and I: "I = materialize_index_filters J"
    by (auto simp: from_documents_def split: sum.splits)
  from add_documents_frame [OF J] have "ix_opt J = opt" "pos_block J = positional_block_bytes opt"
    "length (infos J) = length (loaded J)" by (auto simp: empty_index_data_def)
  with validate_index_options_Inr [OF v] show ?thesis unfolding I by (intro wf_index_materialize) auto
qed

lemma materialize_frame:
  "loaded (materialize_index_filters I) = loaded I \<and> infos (materialize_index_filters I) = infos I \<and>
   ix_opt (materialize_index_filters I) = ix_opt I \<and> pos_block (materialize_index_filters I) = pos_block I \<and>
   byte_freq (materialize_index_filters I) = byte_freq I"
  using rebuild_planner_stats_frame [of "I\<lparr>chunks := layout_chunks I\<rparr>"]
  by (simp add: materialize_index_filters_def Let_def split: prod.splits)

lemma from_documents_frame:
  assumes "from_documents docs opt = Inr I"
  shows "infos I = map document_info (sort_key doc_path docs) \<and>
         loaded I = map (\<lambda>d. (document_info d, doc_content d)) (sort_key doc_path docs) \<and>
         ix_opt I = opt \<and> pos_block I = positional_block_bytes opt"
proof -
  let ?E = "empty_index_data\<lparr>ix_opt := opt, pos_block := positional_block_bytes opt, ephemeral := True\<rparr>"
  from assms obtain u J where J: "add_documents ?E (sort_key doc_path docs) = Inr J"
    and I: "I = materialize_index_filters J"
    by (auto simp: from_documents_def split: sum.splits)
  from add_documents_frame [OF J] materialize_frame [of J] show ?thesis
    unfolding I by (auto simp: empty_index_data_def)
qed

lemma add_documents_size:
  assumes "add_documents I ds = Inr I'" "corp_bytes I \<le> kMaxCorpusBytes"
  shows "corp_bytes I' \<le> kMaxCorpusBytes"
  using assms
proof (induction ds arbitrary: I)
  case (Cons d ds)
  then obtain J where J: "add_document I d = Inr J" "add_documents J ds = Inr I'"
    by (auto split: sum.splits)
  then have "corp_bytes J \<le> kMaxCorpusBytes"
    using Cons.prems(2) by (auto simp: add_document_def Let_def split: if_splits)
  with J Cons.IH show ?case by blast
qed simp

text \<open>Building from documents keeps exactly the given documents, in path order, with their
  metadata, and a corpus of more than 1 GiB is refused.\<close>

theorem from_documents_content:
  assumes "from_documents docs opt = Inr I"
  shows "infos I = map document_info (sort_key doc_path docs) \<and>
         loaded I = map (\<lambda>d. (document_info d, doc_content d)) (sort_key doc_path docs) \<and>
         sum_list (map (length \<circ> doc_content) (sort_key doc_path docs)) \<le> kMaxCorpusBytes"
proof -
  let ?E = "empty_index_data\<lparr>ix_opt := opt, pos_block := positional_block_bytes opt, ephemeral := True\<rparr>"
  from assms obtain u J where J: "add_documents ?E (sort_key doc_path docs) = Inr J"
    by (auto simp: from_documents_def split: sum.splits)
  have z: "corp_bytes ?E = 0" by (simp add: empty_index_data_def)
  have "corp_bytes J = sum_list (map (length \<circ> doc_content) (sort_key doc_path docs))"
    using add_documents_frame [OF J] z by simp
  moreover have "corp_bytes J \<le> kMaxCorpusBytes" by (rule add_documents_size [OF J]) (simp add: z)
  ultimately show ?thesis using from_documents_frame [OF assms] by simp
qed

section \<open>The chunk-level groups\<close>

text \<open>
  A group of class \<open>k\<close> after the first \<open>n\<close> chunks: its shape, its members in chunk order,
  and exactly the bits its members' windows set.
\<close>

definition class_members :: "index_data \<Rightarrow> nat \<Rightarrow> nat \<Rightarrow> nat list" where
  "class_members I n k = filter (\<lambda>ci. chunk_class (chunks I ! ci) = k) [0 ..< n]"

definition chunk_has_row :: "index_data \<Rightarrow> nat \<Rightarrow> nat \<Rightarrow> nat \<Rightarrow> bool" where
  "chunk_has_row I ci m r \<longleftrightarrow>
     (let v = chunk_view I (chunks I ! ci) in \<exists>j \<in> set (windows v). row_of (hash4 v j) m = r)"

definition group_ok :: "index_data \<Rightarrow> nat \<Rightarrow> nat \<Rightarrow> group \<Rightarrow> bool" where
  "group_ok I n k g \<longleftrightarrow>
     g_lg g = k + 9 \<and> g_m g = 2 ^ (k + 9) \<and>
     g_words g = (length (filter (\<lambda>c. chunk_class c = k) (chunks I)) + 63) div 64 \<and>
     g_gids g = class_members I n k \<and> length (g_bits g) = g_m g * g_words g \<and>
     (\<forall>r < g_m g. \<forall>li < 64 * g_words g.
        bit (g_bits g ! (r * g_words g + li div 64)) (li mod 64) \<longleftrightarrow>
        li < length (g_gids g) \<and> chunk_has_row I (g_gids g ! li) (g_m g) r)"

lemma class_members_Suc:
  "class_members I (Suc n) k =
     (if chunk_class (chunks I ! n) = k then class_members I n k @ [n] else class_members I n k)"
  by (simp add: class_members_def)

lemma length_class_members_less:
  assumes "n < length (chunks I)" "chunk_class (chunks I ! n) = k"
  shows "length (class_members I n k) < length (filter (\<lambda>c. chunk_class c = k) (chunks I))"
proof -
  have split: "[0 ..< length (chunks I)] = [0 ..< n] @ n # [Suc n ..< length (chunks I)]"
    using assms(1) upt_add_eq_append [of 0 n "length (chunks I) - n"] by (simp add: upt_conv_Cons)
  have "filter (\<lambda>c. chunk_class c = k) (chunks I) =
        map (\<lambda>i. chunks I ! i) (filter (\<lambda>ci. chunk_class (chunks I ! ci) = k) [0 ..< length (chunks I)])"
    by (subst map_nth [of "chunks I", symmetric], subst filter_map) (simp add: o_def)
  then show ?thesis using assms(2) by (simp add: split class_members_def)
qed

lemma cell_index_inj:
  fixes r r' w i i' :: nat
  assumes "i < w" "i' < w" "r * w + i = r' * w + i'"
  shows "r = r' \<and> i = i'"
proof -
  have "(r * w + i) div w = r" "(r * w + i) mod w = i" "(r' * w + i') div w = r'" "(r' * w + i') mod w = i'"
    using assms(1,2) by simp_all
  with assms(3) show ?thesis by metis
qed

lemma cell_index_less:
  fixes r w i m :: nat
  assumes "i < w" "r < m"
  shows "r * w + i < m * w"
proof -
  have "r * w + i < Suc r * w" using assms(1) by simp
  also have "\<dots> \<le> m * w" using assms(2) by (intro mult_le_mono1) simp
  finally show ?thesis .
qed

lemma fold_mark_gram:
  "fold (\<lambda>j. mark_gram m words li (h j)) js bits =
     mark_all (map (\<lambda>j. (row_of (h j) m * words + li div 64, li mod 64)) js) bits"
  using fold_mark_cell [where f = "\<lambda>j. row_of (h j) m * words + li div 64" and g = "\<lambda>j. li mod 64"]
  by (simp add: mark_gram_def [abs_def])

lemma group_ok_init:
  assumes "k < 8"
  shows "group_ok I 0 k (init_groups (chunks I) ! k)"
proof -
  have "\<not> bit (replicate (a * w) (0 :: u64) ! (r * w + li div 64)) b"
    if "r < a" "li < 64 * w" for a w r li b
    using cell_index_less [of "li div 64" w r a] that by (simp add: less_mult_imp_div_less mult.commute)
  with assms show ?thesis by (auto simp: group_ok_def init_groups_def class_members_def Let_def)
qed

lemma group_ok_step:
  assumes "n < length (chunks I)" and "chunk_class (chunks I ! n) = k" and g: "group_ok I n k g"
    and v: "v = chunk_view I (chunks I ! n)" and li: "li = length (g_gids g)"
  shows "group_ok I (Suc n) k
           (g\<lparr>g_gids := g_gids g @ [n],
              g_bits := fold (\<lambda>j. mark_gram (g_m g) (g_words g) li (hash4 v j)) (windows v) (g_bits g)\<rparr>)"
proof -
  let ?m = "g_m g" and ?w = "g_words g"
  let ?ms = "map (\<lambda>j. (row_of (hash4 v j) ?m * ?w + li div 64, li mod 64)) (windows v)"
  have m: "0 < ?m" using g by (simp add: group_ok_def)
  have "li < length (filter (\<lambda>c. chunk_class c = k) (chunks I))"
    using length_class_members_less [OF assms(1,2)] g by (simp add: group_ok_def li)
  then have lw: "li div 64 < ?w" using g by (auto simp: group_ok_def)
  have rng: "\<forall>(x, b) \<in> set ?ms. x < length (g_bits g) \<and> b < LENGTH(64)"
    using cell_index_less [OF lw row_of_less [OF m]] g by (auto simp: group_ok_def)
  have bits: "bit (mark_all ?ms (g_bits g) ! (r * ?w + l div 64)) (l mod 64) \<longleftrightarrow>
      l < length (g_gids g @ [n]) \<and> chunk_has_row I ((g_gids g @ [n]) ! l) ?m r"
    if r: "r < ?m" and l: "l < 64 * ?w" for r l
  proof -
    have lw': "l div 64 < ?w" using l by auto
    have idx: "r * ?w + l div 64 < length (g_bits g)"
      using cell_index_less [OF lw' r] g by (simp add: group_ok_def)
    have old: "bit (g_bits g ! (r * ?w + l div 64)) (l mod 64) \<longleftrightarrow>
        l < length (g_gids g) \<and> chunk_has_row I (g_gids g ! l) ?m r"
      using g r l unfolding group_ok_def by blast
    have mem: "(r * ?w + l div 64, l mod 64) \<in> set ?ms \<longleftrightarrow> l = li \<and> chunk_has_row I n ?m r"
    proof
      assume "(r * ?w + l div 64, l mod 64) \<in> set ?ms"
      then obtain j where j: "j \<in> set (windows v)"
        "r * ?w + l div 64 = row_of (hash4 v j) ?m * ?w + li div 64" "l mod 64 = li mod 64" by auto
      from cell_index_inj [OF lw' lw j(2)] j(1,3) show "l = li \<and> chunk_has_row I n ?m r"
        by (auto simp: chunk_has_row_def v Let_def) (metis div_mult_mod_eq)
    qed (auto simp: chunk_has_row_def v Let_def)
    have "bit (mark_all ?ms (g_bits g) ! (r * ?w + l div 64)) (l mod 64) \<longleftrightarrow>
        (l < li \<and> chunk_has_row I (g_gids g ! l) ?m r) \<or> (l = li \<and> chunk_has_row I n ?m r)"
      unfolding nth_mark_all [OF rng idx] mem using old by (simp add: li)
    then show ?thesis by (auto simp: nth_append li less_Suc_eq)
  qed
  show ?thesis
    using g assms(2) bits by (simp add: group_ok_def fold_mark_gram class_members_Suc li)
qed

lemma group_ok_untouched:
  "group_ok I n k g \<Longrightarrow> chunk_class (chunks I ! n) \<noteq> k \<Longrightarrow> group_ok I (Suc n) k g"
  by (simp add: group_ok_def class_members_Suc cong: conj_cong)

lemma groups_ok_prefix:
  assumes "n \<le> length (chunks I)"
  shows "length (fold (add_chunk_to_group I) [0 ..< n] (init_groups (chunks I))) = 8 \<and>
         (\<forall>k < 8. group_ok I n k (fold (add_chunk_to_group I) [0 ..< n] (init_groups (chunks I)) ! k))"
  using assms
proof (induction n)
  case 0
  then show ?case using group_ok_init by (auto simp: init_groups_def)
next
  case (Suc n)
  let ?gs = "fold (add_chunk_to_group I) [0 ..< n] (init_groups (chunks I))"
  have IH: "length ?gs = 8" "\<And>k. k < 8 \<Longrightarrow> group_ok I n k (?gs ! k)" using Suc by auto
  have n: "n < length (chunks I)" using Suc.prems by simp
  let ?k = "chunk_class (chunks I ! n)"
  have k: "?k < 8" by (rule chunk_class_less)
  have step: "add_chunk_to_group I n ?gs =
      ?gs[?k := (?gs ! ?k)\<lparr>g_gids := g_gids (?gs ! ?k) @ [n],
        g_bits := fold (\<lambda>j. mark_gram (g_m (?gs ! ?k)) (g_words (?gs ! ?k)) (length (g_gids (?gs ! ?k)))
                             (hash4 (chunk_view I (chunks I ! n)) j))
                  (windows (chunk_view I (chunks I ! n))) (g_bits (?gs ! ?k))\<rparr>]"
    by (simp add: add_chunk_to_group_def Let_def)
  have "group_ok I (Suc n) k (add_chunk_to_group I n ?gs ! k)" if "k < 8" for k
  proof (cases "k = ?k")
    case True
    then show ?thesis
      unfolding step using group_ok_step [OF n refl IH(2) [OF k] refl refl] IH(1) k by simp
  next
    case False
    then show ?thesis unfolding step using group_ok_untouched [OF IH(2) [OF that]] by simp
  qed
  moreover have "length (add_chunk_to_group I n ?gs) = 8" unfolding step using IH(1) by simp
  ultimately show ?case by simp
qed

lemma build_groups_bits:
  "length (build_groups I) = 8 \<and>
   (\<forall>k < 8. group_ok I (length (chunks I)) k (build_groups I ! k))"
  using groups_ok_prefix [of "length (chunks I)" I] by (simp add: build_groups_def)

text \<open>C12: the transposed group bitmaps are exact.  In the group of class \<open>k\<close>, row \<open>r\<close> has the bit
  of local id \<open>li\<close> set iff some 4-byte window of the \<open>li\<close>-th chunk of that class hashes to \<open>r\<close>.\<close>

theorem build_groups_exact:
  "length (build_groups I) = 8 \<and>
   (\<forall>k < 8. group_ok I (length (chunks I)) k (build_groups I ! k))"
  by (rule build_groups_bits)

section \<open>The positional matrices\<close>

text \<open>
  The chunks' descriptors lie one after the other: descriptor \<open>ci\<close> owns the cells
  \<open>[pd_off, pd_off + pd_m * pd_mask_bytes)\<close>.
\<close>

lemma layout_pos_Cons:
  "layout_pos I off (z # zs) =
     (let d = make_pos_desc I off z; rest = layout_pos I (off + pd_m d * pd_mask_bytes d) zs
      in (d # fst rest, snd rest))"
  by (simp add: Let_def split: prod.splits)

declare layout_pos.simps(2) [simp del]

lemma length_layout_pos [simp]: "length (fst (layout_pos I off zs)) = length zs"
  by (induction zs arbitrary: off) (auto simp: layout_pos_Cons Let_def)

lemma pd_off_make_pos_desc [simp]: "pd_off (make_pos_desc I off z) = off"
  by (simp add: make_pos_desc_def Let_def)

definition desc_end :: "pos_desc \<Rightarrow> nat" where
  "desc_end d = pd_off d + pd_m d * pd_mask_bytes d"

lemma layout_pos_total: "off \<le> snd (layout_pos I off zs)"
proof (induction zs arbitrary: off)
  case (Cons z zs)
  show ?case
    using Cons [of "off + pd_m (make_pos_desc I off z) * pd_mask_bytes (make_pos_desc I off z)"]
    by (simp add: layout_pos_Cons Let_def)
qed simp

lemma layout_pos_nth:
  assumes "i < length zs"
  shows "\<exists>o'. fst (layout_pos I off zs) ! i = make_pos_desc I o' (zs ! i) \<and> off \<le> o' \<and>
              desc_end (make_pos_desc I o' (zs ! i)) \<le> snd (layout_pos I off zs)"
  using assms
proof (induction zs arbitrary: off i)
  case (Cons z zs)
  let ?d = "make_pos_desc I off z"
  let ?off = "off + pd_m ?d * pd_mask_bytes ?d"
  have d: "desc_end ?d = ?off" by (simp add: desc_end_def)
  show ?case
  proof (cases i)
    case 0
    then show ?thesis using layout_pos_total [of ?off I zs] d
      by (auto simp: layout_pos_Cons Let_def intro!: exI [of _ off])
  next
    case (Suc i')
    with Cons.prems Cons.IH [of i' ?off] show ?thesis by (fastforce simp: layout_pos_Cons Let_def)
  qed
qed simp

lemma layout_pos_disjoint:
  assumes "i < j" "j < length zs"
  shows "desc_end (fst (layout_pos I off zs) ! i) \<le> pd_off (fst (layout_pos I off zs) ! j)"
  using assms
proof (induction zs arbitrary: off i j)
  case (Cons z zs)
  let ?d = "make_pos_desc I off z"
  let ?off = "off + pd_m ?d * pd_mask_bytes ?d"
  have d: "desc_end ?d = ?off" by (simp add: desc_end_def)
  obtain j' where j: "j = Suc j'" using Cons.prems by (cases j) auto
  show ?case
  proof (cases i)
    case 0
    obtain o' where "fst (layout_pos I ?off zs) ! j' = make_pos_desc I o' (zs ! j')" "?off \<le> o'"
      using layout_pos_nth [of j' zs I ?off] Cons.prems j by auto
    with 0 j d show ?thesis by (simp add: layout_pos_Cons Let_def)
  next
    case (Suc i')
    with Cons.prems Cons.IH [of i' j' ?off] j show ?thesis by (simp add: layout_pos_Cons Let_def)
  qed
qed simp

lemma choose_m_loop_pos: "0 < m \<Longrightarrow> 0 < choose_m_loop m want"
proof (induction m want rule: choose_m_loop.induct)
  case (1 m want)
  show ?case
  proof (cases "m < 1024 \<and> 0 < m \<and> m * 2 \<le> want")
    case True
    with 1 have "0 < choose_m_loop (m * 2) want" by simp
    with True show ?thesis by (subst choose_m_loop.simps) simp
  next
    case False
    with 1 show ?thesis by (simp only: choose_m_loop.simps [of m] if_False)
  qed
qed

lemma choose_m_loop_le: "m * 2 ^ k = 1024 \<Longrightarrow> choose_m_loop m want \<le> 1024"
proof (induction m want arbitrary: k rule: choose_m_loop.induct)
  case (1 m want)
  show ?case
  proof (cases "m < 1024 \<and> 0 < m \<and> m * 2 \<le> want")
    case True
    with "1.prems" obtain k' where "k = Suc k'" by (cases k) auto
    with "1.prems" have "(m * 2) * 2 ^ k' = 1024" by simp
    with "1.IH" [OF True] have "choose_m_loop (m * 2) want \<le> 1024" by blast
    with True show ?thesis by (subst choose_m_loop.simps) simp
  next
    case False
    have "m \<le> m * 2 ^ k" by simp
    with "1.prems" have "m \<le> 1024" by linarith
    with False show ?thesis by (simp only: choose_m_loop.simps [of m] if_False)
  qed
qed

lemma choose_m_bounds: "0 < choose_m opt clen mb" "choose_m opt clen mb \<le> 1024"
  by (simp_all add: choose_m_def Let_def choose_m_loop_pos choose_m_loop_le [of 64 4])

lemma make_pos_desc_shape:
  "0 < pd_m (make_pos_desc I off z)" "0 < pd_blocks (make_pos_desc I off z)"
  "pd_mask_bytes (make_pos_desc I off z) = (pd_blocks (make_pos_desc I off z) + 7) div 8"
  by (simp_all add: make_pos_desc_def Let_def choose_m_bounds)

text \<open>The cells \<open>mark_positional\<close> writes for one chunk.\<close>

definition pos_marks :: "index_data \<Rightarrow> nat \<Rightarrow> (nat \<times> nat) list" where
  "pos_marks I ci =
     (let z = chunks I ! ci; d = pos_descs I ! ci
      in concat (map (\<lambda>bi. map (\<lambda>j. (pd_off d + row_of (hash4 (block_view I z bi) j) (pd_m d) * pd_mask_bytes d + bi div 8,
                                         bi mod 8)) (windows (block_view I z bi))) [0 ..< pd_blocks d]))"

lemma length_block_view:
  "length (block_view I z bi) \<le> min (ext_len z) (bi * pos_block I + pos_block I + PO) - bi * pos_block I"
  by (simp add: block_view_def Let_def substr_def)

lemma mark_block_eq:
  "mark_block I z d =
     (\<lambda>bi. mark_all (map (\<lambda>j. (pd_off d + row_of (hash4 (block_view I z bi) j) (pd_m d) * pd_mask_bytes d + bi div 8,
                                  bi mod 8)) (windows (block_view I z bi))))"
proof (intro ext)
  fix bi pos
  let ?v = "block_view I z bi"
  have "windows ?v = []" if "length ?v \<le> 3" using that by (simp add: windows_def)
  moreover have "length ?v \<le> 3"
    if "ext_len z \<le> bi * pos_block I \<or>
        min (ext_len z) (bi * pos_block I + pos_block I + PO) \<le> bi * pos_block I \<or>
        min (ext_len z) (bi * pos_block I + pos_block I + PO) - bi * pos_block I < 4"
    using that length_block_view [of I z bi] by auto
  ultimately show "mark_block I z d bi pos =
     mark_all (map (\<lambda>j. (pd_off d + row_of (hash4 ?v j) (pd_m d) * pd_mask_bytes d + bi div 8,
                         bi mod 8)) (windows ?v)) pos"
    unfolding mark_block_def Let_def fold_mark_cell by (simp split: if_split)
qed

lemma mark_positional_eq: "mark_positional I = (\<lambda>ci. mark_all (pos_marks I ci))"
  by (intro ext) (simp add: mark_positional_def pos_marks_def Let_def mark_block_eq fold_mark_all_concat)

lemma fold_mark_positional:
  "fold (mark_positional I) ks pos = mark_all (concat (map (pos_marks I) ks)) pos"
  by (simp add: mark_positional_eq fold_mark_all_concat)

definition block_has_row :: "index_data \<Rightarrow> nat \<Rightarrow> nat \<Rightarrow> nat \<Rightarrow> nat \<Rightarrow> bool" where
  "block_has_row I ci bi m r \<longleftrightarrow>
     (let v = block_view I (chunks I ! ci) bi in \<exists>j \<in> set (windows v). row_of (hash4 v j) m = r)"

lemma mem_pos_marks:
  "(x, b) \<in> set (pos_marks I ci) \<longleftrightarrow>
     (\<exists>bi < pd_blocks (pos_descs I ! ci). \<exists>r. block_has_row I ci bi (pd_m (pos_descs I ! ci)) r \<and>
        x = pd_off (pos_descs I ! ci) + r * pd_mask_bytes (pos_descs I ! ci) + bi div 8 \<and> b = bi mod 8)"
  by (fastforce simp: pos_marks_def block_has_row_def Let_def image_iff)

lemma pos_cell_range:
  assumes "pos_descs I = fst (layout_pos I 0 (chunks I))" "ci < length (chunks I)"
    and "bi < pd_blocks (pos_descs I ! ci)" "r < pd_m (pos_descs I ! ci)"
  shows "bi div 8 < pd_mask_bytes (pos_descs I ! ci)"
    and "pd_off (pos_descs I ! ci) + r * pd_mask_bytes (pos_descs I ! ci) + bi div 8 < desc_end (pos_descs I ! ci)"
    and "desc_end (pos_descs I ! ci) \<le> snd (layout_pos I 0 (chunks I))"
    and "0 < pd_m (pos_descs I ! ci)"
proof -
  obtain o' where o': "pos_descs I ! ci = make_pos_desc I o' (chunks I ! ci)"
    "desc_end (make_pos_desc I o' (chunks I ! ci)) \<le> snd (layout_pos I 0 (chunks I))"
    using layout_pos_nth [OF assms(2), of I 0] assms(1) by auto
  then show "desc_end (pos_descs I ! ci) \<le> snd (layout_pos I 0 (chunks I))" "0 < pd_m (pos_descs I ! ci)"
    by (simp_all add: make_pos_desc_shape)
  show bi: "bi div 8 < pd_mask_bytes (pos_descs I ! ci)"
    using assms(3) make_pos_desc_shape(3) [of I o' "chunks I ! ci"] o'(1) by simp
  show "pd_off (pos_descs I ! ci) + r * pd_mask_bytes (pos_descs I ! ci) + bi div 8 < desc_end (pos_descs I ! ci)"
    using cell_index_less [OF bi assms(4)] by (simp add: desc_end_def)
qed

lemma positional_bits:
  assumes "wf_index I" "ci < length (chunks I)"
    and "bi < pd_blocks (pos_descs I ! ci)" "r < pd_m (pos_descs I ! ci)"
  shows "bit (pos_bits I ! (pd_off (pos_descs I ! ci) + r * pd_mask_bytes (pos_descs I ! ci) + bi div 8)) (bi mod 8)
         \<longleftrightarrow> block_has_row I ci bi (pd_m (pos_descs I ! ci)) r"
proof -
  let ?tot = "snd (layout_pos I 0 (chunks I))"
  let ?ms = "concat (map (pos_marks I) [0 ..< length (chunks I)])"
  let ?x = "pd_off (pos_descs I ! ci) + r * pd_mask_bytes (pos_descs I ! ci) + bi div 8"
  from assms(1) have ds: "pos_descs I = fst (layout_pos I 0 (chunks I))"
    and bits: "pos_bits I = mark_all ?ms (replicate ?tot 0)"
    by (simp_all add: wf_index_def fold_mark_positional)
  note cell = pos_cell_range [OF ds]
  have row: "block_has_row I c b m s \<Longrightarrow> 0 < m \<Longrightarrow> s < m" for c b m s
    using row_of_less by (auto simp: block_has_row_def Let_def)
  have rng: "\<forall>(x, b) \<in> set ?ms. x < length (replicate ?tot (0 :: byte)) \<and> b < LENGTH(8)"
  proof (safe, goal_cases)
    case (1 x b)
    then obtain c where c: "c < length (chunks I)" "(x, b) \<in> set (pos_marks I c)" by auto
    then obtain b' s where s: "b' < pd_blocks (pos_descs I ! c)" "block_has_row I c b' (pd_m (pos_descs I ! c)) s"
      "x = pd_off (pos_descs I ! c) + s * pd_mask_bytes (pos_descs I ! c) + b' div 8"
      by (auto simp: mem_pos_marks)
    have "0 < pd_m (pos_descs I ! c)"
      using layout_pos_nth [OF c(1), of I 0] ds by (auto simp: make_pos_desc_shape)
    with row s(2) have "s < pd_m (pos_descs I ! c)" by blast
    from cell(2,3) [OF c(1) s(1) this] s(3) show ?case by simp
  qed (auto simp: mem_pos_marks)
  have x: "?x < length (replicate ?tot (0 :: byte))"
    using cell(2,3) [OF assms(2-4)] by simp
  have "bit (pos_bits I ! ?x) (bi mod 8) \<longleftrightarrow> (?x, bi mod 8) \<in> set ?ms"
    unfolding bits nth_mark_all [OF rng x] using x by simp
  also have "\<dots> \<longleftrightarrow> block_has_row I ci bi (pd_m (pos_descs I ! ci)) r"
  proof
    assume "(?x, bi mod 8) \<in> set ?ms"
    then obtain c where c: "c < length (chunks I)" "(?x, bi mod 8) \<in> set (pos_marks I c)" by auto
    then obtain b' s where s: "b' < pd_blocks (pos_descs I ! c)" "block_has_row I c b' (pd_m (pos_descs I ! c)) s"
      "?x = pd_off (pos_descs I ! c) + s * pd_mask_bytes (pos_descs I ! c) + b' div 8" "bi mod 8 = b' mod 8"
      by (auto simp: mem_pos_marks)
    have "0 < pd_m (pos_descs I ! c)"
      using layout_pos_nth [OF c(1), of I 0] ds by (auto simp: make_pos_desc_shape)
    with row s(2) have s': "s < pd_m (pos_descs I ! c)" by blast
    note in_c = cell(1,2) [OF c(1) s(1) s'] and in_ci = cell(1,2) [OF assms(2-4)]
    have "c = ci"
    proof (rule ccontr)
      assume "c \<noteq> ci"
      then consider "c < ci" | "ci < c" by linarith
      then show False
        using layout_pos_disjoint [of c ci "chunks I" I 0] layout_pos_disjoint [of ci c "chunks I" I 0]
          in_c(2) in_ci(2) s(3) c(1) assms(2) ds by cases auto
    qed
    with s(3) cell_index_inj [OF in_ci(1) in_c(1) [unfolded \<open>c = ci\<close>]] have "r = s" "bi div 8 = b' div 8" by auto
    with s(4) have "bi = b'" by (metis div_mult_mod_eq)
    with s(2) \<open>c = ci\<close> \<open>r = s\<close> show "block_has_row I ci bi (pd_m (pos_descs I ! ci)) r" by simp
  next
    assume "block_has_row I ci bi (pd_m (pos_descs I ! ci)) r"
    with assms(2,3) show "(?x, bi mod 8) \<in> set ?ms" by (fastforce simp: mem_pos_marks)
  qed
  finally show ?thesis .
qed


end
