(* ===== verification/Candidates.thy ===== *)
theory Candidates
  imports Index_Filters "HOL-Library.Product_Lexorder"
begin

text \<open>
  Candidate selection of \<open>search.cpp\<close>: the q-gram planner (\<open>adaptive_k\<close>,
  \<open>planned_hashes\<close>), the query compiler of \<open>index.cpp\<close>, the chunk filter
  (\<open>group_candidates\<close>, \<open>chunk_candidates\<close>) and the positional block filter
  (\<open>fixed_candidate_blocks\<close>).  The eligibility vector of the \<open>StatsRecorder\<close> every
  caller passes is the argument \<open>el\<close>.
\<close>

section \<open>Scope\<close>

definition recorder_eligible :: "index_data \<Rightarrow> nat list \<Rightarrow> bool list" where
  "recorder_eligible I scope =
     (if scope = [] then [] else map (\<lambda>fid. fid \<in> set scope) [0 ..< length (infos I)])"

definition allows :: "bool list \<Rightarrow> nat \<Rightarrow> bool" where
  "allows el fid \<longleftrightarrow> el = [] \<or> (fid < length el \<and> el ! fid)"

section \<open>The q-gram planner\<close>

definition qgram_hashes :: "bytes \<Rightarrow> u32 list" where
  "qgram_hashes q = map (hash4 q) (windows q)"

definition adaptive_k :: "index_data \<Rightarrow> bytes \<Rightarrow> nat" where
  "adaptive_k I q =
     (if length q < 4 then 0
      else let available = length (remdups (qgram_hashes q)) in
        if available = 0 then 0
        else if planned_qgrams (ix_opt I) = 0 then available
        else min (planned_qgrams (ix_opt I)) available)"

definition gram_rank :: "index_data \<Rightarrow> bytes \<Rightarrow> nat \<Rightarrow> nat" where
  "gram_rank I q i =
     (let n = length (chunks I);
          exact_chunks = (case map_of (exact_qgrams I) (qgram4_key q i) of
                            Some st \<Rightarrow> if planner_stats_ready I then chunk_frequency st else n
                          | None \<Rightarrow> n);
          bucket_chunks = (if planner_stats_ready I then hash_chunk_freq I (bucket16 (hash4 q i)) else n)
      in max exact_chunks bucket_chunks)"

definition unique_first :: "('a \<times> 'b) list \<Rightarrow> ('a \<times> 'b) list" where
  "unique_first xs = fold (\<lambda>x acc. if fst x \<in> fst ` set acc then acc else acc @ [x]) xs []"

definition ranked_grams :: "index_data \<Rightarrow> bytes \<Rightarrow> (u32 \<times> nat) list" where
  "ranked_grams I q =
     unique_first (sort_key (\<lambda>(h, r). (r, h)) (map (\<lambda>i. (hash4 q i, gram_rank I q i)) (windows q)))"

definition planned_hashes :: "index_data \<Rightarrow> bytes \<Rightarrow> u32 list" where
  "planned_hashes I q =
     (if length q < 4 then []
      else let h = map fst (ranked_grams I q); k = adaptive_k I q
           in if k = 0 then [] else if k < length h then take k h else h)"

section \<open>Query compilation\<close>

record query_desc =
  qd_hashes :: "u32 list"
  qd_classes :: "(nat \<times> u64) list list"

definition pack_row :: "nat \<Rightarrow> (nat \<times> u64) list \<Rightarrow> (nat \<times> u64) list" where
  "pack_row x v =
     (let w = x div 64; m = push_bit (x mod 64) 1 in
      if v \<noteq> [] \<and> fst (last v) = w then butlast v @ [(w, snd (last v) OR m)] else v @ [(w, m)])"

definition query_class :: "u32 list \<Rightarrow> nat \<Rightarrow> (nat \<times> u64) list" where
  "query_class hs lg = fold pack_row (sort_unique (map (\<lambda>h. row_of h (2 ^ lg)) hs)) []"

definition compile_qgram_query :: "u32 list \<Rightarrow> query_desc" where
  "compile_qgram_query selected =
     \<lparr>qd_hashes = selected, qd_classes = map (query_class selected) [9 ..< 17]\<rparr>"

definition compile_qgram_query_all :: "bytes \<Rightarrow> query_desc" where
  "compile_qgram_query_all q =
     \<lparr>qd_hashes = qgram_hashes q, qd_classes = map (query_class (qgram_hashes q)) [9 ..< 17]\<rparr>"

section \<open>Intersecting bitmap rows\<close>

text \<open>
  \<open>for (j = 0; j < words; ++j) c[j] &= p[j]\<close> with \<open>p = bits.data() + base\<close>, and the loop that
  lists the set bits of \<open>c\<close> in order.
\<close>

definition and_row :: "'a::len word list \<Rightarrow> nat \<Rightarrow> 'a word list \<Rightarrow> 'a word list" where
  "and_row bits base c = map (\<lambda>j. c ! j AND bits ! (base + j)) [0 ..< length c]"

definition cell_bits :: "'a::len word list \<Rightarrow> nat list" where
  "cell_bits c = concat (map (\<lambda>w. map (\<lambda>b. w * LENGTH('a) + b) (bit_loop (c ! w))) [0 ..< length c])"

text \<open>All bits set, with the bits past \<open>n\<close> cleared in the last cell.\<close>

definition full_cells :: "nat \<Rightarrow> nat \<Rightarrow> 'a::len word list" where
  "full_cells cells n =
     (let c = replicate cells (- 1)
      in if n mod LENGTH('a) \<noteq> 0 then c[length c - 1 := push_bit (n mod LENGTH('a)) 1 - 1] else c)"

section \<open>Chunk candidates\<close>

fun group_filter :: "group \<Rightarrow> (nat \<times> u64) list \<Rightarrow> u64 list \<Rightarrow> u64 list option" where
  "group_filter g [] c = Some c"
| "group_filter g ((ww, mask64) # qc) c =
     (let c' = fold (\<lambda>b c. and_row (g_bits g) ((ww * 64 + b) * g_words g) c) (bit_loop mask64) c
      in if \<forall>v \<in> set c'. v = 0 then None else group_filter g qc c')"

definition group_candidates :: "index_data \<Rightarrow> bool list \<Rightarrow> group \<Rightarrow> query_desc \<Rightarrow> nat list" where
  "group_candidates I el g q =
     (let ok = (\<lambda>ci. allows el (file_id (chunks I ! ci))) in
      if g_gids g = [] then []
      else let qc = qd_classes q ! (g_lg g - 9) in
        if qc = [] then filter ok (g_gids g)
        else case group_filter g qc (full_cells (g_words g) (length (g_gids g))) of
               None \<Rightarrow> []
             | Some c \<Rightarrow> filter ok (map (\<lambda>li. g_gids g ! li)
                                         (filter (\<lambda>li. li < length (g_gids g)) (cell_bits c))))"

definition chunk_order :: "index_data \<Rightarrow> nat \<Rightarrow> nat \<times> nat \<times> nat" where
  "chunk_order I ci = (file_id (chunks I ! ci), core_begin (chunks I ! ci), ci)"

definition chunk_candidates :: "index_data \<Rightarrow> bool list \<Rightarrow> bytes \<Rightarrow> nat list" where
  "chunk_candidates I el lit =
     (if length lit < 4 \<or> chunk_overlap (ix_opt I) < length lit
      then filter (\<lambda>ci. allows el (file_id (chunks I ! ci))) [0 ..< length (chunks I)]
      else let q = compile_qgram_query (planned_hashes I lit)
           in remdups_adj (sort_key (chunk_order I) (concat (map (\<lambda>g. group_candidates I el g q) (groups I)))))"

section \<open>Block candidates\<close>

fun block_filter :: "byte list \<Rightarrow> pos_desc \<Rightarrow> nat list \<Rightarrow> byte list \<Rightarrow> byte list" where
  "block_filter pos d [] bm = bm"
| "block_filter pos d (r # rs) bm =
     (let bm' = and_row pos (pd_off d + r * pd_mask_bytes d) bm
      in if \<forall>v \<in> set bm'. v = 0 then bm' else block_filter pos d rs bm')"

definition chunk_blocks :: "index_data \<Rightarrow> u32 list \<Rightarrow> nat \<Rightarrow> nat list" where
  "chunk_blocks I hs ci =
     (let d = pos_descs I ! ci in
      if pd_blocks d = 0 \<or> pd_mask_bytes d = 0 then []
      else let rows = sort_unique (map (\<lambda>h. row_of h (pd_m d)) hs);
               bm = block_filter (pos_bits I) d rows (full_cells (pd_mask_bytes d) (pd_blocks d))
           in filter (\<lambda>bi. bi < pd_blocks d) (cell_bits bm))"

definition fixed_candidate_blocks :: "index_data \<Rightarrow> bool list \<Rightarrow> bytes \<Rightarrow> (nat \<times> nat) list" where
  "fixed_candidate_blocks I el q =
     (if q = []
      then map (\<lambda>ci. (ci, 0)) (filter (\<lambda>ci. allows el (file_id (chunks I ! ci))) [0 ..< length (chunks I)])
      else let hs = planned_hashes I q
           in concat (map (\<lambda>ci. map (Pair ci) (chunk_blocks I hs ci)) (chunk_candidates I el q)))"

section \<open>The planner's contract\<close>

lemma unique_first_aux:
  fixes xs acc :: "('a \<times> 'b) list"
  defines "r \<equiv> fold (\<lambda>x acc. if fst x \<in> fst ` set acc then acc else acc @ [x]) xs acc"
  assumes "distinct (map fst acc)"
  shows "distinct (map fst r) \<and> fst ` set r = fst ` set acc \<union> fst ` set xs \<and> set r \<subseteq> set acc \<union> set xs"
  using assms(2) unfolding r_def
proof (induction xs arbitrary: acc)
  case (Cons x xs)
  show ?case
  proof (cases "fst x \<in> fst ` set acc")
    case True
    with Cons.IH [OF Cons.prems] show ?thesis by auto
  next
    case False
    with Cons.prems have "distinct (map fst (acc @ [x]))" by auto
    from Cons.IH [OF this] False show ?thesis by auto
  qed
qed simp

lemma unique_first:
  "distinct (map fst (unique_first xs))" "fst ` set (unique_first xs) = fst ` set xs"
  "set (unique_first xs) \<subseteq> set xs"
  using unique_first_aux [of "[]" xs] by (auto simp: unique_first_def)

lemma sorted_unique_first:
  assumes "sorted (map f xs)"
  shows "sorted (map f (unique_first xs))"
proof -
  have "sorted (map f (fold (\<lambda>x acc. if fst x \<in> fst ` set acc then acc else acc @ [x]) xs acc))"
    if "sorted (map f (acc @ xs))" for acc
    using that
  proof (induction xs arbitrary: acc)
    case (Cons x xs)
    then have "sorted (map f ((acc @ [x]) @ xs))" "sorted (map f (acc @ xs))"
      by (auto simp: sorted_append)
    with Cons.IH show ?case by simp
  qed simp
  from this [of "[]"] assms show ?thesis by (simp add: unique_first_def)
qed

lemma ranked_grams_hashes:
  "distinct (map fst (ranked_grams I q))" "set (map fst (ranked_grams I q)) = set (qgram_hashes q)"
  "length (ranked_grams I q) = length (remdups (qgram_hashes q))"
proof -
  show d: "distinct (map fst (ranked_grams I q))" by (simp add: ranked_grams_def unique_first)
  show s: "set (map fst (ranked_grams I q)) = set (qgram_hashes q)"
    by (simp add: ranked_grams_def unique_first qgram_hashes_def image_image)
  show "length (ranked_grams I q) = length (remdups (qgram_hashes q))"
    using distinct_card [OF d] unfolding s by (simp add: length_remdups_card_conv)
qed

lemma planned_hashes_ok:
  "distinct (planned_hashes I q) \<and> set (planned_hashes I q) \<subseteq> set (qgram_hashes q) \<and>
   length (planned_hashes I q) = adaptive_k I q \<and>
   (planned_hashes I q = [] \<longleftrightarrow> length q < 4) \<and>
   planned_hashes I q = take (adaptive_k I q) (map fst (ranked_grams I q)) \<and>
   sorted (map snd (ranked_grams I q))"
proof -
  have len: "length (map fst (ranked_grams I q)) = length (remdups (qgram_hashes q))"
    using ranked_grams_hashes(3) by simp
  have pos: "length (remdups (qgram_hashes q)) \<noteq> 0" if "\<not> length q < 4"
    using that by (simp add: qgram_hashes_def windows_def)
  have k: "adaptive_k I q \<le> length (remdups (qgram_hashes q))" "adaptive_k I q = 0 \<longleftrightarrow> length q < 4"
    using pos by (auto simp: adaptive_k_def Let_def)
  have eq: "planned_hashes I q = take (adaptive_k I q) (map fst (ranked_grams I q))"
    using k by (auto simp: planned_hashes_def Let_def not_less)
  have "sorted (map (\<lambda>(h, r). (r, h)) (ranked_grams I q))"
    unfolding ranked_grams_def by (rule sorted_unique_first) simp
  then have "sorted (map snd (ranked_grams I q))"
    by (simp add: sorted_wrt_map split_beta less_eq_prod_def) (erule sorted_wrt_mono_rel [rotated], auto)
  moreover have "set (take (adaptive_k I q) (map fst (ranked_grams I q))) \<subseteq> set (qgram_hashes q)"
    using set_take_subset ranked_grams_hashes(2) by metis
  ultimately show ?thesis
    unfolding eq using distinct_take [OF ranked_grams_hashes(1)] k len pos by (auto simp del: take_map)
qed

section \<open>What the intersections compute\<close>

lemma length_and_row [simp]: "length (and_row bits base c) = length c"
  by (simp add: and_row_def)

lemma bit_and_row:
  "j < length c \<Longrightarrow> bit (and_row bits base c ! j) b \<longleftrightarrow> bit (c ! j) b \<and> bit (bits ! (base + j)) b"
  by (simp add: and_row_def bit_and_iff)

lemma cell_bits_eq:
  fixes c :: "'a::len word list"
  shows "cell_bits c = filter (\<lambda>i. bit (c ! (i div LENGTH('a))) (i mod LENGTH('a))) [0 ..< length c * LENGTH('a)]"
proof -
  let ?L = "LENGTH('a)" and ?P = "\<lambda>i. bit (c ! (i div LENGTH('a))) (i mod LENGTH('a))"
  have "concat (map (\<lambda>w. map (\<lambda>b. w * ?L + b) (bit_loop (c ! w))) [0 ..< n]) = filter ?P [0 ..< n * ?L]" for n
  proof (induction n)
    case (Suc n)
    have "[0 ..< Suc n * ?L] = [0 ..< n * ?L] @ map (\<lambda>b. n * ?L + b) [0 ..< ?L]"
      using upt_add_eq_append [of 0 "n * ?L" ?L] map_add_upt [of "n * ?L" ?L] by (simp add: add.commute)
    moreover have "filter ?P (map (\<lambda>b. n * ?L + b) [0 ..< ?L]) = map (\<lambda>b. n * ?L + b) (bit_loop (c ! n))"
      unfolding filter_map bit_loop_eq by (intro arg_cong [of _ _ "map _"] filter_cong refl) auto
    ultimately show ?case using Suc by simp
  qed simp
  from this [of "length c"] show ?thesis by (simp only: cell_bits_def)
qed

lemma length_full_cells [simp]: "length (full_cells cells n) = cells"
  by (simp add: full_cells_def Let_def)

lemma nth_full_cells:
  "w < cells \<Longrightarrow> (full_cells cells n ! w :: 'a::len word) =
     (if w = cells - 1 \<and> n mod LENGTH('a) \<noteq> 0 then push_bit (n mod LENGTH('a)) 1 - 1 else - 1)"
  by (auto simp: full_cells_def Let_def nth_list_update)

lemma bit_mask_minus:
  "bit (push_bit n 1 - 1 :: 'a::len word) b \<longleftrightarrow> b < n \<and> b < LENGTH('a)"
proof -
  have "(push_bit n 1 - 1 :: 'a word) = mask n" by (simp add: mask_eq_exp_minus_1)
  then show ?thesis by (auto simp: bit_mask_iff possible_bit_word)
qed

lemma ceil_div:
  fixes L k r :: nat
  assumes "r < L"
  shows "(L * k + r + (L - 1)) div L = (if r = 0 then k else Suc k)"
  using assms by (auto intro!: div_nat_eqI simp: algebra_simps)

lemma bit_full_cells:
  fixes cells n i :: nat
  assumes "cells = (n + (LENGTH('a::len) - 1)) div LENGTH('a)" "i < cells * LENGTH('a)"
  shows "bit (full_cells cells n ! (i div LENGTH('a)) :: 'a word) (i mod LENGTH('a)) \<longleftrightarrow> i < n"
proof -
  let ?L = "LENGTH('a)"
  have dm: "n = n div ?L * ?L + n mod ?L" "i = i div ?L * ?L + i mod ?L" by simp_all
  have id: "i div ?L < cells" using assms(2) by (simp add: less_mult_imp_div_less mult.commute)
  have m: "i mod ?L < ?L" by simp
  note ceil = ceil_div [of "n mod ?L" ?L "n div ?L"]
  show ?thesis
  proof (cases "n mod ?L = 0")
    case True
    with mult_div_mod_eq [of ?L n] have nk: "n = ?L * (n div ?L)" by linarith
    have "cells = n div ?L" using ceil [unfolded mult_div_mod_eq] True assms(1) by simp
    then have "i < n" using assms(2) nk by (metis mult.commute)
    with True id m show ?thesis by (simp add: full_cells_def)
  next
    case False
    have cells: "cells = Suc (n div ?L)" using ceil [unfolded mult_div_mod_eq] False assms(1) by simp
    show ?thesis
    proof (cases "i div ?L = n div ?L")
      case True
      then have "i < n \<longleftrightarrow> i mod ?L < n mod ?L" using dm by (metis add_less_cancel_left)
      with True False cells m show ?thesis by (simp add: nth_full_cells bit_mask_minus del: push_bit_of_1)
    next
      case neq: False
      then have "i div ?L < n div ?L" using id cells by simp
      then have "i < n" by (metis div_le_mono leD le_less_linear)
      with neq cells m id show ?thesis by (simp add: nth_full_cells)
    qed
  qed
qed

lemma fold_and_row:
  assumes "j < length c"
  shows "length (fold (\<lambda>r c. and_row bits (base r) c) rs c) = length c \<and>
         (bit (fold (\<lambda>r c. and_row bits (base r) c) rs c ! j) b \<longleftrightarrow>
          bit (c ! j) b \<and> (\<forall>r \<in> set rs. bit (bits ! (base r + j)) b))"
  using assms by (induction rs arbitrary: c) (auto simp: bit_and_row)

text \<open>The rows a packed class stands for.\<close>

definition class_rows :: "(nat \<times> u64) list \<Rightarrow> nat set" where
  "class_rows qc = {w * 64 + b | w b m. (w, m) \<in> set qc \<and> b < 64 \<and> bit m b}"

lemma class_rows_simps [simp]:
  "class_rows [] = {}"
  "class_rows ((w, m) # qc) = (\<lambda>b. w * 64 + b) ` set (bit_loop m) \<union> class_rows qc"
  by (auto simp: class_rows_def set_bit_loop)

lemma class_rows_append: "class_rows (xs @ ys) = class_rows xs \<union> class_rows ys"
  by (auto simp: class_rows_def)

lemma class_rows_pack_row: "class_rows (pack_row x v) = insert x (class_rows v)"
proof -
  have one: "(\<lambda>b. x div 64 * 64 + b) ` set (bit_loop (push_bit (x mod 64) 1 :: u64)) = {x}"
    by (auto simp: set_bit_loop bit_exp_iff)
  show ?thesis
  proof (cases "v \<noteq> [] \<and> fst (last v) = x div 64")
    case True
    then obtain v' m where v: "v = v' @ [(x div 64, m)]"
      by (metis append_butlast_last_id prod.collapse)
    have "(\<lambda>b. x div 64 * 64 + b) ` set (bit_loop (m OR push_bit (x mod 64) 1 :: u64)) =
          (\<lambda>b. x div 64 * 64 + b) ` set (bit_loop m) \<union>
          (\<lambda>b. x div 64 * 64 + b) ` set (bit_loop (push_bit (x mod 64) 1 :: u64))"
      by (auto simp: set_bit_loop bit_or_iff)
    with one v show ?thesis by (auto simp: pack_row_def Let_def class_rows_append)
  next
    case False
    with one show ?thesis by (auto simp: pack_row_def Let_def class_rows_append simp del: push_bit_of_1)
  qed
qed

lemma class_rows_fold_pack: "class_rows (fold pack_row xs v) = set xs \<union> class_rows v"
  by (induction xs arbitrary: v) (auto simp: class_rows_pack_row)

lemma fold_pack_row_Nil: "fold pack_row xs v = [] \<longleftrightarrow> xs = [] \<and> v = []"
proof (induction xs arbitrary: v)
  case (Cons x xs)
  have "pack_row x v \<noteq> []" by (simp add: pack_row_def Let_def)
  with Cons show ?case by simp
qed simp

lemma query_class:
  "class_rows (query_class hs lg) = (\<lambda>h. row_of h (2 ^ lg)) ` set hs"
  "query_class hs lg = [] \<longleftrightarrow> hs = []"
proof -
  show "class_rows (query_class hs lg) = (\<lambda>h. row_of h (2 ^ lg)) ` set hs"
    by (simp add: query_class_def class_rows_fold_pack)
  have "sort_unique (map (\<lambda>h. row_of h (2 ^ lg)) hs) = [] \<longleftrightarrow> hs = []"
    by (metis set_sort_unique set_empty map_is_Nil_conv)
  then show "query_class hs lg = [] \<longleftrightarrow> hs = []" by (simp add: query_class_def fold_pack_row_Nil)
qed

section \<open>The chunk filter is exact\<close>

definition cell_on :: "'a::len word list \<Rightarrow> nat \<Rightarrow> bool" where
  "cell_on c i \<longleftrightarrow> bit (c ! (i div LENGTH('a))) (i mod LENGTH('a))"

definition rows_on :: "group \<Rightarrow> (nat \<times> u64) list \<Rightarrow> nat \<Rightarrow> bool" where
  "rows_on g qc i \<longleftrightarrow> (\<forall>r \<in> class_rows qc. bit (g_bits g ! (r * g_words g + i div 64)) (i mod 64))"

lemma group_filter_sound:
  assumes "length c = g_words g" "i < length c * 64"
  shows "(group_filter g qc c = None \<longrightarrow> \<not> (cell_on c i \<and> rows_on g qc i)) \<and>
         (\<forall>c'. group_filter g qc c = Some c' \<longrightarrow>
            length c' = g_words g \<and> (cell_on c' i \<longleftrightarrow> cell_on c i \<and> rows_on g qc i))"
  using assms unfolding rows_on_def
proof (induction qc arbitrary: c)
  case (Cons wm qc)
  obtain ww m where wm: "wm = (ww, m)" by (cases wm)
  let ?c = "fold (\<lambda>b c. and_row (g_bits g) ((ww * 64 + b) * g_words g) c) (bit_loop m) c"
  have j: "i div 64 < length c" using Cons.prems(2) by auto
  note f = fold_and_row [OF j, of "g_bits g" "\<lambda>b. (ww * 64 + b) * g_words g" "bit_loop m"]
  have len: "length ?c = g_words g" using f Cons.prems(1) by simp
  have on: "cell_on ?c i \<longleftrightarrow> cell_on c i \<and>
      (\<forall>r \<in> (\<lambda>b. ww * 64 + b) ` set (bit_loop m). bit (g_bits g ! (r * g_words g + i div 64)) (i mod 64))"
    using f by (simp add: cell_on_def)
  show ?case
  proof (cases "\<forall>v \<in> set ?c. v = 0")
    case True
    moreover have "?c ! (i div 64) \<in> set ?c" using j len Cons.prems(1) by (intro nth_mem) simp
    ultimately have "?c ! (i div 64) = 0" by blast
    then have "\<not> cell_on ?c i" by (simp add: cell_on_def)
    with on True show ?thesis by (auto simp: wm Let_def)
  next
    case False
    then have "group_filter g (wm # qc) c = group_filter g qc ?c" by (auto simp: wm Let_def)
    with Cons.IH [OF len] on Cons.prems len show ?thesis by (auto simp: wm)
  qed
qed simp

lemma class_members_complete:
  "length (class_members I (length (chunks I)) k) = length (filter (\<lambda>c. chunk_class c = k) (chunks I))"
proof -
  have "filter (\<lambda>c. chunk_class c = k) (chunks I) =
        map (\<lambda>i. chunks I ! i) (class_members I (length (chunks I)) k)"
    unfolding class_members_def
    by (subst map_nth [of "chunks I", symmetric], subst filter_map) (simp add: o_def)
  then show ?thesis by simp
qed

definition chunk_passes :: "index_data \<Rightarrow> u32 list \<Rightarrow> nat \<Rightarrow> bool" where
  "chunk_passes I hs ci \<longleftrightarrow>
     (let m = 2 ^ lg_for (ext_len (chunks I ! ci)) in \<forall>h \<in> set hs. chunk_has_row I ci m (row_of h m))"

lemma map_nth_filter:
  "map (\<lambda>i. xs ! i) (filter (\<lambda>i. P (xs ! i)) [0 ..< length xs]) = filter P xs"
proof -
  have "filter P (map (\<lambda>i. xs ! i) [0 ..< length xs]) = map (\<lambda>i. xs ! i) (filter (\<lambda>i. P (xs ! i)) [0 ..< length xs])"
    by (simp add: filter_map o_def)
  then show ?thesis by (simp add: map_nth)
qed

lemma filter_cell_bits:
  fixes c :: "'a::len word list"
  assumes "n \<le> length c * LENGTH('a)"
  shows "filter (\<lambda>i. i < n) (cell_bits c) = filter (cell_on c) [0 ..< n]"
proof -
  have "[0 ..< length c * LENGTH('a)] = [0 ..< n] @ [n ..< length c * LENGTH('a)]"
    using assms upt_add_eq_append [of 0 n "length c * LENGTH('a) - n"] by simp
  moreover have "filter (\<lambda>i. i < n \<and> cell_on c i) [n ..< length c * LENGTH('a)] = []"
    by (auto simp: filter_empty_conv)
  moreover have "filter (\<lambda>i. i < n \<and> cell_on c i) [0 ..< n] = filter (cell_on c) [0 ..< n]"
    by (intro filter_cong) auto
  ultimately show ?thesis by (simp add: cell_bits_eq cell_on_def conj_commute)
qed

lemma row_of_pow2_less: "row_of h (2 ^ k) < 2 ^ k"
  by (rule row_of_less) simp

lemma group_candidates_exact:
  assumes "k < 8" and g: "group_ok I (length (chunks I)) k g"
  shows "group_candidates I el g (compile_qgram_query hs) =
         filter (\<lambda>ci. allows el (file_id (chunks I ! ci)) \<and> chunk_passes I hs ci)
           (class_members I (length (chunks I)) k)"
proof -
  let ?ok = "\<lambda>ci. allows el (file_id (chunks I ! ci))"
  let ?M = "class_members I (length (chunks I)) k" and ?qc = "query_class hs (k + 9)"
  let ?row = "\<lambda>li. \<forall>h \<in> set hs. chunk_has_row I (?M ! li) (2 ^ (k + 9)) (row_of h (2 ^ (k + 9)))"
  have gids: "g_gids g = ?M" "g_lg g = k + 9" "g_m g = 2 ^ (k + 9)" using g by (simp_all add: group_ok_def)
  have qc: "qd_classes (compile_qgram_query hs) ! (g_lg g - 9) = ?qc"
    using assms(1) gids by (simp add: compile_qgram_query_def nth_map_upt add.commute del: upt_rec_numeral upt_Suc)
  have words: "g_words g = (length ?M + (LENGTH(64) - 1)) div LENGTH(64)"
    using g by (simp add: group_ok_def class_members_complete)
  have cap: "length ?M \<le> g_words g * 64" unfolding words by simp
  have pass: "chunk_passes I hs ci \<longleftrightarrow> (\<forall>h \<in> set hs. chunk_has_row I ci (2 ^ (k + 9)) (row_of h (2 ^ (k + 9))))"
    if "ci \<in> set ?M" for ci
    using that chunk_class_less(2) [of "chunks I ! ci"] by (auto simp: chunk_passes_def class_members_def Let_def)
  have bit: "bit (g_bits g ! (r * g_words g + li div 64)) (li mod 64) \<longleftrightarrow> chunk_has_row I (?M ! li) (2 ^ (k + 9)) r"
    if "li < length ?M" "r < 2 ^ (k + 9)" for li r
    using that g cap unfolding group_ok_def by auto
  have all: "rows_on g ?qc li \<longleftrightarrow> ?row li" if "li < length ?M" for li
    unfolding rows_on_def query_class using bit [OF that row_of_pow2_less] by auto
  let ?full = "full_cells (g_words g) (length ?M) :: u64 list"
  have full: "cell_on ?full li" if "li < length ?M" for li
    using bit_full_cells [OF words, of li] that cap by (simp add: cell_on_def)
  have filt: "map (\<lambda>li. ?M ! li) (filter ?row [0 ..< length ?M]) = filter (chunk_passes I hs) ?M"
  proof -
    let ?R = "\<lambda>ci. \<forall>h \<in> set hs. chunk_has_row I ci (2 ^ (k + 9)) (row_of h (2 ^ (k + 9)))"
    have "filter (chunk_passes I hs) ?M = filter ?R ?M" by (rule filter_cong [OF refl pass])
    then show ?thesis using map_nth_filter [of ?M ?R] by simp
  qed
  show ?thesis
  proof (cases "g_gids g = [] \<or> ?qc = []")
    case True
    have "hs = [] \<Longrightarrow> chunk_passes I hs ci" for ci by (simp add: chunk_passes_def)
    with True show ?thesis unfolding group_candidates_def Let_def qc
      by (auto simp: gids query_class(2))
  next
    case False
    note gf = group_filter_sound [of ?full g _ ?qc]
    show ?thesis
    proof (cases "group_filter g ?qc ?full")
      case None
      have "\<not> ?row li" if "li < length ?M" for li
        using gf [of li] None full all that cap by auto
      then have "filter (chunk_passes I hs) ?M = []" unfolding filt [symmetric] by (auto simp: filter_empty_conv)
      then have "\<forall>ci \<in> set ?M. \<not> chunk_passes I hs ci" by (simp add: filter_empty_conv)
      with None False show ?thesis unfolding group_candidates_def Let_def qc
        by (simp add: gids filter_empty_conv [THEN iffD2])
    next
      case (Some c)
      have "length c = g_words g" using gf [of 0] Some False cap gids by (cases "length ?M") auto
      moreover have "cell_on c li \<longleftrightarrow> ?row li" if "li < length ?M" for li
        using gf [of li] Some full all that cap by auto
      ultimately have "filter (\<lambda>li. li < length ?M) (cell_bits c) = filter ?row [0 ..< length ?M]"
        using filter_cell_bits [of "length ?M" c] cap by (auto intro: filter_cong)
      with Some False filt show ?thesis unfolding group_candidates_def Let_def qc
        by (simp add: gids conj_commute)
    qed
  qed
qed

lemma sorted_chunk_loop:
  "sorted (map (\<lambda>c. (file_id c, core_begin c)) (chunk_loop fid n core over b))"
proof (induction fid n core over b rule: chunk_loop.induct)
  case (1 fid n core over b)
  show ?case
  proof (cases "b < n \<and> 0 < core")
    case True
    have "(fid, b) \<le> (file_id c, core_begin c)" if "c \<in> set (chunk_loop fid n core over (b + core))" for c
      using chunk_loop_members [OF that] by (auto simp: less_eq_prod_def)
    with 1 True show ?thesis by (subst chunk_loop.simps) (auto simp: Let_def)
  qed (subst chunk_loop.simps, auto)
qed

lemma sorted_layout_chunks: "sorted (map (\<lambda>c. (file_id c, core_begin c)) (layout_chunks I))"
proof -
  let ?f = "\<lambda>fid. file_chunks (chunk_bytes (ix_opt I)) (chunk_overlap (ix_opt I)) fid (length (content I fid))"
  have one: "sorted (map (\<lambda>c. (file_id c, core_begin c)) (?f fid))" for fid
    using sorted_chunk_loop by (simp add: file_chunks_def)
  have "sorted (map (\<lambda>c. (file_id c, core_begin c)) (concat (map ?f [0 ..< n])))" for n
  proof (induction n)
    case (Suc n)
    have "(file_id c, core_begin c) \<le> (file_id d, core_begin d)"
      if "fid < n" "c \<in> set (?f fid)" "d \<in> set (?f n)" for fid c d
      using file_chunks_members [OF that(2)] file_chunks_members [OF that(3)] that(1)
      by (auto simp: less_eq_prod_def)
    with Suc one show ?case by (force simp: sorted_append)
  qed simp
  then show ?thesis by (simp add: layout_chunks_def)
qed

lemma chunk_order_mono:
  assumes "chunks I = layout_chunks I" "a < b" "b < length (chunks I)"
  shows "chunk_order I a < chunk_order I b"
proof -
  have "(file_id (chunks I ! a), core_begin (chunks I ! a)) \<le> (file_id (chunks I ! b), core_begin (chunks I ! b))"
    using sorted_nth_mono [OF sorted_layout_chunks [of I], of a b] assms by simp
  with assms(2) show ?thesis by (auto simp: chunk_order_def less_prod_def less_eq_prod_def)
qed

lemma sort_chunk_order:
  assumes "chunks I = layout_chunks I" "set xs \<subseteq> {..< length (chunks I)}"
  shows "remdups_adj (sort_key (chunk_order I) xs) = sorted_list_of_set (set xs)"
proof -
  let ?ys = "sort_key (chunk_order I) xs"
  have "a \<le> b" if "a \<in> set xs" "b \<in> set xs" "chunk_order I a \<le> chunk_order I b" for a b
    using chunk_order_mono [OF assms(1), of b a] that assms(2) by (meson leD leI lessThan_iff subsetD)
  moreover have "sorted_wrt (\<lambda>a b. chunk_order I a \<le> chunk_order I b) ?ys"
    using sorted_sort_key [of "chunk_order I" xs] by (simp add: sorted_wrt_map)
  ultimately have "sorted ?ys" by (auto intro: sorted_wrt_mono_rel [rotated])
  moreover from this have "distinct (remdups_adj ?ys)"
    using distinct_sort_unique [of ?ys] by (simp add: sort_unique_def sorted_sort_id)
  ultimately show ?thesis
    by (intro sorted_distinct_set_unique) auto
qed

lemma sorted_list_of_filter:
  "sorted_list_of_set {i. i < n \<and> P i} = filter P [0 ..< n]"
  by (rule sorted_distinct_set_unique) (auto simp: sorted_filter [where f = id, simplified])

lemma chunk_candidates_eq:
  assumes "wf_index I"
  shows "chunk_candidates I el lit =
         filter (\<lambda>ci. allows el (file_id (chunks I ! ci)) \<and>
                      (length lit < 4 \<or> chunk_overlap (ix_opt I) < length lit \<or>
                       chunk_passes I (planned_hashes I lit) ci))
           [0 ..< length (chunks I)]"
proof (cases "length lit < 4 \<or> chunk_overlap (ix_opt I) < length lit")
  case True
  then show ?thesis by (auto simp: chunk_candidates_def intro: filter_cong)
next
  case False
  let ?n = "length (chunks I)" and ?hs = "planned_hashes I lit"
  let ?P = "\<lambda>ci. allows el (file_id (chunks I ! ci)) \<and> chunk_passes I ?hs ci"
  let ?cs = "concat (map (\<lambda>g. group_candidates I el g (compile_qgram_query ?hs)) (groups I))"
  from assms have lay: "chunks I = layout_chunks I" and gs: "groups I = build_groups I"
    by (simp_all add: wf_index_def)
  have len: "length (groups I) = 8" and ok: "\<And>k. k < 8 \<Longrightarrow> group_ok I ?n k (groups I ! k)"
    using build_groups_bits [of I] gs by auto
  have "set ?cs = (\<Union>k < 8. set (group_candidates I el (groups I ! k) (compile_qgram_query ?hs)))"
    using len by (auto simp: set_conv_nth [of "groups I"])
  also have "\<dots> = (\<Union>k < 8. {ci. ci < ?n \<and> chunk_class (chunks I ! ci) = k \<and> ?P ci})"
    using group_candidates_exact [OF _ ok] by (auto simp: class_members_def)
  also have "\<dots> = {ci. ci < ?n \<and> ?P ci}" using chunk_class_less(1) by auto
  finally have set: "set ?cs = {ci. ci < ?n \<and> ?P ci}" .
  have "chunk_candidates I el lit = remdups_adj (sort_key (chunk_order I) ?cs)"
    using False by (simp add: chunk_candidates_def Let_def)
  also have "\<dots> = filter ?P [0 ..< ?n]"
    using sort_chunk_order [OF lay, of ?cs] sorted_list_of_filter [of ?n ?P] set by auto
  finally show ?thesis using False by simp
qed

section \<open>The block filter is exact\<close>

lemma block_filter_sound:
  assumes "length bm = pd_mask_bytes d" "i < length bm * 8"
  shows "length (block_filter pos d rs bm) = pd_mask_bytes d \<and>
         (cell_on (block_filter pos d rs bm) i \<longleftrightarrow>
          cell_on bm i \<and> (\<forall>r \<in> set rs. bit (pos ! (pd_off d + r * pd_mask_bytes d + i div 8)) (i mod 8)))"
  using assms
proof (induction rs arbitrary: bm)
  case (Cons r rs)
  let ?bm = "and_row pos (pd_off d + r * pd_mask_bytes d) bm"
  have j: "i div 8 < length bm" using Cons.prems(2) by auto
  have on: "cell_on ?bm i \<longleftrightarrow> cell_on bm i \<and> bit (pos ! (pd_off d + r * pd_mask_bytes d + i div 8)) (i mod 8)"
    using bit_and_row [OF j] by (simp add: cell_on_def)
  show ?case
  proof (cases "\<forall>v \<in> set ?bm. v = 0")
    case True
    moreover have "?bm ! (i div 8) \<in> set ?bm" using j by (intro nth_mem) simp
    ultimately have "?bm ! (i div 8) = 0" by blast
    then have "\<not> cell_on ?bm i" by (simp add: cell_on_def)
    with on True Cons.prems(1) show ?thesis by auto
  next
    case False
    then have "block_filter pos d (r # rs) bm = block_filter pos d rs ?bm" by (auto simp: Let_def)
    with Cons.IH [of ?bm] on Cons.prems show ?thesis by auto
  qed
qed simp

definition block_passes :: "index_data \<Rightarrow> u32 list \<Rightarrow> nat \<Rightarrow> nat \<Rightarrow> bool" where
  "block_passes I hs ci bi \<longleftrightarrow>
     (let m = pd_m (pos_descs I ! ci) in \<forall>h \<in> set hs. block_has_row I ci bi m (row_of h m))"

lemma wf_pos_desc:
  assumes "wf_index I" "ci < length (chunks I)"
  shows "0 < pd_m (pos_descs I ! ci)" "0 < pd_blocks (pos_descs I ! ci)"
    "pd_mask_bytes (pos_descs I ! ci) = (pd_blocks (pos_descs I ! ci) + 7) div 8"
    "pd_blocks (pos_descs I ! ci) = max 1 ((core_len (chunks I ! ci) + pos_block I - 1) div pos_block I)"
proof -
  have ds: "pos_descs I = fst (layout_pos I 0 (chunks I))" using assms(1) by (simp add: wf_index_def)
  obtain o' where o': "pos_descs I ! ci = make_pos_desc I o' (chunks I ! ci)"
    using layout_pos_nth [OF assms(2), of I 0] ds by auto
  show "0 < pd_m (pos_descs I ! ci)" "0 < pd_blocks (pos_descs I ! ci)"
    "pd_mask_bytes (pos_descs I ! ci) = (pd_blocks (pos_descs I ! ci) + 7) div 8"
    unfolding o' by (simp_all add: make_pos_desc_shape)
  show "pd_blocks (pos_descs I ! ci) = max 1 ((core_len (chunks I ! ci) + pos_block I - 1) div pos_block I)"
    unfolding o' by (simp add: make_pos_desc_def Let_def)
qed

lemma chunk_blocks_eq:
  assumes "wf_index I" "ci < length (chunks I)"
  shows "chunk_blocks I hs ci = filter (block_passes I hs ci) [0 ..< pd_blocks (pos_descs I ! ci)]"
proof -
  let ?d = "pos_descs I ! ci"
  let ?rows = "sort_unique (map (\<lambda>h. row_of h (pd_m ?d)) hs)"
  let ?full = "full_cells (pd_mask_bytes ?d) (pd_blocks ?d) :: byte list"
  let ?bm = "block_filter (pos_bits I) ?d ?rows ?full"
  note d = wf_pos_desc [OF assms]
  have mb: "pd_mask_bytes ?d = (pd_blocks ?d + (LENGTH(8) - 1)) div LENGTH(8)" using d(3) by simp
  have cap: "pd_blocks ?d \<le> pd_mask_bytes ?d * 8" using d(3) by simp
  have len: "length ?bm = pd_mask_bytes ?d"
    using block_filter_sound [of ?full ?d 0] cap d(2) by simp
  have on: "cell_on ?bm bi \<longleftrightarrow> block_passes I hs ci bi" if "bi < pd_blocks ?d" for bi
  proof -
    have "bit (pos_bits I ! (pd_off ?d + row_of h (pd_m ?d) * pd_mask_bytes ?d + bi div 8)) (bi mod 8) \<longleftrightarrow>
          block_has_row I ci bi (pd_m ?d) (row_of h (pd_m ?d))" for h
      by (rule positional_bits [OF assms that row_of_less [OF d(1)]])
    moreover have "cell_on ?full bi"
      using bit_full_cells [OF mb, of bi] that cap by (simp add: cell_on_def)
    ultimately show ?thesis
      using block_filter_sound [of ?full ?d bi "pos_bits I" ?rows] that cap
      by (simp add: block_passes_def Let_def)
  qed
  have nz: "\<not> (pd_blocks ?d = 0 \<or> pd_mask_bytes ?d = 0)" using d(2,3) by simp
  have "chunk_blocks I hs ci = filter (\<lambda>bi. bi < pd_blocks ?d) (cell_bits ?bm)"
    using nz by (simp add: chunk_blocks_def Let_def)
  also have "\<dots> = filter (cell_on ?bm) [0 ..< pd_blocks ?d]"
    using filter_cell_bits [of "pd_blocks ?d" ?bm] len cap by simp
  also have "\<dots> = filter (block_passes I hs ci) [0 ..< pd_blocks ?d]"
    using on by (intro filter_cong) auto
  finally show ?thesis .
qed

text \<open>C13: the block filter is exact with respect to the positional matrices: the blocks kept for a
  chunk are, in order, those whose own windows hit every planned row.\<close>

theorem chunk_blocks_exact:
  assumes "wf_index I" "ci < length (chunks I)"
  shows "chunk_blocks I hs ci = filter (block_passes I hs ci) [0 ..< pd_blocks (pos_descs I ! ci)]"
  by (rule chunk_blocks_eq [OF assms])

section \<open>No false negatives\<close>

lemma hash4_cong:
  assumes "\<And>k. k < 4 \<Longrightarrow> s ! (i + k) = t ! (j + k)"
  shows "hash4 s i = hash4 t j"
proof -
  have "s ! i = t ! j" "s ! (i + 1) = t ! (j + 1)" "s ! (i + 2) = t ! (j + 2)" "s ! (i + 3) = t ! (j + 3)"
    using assms [of 0] assms [of 1] assms [of 2] assms [of 3] by simp_all
  then show ?thesis unfolding hash4_def by (simp only:)
qed

lemma occurs_window:
  assumes "occurs_at v q i" "j \<in> set (windows q)"
  shows "i + j \<in> set (windows v)" "hash4 v (i + j) = hash4 q j"
proof -
  have b: "i + length q \<le> length v" "j + 3 < length q"
    using assms by (auto simp: occurs_at_nth windows_def)
  then show "i + j \<in> set (windows v)" by (auto simp: windows_def)
  show "hash4 v (i + j) = hash4 q j"
    using assms(1) b by (intro hash4_cong) (auto simp: occurs_at_nth add.assoc)
qed

lemma chunk_shape:
  assumes "wf_index I" "ci < length (chunks I)"
  defines "z \<equiv> chunks I ! ci"
  shows "file_id z < length (loaded I)" "core_begin z \<le> core_end z"
    "core_end z \<le> length (content I (file_id z))"
    "ext_end z = min (length (content I (file_id z))) (core_end z + chunk_overlap (ix_opt I))"
    "core_begin z + ext_len z = ext_end z"
proof -
  have "z \<in> set (layout_chunks I)" using assms by (metis nth_mem wf_index_def)
  then obtain fid where "fid < length (loaded I)"
    "z \<in> set (file_chunks (chunk_bytes (ix_opt I)) (chunk_overlap (ix_opt I)) fid (length (content I fid)))"
    by (auto simp: layout_chunks_def)
  then show "file_id z < length (loaded I)" "core_begin z \<le> core_end z"
    "core_end z \<le> length (content I (file_id z))"
    "ext_end z = min (length (content I (file_id z))) (core_end z + chunk_overlap (ix_opt I))"
    "core_begin z + ext_len z = ext_end z"
    using file_chunks_members by (fastforce simp: ext_len_def)+
qed

lemma occurs_in_chunk_view:
  assumes "wf_index I" "ci < length (chunks I)" "occurs_at (content I (file_id (chunks I ! ci))) q x"
    and "core_begin (chunks I ! ci) \<le> x" "x < core_end (chunks I ! ci)" "length q \<le> chunk_overlap (ix_opt I)"
  shows "occurs_at (chunk_view I (chunks I ! ci)) q (x - core_begin (chunks I ! ci))"
  unfolding chunk_view_def
  using chunk_shape [OF assms(1,2)] assms(3-) occurs_at_bound [OF assms(3)]
  by (intro occurs_at_substr) auto

lemma chunk_passes_occurrence:
  assumes "occurs_at (chunk_view I (chunks I ! ci)) q i" "set hs \<subseteq> set (qgram_hashes q)"
  shows "chunk_passes I hs ci"
  unfolding chunk_passes_def chunk_has_row_def Let_def
proof (intro ballI)
  fix h assume "h \<in> set hs"
  with assms(2) obtain j where "j \<in> set (windows q)" "h = hash4 q j" by (auto simp: qgram_hashes_def)
  with occurs_window [OF assms(1)] show "\<exists>j \<in> set (windows (chunk_view I (chunks I ! ci))).
      row_of (hash4 (chunk_view I (chunks I ! ci)) j) (2 ^ lg_for (ext_len (chunks I ! ci))) =
      row_of h (2 ^ lg_for (ext_len (chunks I ! ci)))" by metis
qed

lemma block_passes_occurrence:
  assumes "occurs_at (block_view I (chunks I ! ci) bi) q i" "set hs \<subseteq> set (qgram_hashes q)"
  shows "block_passes I hs ci bi"
  unfolding block_passes_def block_has_row_def Let_def
proof (intro ballI)
  fix h assume "h \<in> set hs"
  with assms(2) obtain j where "j \<in> set (windows q)" "h = hash4 q j" by (auto simp: qgram_hashes_def)
  with occurs_window [OF assms(1)] show "\<exists>j \<in> set (windows (block_view I (chunks I ! ci) bi)).
      row_of (hash4 (block_view I (chunks I ! ci) bi) j) (pd_m (pos_descs I ! ci)) =
      row_of h (pd_m (pos_descs I ! ci))" by metis
qed

text \<open>
  A filter over units (chunks, blocks) that each own some positions is conservative when it
  keeps every unit that owns an occurrence; then scanning the kept units in order lists
  exactly the occurrences a scan of all units lists.
\<close>

locale conservative_filter =
  fixes valid :: "'u \<Rightarrow> bool"
    and admissible :: "'q \<Rightarrow> bool"
    and keep :: "'q \<Rightarrow> 'u \<Rightarrow> bool"
    and positions :: "'u \<Rightarrow> 'p list"
    and occurs :: "'q \<Rightarrow> 'p \<Rightarrow> bool"
  assumes complete: "valid u \<Longrightarrow> admissible q \<Longrightarrow> p \<in> set (positions u) \<Longrightarrow> occurs q p \<Longrightarrow> keep q u"
begin

definition hits :: "'q \<Rightarrow> 'u \<Rightarrow> 'p list" where
  "hits q u = filter (occurs q) (positions u)"

lemma dropped_empty: "valid u \<Longrightarrow> admissible q \<Longrightarrow> \<not> keep q u \<Longrightarrow> hits q u = []"
  using complete by (auto simp: hits_def filter_empty_conv)

lemma pruned_scan:
  assumes "admissible q" "\<And>u. u \<in> set us \<Longrightarrow> valid u"
  shows "concat (map (hits q) (filter (keep q) us)) = filter (occurs q) (concat (map positions us))"
  using assms(2)
proof (induction us)
  case (Cons u us)
  then have "concat (map (hits q) (filter (keep q) us)) = filter (occurs q) (concat (map positions us))" by auto
  with Cons.prems dropped_empty [OF _ assms(1), of u] show ?case by (cases "keep q u") (auto simp: hits_def [abs_def])
qed simp

lemma pruned_set:
  assumes "admissible q" "\<And>u. u \<in> set us \<Longrightarrow> valid u"
  shows "(\<Union>u \<in> set (filter (keep q) us). set (hits q u)) = {p. occurs q p \<and> p \<in> (\<Union>u \<in> set us. set (positions u))}"
  using arg_cong [OF pruned_scan [OF assms], where f = set] by auto

end

definition chunk_keep :: "index_data \<Rightarrow> bytes \<Rightarrow> nat \<Rightarrow> bool" where
  "chunk_keep I q ci \<longleftrightarrow>
     length q < 4 \<or> chunk_overlap (ix_opt I) < length q \<or> chunk_passes I (planned_hashes I q) ci"

definition chunk_positions :: "index_data \<Rightarrow> nat \<Rightarrow> (nat \<times> nat) list" where
  "chunk_positions I ci = map (Pair (file_id (chunks I ! ci))) [core_begin (chunks I ! ci) ..< core_end (chunks I ! ci)]"

definition occurs_in :: "index_data \<Rightarrow> bytes \<Rightarrow> nat \<times> nat \<Rightarrow> bool" where
  "occurs_in I q = (\<lambda>(fid, x). occurs_at (content I fid) q x)"

interpretation chunk_filter: conservative_filter "\<lambda>ci. wf_index I \<and> ci < length (chunks I)" "\<lambda>q. True"
  "chunk_keep I" "chunk_positions I" "occurs_in I" for I
proof
  fix ci q p
  assume wf: "wf_index I \<and> ci < length (chunks I)"
    and p: "p \<in> set (chunk_positions I ci)" and occ: "occurs_in I q p"
  from p obtain x where x: "p = (file_id (chunks I ! ci), x)" "core_begin (chunks I ! ci) \<le> x" "x < core_end (chunks I ! ci)"
    by (auto simp: chunk_positions_def)
  with occ have "occurs_at (content I (file_id (chunks I ! ci))) q x" by (simp add: occurs_in_def)
  with occurs_in_chunk_view [of I ci q x] chunk_passes_occurrence planned_hashes_ok [of I q] wf x
  show "chunk_keep I q ci" by (meson chunk_keep_def not_less)
qed

text \<open>C3: the chunk filter never drops a match.  A literal that occurs at an offset of an eligible
  file has its chunk among the candidates.\<close>

theorem chunk_candidates_no_false_negative:
  assumes "wf_index I" "ci < length (chunks I)"
    and "occurs_at (content I (file_id (chunks I ! ci))) q x"
    and "core_begin (chunks I ! ci) \<le> x" "x < core_end (chunks I ! ci)"
    and "allows el (file_id (chunks I ! ci))"
  shows "ci \<in> set (chunk_candidates I el q)"
proof -
  have "chunk_keep I q ci"
    using assms by (intro chunk_filter.complete [where p = "(file_id (chunks I ! ci), x)"])
      (auto simp: chunk_positions_def occurs_in_def)
  with assms show ?thesis by (auto simp: chunk_candidates_eq chunk_keep_def)
qed

section \<open>Blocks\<close>

definition block_lo :: "index_data \<Rightarrow> nat \<Rightarrow> nat \<Rightarrow> nat" where
  "block_lo I ci bi = core_begin (chunks I ! ci) + bi * pos_block I"

definition block_hi :: "index_data \<Rightarrow> nat \<Rightarrow> nat \<Rightarrow> nat" where
  "block_hi I ci bi = min (core_end (chunks I ! ci)) (block_lo I ci bi + pos_block I)"

definition block_positions :: "index_data \<Rightarrow> nat \<times> nat \<Rightarrow> (nat \<times> nat) list" where
  "block_positions I = (\<lambda>(ci, bi). map (Pair (file_id (chunks I ! ci))) [block_lo I ci bi ..< block_hi I ci bi])"

definition block_keep :: "index_data \<Rightarrow> bytes \<Rightarrow> nat \<times> nat \<Rightarrow> bool" where
  "block_keep I q = (\<lambda>(ci, bi). chunk_keep I q ci \<and> block_passes I (planned_hashes I q) ci bi)"

lemma occurs_in_block_view:
  assumes "wf_index I" "ci < length (chunks I)" "occurs_at (content I (file_id (chunks I ! ci))) q x"
    and "block_lo I ci bi \<le> x" "x < block_hi I ci bi"
    and "length q \<le> chunk_overlap (ix_opt I)" "length q \<le> PO + 1"
  shows "occurs_at (block_view I (chunks I ! ci) bi) q (x - block_lo I ci bi)"
proof -
  let ?z = "chunks I ! ci" and ?rb = "bi * pos_block I"
  note z = chunk_shape [OF assms(1,2)] and b = occurs_at_bound [OF assms(3)]
  have len: "?rb \<le> min (ext_len ?z) (?rb + pos_block I + PO)"
    using assms(4,5) z by (auto simp: block_lo_def block_hi_def)
  show ?thesis
    unfolding block_view_def Let_def block_lo_def
    using assms(3-) z b len
    by (intro occurs_at_substr) (auto simp: block_lo_def block_hi_def)
qed

interpretation block_filter: conservative_filter
  "\<lambda>(ci, bi). wf_index I \<and> ci < length (chunks I)"
  "\<lambda>q. length q \<le> chunk_overlap (ix_opt I) \<and> length q \<le> PO + 1"
  "block_keep I" "block_positions I" "occurs_in I" for I
proof
  fix u q p
  assume wf: "case u of (ci, bi) \<Rightarrow> wf_index I \<and> ci < length (chunks I)"
    and q: "length q \<le> chunk_overlap (ix_opt I) \<and> length q \<le> PO + 1"
    and p: "p \<in> set (block_positions I u)" and occ: "occurs_in I q p"
  obtain ci bi where u: "u = (ci, bi)" by (cases u)
  with p occ obtain x where x: "occurs_at (content I (file_id (chunks I ! ci))) q x"
    "block_lo I ci bi \<le> x" "x < block_hi I ci bi"
    by (auto simp: block_positions_def occurs_in_def)
  have "chunk_keep I q ci"
    using wf u x by (intro chunk_filter.complete [where p = "(file_id (chunks I ! ci), x)"])
      (auto simp: chunk_positions_def occurs_in_def block_lo_def block_hi_def)
  with x occurs_in_block_view [of I ci q x bi] block_passes_occurrence planned_hashes_ok [of I q] wf q u
  show "block_keep I q u" by (metis (no_types, lifting) block_keep_def case_prod_conv)
qed

lemma block_partition:
  fixes b n p k :: nat
  assumes "0 < p"
  shows "concat (map (\<lambda>bi. [b + bi * p ..< min n (b + bi * p + p)]) [0 ..< k]) = [b ..< min n (b + k * p)]"
proof (induction k)
  case (Suc k)
  have "[b ..< min n (b + k * p)] @ [b + k * p ..< min n (b + k * p + p)] = [b ..< min n (b + k * p + p)]"
  proof (cases "b + k * p \<le> n")
    case True
    define m where "m = min n (b + k * p + p)"
    with True have "b + k * p \<le> m" by simp
    then have "[b ..< m] = [b ..< b + k * p] @ [b + k * p ..< m]"
      using upt_add_eq_append [of b "b + k * p" "m - (b + k * p)"] by simp
    with True show ?thesis by (simp add: m_def min_absorb2)
  qed auto
  with Suc show ?case by (simp add: algebra_simps)
qed simp

definition all_blocks :: "index_data \<Rightarrow> nat \<Rightarrow> (nat \<times> nat) list" where
  "all_blocks I ci = map (Pair ci) [0 ..< pd_blocks (pos_descs I ! ci)]"

lemma concat_block_positions:
  assumes "wf_index I" "ci < length (chunks I)"
  shows "concat (map (block_positions I) (all_blocks I ci)) = chunk_positions I ci"
proof -
  let ?z = "chunks I ! ci" and ?n = "pd_blocks (pos_descs I ! ci)"
  have pb: "0 < pos_block I" using assms(1) by (simp add: wf_index_def)
  have "core_len ?z + pos_block I - 1 < pos_block I * ((core_len ?z + pos_block I - 1) div pos_block I) + pos_block I"
    using mult_div_mod_eq [of "pos_block I" "core_len ?z + pos_block I - 1"] mod_less_divisor [OF pb] by (metis add_less_cancel_left)
  then have "core_len ?z \<le> pos_block I * ((core_len ?z + pos_block I - 1) div pos_block I)" by linarith
  also have "\<dots> \<le> pos_block I * ?n" using wf_pos_desc(4) [OF assms] by (intro mult_le_mono2) simp
  finally have cover: "core_end ?z \<le> core_begin ?z + ?n * pos_block I"
    using chunk_shape(2) [OF assms] by (simp add: core_len_def mult.commute)
  have "concat (map (block_positions I) (all_blocks I ci)) =
        map (Pair (file_id ?z)) (concat (map (\<lambda>bi. [block_lo I ci bi ..< block_hi I ci bi]) [0 ..< ?n]))"
    by (simp add: all_blocks_def block_positions_def map_concat o_def)
  also have "concat (map (\<lambda>bi. [block_lo I ci bi ..< block_hi I ci bi]) [0 ..< ?n]) = [core_begin ?z ..< core_end ?z]"
    unfolding block_lo_def block_hi_def block_partition [OF pb] using cover by (simp add: min_absorb1)
  finally show ?thesis by (simp add: chunk_positions_def)
qed

lemma map_filter_Pair: "filter P (map (Pair a) xs) = map (Pair a) (filter (\<lambda>x. P (a, x)) xs)"
  by (simp add: filter_map o_def)

lemma fixed_candidate_blocks_eq:
  assumes "wf_index I" "q \<noteq> []"
  shows "fixed_candidate_blocks I el q =
         filter (block_keep I q)
           (concat (map (all_blocks I) (filter (\<lambda>ci. allows el (file_id (chunks I ! ci))) [0 ..< length (chunks I)])))"
proof -
  let ?hs = "planned_hashes I q" and ?ok = "\<lambda>ci. allows el (file_id (chunks I ! ci))"
  have "concat (map (\<lambda>ci. map (Pair ci) (chunk_blocks I ?hs ci)) (filter (\<lambda>ci. ?ok ci \<and> chunk_keep I q ci) xs)) =
        filter (block_keep I q) (concat (map (all_blocks I) (filter ?ok xs)))"
    if "\<forall>ci \<in> set xs. ci < length (chunks I)" for xs
    using that
  proof (induction xs)
    case (Cons ci xs)
    then have ci: "ci < length (chunks I)" by simp
    have "filter (block_keep I q) (all_blocks I ci) = (if chunk_keep I q ci then map (Pair ci) (chunk_blocks I ?hs ci) else [])"
      unfolding chunk_blocks_eq [OF assms(1) ci] all_blocks_def map_filter_Pair by (simp add: block_keep_def)
    with Cons show ?case by simp
  qed simp
  with assms show ?thesis
    by (simp add: fixed_candidate_blocks_def chunk_candidates_eq chunk_keep_def)
qed


text \<open>Every byte offset of the corpus belongs to exactly one chunk core, in file order.\<close>

lemma concat_chunk_positions:
  assumes "wf_index I"
  shows "concat (map (chunk_positions I) (filter (\<lambda>ci. F (file_id (chunks I ! ci))) [0 ..< length (chunks I)])) =
         concat (map (\<lambda>fid. map (Pair fid) [0 ..< length (content I fid)]) (filter F [0 ..< length (loaded I)]))"
proof -
  let ?fc = "\<lambda>fid. file_chunks (chunk_bytes (ix_opt I)) (chunk_overlap (ix_opt I)) fid (length (content I fid))"
  let ?p = "\<lambda>c. map (Pair (file_id c)) [core_begin c ..< core_end c]"
  have cb: "0 < chunk_bytes (ix_opt I)" and ch: "chunks I = concat (map ?fc [0 ..< length (loaded I)])"
    using assms by (simp_all add: wf_index_def layout_chunks_def)
  have "map (chunk_positions I) (filter (\<lambda>ci. F (file_id (chunks I ! ci))) [0 ..< length (chunks I)]) =
        map ?p (map (\<lambda>ci. chunks I ! ci) (filter (\<lambda>ci. F (file_id (chunks I ! ci))) [0 ..< length (chunks I)]))"
    by (simp add: chunk_positions_def)
  also have "\<dots> = map ?p (filter (\<lambda>c. F (file_id c)) (chunks I))"
    by (simp only: map_nth_filter [of "chunks I" "\<lambda>c. F (file_id c)"])
  finally have "concat (map (chunk_positions I) (filter (\<lambda>ci. F (file_id (chunks I ! ci))) [0 ..< length (chunks I)])) =
        concat (map ?p (filter (\<lambda>c. F (file_id c)) (concat (map ?fc [0 ..< length (loaded I)]))))"
    using ch by simp
  also have "concat (map ?p (filter (\<lambda>c. F (file_id c)) (concat (map ?fc fs)))) =
      concat (map (\<lambda>fid. map (Pair fid) [0 ..< length (content I fid)]) (filter F fs))" for fs
  proof (induction fs)
    case (Cons fid fs)
    have "filter (\<lambda>c. F (file_id c)) (?fc fid) = (if F fid then ?fc fid else [])"
      using file_chunks_members by (auto simp: filter_id_conv filter_empty_conv)
    moreover have "map ?p (?fc fid) = map (map (Pair fid)) (map (\<lambda>c. [core_begin c ..< core_end c]) (?fc fid))"
      using file_chunks_members by (auto simp: map_eq_conv)
    then have "concat (map ?p (?fc fid)) = map (Pair fid) [0 ..< length (content I fid)]"
      by (simp only: map_concat [symmetric] concat_file_chunks [OF cb])
    ultimately show ?case using Cons by simp
  qed simp
  finally show ?thesis .
qed

end
