(* ===== verification/Fixed_Search.thy ===== *)
theory Fixed_Search
  imports Api Unicode Candidates
begin

text \<open>
  The fixed-literal half of \<open>Searcher::find\<close>: rare-byte anchored scanning, the word and line
  checks, and the four scan paths (whole file, chunk, positional block, long literal) with
  their result list, per-file \<open>next\<close> table, cancellation polls and early stops.  The planner's
  choice of operator is the argument \<open>plan\<close>: \<open>None\<close> when the guarded dispatch is off.
\<close>

section \<open>Anchored scanning\<close>

fun rare_loop :: "(byte \<Rightarrow> u64) \<Rightarrow> bytes \<Rightarrow> nat \<Rightarrow> u64 \<Rightarrow> nat \<Rightarrow> nat" where
  "rare_loop f [] i best a = a"
| "rare_loop f (c # cs) i best a = (if f c < best then rare_loop f cs (Suc i) (f c) i else rare_loop f cs (Suc i) best a)"

definition choose_rare_byte :: "index_data \<Rightarrow> bytes \<Rightarrow> nat" where
  "choose_rare_byte I q = (if q = [] then 0 else rare_loop (byte_freq I) q 0 (- 1) 0)"

function icase_equal_loop :: "icu \<Rightarrow> bytes \<Rightarrow> bytes \<Rightarrow> nat \<Rightarrow> nat \<Rightarrow> nat option" where
  "icase_equal_loop U s q sp qp =
     (if qp < length q
      then (case (decode_rune U s sp, decode_rune U q qp) of
              (Some (a, sp'), Some (b, qp')) \<Rightarrow>
                if u_fold_case U a \<noteq> u_fold_case U b \<or> qp' \<le> qp then None
                else icase_equal_loop U s q sp' qp'
            | _ \<Rightarrow> None)
      else Some sp)"
  by pat_completeness auto
termination by (relation "measure (\<lambda>(U, s, q, sp, qp). length q - qp)") auto

declare icase_equal_loop.simps [simp del]

definition unicode_icase_equal_at :: "icu \<Rightarrow> bytes \<Rightarrow> bytes \<Rightarrow> nat \<Rightarrow> nat option" where
  "unicode_icase_equal_at U s q pos = icase_equal_loop U s q pos 0"

function anchor_icase_loop :: "icu \<Rightarrow> bytes \<Rightarrow> bytes \<Rightarrow> nat \<Rightarrow> nat \<Rightarrow> (nat \<times> nat) option" where
  "anchor_icase_loop U s q max_start p =
     (if p < length s \<and> p < max_start
      then (case unicode_icase_equal_at U s q p of
              Some e \<Rightarrow> Some (p, e)
            | None \<Rightarrow>
                let p' = (case decode_rune U s p of Some (cp, nx) \<Rightarrow> nx | None \<Rightarrow> p + 1)
                in if p' \<le> p then None else anchor_icase_loop U s q max_start p')
      else None)"
  by pat_completeness auto
termination by (relation "measure (\<lambda>(U, s, q, ms, p). length s - p)") auto

declare anchor_icase_loop.simps [simp del]

text \<open>
  In the two case-insensitive loops a rune always advances (\<open>icu_ok\<close>); the guards on a rune
  that does not only make the functions total for an arbitrary parameter.

  \<open>std::memchr(base + lo, needle, hi - lo)\<close> finds the first \<open>needle\<close> in \<open>[lo, hi)\<close>.\<close>

definition memchr :: "bytes \<Rightarrow> byte \<Rightarrow> nat \<Rightarrow> nat \<Rightarrow> nat option" where
  "memchr base needle lo hi = List.find (\<lambda>i. base ! i = needle) [lo ..< hi]"

lemma memchr_Some: "memchr base c lo hi = Some p \<Longrightarrow> lo \<le> p \<and> p < hi"
  by (simp add: memchr_def find_upt_Some)

function anchor_loop :: "bytes \<Rightarrow> bytes \<Rightarrow> nat \<Rightarrow> nat \<Rightarrow> nat \<Rightarrow> (nat \<times> nat) option" where
  "anchor_loop s q anchor hi lo =
     (if lo < hi
      then (case memchr s (q ! anchor) lo hi of
              None \<Rightarrow> None
            | Some apos \<Rightarrow>
                let st = apos - anchor
                in if substr s st (length q) = q then Some (st, st + length q)
                   else anchor_loop s q anchor hi (apos + 1))
      else None)"
  by pat_completeness auto
termination
  by (relation "measure (\<lambda>(s, q, anchor, hi, lo). hi - lo)") (auto dest!: memchr_Some)

declare anchor_loop.simps [simp del]

definition anchor_find ::
  "icu \<Rightarrow> bytes \<Rightarrow> bytes \<Rightarrow> nat \<Rightarrow> nat \<Rightarrow> nat \<Rightarrow> bool \<Rightarrow> (nat \<times> nat) option" where
  "anchor_find U s q anchor start max_start icase =
     (if q = [] then (if start \<le> length s \<and> start < max_start then Some (start, start) else None)
      else if \<not> icase \<and> length s < length q then None
      else if icase then anchor_icase_loop U s q max_start start
      else let ms = min max_start (length s - length q + 1)
           in if ms \<le> start then None
              else anchor_loop s q anchor (ms + anchor) (start + anchor))"

lemma rare_loop_less: "a < i + length cs \<Longrightarrow> rare_loop f cs i best a < i + length cs"
  by (induction f cs i best a rule: rare_loop.induct) auto

lemma choose_rare_byte_less: "q \<noteq> [] \<Longrightarrow> choose_rare_byte I q < length q"
  using rare_loop_less [of 0 0 q] by (simp add: choose_rare_byte_def)

lemma anchor_icase_bounds:
  "anchor_icase_loop U s q ms p = Some (x, e) \<Longrightarrow> p \<le> x \<and> x < ms \<and> x < length s"
proof (induction U s q ms p rule: anchor_icase_loop.induct)
  case (1 U s q ms p)
  then show ?case
    by (subst (asm) (2) anchor_icase_loop.simps) (fastforce simp: Let_def split: if_splits option.splits prod.splits)
qed

lemma substr_eq_occurs: "i + length q \<le> length s \<Longrightarrow> substr s i (length q) = q \<longleftrightarrow> occurs_at s q i"
  by (simp add: substr_def occurs_at_def)

lemma find_skip:
  assumes "a \<le> c" "\<And>y. a \<le> y \<Longrightarrow> y < c \<Longrightarrow> y < b \<Longrightarrow> \<not> P y"
  shows "List.find P [a ..< b] = List.find P [c ..< b]"
proof (cases "List.find P [c ..< b]")
  case None
  have "\<not> P y" if "a \<le> y" "y < b" for y
    using assms(2) [of y] None that by (cases "y < c") (auto simp: find_None_iff_upt)
  with None show ?thesis unfolding find_None_iff_upt [symmetric] by (metis find_None_iff_upt)
next
  case (Some x)
  have "\<not> P y" if "a \<le> y" "y < x" for y
    using assms(2) [of y] Some that unfolding find_upt_Some by (cases "y < c") auto
  with Some assms(1) have "List.find P [a ..< b] = Some x" unfolding find_upt_Some by auto
  with Some show ?thesis by simp
qed

lemma anchor_loop_eq:
  assumes "a < length q" "ms + length q \<le> length s + 1" "lo = st + a"
  shows "anchor_loop s q a (ms + a) lo = map_option (\<lambda>x. (x, x + length q)) (List.find (occurs_at s q) [st ..< ms])"
  using assms(3)
proof (induction "ms - st" arbitrary: st lo rule: less_induct)
  case less
  note lo = less.prems
  show ?case
  proof (cases "memchr s (q ! a) lo (ms + a)")
    case None
    have "\<not> occurs_at s q y" if "st \<le> y" "y < ms" for y
      using None that lo assms(1) by (auto simp: memchr_def find_None_iff_upt occurs_at_nth)
    then have "List.find (occurs_at s q) [st ..< ms] = None" unfolding find_None_iff_upt by auto
    with None show ?thesis by (subst anchor_loop.simps) simp
  next
    case (Some apos)
    then have apos: "lo \<le> apos" "apos < ms + a" "\<forall>y. lo \<le> y \<and> y < apos \<longrightarrow> s ! y \<noteq> q ! a"
      by (auto simp: memchr_def find_upt_Some)
    define x where "x = apos - a"
    have x: "st \<le> x" "x < ms" "apos = x + a" using apos(1,2) lo by (auto simp: x_def)
    have skip: "\<not> occurs_at s q y" if "st \<le> y" "y < x" for y
      using apos(3) that lo x assms(1) by (auto simp: occurs_at_nth)
    have eq: "List.find (occurs_at s q) [st ..< ms] = List.find (occurs_at s q) [x ..< ms]"
      using skip x by (intro find_skip) auto
    show ?thesis
    proof (cases "occurs_at s q x")
      case True
      then have "List.find (occurs_at s q) [x ..< ms] = Some x" using x unfolding find_upt_Some by auto
      with True Some x lo eq assms(2) show ?thesis
        by (subst anchor_loop.simps) (simp add: Let_def substr_eq_occurs)
    next
      case False
      then have "List.find (occurs_at s q) [x ..< ms] = List.find (occurs_at s q) [Suc x ..< ms]"
        by (intro find_skip) (auto simp: less_Suc_eq)
      moreover have "anchor_loop s q a (ms + a) (Suc x + a) =
          map_option (\<lambda>x. (x, x + length q)) (List.find (occurs_at s q) [Suc x ..< ms])"
        using x by (intro less.hyps) auto
      ultimately show ?thesis using False Some x lo eq assms(2)
        by (subst anchor_loop.simps) (simp add: Let_def substr_eq_occurs)
    qed
  qed
qed

lemma anchor_find_eq:
  assumes "q \<noteq> []"
  shows "anchor_find U s q (choose_rare_byte I q) start max_start False =
         map_option (\<lambda>x. (x, x + length q)) (List.find (occurs_at s q) [start ..< max_start])"
proof -
  have none: "List.find (occurs_at s q) [start ..< max_start] = None" if "length s < length q"
    using that unfolding find_None_iff_upt by (auto simp: occurs_at_def)
  have "List.find (occurs_at s q) [start ..< max_start] =
        List.find (occurs_at s q) [start ..< min max_start (length s - length q + 1)]" if "length q \<le> length s"
  proof (cases "List.find (occurs_at s q) [start ..< max_start]")
    case None
    then show ?thesis by (metis find_None_iff_upt min_less_iff_conj)
  next
    case (Some x)
    then have "x < length s - length q + 1" unfolding find_upt_Some by (auto dest: occurs_at_bound)
    with Some have "List.find (occurs_at s q) [start ..< min max_start (length s - length q + 1)] = Some x"
      unfolding find_upt_Some by auto
    with Some show ?thesis by simp
  qed
  moreover have "List.find (occurs_at s q) [start ..< m] = None" if "m \<le> start" for m
    using that unfolding find_None_iff_upt by auto
  ultimately show ?thesis
    using assms none anchor_loop_eq [OF choose_rare_byte_less [OF assms], of "min max_start (length s - length q + 1)" s]
    by (auto simp: anchor_find_def Let_def not_less)
qed

text \<open>C15: the rare-byte anchored scan is the naive first-occurrence search, whatever anchor the
  frequency table selects.\<close>

theorem anchor_find_exact:
  assumes "q \<noteq> []"
  shows "anchor_find U s q (choose_rare_byte I q) start max_start False =
         map_option (\<lambda>x. (x, x + length q)) (List.find (occurs_at s q) [start ..< max_start])"
  by (rule anchor_find_eq [OF assms])

lemma anchor_find_bounds:
  assumes "anchor_find U s q (choose_rare_byte I q) start max_start icase = Some (x, e)"
  shows "start \<le> x \<and> x < max_start"
proof (cases "q = []")
  case True
  with assms show ?thesis by (auto simp: anchor_find_def split: if_splits)
next
  case False
  show ?thesis
  proof (cases icase)
    case True
    with assms False show ?thesis by (auto simp: anchor_find_def dest: anchor_icase_bounds)
  next
    case ni: False
    with assms anchor_find_eq [OF False, of U s I start max_start] show ?thesis
      by (auto simp: find_upt_Some)
  qed
qed

section \<open>Word and line checks\<close>

definition word_check :: "icu \<Rightarrow> pattern_options \<Rightarrow> bytes \<Rightarrow> nat \<Rightarrow> nat \<Rightarrow> bool" where
  "word_check U po s a b =
     (if \<not> po_word po then True
      else if po_unicode po
      then \<not> (case decode_prev U s a of Some (cp, _) \<Rightarrow> unicode_word_cp U cp | None \<Rightarrow> False) \<and>
           \<not> (case decode_rune U s b of Some (cp, _) \<Rightarrow> unicode_word_cp U cp | None \<Rightarrow> False)
      else \<not> (0 < a \<and> ascii_word (s ! (a - 1))) \<and> \<not> (b < length s \<and> ascii_word (s ! b)))"

definition line_check :: "pattern_options \<Rightarrow> byte \<Rightarrow> bytes \<Rightarrow> nat \<Rightarrow> nat \<Rightarrow> bool" where
  "line_check po sep s a b =
     (if \<not> po_line po then True
      else \<not> (0 < a \<and> s ! (a - 1) \<noteq> sep) \<and>
           \<not> (b < length s \<and> s ! b \<noteq> sep \<and>
              \<not> (po_crlf po \<and> sep = 10 \<and> b + 1 < length s \<and> s ! b = 13 \<and> s ! (b + 1) = 10)))"

function record_loop :: "icu \<Rightarrow> index_data \<Rightarrow> bytes \<Rightarrow> bytes \<Rightarrow> bool \<Rightarrow> pattern_options \<Rightarrow> nat \<Rightarrow> nat \<Rightarrow> bool" where
  "record_loop U I rec q icase po max_pos pos =
     (if pos < max_pos
      then (case anchor_find U rec q (choose_rare_byte I q) pos max_pos icase of
              None \<Rightarrow> False
            | Some (x, e) \<Rightarrow>
                if word_check U po rec x e \<and> (po_line po \<longrightarrow> x = 0 \<and> e = length rec) then True
                else record_loop U I rec q icase po max_pos (x + max 1 (e - x)))
      else False)"
  by pat_completeness auto
termination
  by (relation "measure (\<lambda>(U, I, rec, q, ic, po, max_pos, pos). max_pos - pos)")
    (auto dest!: anchor_find_bounds)

declare record_loop.simps [simp del]

definition fixed_match_in_record ::
  "icu \<Rightarrow> index_data \<Rightarrow> bytes \<Rightarrow> bytes \<Rightarrow> bool \<Rightarrow> pattern_options \<Rightarrow> bool" where
  "fixed_match_in_record U I rec q icase po =
     record_loop U I rec q icase po (length rec + (if q = [] then 1 else 0)) 0"

section \<open>The state of a search\<close>

record find_state =
  fs_out :: "match list"
  fs_next :: "nat \<Rightarrow> nat"
  fs_polls :: nat
  fs_cancelled :: bool

definition init_find_state :: find_state where
  "init_find_state = \<lparr>fs_out = [], fs_next = (\<lambda>_. 0), fs_polls = 0, fs_cancelled = False\<rparr>"

text \<open>A step returns the new state and whether it jumps to \<open>done\<close>.\<close>

type_synonym find_step = "find_state \<Rightarrow> find_state \<times> bool"

definition stop_requested :: "search_options \<Rightarrow> find_step" where
  "stop_requested opt st =
     (let hit = so_should_cancel opt (fs_polls st)
      in (st\<lparr>fs_polls := Suc (fs_polls st), fs_cancelled := fs_cancelled st \<or> hit\<rparr>, hit))"

definition result_bound_reached :: "search_options \<Rightarrow> find_state \<Rightarrow> bool" where
  "result_bound_reached opt st \<longleftrightarrow>
     so_objective opt = FirstHit \<or> (so_max_matches opt \<noteq> 0 \<and> so_max_matches opt \<le> length (fs_out st))"

definition fixed_match :: "nat \<Rightarrow> nat \<Rightarrow> nat \<Rightarrow> match" where
  "fixed_match fid a b = \<lparr>m_file = fid, m_start = a, m_end = b, m_caps = []\<rparr>"

definition push_match :: "nat \<Rightarrow> nat \<Rightarrow> nat \<Rightarrow> find_state \<Rightarrow> find_state" where
  "push_match fid a b st = st\<lparr>fs_out := fs_out st @ [fixed_match fid a b]\<rparr>"

fun run_units :: "('u \<Rightarrow> find_step) \<Rightarrow> 'u list \<Rightarrow> find_step" where
  "run_units f [] st = (st, False)"
| "run_units f (u # us) st = (case f u st of (st', stop) \<Rightarrow> if stop then (st', True) else run_units f us st')"

text \<open>
  The inner loop all four paths share.  \<open>v\<close> is the scanned view and \<open>base\<close> its offset in the
  file; \<open>check\<close> is the word/line test on file offsets (constantly true on the paths that have
  none); \<open>use_next\<close> says whether the path keeps the per-file \<open>next\<close> table, \<open>poll\<close> whether it
  asks for cancellation in every iteration.
\<close>

record scan_cfg =
  sc_icase :: bool
  sc_check :: "nat \<Rightarrow> nat \<Rightarrow> bool"
  sc_use_next :: bool
  sc_poll :: bool

function scan_loop ::
  "icu \<Rightarrow> index_data \<Rightarrow> search_options \<Rightarrow> scan_cfg \<Rightarrow> bytes \<Rightarrow> nat \<Rightarrow> bytes \<Rightarrow> nat \<Rightarrow> nat \<Rightarrow> nat \<Rightarrow> find_step" where
  "scan_loop U I opt cfg q fid v base max_start pos st0 =
     (if pos < max_start
      then (case (if sc_poll cfg then stop_requested opt st0 else (st0, False)) of (st, stop) \<Rightarrow>
        if stop then (st, True)
        else (case anchor_find U v q (choose_rare_byte I q) pos max_start (sc_icase cfg) of
                None \<Rightarrow> (st, False)
              | Some (x, e) \<Rightarrow>
                  let abs = base + x; abs_end = base + e;
                      step = (if so_overlapping opt then 1 else max 1 (e - x))
                  in if sc_check cfg abs abs_end
                     then if sc_use_next cfg \<and> \<not> so_overlapping opt \<and> abs < fs_next st fid
                          then scan_loop U I opt cfg q fid v base max_start (x + 1) st
                          else let st1 = (if sc_use_next cfg \<and> \<not> so_overlapping opt
                                          then st\<lparr>fs_next := (fs_next st)(fid := abs + max 1 (e - x))\<rparr> else st);
                                   st2 = push_match fid abs abs_end st1
                               in if result_bound_reached opt st2 then (st2, True)
                                  else scan_loop U I opt cfg q fid v base max_start (x + step) st2
                     else scan_loop U I opt cfg q fid v base max_start (x + step) st))
      else (st0, False))"
  by pat_completeness auto
termination
  by (relation "measure (\<lambda>(U, I, opt, cfg, q, fid, v, base, max_start, pos, st). max_start - pos)")
    (auto dest!: anchor_find_bounds)

declare scan_loop.simps [simp del]

section \<open>The four paths\<close>

datatype fixed_operator = WholeFile | ChunkScan | PositionalBlock

definition skip_binary :: "index_data \<Rightarrow> search_options \<Rightarrow> nat \<Rightarrow> bool" where
  "skip_binary I opt fid \<longleftrightarrow> \<not> so_include_binary opt \<and> fi_binary (infos I ! fid)"

definition core_bound :: "nat \<Rightarrow> bytes \<Rightarrow> nat" where
  "core_bound core q = core + (if q = [] then 1 else 0)"

text \<open>\<open>if (files.empty() || files.back() != fid) files.push_back(fid)\<close>\<close>

definition candidate_files :: "index_data \<Rightarrow> nat list \<Rightarrow> nat list" where
  "candidate_files I cv = remdups_adj (map (\<lambda>ci. file_id (chunks I ! ci)) cv)"

definition fixed_check :: "icu \<Rightarrow> index_data \<Rightarrow> pattern_options \<Rightarrow> search_options \<Rightarrow> nat \<Rightarrow> nat \<Rightarrow> nat \<Rightarrow> bool" where
  "fixed_check U I po opt fid a b \<longleftrightarrow>
     word_check U po (content I fid) a b \<and> line_check po (so_record_separator opt) (content I fid) a b"

definition find_whole_file ::
  "icu \<Rightarrow> index_data \<Rightarrow> pattern_options \<Rightarrow> search_options \<Rightarrow> bool list \<Rightarrow> bytes \<Rightarrow> bool \<Rightarrow> find_step" where
  "find_whole_file U I po opt el q icase =
     run_units
       (\<lambda>fid st. case stop_requested opt st of (st1, stop) \<Rightarrow>
          if stop then (st1, True)
          else if skip_binary I opt fid then (st1, False)
          else let data = content I fid
               in scan_loop U I opt
                    \<lparr>sc_icase = icase, sc_check = fixed_check U I po opt fid, sc_use_next = False, sc_poll = False\<rparr>
                    q fid data 0 (core_bound (length data) q) 0 st1)
       (candidate_files I (chunk_candidates I el q))"

definition find_chunk ::
  "icu \<Rightarrow> index_data \<Rightarrow> pattern_options \<Rightarrow> search_options \<Rightarrow> bool list \<Rightarrow> bytes \<Rightarrow> bool \<Rightarrow> find_step" where
  "find_chunk U I po opt el q icase =
     run_units
       (\<lambda>ci st. let z = chunks I ! ci; fid = file_id z in
          if skip_binary I opt fid then (st, False)
          else scan_loop U I opt
                 \<lparr>sc_icase = icase, sc_check = fixed_check U I po opt fid, sc_use_next = True, sc_poll = False\<rparr>
                 q fid (chunk_view I z) (core_begin z) (core_bound (core_len z) q) 0 st)
       (remdups (chunk_candidates I el (if icase then [] else q)))"

definition find_blocks ::
  "icu \<Rightarrow> index_data \<Rightarrow> search_options \<Rightarrow> bool list \<Rightarrow> bytes \<Rightarrow> find_step" where
  "find_blocks U I opt el q =
     run_units
       (\<lambda>(ci, bi) st. case stop_requested opt st of (st1, stop) \<Rightarrow>
          if stop then (st1, True)
          else let z = chunks I ! ci; fid = file_id z; rb = bi * pos_block I in
            if skip_binary I opt fid then (st1, False)
            else if core_len z \<le> rb \<and> \<not> (q = [] \<and> rb = 0 \<and> core_end z = core_begin z) then (st1, False)
            else let core = min (pos_block I) (core_len z - rb);
                     re = min (ext_len z) (rb + pos_block I + 64);
                     v = substr (content I fid) (core_begin z + rb) (re - rb)
                 in scan_loop U I opt
                      \<lparr>sc_icase = False, sc_check = (\<lambda>_ _. True), sc_use_next = True, sc_poll = False\<rparr>
                      q fid v (core_begin z + rb) (core_bound core q) 0 st1)
       (fixed_candidate_blocks I el q)"

definition find_long ::
  "icu \<Rightarrow> index_data \<Rightarrow> search_options \<Rightarrow> bool list \<Rightarrow> bytes \<Rightarrow> find_step" where
  "find_long U I opt el q =
     run_units
       (\<lambda>ci st. let z = chunks I ! ci; fid = file_id z in
          if skip_binary I opt fid then (st, False)
          else scan_loop U I opt
                 \<lparr>sc_icase = False, sc_check = (\<lambda>_ _. True), sc_use_next = True, sc_poll = True\<rparr>
                 q fid (chunk_view I z) (core_begin z) (core_len z) 0 st)
       (chunk_candidates I el q)"

definition find_fixed_paths ::
  "icu \<Rightarrow> index_data \<Rightarrow> pattern_options \<Rightarrow> search_options \<Rightarrow> fixed_operator option \<Rightarrow> bool list \<Rightarrow> bytes \<Rightarrow> find_step" where
  "find_fixed_paths U I po opt plan el q =
     (let icase = (po_case po = Insensitive) in
      if chunk_overlap (ix_opt I) < length q \<or> plan = Some WholeFile then find_whole_file U I po opt el q icase
      else if icase \<or> po_word po \<or> po_line po \<or> plan = Some ChunkScan then find_chunk U I po opt el q icase
      else if length q \<le> 64 then find_blocks U I opt el q
      else find_long U I opt el q)"

section \<open>Inverted search over records\<close>

definition next_record :: "bytes \<Rightarrow> byte \<Rightarrow> nat \<Rightarrow> nat \<times> bool" where
  "next_record data sep b =
     (case List.find (\<lambda>i. data ! i = sep) [b ..< length data] of Some e \<Rightarrow> (e, True) | None \<Rightarrow> (length data, False))"

definition logical_end :: "pattern_options \<Rightarrow> byte \<Rightarrow> bytes \<Rightarrow> nat \<Rightarrow> nat \<Rightarrow> nat" where
  "logical_end po sep data b e =
     (if po_crlf po \<and> sep = 10 \<and> b < e \<and> data ! (e - 1) = 13 then e - 1 else e)"

text \<open>
  The record loop every record-at-a-time path of the code has: \<open>visit\<close> is the body, on the
  record's begin and logical end.
\<close>

function record_scan :: "search_options \<Rightarrow> pattern_options \<Rightarrow> bytes \<Rightarrow> (nat \<Rightarrow> nat \<Rightarrow> find_step) \<Rightarrow> nat \<Rightarrow> find_step" where
  "record_scan opt po data visit b st0 =
     (if b < length data \<or> (b = 0 \<and> data = [])
      then (case stop_requested opt st0 of (st, stop) \<Rightarrow>
        if stop then (st, True)
        else let sep = so_record_separator opt; (e, term) = next_record data sep b in
          case visit b (logical_end po sep data b e) st of (st', stop') \<Rightarrow>
            if stop' then (st', True)
            else if \<not> term \<or> e < b then (st', False)
            else record_scan opt po data visit (e + 1) st')
      else (st0, False))"
  by pat_completeness auto
termination
  by (relation "measure (\<lambda>(opt, po, data, visit, b, st). Suc (length data) - b)") (auto split: if_splits)

declare record_scan.simps [simp del]

definition find_inverted ::
  "icu \<Rightarrow> index_data \<Rightarrow> pattern_options \<Rightarrow> search_options \<Rightarrow> bool list \<Rightarrow> (nat \<Rightarrow> nat \<Rightarrow> nat \<Rightarrow> bool) \<Rightarrow> find_step" where
  "find_inverted U I po opt el matched =
     run_units
       (\<lambda>fid st. case stop_requested opt st of (st1, stop) \<Rightarrow>
          if stop then (st1, True)
          else if \<not> allows el fid \<or> skip_binary I opt fid then (st1, False)
          else record_scan opt po (content I fid)
                 (\<lambda>b e st. if matched fid b e then (st, False)
                           else let st2 = push_match fid b e st in (st2, result_bound_reached opt st2))
                 0 st1)
       [0 ..< length (loaded I)]"

section \<open>A whole fixed search\<close>

definition finish_find :: "search_options \<Rightarrow> find_state \<Rightarrow> match list" where
  "finish_find opt st =
     (let out = (if fs_cancelled st then [] else fs_out st)
      in if so_max_matches opt \<noteq> 0 \<and> so_max_matches opt < length out then take (so_max_matches opt) out else out)"

text \<open>The state at \<open>done\<close>, and the matches \<open>find\<close> makes of it.\<close>

definition find_fixed_state ::
  "icu \<Rightarrow> index_data \<Rightarrow> pattern_options \<Rightarrow> search_options \<Rightarrow> fixed_operator option \<Rightarrow> bytes \<Rightarrow> find_state" where
  "find_fixed_state U I po opt plan q =
     (let el = recorder_eligible I (sort_unique (so_eligible opt));
          icase = (po_case po = Insensitive)
      in case stop_requested opt init_find_state of (st, stop) \<Rightarrow>
           if stop then st
           else if so_invert_match opt
           then fst (find_inverted U I po opt el
                  (\<lambda>fid b e. fixed_match_in_record U I (substr (content I fid) b (e - b)) q icase po) st)
           else fst (find_fixed_paths U I po opt plan el q st))"

definition find_fixed ::
  "icu \<Rightarrow> index_data \<Rightarrow> pattern_options \<Rightarrow> search_options \<Rightarrow> fixed_operator option \<Rightarrow> bytes \<Rightarrow> match list" where
  "find_fixed U I po opt plan q = finish_find opt (find_fixed_state U I po opt plan q)"

end
