(* ===== verification/Fixed_Correct.thy ===== *)
theory Fixed_Correct
  imports Fixed_Search
begin

text \<open>
  Every path of the fixed search returns the same matches as a naive left-to-right scan of the
  eligible files, whatever operator the planner picks.
\<close>

section \<open>The reference scan\<close>

function naive_from :: "bytes \<Rightarrow> bytes \<Rightarrow> nat \<Rightarrow> nat list" where
  "naive_from s q p =
     (if q = [] then []
      else case str_find s q p of None \<Rightarrow> [] | Some x \<Rightarrow> x # naive_from s q (x + length q))"
  by pat_completeness auto
termination
proof (relation "measure (\<lambda>(s, q, p). Suc (length s) - p)", goal_cases)
  case (2 s q p x)
  then have "p \<le> x" "x + length q \<le> length s" by (auto simp: str_find_Some dest: occurs_at_bound)
  moreover have "0 < length q" using 2 by simp
  ultimately have "Suc (length s) - (x + length q) < Suc (length s) - p" by linarith
  then show ?case by simp
qed simp

declare naive_from.simps [simp del]

definition naive_matches :: "bool \<Rightarrow> bytes \<Rightarrow> bytes \<Rightarrow> nat list" where
  "naive_matches overlapping s q =
     (if overlapping then filter (occurs_at s q) [0 ..< length s] else naive_from s q 0)"

definition limit_matches :: "search_options \<Rightarrow> 'a list \<Rightarrow> 'a list" where
  "limit_matches opt xs =
     (if so_objective opt = FirstHit then take 1 xs
      else if so_max_matches opt = 0 then xs else take (so_max_matches opt) xs)"

definition searched_file :: "index_data \<Rightarrow> search_options \<Rightarrow> nat \<Rightarrow> bool" where
  "searched_file I opt fid \<longleftrightarrow>
     allows (recorder_eligible I (sort_unique (so_eligible opt))) fid \<and> \<not> skip_binary I opt fid"

definition naive_search :: "index_data \<Rightarrow> search_options \<Rightarrow> bytes \<Rightarrow> match list" where
  "naive_search I opt q =
     limit_matches opt
       (concat (map (\<lambda>fid. map (\<lambda>x. fixed_match fid x (x + length q)) (naive_matches (so_overlapping opt) (content I fid) q))
          (filter (searched_file I opt) [0 ..< length (loaded I)])))"

section \<open>Selecting among ordered occurrences\<close>

fun select :: "bool \<Rightarrow> nat \<Rightarrow> (nat \<Rightarrow> nat) \<Rightarrow> (nat \<times> nat) list \<Rightarrow> (nat \<times> nat) list" where
  "select ov len nx [] = []"
| "select ov len nx ((f, x) # ps) =
     (if \<not> ov \<and> x < nx f then select ov len nx ps
      else (f, x) # select ov len (if ov then nx else nx(f := x + len)) ps)"

text \<open>The same selection, with the search's early stop.\<close>

definition bound_reached :: "search_options \<Rightarrow> match list \<Rightarrow> bool" where
  "bound_reached opt out \<longleftrightarrow>
     so_objective opt = FirstHit \<or> (so_max_matches opt \<noteq> 0 \<and> so_max_matches opt \<le> length out)"

fun sel_run ::
  "search_options \<Rightarrow> nat \<Rightarrow> (nat \<times> nat) list \<Rightarrow> match list \<times> (nat \<Rightarrow> nat) \<Rightarrow> (match list \<times> (nat \<Rightarrow> nat)) \<times> bool" where
  "sel_run opt len [] s = (s, False)"
| "sel_run opt len ((f, x) # ps) s =
     (if \<not> so_overlapping opt \<and> x < snd s f then sel_run opt len ps s
      else let s' = (fst s @ [fixed_match f x (x + len)],
                     if so_overlapping opt then snd s else (snd s)(f := x + len))
           in if bound_reached opt (fst s') then (s', True) else sel_run opt len ps s')"

lemma sel_run_append:
  "sel_run opt len (ps @ qs) s =
     (case sel_run opt len ps s of (s', stop) \<Rightarrow> if stop then (s', True) else sel_run opt len qs s')"
  by (induction opt len ps s rule: sel_run.induct) (auto simp: Let_def)

lemma sel_run_skip:
  assumes "\<not> so_overlapping opt" "a \<le> c" "c \<le> snd s f"
  shows "sel_run opt len (map (Pair f) (filter P [a ..< b])) s = sel_run opt len (map (Pair f) (filter P [c ..< b])) s"
  using assms(2)
proof (induction "c - a" arbitrary: a)
  case (Suc n)
  have a: "a < c" using Suc.hyps(2) by linarith
  have IH: "sel_run opt len (map (Pair f) (filter P [Suc a ..< b])) s = sel_run opt len (map (Pair f) (filter P [c ..< b])) s"
    using Suc.hyps(2) a by (intro Suc.hyps(1)) auto
  show ?case
  proof (cases "a < b")
    case True
    then have "[a ..< b] = a # [Suc a ..< b]" by (simp add: upt_conv_Cons)
    with IH a assms(1,3) show ?thesis by simp
  qed (use a in simp)
qed simp

lemma sel_run_skip_shift:
  assumes "\<not> so_overlapping opt" "a \<le> c" "base + c \<le> snd s f"
  shows "sel_run opt len (map (Pair f) (map (\<lambda>x. base + x) (filter P [a ..< b]))) s =
         sel_run opt len (map (Pair f) (map (\<lambda>x. base + x) (filter P [c ..< b]))) s"
  using assms(2)
proof (induction "c - a" arbitrary: a)
  case (Suc n)
  have a: "a < c" using Suc.hyps(2) by linarith
  have IH: "sel_run opt len (map (Pair f) (map (\<lambda>x. base + x) (filter P [Suc a ..< b]))) s =
            sel_run opt len (map (Pair f) (map (\<lambda>x. base + x) (filter P [c ..< b]))) s"
    using Suc.hyps(2) a by (intro Suc.hyps(1)) auto
  show ?case
  proof (cases "a < b")
    case True
    then have "[a ..< b] = a # [Suc a ..< b]" by (simp add: upt_conv_Cons)
    with IH a assms(1,3) show ?thesis by simp
  qed (use a in simp)
qed simp

lemma limit_matches_not_reached:
  "\<not> bound_reached opt (out @ [m]) \<Longrightarrow> so_objective opt \<noteq> FirstHit"
  by (simp add: bound_reached_def)

lemma sel_run_select:
  assumes "so_objective opt = FirstHit \<longrightarrow> fst s = []" "so_max_matches opt = 0 \<or> length (fst s) < so_max_matches opt"
  shows "fst (fst (sel_run opt len ps s)) =
         limit_matches opt (fst s @ map (\<lambda>(f, x). fixed_match f x (x + len)) (select (so_overlapping opt) len (snd s) ps))"
  using assms
proof (induction opt len ps s rule: sel_run.induct)
  case (1 opt len s)
  then show ?case by (auto simp: limit_matches_def)
next
  case (2 opt len f x ps s)
  show ?case
  proof (cases "\<not> so_overlapping opt \<and> x < snd s f")
    case True
    with 2 show ?thesis by simp
  next
    case False
    let ?s = "(fst s @ [fixed_match f x (x + len)], if so_overlapping opt then snd s else (snd s)(f := x + len))"
    show ?thesis
    proof (cases "bound_reached opt (fst ?s)")
      case True
      have "so_max_matches opt = Suc (length (fst s))"
        if "so_objective opt \<noteq> FirstHit"
        using True that 2(4) by (auto simp: bound_reached_def)
      with True False 2(3,4) show ?thesis
        by (auto simp: Let_def bound_reached_def limit_matches_def)
    next
      case nb: False
      then have "so_objective opt \<noteq> FirstHit" "so_max_matches opt = 0 \<or> length (fst ?s) < so_max_matches opt"
        by (auto simp: bound_reached_def)
      then have "fst (fst (sel_run opt len ps ?s)) =
          limit_matches opt (fst ?s @ map (\<lambda>(f, x). fixed_match f x (x + len)) (select (so_overlapping opt) len (snd ?s) ps))"
        by (intro 2(2) [OF False refl nb]) simp_all
      moreover have "sel_run opt len ((f, x) # ps) s = sel_run opt len ps ?s"
        using False nb by (simp only: sel_run.simps Let_def if_False)
      moreover have "select (so_overlapping opt) len (snd s) ((f, x) # ps) = (f, x) # select (so_overlapping opt) len (snd ?s) ps"
        using False by (simp only: select.simps if_False snd_conv)
      ultimately show ?thesis by simp
    qed
  qed
qed

lemma str_find_Suc: "\<not> occurs_at s q p \<Longrightarrow> str_find s q p = str_find s q (Suc p)"
proof (cases "str_find s q (Suc p)")
  case None
  assume "\<not> occurs_at s q p"
  with None have "\<forall>i \<ge> p. \<not> occurs_at s q i"
    unfolding str_find_None by (metis le_antisym not_less_eq_eq)
  then have "str_find s q p = None" by (simp only: str_find_None)
  with None show ?thesis by simp
next
  case (Some x)
  assume "\<not> occurs_at s q p"
  then have "\<not> occurs_at s q j" if "p \<le> j" "j < x" for j
    using Some that unfolding str_find_Some by (cases "j = p") auto
  with Some have "str_find s q p = Some x" unfolding str_find_Some by auto
  with Some show ?thesis by simp
qed

text \<open>One file: the greedy selection over all its occurrences is the naive scan.\<close>

lemma select_occurrences:
  assumes "q \<noteq> []" "nx f \<le> p"
  shows "select ov (length q) nx (map (Pair f) (filter (occurs_at s q) [p ..< length s])) =
         map (Pair f) (if ov then filter (occurs_at s q) [p ..< length s] else naive_from s q p)"
proof (cases ov)
  case True
  have "select True len nx ps = ps" for len nx ps
    by (induction "True" len nx ps rule: select.induct) auto
  with True show ?thesis by simp
next
  case False
  have "select False (length q) nx (map (Pair f) (filter (occurs_at s q) [p ..< length s])) =
        (case str_find s q (max p (nx f)) of None \<Rightarrow> [] | Some x \<Rightarrow> map (Pair f) (x # naive_from s q (x + length q)))"
    for p nx
  proof (induction "length s - p" arbitrary: p nx rule: less_induct)
    case less
    show ?case
    proof (cases "p < length s")
      case F: False
      have "str_find s q (max p (nx f)) = None"
      proof (unfold str_find_None, intro allI impI notI)
        fix i assume "max p (nx f) \<le> i" "occurs_at s q i"
        moreover have "0 < length q" using assms(1) by simp
        ultimately show False using F occurs_at_bound [of s q i] by linarith
      qed
      with F show ?thesis by simp
    next
      case True
      then have up: "[p ..< length s] = p # [Suc p ..< length s]" by (simp add: upt_conv_Cons)
      have IH: "select False (length q) nx' (map (Pair f) (filter (occurs_at s q) [Suc p ..< length s])) =
          (case str_find s q (max (Suc p) (nx' f)) of None \<Rightarrow> [] | Some x \<Rightarrow> map (Pair f) (x # naive_from s q (x + length q)))"
        for nx' using True by (intro less) auto
      have skip: "str_find s q (max p (nx f)) = str_find s q (max (Suc p) (nx f))"
        if "\<not> occurs_at s q p \<or> p < nx f"
      proof (cases "p < nx f")
        case True
        then show ?thesis by (simp add: max_def)
      next
        case False
        with that str_find_Suc [of s q p] show ?thesis by (simp add: max_def)
      qed
      show ?thesis
      proof (cases "occurs_at s q p \<and> \<not> p < nx f")
        case occ: True
        then have "str_find s q (max p (nx f)) = Some p" unfolding str_find_Some by auto
        moreover have "max (Suc p) (p + length q) = p + length q" using assms(1) by (cases q) auto
        moreover have "naive_from s q (p + length q) =
          (case str_find s q (p + length q) of None \<Rightarrow> [] | Some x \<Rightarrow> x # naive_from s q (x + length q))"
          using assms(1) by (subst naive_from.simps) simp
        ultimately show ?thesis using occ IH [of "nx(f := p + length q)"]
          by (simp add: up split: option.splits)
      next
        case False
        with skip IH [of nx] show ?thesis by (auto simp: up)
      qed
    qed
  qed
  from this [of nx p] assms False show ?thesis
    by (subst naive_from.simps) (simp add: max_absorb1 split: option.splits)
qed

lemma select_append:
  assumes "\<forall>(g, x) \<in> set ps. \<forall>(h, y) \<in> set qs. g \<noteq> h"
  shows "select ov len nx (ps @ qs) = select ov len nx ps @ select ov len nx qs"
proof -
  have cong: "select ov len nx qs' = select ov len nx' qs'"
    if "\<forall>(h, y) \<in> set qs'. nx h = nx' h" for nx nx' qs'
    using that
  proof (induction qs' arbitrary: nx nx')
    case (Cons hy qs')
    obtain h y where hy: "hy = (h, y)" by (cases hy)
    have "\<forall>(g, z) \<in> set qs'. (nx(h := y + len)) g = (nx'(h := y + len)) g" "\<forall>(g, z) \<in> set qs'. nx g = nx' g"
      using Cons.prems by auto
    then have "select ov len (nx(h := y + len)) qs' = select ov len (nx'(h := y + len)) qs'"
      "select ov len nx qs' = select ov len nx' qs'"
      using Cons.IH [of "nx(h := y + len)" "nx'(h := y + len)"] Cons.IH [of nx nx'] by blast+
    moreover have "nx h = nx' h" using Cons.prems by (simp add: hy)
    ultimately show ?case by (cases ov) (simp_all add: hy)
  qed simp
  have "select ov len nx' (ps @ qs) = select ov len nx' ps @ select ov len nx qs"
    if "\<forall>(h, y) \<in> set qs. nx' h = nx h" for nx'
    using that assms
  proof (induction ps arbitrary: nx')
    case Nil
    then show ?case using cong [of qs nx' nx] by simp
  next
    case (Cons fx ps)
    obtain f x where fx: "fx = (f, x)" by (cases fx)
    have "\<forall>(h, y) \<in> set qs. (nx'(f := x + len)) h = nx h" "\<forall>(g, x) \<in> set ps. \<forall>(h, y) \<in> set qs. g \<noteq> h"
      using Cons.prems by (fastforce simp: fx)+
    with Cons.IH [of "nx'(f := x + len)"] Cons.IH [of nx'] Cons.prems
    show ?case by (cases ov) (simp_all add: fx del: fun_upd_apply)
  qed
  then show ?thesis by blast
qed

lemma select_files:
  assumes "q \<noteq> []" "distinct fs" "\<forall>f \<in> set fs. nx f = 0"
  shows "select ov (length q) nx
           (concat (map (\<lambda>f. map (Pair f) (filter (occurs_at (content I f) q) [0 ..< length (content I f)])) fs)) =
         concat (map (\<lambda>f. map (Pair f) (naive_matches ov (content I f) q)) fs)"
  using assms(2,3)
proof (induction fs)
  case (Cons f fs)
  let ?occ = "\<lambda>f. map (Pair f) (filter (occurs_at (content I f) q) [0 ..< length (content I f)])"
  have "select ov (length q) nx (?occ f @ concat (map ?occ fs)) =
        select ov (length q) nx (?occ f) @ select ov (length q) nx (concat (map ?occ fs))"
    using Cons.prems by (intro select_append) auto
  also have "select ov (length q) nx (?occ f) = map (Pair f) (naive_matches ov (content I f) q)"
    using select_occurrences [OF assms(1), of nx f 0 ov "content I f"] Cons.prems(2)
    unfolding naive_matches_def by simp
  also have "select ov (length q) nx (concat (map ?occ fs)) = concat (map (\<lambda>f. map (Pair f) (naive_matches ov (content I f) q)) fs)"
    using Cons.prems by (intro Cons.IH) auto
  finally show ?case by simp
qed simp

section \<open>The inner loop\<close>

definition never_cancelled :: "search_options \<Rightarrow> bool" where
  "never_cancelled opt \<longleftrightarrow> (\<forall>k. \<not> so_should_cancel opt k)"

lemma stop_requested_never:
  "never_cancelled opt \<Longrightarrow> stop_requested opt st = (st\<lparr>fs_polls := Suc (fs_polls st)\<rparr>, False)"
  by (simp add: stop_requested_def never_cancelled_def)

lemma sel_run_Cons_accept:
  assumes "so_overlapping opt \<or> \<not> x < snd s f"
  shows "sel_run opt len ((f, x) # ps) s =
    (let s' = (fst s @ [fixed_match f x (x + len)], if so_overlapping opt then snd s else (snd s)(f := x + len))
     in if bound_reached opt (fst s') then (s', True) else sel_run opt len ps s')"
proof -
  have "\<not> (\<not> so_overlapping opt \<and> x < snd s f)" using assms by blast
  then show ?thesis by (simp only: sel_run.simps if_False)
qed

lemma filter_upt_first:
  assumes "List.find P [a ..< b] = Some x"
  shows "filter P [a ..< b] = x # filter P [Suc x ..< b]"
proof -
  have x: "a \<le> x" "x < b" "P x" "\<And>y. a \<le> y \<Longrightarrow> y < x \<Longrightarrow> \<not> P y"
    using assms unfolding find_upt_Some by auto
  then have "[a ..< b] = [a ..< x] @ x # [Suc x ..< b]"
    using upt_add_eq_append [of a x "b - x"] by (simp add: upt_conv_Cons)
  moreover have "filter P [a ..< x] = []" using x(4) by (auto simp: filter_empty_conv)
  ultimately show ?thesis using x(3) by simp
qed

lemma filter_upt_none: "List.find P [a ..< b] = None \<Longrightarrow> filter P [a ..< b] = []"
  by (auto simp: find_None_iff filter_empty_conv)

lemma scan_loop_next:
  assumes never: "never_cancelled opt" and q: "q \<noteq> []"
    and cfg: "\<not> sc_icase cfg" "sc_use_next cfg" "\<And>a b. sc_check cfg a b"
  shows "let r = scan_loop U I opt cfg q fid v base max_start pos st;
             w = sel_run opt (length q) (map (\<lambda>x. (fid, base + x)) (filter (occurs_at v q) [pos ..< max_start])) (fs_out st, fs_next st)
         in fs_out (fst r) = fst (fst w) \<and> fs_next (fst r) = snd (fst w) \<and> snd r = snd w \<and>
            fs_cancelled (fst r) = fs_cancelled st"
proof (induction "max_start - pos" arbitrary: pos st rule: less_induct)
  case less
  let ?occ = "\<lambda>p. map (\<lambda>x. (fid, base + x)) (filter (occurs_at v q) [p ..< max_start])"
  show ?case
  proof (cases "pos < max_start")
    case False
    then show ?thesis by (subst (1) scan_loop.simps) simp
  next
    case True
    define st1 where "st1 = (if sc_poll cfg then st\<lparr>fs_polls := Suc (fs_polls st)\<rparr> else st)"
    have st1: "(if sc_poll cfg then stop_requested opt st else (st, False)) = (st1, False)"
      "fs_out st1 = fs_out st" "fs_next st1 = fs_next st" "fs_cancelled st1 = fs_cancelled st"
      by (simp_all add: st1_def stop_requested_never [OF never])
    note af = anchor_find_eq [OF q, of U v I pos max_start]
    show ?thesis
    proof (cases "List.find (occurs_at v q) [pos ..< max_start]")
      case None
      with True af cfg st1 filter_upt_none [OF None] show ?thesis
        by (subst (1) scan_loop.simps) simp
    next
      case (Some x)
      then have x: "pos \<le> x" "x < max_start" by (auto simp: find_upt_Some)
      have len: "max 1 (length q) = length q" using q by (cases q) auto
      note occ = filter_upt_first [OF Some]
      show ?thesis
      proof (cases "\<not> so_overlapping opt \<and> base + x < fs_next st fid")
        case True
        with less.hyps [of "Suc x" st1] x Some af cfg st1 \<open>pos < max_start\<close> occ show ?thesis
          by (subst (1) scan_loop.simps) (simp add: Let_def)
      next
        case False
        define st2 where "st2 = push_match fid (base + x) (base + (x + length q))
          (if so_overlapping opt then st1 else st1\<lparr>fs_next := (fs_next st1)(fid := base + x + length q)\<rparr>)"
        define p' where "p' = x + (if so_overlapping opt then 1 else length q)"
        have st2: "fs_out st2 = fs_out st @ [fixed_match fid (base + x) (base + x + length q)]"
          "fs_next st2 = (if so_overlapping opt then fs_next st else (fs_next st)(fid := base + x + length q))"
          "fs_cancelled st2 = fs_cancelled st"
          using st1 by (simp_all add: st2_def push_match_def add.assoc)
        have p': "max_start - p' < max_start - pos" using x len by (auto simp: p'_def) 
        have tail: "sel_run opt (length q) (?occ (Suc x)) (fs_out st2, fs_next st2) =
                    sel_run opt (length q) (?occ p') (fs_out st2, fs_next st2)"
        proof (cases "so_overlapping opt")
          case False
          have "sel_run opt (length q) (map (Pair fid) (map (\<lambda>x. base + x) (filter (occurs_at v q) [Suc x ..< max_start]))) (fs_out st2, fs_next st2) =
                sel_run opt (length q) (map (Pair fid) (map (\<lambda>x. base + x) (filter (occurs_at v q) [p' ..< max_start]))) (fs_out st2, fs_next st2)"
            using False len st2
            by (intro sel_run_skip_shift) (auto simp: p'_def)
          then show ?thesis by (simp add: o_def)
        qed (simp add: p'_def)
        have IH: "let r = scan_loop U I opt cfg q fid v base max_start p' st2; w = sel_run opt (length q) (?occ p') (fs_out st2, fs_next st2)
            in fs_out (fst r) = fst (fst w) \<and> fs_next (fst r) = snd (fst w) \<and> snd r = snd w \<and> fs_cancelled (fst r) = fs_cancelled st2"
          using p' by (rule less.hyps)
        have bound: "result_bound_reached opt st2 = bound_reached opt (fs_out st2)"
          by (simp add: result_bound_reached_def bound_reached_def)
        have step: "scan_loop U I opt cfg q fid v base max_start pos st =
            (if result_bound_reached opt st2 then (st2, True) else scan_loop U I opt cfg q fid v base max_start p' st2)"
        proof -
          have af': "anchor_find U v q (choose_rare_byte I q) pos max_start (sc_icase cfg) = Some (x, x + length q)"
            using af Some cfg(1) by simp
          have nf: "\<not> (sc_use_next cfg \<and> \<not> so_overlapping opt \<and> base + x < fs_next st1 fid)"
            using False st1 by simp
          have len': "max 1 (x + length q - x) = length q" using len by simp
          have st2': "push_match fid (base + x) (base + (x + length q))
              (if sc_use_next cfg \<and> \<not> so_overlapping opt
               then st1\<lparr>fs_next := (fs_next st1)(fid := base + x + length q)\<rparr> else st1) = st2"
            using cfg(2) by (simp add: st2_def)
          have p'': "x + (if so_overlapping opt then 1 else length q) = p'" by (simp add: p'_def)
          show ?thesis
            by (subst scan_loop.simps)
              (simp only: \<open>pos < max_start\<close> if_True st1(1) prod.case if_False af' option.case Let_def cfg(3) nf len' st2' p'')
        qed
        have w: "sel_run opt (length q) (?occ pos) (fs_out st, fs_next st) =
            (if bound_reached opt (fs_out st2) then ((fs_out st2, fs_next st2), True)
             else sel_run opt (length q) (?occ p') (fs_out st2, fs_next st2))"
          unfolding tail [symmetric] using False st2(1,2)
          by (simp only: occ list.map, subst sel_run_Cons_accept) (auto simp: Let_def)
        show ?thesis
          using IH st2(3) unfolding step w bound by (simp add: Let_def)
      qed
    qed
  qed
qed

lemma scan_loop_jump:
  assumes never: "never_cancelled opt" and q: "q \<noteq> []"
    and cfg: "\<not> sc_icase cfg" "\<not> sc_use_next cfg" "\<And>a b. sc_check cfg a b" "\<not> sc_poll cfg"
    and nx: "nx fid \<le> base + pos"
  shows "let r = scan_loop U I opt cfg q fid v base max_start pos st;
             w = sel_run opt (length q) (map (\<lambda>x. (fid, base + x)) (filter (occurs_at v q) [pos ..< max_start])) (fs_out st, nx)
         in fs_out (fst r) = fst (fst w) \<and> snd r = snd w \<and> fs_cancelled (fst r) = fs_cancelled st"
  using nx
proof (induction "max_start - pos" arbitrary: pos st nx rule: less_induct)
  case less
  let ?occ = "\<lambda>p. map (\<lambda>x. (fid, base + x)) (filter (occurs_at v q) [p ..< max_start])"
  show ?case
  proof (cases "pos < max_start")
    case False
    then show ?thesis by (subst (1) scan_loop.simps) simp
  next
    case True
    note af = anchor_find_eq [OF q, of U v I pos max_start]
    show ?thesis
    proof (cases "List.find (occurs_at v q) [pos ..< max_start]")
      case None
      with True af cfg filter_upt_none [OF None] show ?thesis
        by (subst (1) scan_loop.simps) simp
    next
      case (Some x)
      then have x: "pos \<le> x" "x < max_start" by (auto simp: find_upt_Some)
      have len: "max 1 (length q) = length q" using q by (cases q) auto
      define st2 where "st2 = push_match fid (base + x) (base + (x + length q)) st"
      define nx2 where "nx2 = (if so_overlapping opt then nx else nx(fid := base + x + length q))"
      define p' where "p' = x + (if so_overlapping opt then 1 else length q)"
      have st2: "fs_out st2 = fs_out st @ [fixed_match fid (base + x) (base + x + length q)]"
        "fs_cancelled st2 = fs_cancelled st"
        by (simp_all add: st2_def push_match_def add.assoc)
      have p': "max_start - p' < max_start - pos" "nx2 fid \<le> base + p'"
        using x len less.prems by (auto simp: p'_def nx2_def)
      have tail: "sel_run opt (length q) (?occ (Suc x)) (fs_out st2, nx2) = sel_run opt (length q) (?occ p') (fs_out st2, nx2)"
      proof (cases "so_overlapping opt")
        case False
        have "sel_run opt (length q) (map (Pair fid) (map (\<lambda>x. base + x) (filter (occurs_at v q) [Suc x ..< max_start]))) (fs_out st2, nx2) =
              sel_run opt (length q) (map (Pair fid) (map (\<lambda>x. base + x) (filter (occurs_at v q) [p' ..< max_start]))) (fs_out st2, nx2)"
          using False len by (intro sel_run_skip_shift) (auto simp: p'_def nx2_def)
        then show ?thesis by (simp add: o_def)
      qed (simp add: p'_def)
      have IH: "let r = scan_loop U I opt cfg q fid v base max_start p' st2; w = sel_run opt (length q) (?occ p') (fs_out st2, nx2)
          in fs_out (fst r) = fst (fst w) \<and> snd r = snd w \<and> fs_cancelled (fst r) = fs_cancelled st2"
        using p' by (rule less.hyps)
      have bound: "result_bound_reached opt st2 = bound_reached opt (fs_out st2)"
        by (simp add: result_bound_reached_def bound_reached_def)
      have step: "scan_loop U I opt cfg q fid v base max_start pos st =
          (if result_bound_reached opt st2 then (st2, True) else scan_loop U I opt cfg q fid v base max_start p' st2)"
        using True af Some cfg len
        by (subst scan_loop.simps) (simp add: Let_def st2_def p'_def cong: if_cong)
      have w: "sel_run opt (length q) (?occ pos) (fs_out st, nx) =
          (if bound_reached opt (fs_out st2) then ((fs_out st2, nx2), True) else sel_run opt (length q) (?occ p') (fs_out st2, nx2))"
        unfolding tail [symmetric] filter_upt_first [OF Some] list.map using st2 x less.prems
        by (subst sel_run_Cons_accept) (auto simp: Let_def nx2_def)
      show ?thesis
        using IH st2(2) unfolding step w bound by (simp add: Let_def)
    qed
  qed
qed

section \<open>Composing units\<close>

text \<open>Runs of units that each contribute a list of occurrences, the \<open>next\<close> table included.\<close>

definition runs :: "search_options \<Rightarrow> nat \<Rightarrow> (nat \<times> nat) list \<Rightarrow> find_step \<Rightarrow> bool" where
  "runs opt len ps f \<longleftrightarrow>
     (\<forall>st. let r = f st; w = sel_run opt len ps (fs_out st, fs_next st)
           in fs_out (fst r) = fst (fst w) \<and> fs_next (fst r) = snd (fst w) \<and> snd r = snd w \<and>
              fs_cancelled (fst r) = fs_cancelled st)"

lemma run_units_runs:
  assumes "\<And>u. u \<in> set us \<Longrightarrow> runs opt len (ps u) (f u)"
  shows "runs opt len (concat (map ps us)) (run_units f us)"
  using assms
proof (induction us)
  case Nil
  then show ?case by (simp add: runs_def)
next
  case (Cons u us)
  then have u: "runs opt len (ps u) (f u)" and us: "runs opt len (concat (map ps us)) (run_units f us)" by simp_all
  show ?case
    unfolding runs_def
  proof
    fix st
    obtain st1 stop where f: "f u st = (st1, stop)" by (cases "f u st")
    obtain o1 n1 stop1 where w: "sel_run opt len (ps u) (fs_out st, fs_next st) = ((o1, n1), stop1)"
      by (metis prod.collapse)
    with u [unfolded runs_def Let_def, THEN spec, of st] f
    have "sel_run opt len (ps u) (fs_out st, fs_next st) = ((fs_out st1, fs_next st1), stop)"
      "fs_cancelled st1 = fs_cancelled st" by simp_all
    with us [unfolded runs_def Let_def, THEN spec, of st1] f
    show "let r = run_units f (u # us) st; w = sel_run opt len (concat (map ps (u # us))) (fs_out st, fs_next st)
          in fs_out (fst r) = fst (fst w) \<and> fs_next (fst r) = snd (fst w) \<and> snd r = snd w \<and>
             fs_cancelled (fst r) = fs_cancelled st"
      by (simp add: sel_run_append Let_def)
  qed
qed

lemma runs_scan:
  assumes "never_cancelled opt" "q \<noteq> []" "\<not> sc_icase cfg" "sc_use_next cfg" "\<And>a b. sc_check cfg a b"
    and "\<And>x. x < max_start \<Longrightarrow> occurs_at v q x \<longleftrightarrow> occurs_at s q (base + x)"
  shows "runs opt (length q) (map (Pair fid) (filter (occurs_at s q) [base ..< base + max_start]))
           (scan_loop U I opt cfg q fid v base max_start 0)"
proof -
  have "[base ..< base + max_start] = map (\<lambda>x. base + x) [0 ..< max_start]"
    using map_add_upt [of base max_start] by (simp add: add.commute)
  then have "map (Pair fid) (filter (occurs_at s q) [base ..< base + max_start]) =
        map (\<lambda>x. (fid, base + x)) (filter (\<lambda>x. occurs_at s q (base + x)) [0 ..< max_start])"
    by (simp add: filter_map o_def)
  also have "filter (\<lambda>x. occurs_at s q (base + x)) [0 ..< max_start] = filter (occurs_at v q) [0 ..< max_start]"
    using assms(6) by (intro filter_cong) auto
  finally show ?thesis
    unfolding runs_def using scan_loop_next [OF assms(1,2), of cfg U I fid v base max_start 0] assms(3-5) by simp
qed

lemma runs_skip: "runs opt len [] (\<lambda>st. (st, False))"
  by (simp add: runs_def)

lemma runs_poll:
  assumes "never_cancelled opt" "runs opt len ps f"
  shows "runs opt len ps (\<lambda>st. case stop_requested opt st of (st1, stop) \<Rightarrow> if stop then (st1, True) else f st1)"
  unfolding runs_def
proof
  fix st
  show "let r = case stop_requested opt st of (st1, stop) \<Rightarrow> if stop then (st1, True) else f st1;
          w = sel_run opt len ps (fs_out st, fs_next st)
        in fs_out (fst r) = fst (fst w) \<and> fs_next (fst r) = snd (fst w) \<and> snd r = snd w \<and>
           fs_cancelled (fst r) = fs_cancelled st"
    using assms(2) [unfolded runs_def, THEN spec, of "st\<lparr>fs_polls := Suc (fs_polls st)\<rparr>"]
    by (simp add: stop_requested_never [OF assms(1)])
qed

section \<open>The paths list every occurrence\<close>

definition all_occurrences :: "index_data \<Rightarrow> search_options \<Rightarrow> bytes \<Rightarrow> (nat \<times> nat) list" where
  "all_occurrences I opt q =
     concat (map (\<lambda>fid. map (Pair fid) (filter (occurs_at (content I fid) q) [0 ..< length (content I fid)]))
       (filter (searched_file I opt) [0 ..< length (loaded I)]))"

abbreviation eligible_list :: "index_data \<Rightarrow> search_options \<Rightarrow> bool list" where
  "eligible_list I opt \<equiv> recorder_eligible I (sort_unique (so_eligible opt))"

lemma concat_map_if: "concat (map (\<lambda>u. if P u then [] else h u) xs) = concat (map h (filter (\<lambda>u. \<not> P u) xs))"
  by (induction xs) auto

lemma filter_occurs_in_map:
  "filter (occurs_in I q) (map (Pair fid) xs) = map (Pair fid) (filter (occurs_at (content I fid) q) xs)"
  by (simp add: map_filter_Pair occurs_in_def)

lemma all_occurrences_chunks:
  assumes "wf_index I"
  shows "filter (occurs_in I q)
           (concat (map (chunk_positions I) (filter (\<lambda>ci. searched_file I opt (file_id (chunks I ! ci))) [0 ..< length (chunks I)]))) =
         all_occurrences I opt q"
  unfolding concat_chunk_positions [OF assms] all_occurrences_def
  by (simp add: filter_concat o_def filter_occurs_in_map)

lemma chunk_hits:
  "chunk_filter.hits I q ci =
     map (Pair (file_id (chunks I ! ci)))
       (filter (occurs_at (content I (file_id (chunks I ! ci))) q) [core_begin (chunks I ! ci) ..< core_end (chunks I ! ci)])"
  by (simp add: chunk_filter.hits_def chunk_positions_def filter_occurs_in_map)

lemma chunk_candidates_hits:
  assumes "wf_index I"
  shows "concat (map (\<lambda>ci. if skip_binary I opt (file_id (chunks I ! ci)) then [] else chunk_filter.hits I q ci)
           (chunk_candidates I (eligible_list I opt) q)) = all_occurrences I opt q"
proof -
  let ?us = "filter (\<lambda>ci. searched_file I opt (file_id (chunks I ! ci))) [0 ..< length (chunks I)]"
  have "filter (\<lambda>ci. \<not> skip_binary I opt (file_id (chunks I ! ci))) (chunk_candidates I (eligible_list I opt) q) =
        filter (chunk_keep I q) ?us"
    unfolding chunk_candidates_eq [OF assms] filter_filter
    by (intro filter_cong) (auto simp: searched_file_def chunk_keep_def)
  then have "concat (map (\<lambda>ci. if skip_binary I opt (file_id (chunks I ! ci)) then [] else chunk_filter.hits I q ci)
      (chunk_candidates I (eligible_list I opt) q)) = concat (map (chunk_filter.hits I q) (filter (chunk_keep I q) ?us))"
    by (simp only: concat_map_if)
  also have "\<dots> = filter (occurs_in I q) (concat (map (chunk_positions I) ?us))"
    using assms by (intro chunk_filter.pruned_scan) auto
  finally show ?thesis unfolding all_occurrences_chunks [OF assms] .
qed

lemma runs_chunk:
  assumes "wf_index I" "never_cancelled opt" "q \<noteq> []" "length q \<le> chunk_overlap (ix_opt I)" "ci < length (chunks I)"
    and "\<not> sc_icase cfg" "sc_use_next cfg" "\<And>a b. sc_check cfg a b"
  shows "runs opt (length q) (chunk_filter.hits I q ci)
           (scan_loop U I opt cfg q (file_id (chunks I ! ci)) (chunk_view I (chunks I ! ci)) (core_begin (chunks I ! ci))
              (core_len (chunks I ! ci)) 0)"
proof -
  let ?z = "chunks I ! ci"
  note z = chunk_shape [OF assms(1,5)]
  have occ: "occurs_at (chunk_view I ?z) q x \<longleftrightarrow> occurs_at (content I (file_id ?z)) q (core_begin ?z + x)"
    if "x < core_len ?z" for x
  proof
    assume "occurs_at (chunk_view I ?z) q x"
    then show "occurs_at (content I (file_id ?z)) q (core_begin ?z + x)"
      unfolding chunk_view_def using z by (intro occurs_at_substrD) auto
  next
    assume "occurs_at (content I (file_id ?z)) q (core_begin ?z + x)"
    from occurs_in_chunk_view [OF assms(1,5) this] that assms(4) z show "occurs_at (chunk_view I ?z) q x"
      by (simp add: core_len_def)
  qed
  have "core_begin ?z + core_len ?z = core_end ?z" using z by (simp add: core_len_def)
  with runs_scan [where U = U and I = I and fid = "file_id ?z" and v = "chunk_view I ?z" and
      s = "content I (file_id ?z)" and base = "core_begin ?z" and max_start = "core_len ?z", OF assms(2,3,6,7,8) occ]
  show ?thesis by (simp add: chunk_hits)
qed

lemma chunk_candidates_less:
  "wf_index I \<Longrightarrow> ci \<in> set (chunk_candidates I el q) \<Longrightarrow> ci < length (chunks I)"
  by (auto simp: chunk_candidates_eq)

lemma runs_find_chunk:
  assumes "wf_index I" "never_cancelled opt" "q \<noteq> []" "length q \<le> chunk_overlap (ix_opt I)"
    and "\<not> po_word po" "\<not> po_line po"
  shows "runs opt (length q) (all_occurrences I opt q) (find_chunk U I po opt (eligible_list I opt) q False)"
proof -
  have d: "remdups (chunk_candidates I (eligible_list I opt) q) = chunk_candidates I (eligible_list I opt) q"
    by (simp add: chunk_candidates_eq [OF assms(1)])
  have core: "core_bound n q = n" for n using assms(3) by (simp add: core_bound_def)
  show ?thesis
    unfolding find_chunk_def if_False d chunk_candidates_hits [OF assms(1), symmetric] Let_def core
  proof (rule run_units_runs)
    fix ci assume "ci \<in> set (chunk_candidates I (eligible_list I opt) q)"
    then have ci: "ci < length (chunks I)" using chunk_candidates_less assms(1) by blast
    show "runs opt (length q) (if skip_binary I opt (file_id (chunks I ! ci)) then [] else chunk_filter.hits I q ci)
       (\<lambda>st. if skip_binary I opt (file_id (chunks I ! ci)) then (st, False)
             else scan_loop U I opt
                    \<lparr>sc_icase = False, sc_check = fixed_check U I po opt (file_id (chunks I ! ci)),
                     sc_use_next = True, sc_poll = False\<rparr>
                    q (file_id (chunks I ! ci)) (chunk_view I (chunks I ! ci)) (core_begin (chunks I ! ci))
                    (core_len (chunks I ! ci)) 0 st)"
      using runs_chunk [OF assms(1-4) ci] assms(5,6) runs_skip
      by (simp add: fixed_check_def word_check_def line_check_def)
  qed
qed

lemma runs_find_long:
  assumes "wf_index I" "never_cancelled opt" "q \<noteq> []" "length q \<le> chunk_overlap (ix_opt I)"
  shows "runs opt (length q) (all_occurrences I opt q) (find_long U I opt (eligible_list I opt) q)"
  unfolding find_long_def chunk_candidates_hits [OF assms(1), symmetric] Let_def
proof (rule run_units_runs)
  fix ci assume "ci \<in> set (chunk_candidates I (eligible_list I opt) q)"
  then have ci: "ci < length (chunks I)" using chunk_candidates_less assms(1) by blast
  show "runs opt (length q) (if skip_binary I opt (file_id (chunks I ! ci)) then [] else chunk_filter.hits I q ci)
     (\<lambda>st. if skip_binary I opt (file_id (chunks I ! ci)) then (st, False)
           else scan_loop U I opt \<lparr>sc_icase = False, sc_check = (\<lambda>_ _. True), sc_use_next = True, sc_poll = True\<rparr>
                  q (file_id (chunks I ! ci)) (chunk_view I (chunks I ! ci)) (core_begin (chunks I ! ci))
                  (core_len (chunks I ! ci)) 0 st)"
    using runs_chunk [OF assms(1-4) ci] runs_skip by simp
qed

lemma block_hits:
  "block_filter.hits I q (ci, bi) =
     map (Pair (file_id (chunks I ! ci)))
       (filter (occurs_at (content I (file_id (chunks I ! ci))) q) [block_lo I ci bi ..< block_hi I ci bi])"
  unfolding block_filter.hits_def by (simp add: block_positions_def filter_occurs_in_map)

lemma block_candidates_hits:
  assumes "wf_index I" "q \<noteq> []" "length q \<le> chunk_overlap (ix_opt I)" "length q \<le> 64"
  shows "concat (map (\<lambda>(ci, bi). if skip_binary I opt (file_id (chunks I ! ci)) then [] else block_filter.hits I q (ci, bi))
           (fixed_candidate_blocks I (eligible_list I opt) q)) = all_occurrences I opt q"
proof -
  let ?P = "\<lambda>u. skip_binary I opt (file_id (chunks I ! fst u))"
  let ?cs = "filter (\<lambda>ci. searched_file I opt (file_id (chunks I ! ci))) [0 ..< length (chunks I)]"
  let ?us = "concat (map (all_blocks I) ?cs)"
  have "filter (\<lambda>u. \<not> ?P u) (concat (map (all_blocks I) (filter (\<lambda>ci. allows el (file_id (chunks I ! ci))) xs))) =
        concat (map (all_blocks I) (filter (\<lambda>ci. allows el (file_id (chunks I ! ci)) \<and> \<not> skip_binary I opt (file_id (chunks I ! ci))) xs))"
    for xs el
    by (induction xs) (auto simp: all_blocks_def map_filter_Pair)
  then have us: "filter (\<lambda>u. \<not> ?P u) (concat (map (all_blocks I)
      (filter (\<lambda>ci. allows (eligible_list I opt) (file_id (chunks I ! ci))) [0 ..< length (chunks I)]))) = ?us"
    unfolding searched_file_def by blast
  have "filter (\<lambda>u. \<not> ?P u) (fixed_candidate_blocks I (eligible_list I opt) q) = filter (block_keep I q) ?us"
    unfolding fixed_candidate_blocks_eq [OF assms(1,2)] filter_filter us [symmetric]
    by (simp add: conj_commute)
  then have "concat (map (\<lambda>u. if ?P u then [] else block_filter.hits I q u) (fixed_candidate_blocks I (eligible_list I opt) q)) =
        concat (map (block_filter.hits I q) (filter (block_keep I q) ?us))"
    by (simp only: concat_map_if)
  also have "\<dots> = filter (occurs_in I q) (concat (map (block_positions I) ?us))"
    using assms by (intro block_filter.pruned_scan) (auto simp: PO_def all_blocks_def)
  also have "concat (map (block_positions I) ?us) = concat (map (chunk_positions I) ?cs)"
  proof -
    have "concat (map (block_positions I) (concat (map (all_blocks I) xs))) = concat (map (chunk_positions I) xs)"
      if "\<forall>ci \<in> set xs. ci < length (chunks I)" for xs
      using that by (induction xs) (auto simp: concat_block_positions [OF assms(1)])
    then show ?thesis by auto
  qed
  finally show ?thesis unfolding all_occurrences_chunks [OF assms(1)] by (simp only: case_prod_beta' prod.collapse)
qed

lemma runs_block:
  fixes ci bi :: nat
  assumes "wf_index I" "never_cancelled opt" "q \<noteq> []" "length q \<le> chunk_overlap (ix_opt I)" "length q \<le> 64"
    and "ci < length (chunks I)"
  defines "z \<equiv> chunks I ! ci" and "rb \<equiv> bi * pos_block I"
  assumes "rb < core_len z"
  shows "runs opt (length q) (block_filter.hits I q (ci, bi))
           (scan_loop U I opt \<lparr>sc_icase = False, sc_check = (\<lambda>_ _. True), sc_use_next = True, sc_poll = False\<rparr>
              q (file_id z)
              (substr (content I (file_id z)) (core_begin z + rb) (min (ext_len z) (rb + pos_block I + 64) - rb))
              (core_begin z + rb) (min (pos_block I) (core_len z - rb)) 0)"
proof -
  let ?v = "substr (content I (file_id z)) (core_begin z + rb) (min (ext_len z) (rb + pos_block I + 64) - rb)"
  note zs = chunk_shape [OF assms(1,6), folded z_def]
  have v: "?v = block_view I z bi" by (simp add: block_view_def Let_def PO_def rb_def)
  have hi: "block_hi I ci bi = block_lo I ci bi + min (pos_block I) (core_len z - rb)"
    using assms(9) zs by (auto simp: block_hi_def block_lo_def core_len_def rb_def z_def)
  have lo: "block_lo I ci bi = core_begin z + rb" by (simp add: block_lo_def rb_def z_def)
  have occ: "occurs_at ?v q x \<longleftrightarrow> occurs_at (content I (file_id z)) q (core_begin z + rb + x)"
    if "x < min (pos_block I) (core_len z - rb)" for x
  proof
    assume "occurs_at ?v q x"
    then show "occurs_at (content I (file_id z)) q (core_begin z + rb + x)"
      using zs assms(9) by (intro occurs_at_substrD) (auto simp: core_len_def)
  next
    assume o: "occurs_at (content I (file_id z)) q (core_begin z + rb + x)"
    have "occurs_at (block_view I (chunks I ! ci) bi) q (core_begin z + rb + x - block_lo I ci bi)"
      using o that hi lo assms(4,5) by (intro occurs_in_block_view assms(1,6)) (auto simp: PO_def z_def)
    then show "occurs_at ?v q x" unfolding v lo by (simp add: z_def)
  qed
  show ?thesis
    using runs_scan [where U = U and I = I and v = ?v and s = "content I (file_id z)" and fid = "file_id z"
        and base = "core_begin z + rb" and max_start = "min (pos_block I) (core_len z - rb)"
        and cfg = "\<lparr>sc_icase = False, sc_check = (\<lambda>_ _. True), sc_use_next = True, sc_poll = False\<rparr>",
        OF assms(2,3) _ _ _ occ]
    unfolding block_hits hi lo z_def [symmetric] by simp
qed

lemma runs_find_blocks:
  assumes "wf_index I" "never_cancelled opt" "q \<noteq> []" "length q \<le> chunk_overlap (ix_opt I)" "length q \<le> 64"
  shows "runs opt (length q) (all_occurrences I opt q) (find_blocks U I opt (eligible_list I opt) q)"
  unfolding find_blocks_def block_candidates_hits [OF assms(1,3-5), symmetric]
proof (rule run_units_runs)
  fix u assume u: "u \<in> set (fixed_candidate_blocks I (eligible_list I opt) q)"
  obtain ci bi where ub: "u = (ci, bi)" by (cases u)
  with u have ci: "ci < length (chunks I)"
    by (auto simp: fixed_candidate_blocks_eq [OF assms(1,3)] all_blocks_def)
  let ?z = "chunks I ! ci" and ?rb = "bi * pos_block I"
  let ?skip = "skip_binary I opt (file_id ?z)"
  have core: "core_bound n q = n" for n using assms(3) by (simp add: core_bound_def)
  have past: "core_len ?z \<le> ?rb \<Longrightarrow> block_filter.hits I q (ci, bi) = []"
    using chunk_shape(2) [OF assms(1) ci] by (auto simp: block_hits block_hi_def block_lo_def core_len_def)
  have blk: "runs opt (length q) (block_filter.hits I q (ci, bi))
     (\<lambda>st1. if core_len ?z \<le> ?rb then (st1, False)
            else scan_loop U I opt \<lparr>sc_icase = False, sc_check = (\<lambda>_ _. True), sc_use_next = True, sc_poll = False\<rparr>
                   q (file_id ?z)
                   (substr (content I (file_id ?z)) (core_begin ?z + ?rb) (min (ext_len ?z) (?rb + pos_block I + 64) - ?rb))
                   (core_begin ?z + ?rb) (core_bound (min (pos_block I) (core_len ?z - ?rb)) q) 0 st1)"
  proof (cases "core_len ?z \<le> ?rb")
    case True
    with past runs_skip show ?thesis by simp
  next
    case False
    with runs_block [OF assms ci, of bi U] show ?thesis by (simp add: core)
  qed
  have "runs opt (length q) (if ?skip then [] else block_filter.hits I q (ci, bi))
     (\<lambda>st1. if ?skip then (st1, False)
            else if core_len ?z \<le> ?rb \<and> \<not> (q = [] \<and> ?rb = 0 \<and> core_end ?z = core_begin ?z) then (st1, False)
            else scan_loop U I opt \<lparr>sc_icase = False, sc_check = (\<lambda>_ _. True), sc_use_next = True, sc_poll = False\<rparr>
                   q (file_id ?z)
                   (substr (content I (file_id ?z)) (core_begin ?z + ?rb) (min (ext_len ?z) (?rb + pos_block I + 64) - ?rb))
                   (core_begin ?z + ?rb) (core_bound (min (pos_block I) (core_len ?z - ?rb)) q) 0 st1)"
    using blk runs_skip assms(3) by (cases ?skip) simp_all
  from runs_poll [OF assms(2) this]
  show "runs opt (length q) (case u of (ci, bi) \<Rightarrow> if skip_binary I opt (file_id (chunks I ! ci)) then [] else block_filter.hits I q (ci, bi))
     ((case u of (ci, bi) \<Rightarrow> \<lambda>st. case stop_requested opt st of (st1, stop) \<Rightarrow>
          if stop then (st1, True)
          else let z = chunks I ! ci; fid = file_id z; rb = bi * pos_block I in
            if skip_binary I opt fid then (st1, False)
            else if core_len z \<le> rb \<and> \<not> (q = [] \<and> rb = 0 \<and> core_end z = core_begin z) then (st1, False)
            else let core = min (pos_block I) (core_len z - rb);
                     re = min (ext_len z) (rb + pos_block I + 64);
                     v = substr (content I fid) (core_begin z + rb) (re - rb)
                 in scan_loop U I opt
                      \<lparr>sc_icase = False, sc_check = (\<lambda>_ _. True), sc_use_next = True, sc_poll = False\<rparr>
                      q fid v (core_begin z + rb) (core_bound core q) 0 st1))"
    unfolding ub prod.case Let_def .
qed

section \<open>The whole-file path\<close>

lemma sorted_candidate_files:
  assumes "wf_index I"
  shows "candidate_files I (filter P [0 ..< length (chunks I)]) =
         filter (\<lambda>fid. \<exists>ci < length (chunks I). P ci \<and> file_id (chunks I ! ci) = fid) [0 ..< length (loaded I)]"
proof -
  let ?n = "length (chunks I)" and ?f = "\<lambda>ci. file_id (chunks I ! ci)"
  have mono: "?f a \<le> ?f b" if "a \<le> b" "b < ?n" for a b
    using sorted_nth_mono [OF sorted_layout_chunks [of I], of a b] that assms
    by (auto simp: wf_index_def less_eq_prod_def)
  have "sorted (map ?f (filter P [0 ..< n]))" if "n \<le> ?n" for n
    using that
  proof (induction n)
    case (Suc n)
    then show ?case using mono by (auto simp: sorted_append)
  qed simp
  then have s: "sorted (map ?f (filter P [0 ..< ?n]))" by simp
  then have "sorted (remdups_adj (map ?f (filter P [0 ..< ?n])))" "distinct (remdups_adj (map ?f (filter P [0 ..< ?n])))"
    using distinct_sort_unique [of "map ?f (filter P [0 ..< ?n])"] by (simp_all add: sort_unique_def sorted_sort_id)
  moreover have "set (remdups_adj (map ?f (filter P [0 ..< ?n]))) =
      set (filter (\<lambda>fid. \<exists>ci < ?n. P ci \<and> ?f ci = fid) [0 ..< length (loaded I)])"
    using chunk_shape(1) [OF assms] by auto
  ultimately show ?thesis
    unfolding candidate_files_def
    by (intro sorted_distinct_set_unique) (auto simp: sorted_filter [where f = id, simplified])
qed

lemma chunk_of_position:
  assumes "wf_index I" "fid < length (loaded I)" "x < length (content I fid)"
  shows "\<exists>ci < length (chunks I). file_id (chunks I ! ci) = fid \<and>
           core_begin (chunks I ! ci) \<le> x \<and> x < core_end (chunks I ! ci)"
proof -
  have "(fid, x) \<in> set (concat (map (\<lambda>fid. map (Pair fid) [0 ..< length (content I fid)])
                              (filter (\<lambda>_. True) [0 ..< length (loaded I)])))"
    using assms(2,3) by (auto intro!: bexI [of _ fid])
  then show ?thesis
    unfolding concat_chunk_positions [OF assms(1), symmetric] by (auto simp: chunk_positions_def)
qed

lemma concat_map_filter_cong:
  assumes "\<And>x. x \<in> set xs \<Longrightarrow> P x \<noteq> Q x \<Longrightarrow> h x = []"
  shows "concat (map h (filter P xs)) = concat (map h (filter Q xs))"
  using assms by (induction xs) auto

lemma whole_file_occurrences:
  assumes "wf_index I" "q \<noteq> []"
  shows "concat (map (\<lambda>fid. map (Pair fid) (filter (occurs_at (content I fid) q) [0 ..< length (content I fid)]))
           (filter (\<lambda>fid. \<not> skip_binary I opt fid) (candidate_files I (chunk_candidates I (eligible_list I opt) q)))) =
         all_occurrences I opt q"
proof -
  let ?el = "eligible_list I opt"
  let ?h = "\<lambda>fid. map (Pair fid) (filter (occurs_at (content I fid) q) [0 ..< length (content I fid)])"
  have hit: "\<exists>ci < length (chunks I). (allows ?el (file_id (chunks I ! ci)) \<and> chunk_keep I q ci) \<and> file_id (chunks I ! ci) = fid"
    if f: "fid < length (loaded I)" "allows ?el fid" "occurs_at (content I fid) q x" for fid x
  proof -
    have "x < length (content I fid)" using occurs_at_bound [OF that(3)] assms(2) by (cases q) auto
    then obtain ci where ci: "ci < length (chunks I)" "file_id (chunks I ! ci) = fid"
      "core_begin (chunks I ! ci) \<le> x" "x < core_end (chunks I ! ci)"
      using chunk_of_position [OF assms(1) f(1)] by blast
    then have "chunk_keep I q ci"
      using assms(1) that by (intro chunk_filter.complete [where p = "(fid, x)"])
        (auto simp: chunk_positions_def occurs_in_def)
    with ci that(2) show ?thesis by blast
  qed
  have "candidate_files I (chunk_candidates I ?el q) =
      filter (\<lambda>fid. \<exists>ci < length (chunks I). (allows ?el (file_id (chunks I ! ci)) \<and> chunk_keep I q ci) \<and> file_id (chunks I ! ci) = fid)
        [0 ..< length (loaded I)]"
    unfolding chunk_candidates_eq [OF assms(1)] chunk_keep_def by (rule sorted_candidate_files [OF assms(1)])
  then show ?thesis
    unfolding all_occurrences_def searched_file_def filter_filter
    by (simp only: filter_filter, intro concat_map_filter_cong)
      (use hit in \<open>auto simp: filter_empty_conv\<close>)
qed

text \<open>The whole-file path keeps no \<open>next\<close> table: each file is scanned once, from its start.\<close>

lemma run_whole_files:
  fixes U :: icu and I :: index_data
  assumes "never_cancelled opt" "q \<noteq> []" "\<not> po_word po" "\<not> po_line po" "distinct fs" "\<forall>f \<in> set fs. nx f = 0"
  defines "body \<equiv> \<lambda>fid st. case stop_requested opt st of (st1, stop) \<Rightarrow>
          if stop then (st1, True)
          else if skip_binary I opt fid then (st1, False)
          else let data = content I fid
               in scan_loop U I opt
                    \<lparr>sc_icase = False, sc_check = fixed_check U I po opt fid, sc_use_next = False, sc_poll = False\<rparr>
                    q fid data 0 (core_bound (length data) q) 0 st1"
  shows "let r = run_units body fs st;
             w = sel_run opt (length q)
               (concat (map (\<lambda>fid. map (Pair fid) (filter (occurs_at (content I fid) q) [0 ..< length (content I fid)]))
                 (filter (\<lambda>fid. \<not> skip_binary I opt fid) fs))) (fs_out st, nx)
         in fs_out (fst r) = fst (fst w) \<and> snd r = snd w \<and> fs_cancelled (fst r) = fs_cancelled st"
  using assms(5,6)
proof (induction fs arbitrary: st nx)
  case (Cons fid fs)
  let ?occ = "\<lambda>fid. map (Pair fid) (filter (occurs_at (content I fid) q) [0 ..< length (content I fid)])"
  define st1 where "st1 = st\<lparr>fs_polls := Suc (fs_polls st)\<rparr>"
  have st1: "stop_requested opt st = (st1, False)" "fs_out st1 = fs_out st" "fs_cancelled st1 = fs_cancelled st"
    by (simp_all add: st1_def stop_requested_never [OF assms(1)])
  show ?case
  proof (cases "skip_binary I opt fid")
    case True
    with Cons.IH [of nx st1] Cons.prems st1 show ?thesis by (simp add: body_def)
  next
    case False
    let ?r = "scan_loop U I opt
        \<lparr>sc_icase = False, sc_check = fixed_check U I po opt fid, sc_use_next = False, sc_poll = False\<rparr>
        q fid (content I fid) 0 (length (content I fid)) 0 st1"
    let ?w = "sel_run opt (length q) (?occ fid) (fs_out st, nx)"
    have w: "fs_out (fst ?r) = fst (fst ?w) \<and> snd ?r = snd ?w \<and> fs_cancelled (fst ?r) = fs_cancelled st"
      using scan_loop_jump [of opt q "\<lparr>sc_icase = False, sc_check = fixed_check U I po opt fid, sc_use_next = False, sc_poll = False\<rparr>"
          nx fid 0 0 U I "content I fid" "length (content I fid)" st1] assms(1-4) Cons.prems st1
      by (simp add: Let_def fixed_check_def word_check_def line_check_def)
    have b: "body fid st = ?r"
      using False st1 assms(2) by (simp add: body_def core_bound_def Let_def)
    have other: "snd (fst (sel_run opt (length q) ps (o', nx'))) g = nx' g" if "\<forall>(f, x) \<in> set ps. f \<noteq> g" for ps o' nx' g
      using that by (induction opt "length q" ps "(o', nx')" arbitrary: o' nx' rule: sel_run.induct) (auto simp: Let_def)
    have nx': "\<forall>g \<in> set fs. snd (fst ?w) g = 0"
    proof
      fix g assume "g \<in> set fs"
      with Cons.prems other [of "?occ fid" g "fs_out st" nx] show "snd (fst ?w) g = 0" by auto
    qed
    obtain r1 rs where r: "?r = (r1, rs)" by (cases ?r)
    obtain w1 w2 ws where ww: "?w = ((w1, w2), ws)" by (metis prod.collapse)
    have "let r = run_units body fs r1; v = sel_run opt (length q) (concat (map ?occ (filter (\<lambda>fid. \<not> skip_binary I opt fid) fs))) (fs_out r1, w2)
        in fs_out (fst r) = fst (fst v) \<and> snd r = snd v \<and> fs_cancelled (fst r) = fs_cancelled r1"
      using Cons.prems nx' ww by (intro Cons.IH) auto
    with w r ww b False show ?thesis by (simp add: sel_run_append Let_def)
  qed
qed simp

section \<open>All paths agree with the naive search\<close>

lemma selected_matches:
  assumes "q \<noteq> []"
  shows "fst (fst (sel_run opt (length q) (all_occurrences I opt q) ([], \<lambda>_. 0))) = naive_search I opt q"
proof -
  let ?fs = "filter (searched_file I opt) [0 ..< length (loaded I)]"
  have "select (so_overlapping opt) (length q) (\<lambda>_. 0) (all_occurrences I opt q) =
        concat (map (\<lambda>f. map (Pair f) (naive_matches (so_overlapping opt) (content I f) q)) ?fs)"
    unfolding all_occurrences_def by (rule select_files [OF assms]) auto
  then show ?thesis
    using sel_run_select [of opt "([], \<lambda>_. 0)" "length q" "all_occurrences I opt q"]
    by (cases "so_max_matches opt = 0") (simp_all add: naive_search_def map_concat o_def)
qed

lemma finish_find_naive:
  assumes "fs_out st = naive_search I opt q" "\<not> fs_cancelled st"
  shows "finish_find opt st = naive_search I opt q"
  using assms by (auto simp: finish_find_def naive_search_def limit_matches_def)

lemma run_whole_file_path:
  assumes "wf_index I" "never_cancelled opt" "q \<noteq> []" "\<not> po_word po" "\<not> po_line po"
    and "fs_out st = []"
  shows "fs_out (fst (find_whole_file U I po opt (eligible_list I opt) q False st)) = naive_search I opt q \<and>
         fs_cancelled (fst (find_whole_file U I po opt (eligible_list I opt) q False st)) = fs_cancelled st"
proof -
  let ?fs = "candidate_files I (chunk_candidates I (eligible_list I opt) q)"
  have "distinct ?fs"
    using sorted_candidate_files [OF assms(1)] by (simp add: chunk_candidates_eq [OF assms(1)])
  from run_whole_files [OF assms(2-5) this, where nx = "\<lambda>_. 0" and I = I and st = st and U = U] show ?thesis
    unfolding whole_file_occurrences [OF assms(1,3)] assms(6) find_whole_file_def
    by (simp add: selected_matches [OF assms(3)] Let_def)
qed

lemma find_fixed_state_naive:
  assumes "wf_index I" "never_cancelled opt" "q \<noteq> []" "po_case po \<noteq> Insensitive"
    and "\<not> po_word po" "\<not> po_line po" "\<not> so_invert_match opt"
  shows "fs_out (find_fixed_state U I po opt plan q) = naive_search I opt q \<and> \<not> fs_cancelled (find_fixed_state U I po opt plan q)"
proof -
  define st where "st = init_find_state\<lparr>fs_polls := 1\<rparr>"
  have st: "stop_requested opt init_find_state = (st, False)" "fs_out st = []" "fs_next st = (\<lambda>_. 0)" "\<not> fs_cancelled st"
    by (simp_all add: st_def stop_requested_never [OF assms(2)] init_find_state_def)
  let ?good = "\<lambda>f :: find_step. fs_out (fst (f st)) = naive_search I opt q \<and> \<not> fs_cancelled (fst (f st))"
  have via: "?good f" if "runs opt (length q) (all_occurrences I opt q) f" for f
    using that [unfolded runs_def, THEN spec, of st] st selected_matches [OF assms(3)] by (auto simp: Let_def)
  have "?good (find_fixed_paths U I po opt plan (eligible_list I opt) q)"
  proof (cases "chunk_overlap (ix_opt I) < length q \<or> plan = Some WholeFile")
    case True
    with run_whole_file_path [OF assms(1-3,5,6) st(2), of U] st(4) assms(4) show ?thesis
      by (auto simp: find_fixed_paths_def Let_def)
  next
    case False
    then show ?thesis
      using via [OF runs_find_chunk [OF assms(1-3), where po = po]] via [OF runs_find_blocks [OF assms(1-3)]]
        via [OF runs_find_long [OF assms(1-3)]] assms(4-6)
      by (simp add: find_fixed_paths_def Let_def not_less)
  qed
  with st(1) assms(7) show ?thesis by (simp add: find_fixed_state_def Let_def)
qed

lemma find_fixed_naive:
  assumes "wf_index I" "never_cancelled opt" "q \<noteq> []" "po_case po \<noteq> Insensitive"
    and "\<not> po_word po" "\<not> po_line po" "\<not> so_invert_match opt"
  shows "find_fixed U I po opt plan q = naive_search I opt q"
  using find_fixed_state_naive [OF assms] by (simp add: find_fixed_def finish_find_naive)


end
