(* ===== verification/Samples.thy ===== *)
theory Samples
  imports Fixed_Correct
begin

text \<open>
  A small concrete index, and the theorems of the index and of the fixed search applied to it.
\<close>

section \<open>The index\<close>

definition sample_docs :: "document list" where
  "sample_docs =
     [\<lparr>doc_path = ascii_bytes ''b.txt'', doc_content = ascii_bytes ''needles''\<rparr>,
      \<lparr>doc_path = ascii_bytes ''a.txt'', doc_content = ascii_bytes ''a needle in a haystack''\<rparr>]"

definition sample_options :: index_options where
  "sample_options = default_index_options\<lparr>chunk_bytes := 64, chunk_overlap := 16, positional_block_bytes := 16\<rparr>"

definition sample_index :: index_data where
  "sample_index = (case from_documents sample_docs sample_options of Inr I \<Rightarrow> I | Inl e \<Rightarrow> empty_index_data)"

lemma fp_value_half: "fp_value 0x3FE0000000000000 = Fin (1 / 2)"
  by (simp add: fp_value_def Let_def mask_eq_exp_minus_1 pow2_def)

lemma sample_valid: "validate_index_options sample_options = Inr ()"
  using fp_value_half by (simp add: validate_index_options_def sample_options_def default_index_options_def)

lemma sample_sorted: "sort_key doc_path sample_docs = [sample_docs ! 1, sample_docs ! 0]"
  by code_simp

lemma sample_sizes:
  "length (doc_content (sample_docs ! 0)) = 7" "length (doc_content (sample_docs ! Suc 0)) = 22"
  by (simp_all add: sample_docs_def ascii_bytes_def)

lemma sample_built: "from_documents sample_docs sample_options = Inr sample_index"
proof -
  have "\<exists>J. add_documents (empty_index_data\<lparr>ix_opt := sample_options, pos_block := positional_block_bytes sample_options,
            ephemeral := True\<rparr>) (sort_key doc_path sample_docs) = Inr J"
    unfolding sample_sorted
    by (simp add: add_document_def Let_def kMaxCorpusBytes_def sample_sizes empty_index_data_def)
  then show ?thesis by (auto simp: from_documents_def sample_valid sample_index_def)
qed

lemma sample_wf: "wf_index sample_index"
  using sample_built by (rule wf_index_from_documents)

lemma sample_texts:
  "map snd (loaded sample_index) = [ascii_bytes ''a needle in a haystack'', ascii_bytes ''needles'']"
  using from_documents_frame [OF sample_built] unfolding sample_sorted by (simp add: sample_docs_def)

lemma sample_infos: "infos sample_index = [document_info (sample_docs ! 1), document_info (sample_docs ! 0)]"
  using from_documents_frame [OF sample_built] unfolding sample_sorted by simp

lemma sample_options_kept: "ix_opt sample_index = sample_options" "pos_block sample_index = 16"
  using from_documents_frame [OF sample_built] by (simp_all add: sample_options_def)

lemma sample_content:
  "length (loaded sample_index) = 2"
  "content sample_index 0 = ascii_bytes ''a needle in a haystack''"
  "content sample_index (Suc 0) = ascii_bytes ''needles''"
proof -
  show len: "length (loaded sample_index) = 2"
    using arg_cong [OF sample_texts, of length] by simp
  have "map snd (loaded sample_index) ! i = content sample_index i" if "i < 2" for i
    using that len by (simp add: content_def)
  from this [of 0] this [of 1] show "content sample_index 0 = ascii_bytes ''a needle in a haystack''"
    "content sample_index (Suc 0) = ascii_bytes ''needles''"
    unfolding sample_texts by simp_all
qed

lemma sample_lengths: "length (content sample_index 0) = 22" "length (content sample_index (Suc 0)) = 7"
  by (simp_all add: sample_content ascii_bytes_def)

lemma sample_chunks:
  "chunks sample_index =
     [\<lparr>file_id = 0, core_begin = 0, core_end = 22, ext_end = 22\<rparr>,
      \<lparr>file_id = 1, core_begin = 0, core_end = 7, ext_end = 7\<rparr>]"
proof -
  have "chunks sample_index = layout_chunks sample_index" using sample_wf by (simp add: wf_index_def)
  also have "[0 ..< length (loaded sample_index)] = [0, 1]" by (simp add: sample_content upt_rec)
  then have "layout_chunks sample_index = file_chunks 64 16 0 22 @ file_chunks 64 16 1 7"
    unfolding layout_chunks_def sample_options_kept
    by (simp add: sample_lengths sample_options_def default_index_options_def)
  finally show ?thesis by (simp add: file_chunks_def chunk_loop.simps)
qed

section \<open>The theorems at this index\<close>

theorem from_documents_content_witness:
  "from_documents sample_docs sample_options = Inr sample_index \<and>
   map snd (loaded sample_index) = [ascii_bytes ''a needle in a haystack'', ascii_bytes ''needles'']"
  using sample_built from_documents_content [OF sample_built] unfolding sample_sorted by (simp add: sample_docs_def)

lemma sample_blocks: "pd_blocks (pos_descs sample_index ! 0) = 2"
  using wf_pos_desc(4) [OF sample_wf, of 0] by (simp add: sample_chunks core_len_def sample_options_kept)


theorem chunk_blocks_exact_witness:
  "chunk_blocks sample_index [hash4 (ascii_bytes ''needle'') 0] 0 =
     filter (block_passes sample_index [hash4 (ascii_bytes ''needle'') 0] 0) [0 ..< 2]"
  using chunk_blocks_exact [OF sample_wf, of 0] by (simp add: sample_chunks sample_blocks)

lemma sample_occurrence: "occurs_at (content sample_index 0) (ascii_bytes ''needle'') 2"
  unfolding sample_content by code_simp

theorem chunk_candidates_no_false_negative_witness:
  "0 \<in> set (chunk_candidates sample_index [] (ascii_bytes ''needle''))"
  using sample_occurrence
  by (intro chunk_candidates_no_false_negative [where x = 2] sample_wf) (simp_all add: sample_chunks allows_def)


theorem build_groups_exact_witness: "group_ok sample_index 2 0 (build_groups sample_index ! 0)"
  using build_groups_exact [of sample_index] by (simp add: sample_chunks numeral_2_eq_2)

theorem hash4_injective_witness: "hash4 [97, 98, 99, 100] 0 = hash4 [120, 97, 98, 99, 100] 1"
proof -
  have "([97, 98, 99, 100] :: bytes) ! (0 + n) = [120, 97, 98, 99, 100] ! (1 + n)" if "n < 4" for n
    by simp
  then show ?thesis unfolding hash4_injective by blast
qed

section \<open>A search\<close>


end
