(* ===== verification/Pattern_Samples.thy ===== *)
theory Pattern_Samples
  imports Parser Region_Plan Samples
begin

text \<open>
  A small pattern, \<open>ab.cd\<close>, parsed by the model of the parser, and the theorems on patterns
  applied to it.
\<close>

section \<open>The pattern\<close>

definition sample_flags :: rx_flags where
  "sample_flags = \<lparr>rf_icase = False, rf_dotall = False, rf_multiline = False, rf_unicode = True, rf_crlf = False\<rparr>"

definition sample_ast :: node where
  "sample_ast = KConcat sample_flags [KLiteral sample_flags [97, 98], KDot sample_flags, KLiteral sample_flags [99, 100]]"

definition sample_program :: nfa_program where
  "sample_program =
     \<lparr>rp_ast = sample_ast, rp_groups = 0, rp_group_names = [[]], rp_extended = False, rp_icase_literal = [],
      np_ir = analyze_query sample_ast False, np_code = [], np_start = 0, np_closure_offsets = [], np_closure_pcs = []\<rparr>"

lemma sample_parsed:
  "parse ascii_icu (ascii_bytes ''ab.cd'') default_pattern_options =
     Some (Inr (sample_ast, (initial_state default_pattern_options)\<lparr>ps_i := 5\<rparr>))"
  by code_simp

lemma sample_mandatory: "query_mandatory sample_ast = [[97, 98], [99, 100]]"
  "qi_mandatory (analyze_query sample_ast False) = [[97, 98], [99, 100]]"
  by code_simp+

lemma sample_rune_counts: "rune_count_from ascii_icu [97, 98] 0 = 2" "rune_count_from ascii_icu [99, 100] 0 = 2"
  by code_simp+

lemmas sample_analysis_simps = sample_ast_def analyze_node concat_step_def merge_analysis_def one_rune_def
  analyze_literal_def Let_def sample_rune_counts sample_flags_def start_analysis_def finish_analysis_def
  default_analysis_def u64_max_def

lemma sample_width: "ra_byte_upper (analyze_regex ascii_icu sample_ast 10) = Finite 8"
  by (simp add: sample_analysis_simps)

lemma sample_eligible:
  "bounded_regex_eligible ascii_icu sample_program default_pattern_options 10 = Some (analyze_regex ascii_icu sample_ast 10)"
  unfolding bounded_regex_eligible_def sample_program_def Let_def nfa_program.simps regex_program.simps
    sample_mandatory sample_width
  by (simp add: sample_analysis_simps branch_multi_mandatory_def default_pattern_options_def)

lemma sample_plain: "plain_node ascii_icu sample_ast" by code_simp

lemma sample_icase_free: "icase_free sample_ast" by code_simp

section \<open>A match\<close>

definition sample_text :: bytes where
  "sample_text = ascii_bytes ''xab-cdx''"

abbreviation sample_context :: verifier_context where
  "sample_context \<equiv> full_context sample_text 0 7 10 False"

lemma sample_text_length: "length sample_text = 7" by code_simp

lemma sample_validate: "validate sample_context"
  by (simp add: validate_def full_context_def sample_text_length)

lemma sample_rune: "context_rune_at ascii_icu sample_context p = (if p < 7 then rune_at ascii_icu sample_text p else None)"
proof -
  have "\<not> c_bounded_region sample_context" by (simp add: full_context_def)
  then show ?thesis
    using sample_validate sample_text_length
    by (simp add: context_rune_at_def region_contains_def ctx_contains_def split: option.splits)
qed

lemma sample_literals:
  "literal_loop ascii_icu sample_context [97, 98] False 1 0 = Some 3"
  "literal_loop ascii_icu sample_context [99, 100] False 4 0 = Some 6"
proof -
  have r: "rune_at ascii_icu sample_text 1 = Some (97, 2)" "rune_at ascii_icu sample_text 2 = Some (98, 3)"
    "rune_at ascii_icu sample_text 4 = Some (99, 5)" "rune_at ascii_icu sample_text 5 = Some (100, 6)"
    "rune_at ascii_icu [97, 98] 0 = Some (97, 1)" "rune_at ascii_icu [97, 98] 1 = Some (98, 2)"
    "rune_at ascii_icu [99, 100] 0 = Some (99, 1)" "rune_at ascii_icu [99, 100] 1 = Some (100, 2)"
    by code_simp+
  show "literal_loop ascii_icu sample_context [97, 98] False 1 0 = Some 3"
    "literal_loop ascii_icu sample_context [99, 100] False 4 0 = Some 6"
    by (simp_all add: literal_loop.simps sample_rune r [simplified] cp_eq_def)
qed

definition sample_start :: vm_state where
  "sample_start = \<lparr>vs_pos = 1, vs_caps = []\<rparr>"

lemma sample_reach: "vm_reach ascii_icu sample_context sample_ast sample_start (sample_start\<lparr>vs_pos := 6\<rparr>)"
proof -
  have d: "context_rune_at ascii_icu sample_context 3 = Some (45, 4)" unfolding sample_rune by code_simp
  let ?s1 = "sample_start\<lparr>vs_pos := 3\<rparr>" and ?s2 = "sample_start\<lparr>vs_pos := 4\<rparr>" and ?s3 = "sample_start\<lparr>vs_pos := 6\<rparr>"
  have 1: "vm_reach ascii_icu sample_context (KLiteral sample_flags [97, 98]) sample_start ?s1"
    by (rule reach_literal) (simp add: context_literal_at_def sample_start_def sample_literals [simplified] sample_flags_def)
  have 2: "vm_reach ascii_icu sample_context (KDot sample_flags) ?s1 ?s2"
    using reach_dot [of ascii_icu sample_context ?s1 45 4 sample_flags] d by (simp add: full_context_def byte_cp_def)
  have 3: "vm_reach ascii_icu sample_context (KLiteral sample_flags [99, 100]) ?s2 ?s3"
    using reach_literal [of ascii_icu sample_context ?s2 "[99, 100]" sample_flags 6] sample_literals
    by (simp add: context_literal_at_def sample_flags_def)
  show ?thesis unfolding sample_ast_def
    by (intro reach_concat path_cons [OF 1] path_cons [OF 2] path_cons [OF 3] path_nil)
qed


lemma sample_offsets:
  "ls_finite (literal_offsets sample_ast)"
  "ls_literals (literal_offsets sample_ast) =
     [\<lparr>lo_literal = [97, 98], lo_min_start = 0, lo_max_start = 0\<rparr>, \<lparr>lo_literal = [99, 100], lo_min_start = 3, lo_max_start = 6\<rparr>]"
  by (simp_all add: sample_ast_def summary_concat_def shift_literal_def empty_summary_def sat_add_def u64_max_def
      sample_flags_def Let_def)


section \<open>The anchor scan\<close>

theorem anchor_find_exact_witness:
  "anchor_find ascii_icu sample_text [97, 98] (choose_rare_byte sample_index [97, 98]) 0 6 False = Some (1, 3)"
proof -
  have "List.find (occurs_at sample_text [97, 98]) [0 ..< 6] = Some 1" by code_simp
  then show ?thesis by (simp add: anchor_find_exact)
qed

end
