(* ===== verification/Snapshot_Codec.thy ===== *)
theory Snapshot_Codec
  imports Index_Data
begin

text \<open>
  The scalar, string and vector codecs of the portable snapshot (\<open>Writer\<close> and \<open>Reader\<close> of
  \<open>index.cpp\<close>).  A reader consumes a prefix of the bytes that are left in the stream, so
  \<open>remaining()\<close> is the length of its argument.  Every codec satisfies the contract of the
  locale \<open>codec\<close>; lists of records are read back by the lemmas proved in it.
\<close>

section \<open>Readers\<close>

type_synonym 'a reader = "bytes \<Rightarrow> ('a \<times> bytes) result"

definition truncated_error :: exn where
  "truncated_error = Runtime_error ''pergrep index: truncated''"

definition read_return :: "'a \<Rightarrow> 'a reader" where
  "read_return x r = Inr (x, r)"

definition read_bind :: "'a reader \<Rightarrow> ('a \<Rightarrow> 'b reader) \<Rightarrow> 'b reader" where
  "read_bind m f r = (case m r of Inl e \<Rightarrow> Inl e | Inr (x, r') \<Rightarrow> f x r')"

definition read_guard :: "bool \<Rightarrow> exn \<Rightarrow> 'a reader \<Rightarrow> 'a reader" where
  "read_guard bad e m r = (if bad then Inl e else m r)"

text \<open>A guard that looks at what is left in the stream.\<close>

definition read_check :: "(nat \<Rightarrow> bool) \<Rightarrow> exn \<Rightarrow> 'a reader \<Rightarrow> 'a reader" where
  "read_check bad e m r = (if bad (length r) then Inl e else m r)"

definition read_bytes :: "nat \<Rightarrow> bytes reader" where
  "read_bytes n r = (if length r < n then Inl truncated_error else Inr (take n r, drop n r))"

fun read_times :: "nat \<Rightarrow> 'a reader \<Rightarrow> 'a list reader" where
  "read_times 0 m r = Inr ([], r)"
| "read_times (Suc n) m r =
     (case m r of Inl e \<Rightarrow> Inl e
      | Inr (x, r') \<Rightarrow> (case read_times n m r' of Inl e \<Rightarrow> Inl e | Inr (xs, r'') \<Rightarrow> Inr (x # xs, r'')))"

lemma read_bind_simps [simp]:
  "m r = Inl e \<Longrightarrow> read_bind m f r = Inl e"
  "m r = Inr (x, r') \<Longrightarrow> read_bind m f r = f x r'"
  by (simp_all add: read_bind_def)

lemma read_bind_Inr: "read_bind m f r = Inr z \<longleftrightarrow> (\<exists>x r'. m r = Inr (x, r') \<and> f x r' = Inr z)"
  by (auto simp: read_bind_def split: sum.splits)

lemma read_guard_Inr: "read_guard b e m r = Inr z \<longleftrightarrow> \<not> b \<and> m r = Inr z"
  by (simp add: read_guard_def)

lemma read_check_Inr: "read_check b e m r = Inr z \<longleftrightarrow> \<not> b (length r) \<and> m r = Inr z"
  by (simp add: read_check_def)

lemma read_return_Inr: "read_return x r = Inr (y, r') \<longleftrightarrow> x = y \<and> r = r'"
  by (simp add: read_return_def)

lemma read_times_length: "read_times n m r = Inr (xs, r') \<Longrightarrow> length xs = n"
  by (induction n m r arbitrary: xs r' rule: read_times.induct) (auto split: sum.splits)

section \<open>Little-endian words\<close>

primrec le_word :: "bytes \<Rightarrow> 'a::len word" where
  "le_word [] = 0"
| "le_word (b # bs) = ucast b OR push_bit 8 (le_word bs)"

primrec le_bytes :: "nat \<Rightarrow> 'a::len word \<Rightarrow> bytes" where
  "le_bytes 0 w = []"
| "le_bytes (Suc n) w = ucast w # le_bytes n (drop_bit 8 w)"

lemma length_le_bytes [simp]: "length (le_bytes n w) = n"
  by (induction n arbitrary: w) auto

lemma le_word_bytes: "le_word (le_bytes n w) = take_bit (8 * n) w"
proof (induction n arbitrary: w)
  case (Suc n)
  have "ucast (ucast w :: byte) OR push_bit 8 (take_bit (8 * n) (drop_bit 8 w)) = take_bit (8 * Suc n) w"
    by (rule bit_word_eqI) (auto simp: bit_simps)
  with Suc show ?case by simp
qed simp

definition get_word :: "nat \<Rightarrow> 'a::len word reader" where
  "get_word n = read_bind (read_bytes n) (\<lambda>bs. read_return (le_word bs))"

definition get_u8 :: "nat reader" where
  "get_u8 = read_bind (get_word 1) (\<lambda>w :: 8 word. read_return (unat w))"

definition get_le16 :: "nat reader" where
  "get_le16 = read_bind (get_word 2) (\<lambda>w :: 16 word. read_return (unat w))"

definition get_le32 :: "nat reader" where
  "get_le32 = read_bind (get_word 4) (\<lambda>w :: 32 word. read_return (unat w))"

definition get_le64 :: "nat reader" where
  "get_le64 = read_bind (get_word 8) (\<lambda>w :: 64 word. read_return (unat w))"

definition get_le_i64 :: "int reader" where
  "get_le_i64 = read_bind (get_word 8) (\<lambda>w :: 64 word. read_return (sint w))"

definition put_u8 :: "nat \<Rightarrow> bytes" where "put_u8 n = le_bytes 1 (of_nat n :: 8 word)"
definition put_le16 :: "nat \<Rightarrow> bytes" where "put_le16 n = le_bytes 2 (of_nat n :: 16 word)"
definition put_le32 :: "nat \<Rightarrow> bytes" where "put_le32 n = le_bytes 4 (of_nat n :: 32 word)"
definition put_le64 :: "nat \<Rightarrow> bytes" where "put_le64 n = le_bytes 8 (of_nat n :: 64 word)"
definition put_le_i64 :: "int \<Rightarrow> bytes" where "put_le_i64 x = le_bytes 8 (of_int x :: 64 word)"

text \<open>\<open>bit_cast\<close> of a double is the 64-bit pattern the model keeps.\<close>

definition put_word64 :: "u64 \<Rightarrow> bytes" where "put_word64 w = le_bytes 8 w"
definition put_word32 :: "u32 \<Rightarrow> bytes" where "put_word32 w = le_bytes 4 w"

definition get_bool :: "bool reader" where
  "get_bool = read_bind get_u8 (\<lambda>x. read_return (x \<noteq> 0))"

definition put_bool :: "bool \<Rightarrow> bytes" where
  "put_bool b = put_u8 (if b then 1 else 0)"

section \<open>Strings and vectors\<close>

definition kMaxString :: nat where "kMaxString = 16 * 1024 * 1024"
definition kMaxVectorElems :: nat where "kMaxVectorElems = 200000000"

definition put_string :: "bytes \<Rightarrow> bytes" where
  "put_string s = put_le64 (length s) @ s"

definition get_string :: "bytes reader" where
  "get_string = read_bind get_le64 (\<lambda>n.
     read_check (\<lambda>left. kMaxString < n \<or> left < n) truncated_error (read_bytes n))"

definition put_vector :: "('a \<Rightarrow> bytes) \<Rightarrow> 'a list \<Rightarrow> bytes" where
  "put_vector put xs = put_le64 (length xs) @ concat (map put xs)"

text \<open>\<open>sz\<close> is \<open>sizeof(T)\<close>.\<close>

definition get_vector :: "nat \<Rightarrow> 'a reader \<Rightarrow> 'a list reader" where
  "get_vector sz get = read_bind get_le64 (\<lambda>n.
     read_check (\<lambda>left. kMaxVectorElems < n \<or> left div sz < n) truncated_error (read_times n get))"

section \<open>The contract\<close>

locale codec =
  fixes put :: "'a \<Rightarrow> bytes"
    and get :: "'a reader"
    and valid :: "'a \<Rightarrow> bool"
  assumes get_put: "valid x \<Longrightarrow> get (put x @ rest) = Inr (x, rest)"
begin

lemma bind_put [simp]: "valid x \<Longrightarrow> read_bind get f (put x @ rest) = f x rest"
  by (simp add: get_put)

lemma times_put: "\<forall>x \<in> set xs. valid x \<Longrightarrow> read_times (length xs) get (concat (map put xs) @ rest) = Inr (xs, rest)"
  by (induction xs) (auto simp: get_put)

lemma bind_times [simp]:
  "\<forall>x \<in> set xs. valid x \<Longrightarrow> n = length xs \<Longrightarrow> read_bind (read_times n get) f (concat (map put xs) @ rest) = f xs rest"
  by (simp add: times_put)

lemma put_inj: "valid x \<Longrightarrow> valid y \<Longrightarrow> put x @ r = put y @ r' \<Longrightarrow> x = y \<and> r = r'"
  by (metis get_put prod.inject sum.inject(2))

end

locale sized_codec = codec +
  fixes sz :: nat
  assumes length_put: "length (put x) = sz" and sz_pos: "0 < sz"
begin

lemma length_puts: "length (concat (map put xs)) = length xs * sz"
  by (induction xs) (simp_all add: length_put)

end

lemma get_word_put: "8 * n = LENGTH('a) \<Longrightarrow> get_word n (le_bytes n (w :: 'a::len word) @ rest) = Inr (w, rest)"
proof -
  assume n: "8 * n = LENGTH('a)"
  have "take_bit (8 * n) w = w" unfolding n by (simp add: take_bit_word_eq_self)
  then show ?thesis
    by (simp add: get_word_def read_bind_def read_bytes_def read_return_def le_word_bytes)
qed

lemma get_byte_put: "get_word (Suc 0) (w # rest) = Inr (w :: 8 word, rest)"
  using get_word_put [of "Suc 0" w rest] by simp

interpretation u8: sized_codec put_u8 get_u8 "\<lambda>n. n < 2 ^ 8" 1
  by unfold_locales (simp_all add: put_u8_def get_u8_def read_bind_def get_byte_put read_return_def unsigned_of_nat take_bit_nat_eq_self)

interpretation le16: sized_codec put_le16 get_le16 "\<lambda>n. n < 2 ^ 16" 2
  by unfold_locales (simp_all add: put_le16_def get_le16_def read_bind_def get_word_put read_return_def unsigned_of_nat take_bit_nat_eq_self)

interpretation le32: sized_codec put_le32 get_le32 "\<lambda>n. n < 2 ^ 32" 4
  by unfold_locales (simp_all add: put_le32_def get_le32_def read_bind_def get_word_put read_return_def unsigned_of_nat take_bit_nat_eq_self)

interpretation le64: sized_codec put_le64 get_le64 "\<lambda>n. n < 2 ^ 64" 8
  by unfold_locales (simp_all add: put_le64_def get_le64_def read_bind_def get_word_put read_return_def unsigned_of_nat take_bit_nat_eq_self)

interpretation word64: sized_codec put_word64 "get_word 8 :: u64 reader" "\<lambda>_. True" 8
  by unfold_locales (simp_all add: put_word64_def get_word_put)

interpretation word32: sized_codec put_word32 "get_word 4 :: u32 reader" "\<lambda>_. True" 4
  by unfold_locales (simp_all add: put_word32_def get_word_put)

definition fits_i64 :: "int \<Rightarrow> bool" where
  "fits_i64 x \<longleftrightarrow> - (2 ^ 63) \<le> x \<and> x < 2 ^ 63"

interpretation i64: sized_codec put_le_i64 get_le_i64 fits_i64 8
proof unfold_locales
  fix x rest assume "fits_i64 x"
  then have "sint (of_int x :: 64 word) = x" by (simp add: fits_i64_def signed_of_int signed_take_bit_int_eq_self)
  then show "get_le_i64 (put_le_i64 x @ rest) = Inr (x, rest)"
    by (simp add: put_le_i64_def get_le_i64_def read_bind_def get_word_put read_return_def)
qed (simp_all add: put_le_i64_def)

interpretation bool8: sized_codec put_bool get_bool "\<lambda>_. True" 1
  by unfold_locales (auto simp: put_bool_def get_bool_def read_return_def u8.get_put u8.length_put)

interpretation str: codec put_string get_string "\<lambda>s. length s \<le> kMaxString"
proof unfold_locales
  fix s rest :: bytes assume "length s \<le> kMaxString"
  moreover from this have "length s < 2 ^ 64" by (simp add: kMaxString_def)
  ultimately show "get_string (put_string s @ rest) = Inr (s, rest)"
    by (simp add: put_string_def get_string_def read_check_def read_bytes_def)
qed

context sized_codec
begin

lemma vector_get_put:
  assumes "length xs \<le> kMaxVectorElems" "\<forall>x \<in> set xs. valid x"
  shows "get_vector sz get (put_vector put xs @ rest) = Inr (xs, rest)"
proof -
  have n: "length xs < 2 ^ 64" using assms(1) by (simp add: kMaxVectorElems_def)
  have left: "\<not> (length xs * sz + length rest) div sz < length xs" using sz_pos by simp
  show ?thesis
    using assms n left times_put [OF assms(2)]
    by (simp add: put_vector_def get_vector_def read_check_def length_puts)
qed

end

interpretation vec_u8: codec "put_vector put_u8" "get_vector 1 get_u8"
  "\<lambda>xs. length xs \<le> kMaxVectorElems \<and> (\<forall>x \<in> set xs. x < 2 ^ 8)"
  by unfold_locales (rule u8.vector_get_put, auto)

interpretation vec_u32: codec "put_vector put_le32" "get_vector 4 get_le32"
  "\<lambda>xs. length xs \<le> kMaxVectorElems \<and> (\<forall>x \<in> set xs. x < 2 ^ 32)"
  by unfold_locales (simp add: le32.vector_get_put)

interpretation vec_u64: codec "put_vector put_word64" "get_vector 8 (get_word 8 :: u64 reader)"
  "\<lambda>xs. length xs \<le> kMaxVectorElems"
  by unfold_locales (simp add: word64.vector_get_put)

end
