(* ===== verification/Snapshot.thy ===== *)
theory Snapshot
  imports Snapshot_Codec
begin

text \<open>
  \<open>Index::save\<close> and \<open>Index::load\<close> of \<open>index.cpp\<close>: the manifest, the bytes of a version 7
  snapshot, and the validating decoder for versions 5, 6 and 7.  What the code asks of the file
  system is a parameter: \<open>ident root opt\<close> is the metadata fingerprint \<open>source_identity\<close> of the
  source tree and \<open>source root f\<close> what attaching a mapped provider to a file gives.  The legacy
  versions 5 and 6 store host-order scalars; the model fixes a little-endian host, where both
  layouts of a scalar agree.
\<close>

section \<open>Manifests\<close>

record cache_manifest =
  cm_schema :: "nat option"
  cm_source_identity :: "u64 option"
  cm_source_root :: "bytes option"
  cm_selector :: "u64 option"
  cm_options :: "index_options option"
  cm_transform :: "u64 option"
  cm_corpus_files :: "nat option"
  cm_corpus_bytes :: "nat option"
  cm_generation :: "u64 option"

definition empty_manifest :: cache_manifest where
  "empty_manifest = \<lparr>cm_schema = None, cm_source_identity = None, cm_source_root = None, cm_selector = None,
     cm_options = None, cm_transform = None, cm_corpus_files = None, cm_corpus_bytes = None, cm_generation = None\<rparr>"

text \<open>A manifest with every field set, as it is stored.\<close>

record stored_manifest =
  sm_source_identity :: u64
  sm_source_root :: bytes
  sm_selector :: u64
  sm_options :: index_options
  sm_transform :: u64
  sm_corpus_files :: nat
  sm_corpus_bytes :: nat
  sm_generation :: u64

definition kManifestMagic :: u64 where "kManifestMagic = 0x4d414e4946455354"
definition kManifestSchema :: nat where "kManifestSchema = 2"
definition kPortableIndexVersion :: nat where "kPortableIndexVersion = 7"
definition kMaxFiles :: nat where "kMaxFiles = 10000000"
definition kMaxChunks :: nat where "kMaxChunks = 100000000"
definition kMaxPosDesc :: nat where "kMaxPosDesc = 100000000"
definition kMaxSnapshotBytes :: nat where "kMaxSnapshotBytes = kMaxCorpusBytes + 256 * 1024 * 1024"

definition or_else :: "'a option \<Rightarrow> 'a \<Rightarrow> 'a" where
  "or_else x d = (case x of None \<Rightarrow> d | Some y \<Rightarrow> y)"

definition resolve_manifest :: "(bytes \<Rightarrow> index_options \<Rightarrow> u64) \<Rightarrow> index_data \<Rightarrow> cache_manifest \<Rightarrow> stored_manifest result" where
  "resolve_manifest ident I q =
     (if cm_schema q \<noteq> None \<and> cm_schema q \<noteq> Some kManifestSchema
      then Inl (Runtime_error ''unsupported cache manifest schema'')
      else if (case cm_options q of None \<Rightarrow> False | Some o' \<Rightarrow> \<not> same_options o' (ix_opt I))
      then Inl (Runtime_error ''cache manifest index options do not match index'')
      else Inr \<lparr>sm_source_identity = or_else (cm_source_identity q) (ident (ix_root I) (ix_opt I)),
                sm_source_root = or_else (cm_source_root q) (ix_root I),
                sm_selector = or_else (cm_selector q) 0,
                sm_options = or_else (cm_options q) (ix_opt I),
                sm_transform = or_else (cm_transform q) 0,
                sm_corpus_files = or_else (cm_corpus_files q) (length (infos I)),
                sm_corpus_bytes = or_else (cm_corpus_bytes q) (corp_bytes I),
                sm_generation = or_else (cm_generation q) (of_int (root_mtime_ns I))\<rparr>)"

section \<open>Saving\<close>

text \<open>The payload loop of \<open>save\<close>: the sizes may not add up to more than the corpus limit.\<close>

fun payload_fits :: "nat \<Rightarrow> nat list \<Rightarrow> bool" where
  "payload_fits tot [] = True"
| "payload_fits tot (n # ns) =
     (\<not> kMaxCorpusBytes - min tot kMaxCorpusBytes < n \<and> payload_fits (tot + n) ns)"

definition check_savable :: "index_data \<Rightarrow> unit result" where
  "check_savable I =
     (if ephemeral I then Inl (Runtime_error ''cannot persist an in-memory pergrep index'')
      else if kMaxCorpusBytes < corp_bytes I then Inl (Runtime_error ''index corpus exceeds 1 GiB limit'')
      else if persist_corpus (ix_opt I) \<and> length (loaded I) \<noteq> length (infos I)
      then Inl (Runtime_error ''invalid v6 corpus payload'')
      else if persist_corpus (ix_opt I) \<and> \<not> payload_fits 0 (map (length \<circ> snd) (loaded I))
      then Inl (Runtime_error ''index corpus exceeds 1 GiB limit'')
      else Inr ())"

definition put_options :: "index_options \<Rightarrow> bytes" where
  "put_options o' =
     put_le64 (chunk_bytes o') @ put_le64 (chunk_overlap o') @ put_le64 (positional_block_bytes o') @
     put_word64 (positional_budget_ratio o') @ put_le64 (planned_qgrams o') @
     put_bool (include_hidden o') @ put_bool (follow_symlinks o')"

definition put_manifest :: "stored_manifest \<Rightarrow> bytes" where
  "put_manifest m =
     put_word64 (sm_source_identity m) @ put_string (sm_source_root m) @ put_word64 (sm_selector m) @
     put_options (sm_options m) @ put_bool (persist_corpus (sm_options m)) @ put_word64 (sm_transform m) @
     put_le64 (sm_corpus_files m) @ put_le64 (sm_corpus_bytes m) @ put_word64 (sm_generation m)"

definition put_info :: "file_info \<Rightarrow> bytes" where
  "put_info f = put_string (fi_path f) @ put_le64 (fi_size f) @ put_le_i64 (fi_mtime_ns f) @ put_bool (fi_binary f)"

definition put_chunk :: "chunk \<Rightarrow> bytes" where
  "put_chunk c = put_le32 (file_id c) @ put_le64 (core_begin c) @ put_le64 (core_end c) @ put_le64 (ext_end c)"

definition put_group :: "group \<Rightarrow> bytes" where
  "put_group g = put_u8 (g_lg g) @ put_le32 (g_m g) @ put_le32 (g_words g) @
     put_vector put_le32 (g_gids g) @ put_vector put_word64 (g_bits g)"

definition put_pos_desc :: "pos_desc \<Rightarrow> bytes" where
  "put_pos_desc d = put_le64 (pd_off d) @ put_le16 (pd_m d) @ put_le32 (pd_mask_bytes d) @ put_le32 (pd_blocks d)"

definition put_frequencies :: "index_data \<Rightarrow> bytes" where
  "put_frequencies I =
     concat (map put_word64 (map (\<lambda>i. byte_freq I (of_nat i)) [0 ..< 256])) @
     concat (map put_word32 (map (\<lambda>i. qgram_freq I (of_nat i)) [0 ..< 65536]))"

definition feature_flags :: "index_data \<Rightarrow> u32" where
  "feature_flags I = (if persist_corpus (ix_opt I) then 1 else 0) OR 2"

definition snapshot_payload :: "index_data \<Rightarrow> bytes" where
  "snapshot_payload I =
     put_string (ix_root I) @ put_options (ix_opt I) @ put_le64 (corp_bytes I) @ put_le_i64 (root_mtime_ns I) @
     put_frequencies I @ put_le32 (pos_block I) @
     put_le64 (length (infos I)) @ concat (map put_info (infos I)) @
     put_le64 (length (chunks I)) @ concat (map put_chunk (chunks I)) @
     concat (map put_group (groups I)) @
     put_le64 (length (pos_descs I)) @ concat (map put_pos_desc (pos_descs I)) @
     put_vector put_u8 (map unat (pos_bits I)) @
     (if persist_corpus (ix_opt I) then concat (map (put_string \<circ> snd) (loaded I)) else [])"

definition snapshot_body :: "stored_manifest \<Rightarrow> index_data \<Rightarrow> bytes" where
  "snapshot_body m I =
     put_word64 kManifestMagic @ put_le32 kManifestSchema @ put_word32 (feature_flags I) @
     put_manifest m @ snapshot_payload I"

definition snapshot_header :: bytes where
  "snapshot_header = [80, 69, 82, 71, 82, 69, 80, 0] @ put_le32 kPortableIndexVersion"

definition seal :: "bytes \<Rightarrow> bytes" where
  "seal body = snapshot_header @ body @ put_word64 (fnv1a_bytes fnv_offset body)"

text \<open>The bytes that \<open>save\<close> publishes, or the exception it throws before it opens a file.\<close>

definition save_bytes :: "(bytes \<Rightarrow> index_options \<Rightarrow> u64) \<Rightarrow> index_data \<Rightarrow> cache_manifest \<Rightarrow> bytes result" where
  "save_bytes ident I q =
     (case check_savable I of Inl e \<Rightarrow> Inl e
      | Inr _ \<Rightarrow> (case resolve_manifest ident I q of Inl e \<Rightarrow> Inl e | Inr m \<Rightarrow> Inr (seal (snapshot_body m I))))"

end
