(* ===== verification/Snapshot_Load.thy ===== *)
theory Snapshot_Load
  imports Snapshot
begin

text \<open>
  \<open>Index::load_impl\<close>: the validating decoder.  It runs section by section over the bytes that
  are left; \<open>read_check\<close> looks at \<open>remaining()\<close>, which counts the checksum trailer too.
\<close>

definition index_error :: "string \<Rightarrow> exn" where
  "index_error m = Runtime_error (''pergrep index: '' @ m)"

definition stale :: "string \<Rightarrow> exn" where
  "stale m = Runtime_error (''stale cache manifest: '' @ m)"

definition schema_error :: "string \<Rightarrow> exn" where
  "schema_error m = Runtime_error (''incompatible pergrep index schema: '' @ m)"

definition u64_limit :: nat where "u64_limit = 2 ^ 64 - 1"

section \<open>Paths of file records\<close>

definition is_slash :: "byte \<Rightarrow> bool" where
  "is_slash b \<longleftrightarrow> b = 47 \<or> b = 92"

definition ascii_isalpha :: "byte \<Rightarrow> bool" where
  "ascii_isalpha c \<longleftrightarrow> (65 \<le> c \<and> c \<le> 90) \<or> (97 \<le> c \<and> c \<le> 122)"

lemma length_tl_dropWhile: "p \<noteq> [] \<Longrightarrow> length (dropWhile P p) - Suc 0 < length p"
proof -
  assume "p \<noteq> []"
  then have "0 < length p" by simp
  with length_dropWhile_le [of P p] show ?thesis by linarith
qed

text \<open>The loop over the components between slashes.\<close>

function has_dotdot :: "bytes \<Rightarrow> bool" where
  "has_dotdot p =
     (if p = [] then False
      else let comp = takeWhile (\<lambda>b. \<not> is_slash b) p; rest = dropWhile (\<lambda>b. \<not> is_slash b) p
           in if comp = [46, 46] then True else if rest = [] then False else has_dotdot (tl rest))"
  by pat_completeness auto
termination by (relation "measure length") (auto simp: length_tl_dropWhile)

declare has_dotdot.simps [simp del]

definition unsafe_file_info_path :: "bytes \<Rightarrow> bool" where
  "unsafe_file_info_path p =
     (if p = [] then False
      else if is_slash (hd p) \<or> (2 \<le> length p \<and> ascii_isalpha (p ! 0) \<and> p ! 1 = 58) then True
      else has_dotdot p)"

section \<open>The manifest\<close>

definition get_options :: "bool \<Rightarrow> index_options reader" where
  "get_options persist =
     read_bind get_le64 (\<lambda>cb. read_bind get_le64 (\<lambda>co. read_bind get_le64 (\<lambda>pb.
     read_bind (get_word 8) (\<lambda>ratio. read_bind get_le64 (\<lambda>pq.
     read_bind get_bool (\<lambda>hid. read_bind get_bool (\<lambda>fol.
       read_return \<lparr>chunk_bytes = cb, chunk_overlap = co, positional_block_bytes = pb,
         positional_budget_ratio = ratio, planned_qgrams = pq, include_hidden = hid,
         follow_symlinks = fol, persist_corpus = persist\<rparr>)))))))"

definition get_manifest :: "stored_manifest reader" where
  "get_manifest =
     read_bind (get_word 8) (\<lambda>sid. read_bind get_string (\<lambda>root'. read_bind (get_word 8) (\<lambda>sel.
     read_bind (get_options False) (\<lambda>mo. read_bind get_bool (\<lambda>persist.
       let opt = mo\<lparr>persist_corpus := persist\<rparr> in
       read_guard (\<not> valid_index_options opt) (index_error ''invalid index options'')
         (read_bind (get_word 8) (\<lambda>tr. read_bind get_le64 (\<lambda>nf. read_bind get_le64 (\<lambda>nb. read_bind (get_word 8) (\<lambda>gen.
           read_return \<lparr>sm_source_identity = sid, sm_source_root = root', sm_selector = sel, sm_options = opt,
             sm_transform = tr, sm_corpus_files = nf, sm_corpus_bytes = nb, sm_generation = gen\<rparr>))))))))))"

definition differs :: "'a option \<Rightarrow> 'a \<Rightarrow> bool" where
  "differs e x = (case e of None \<Rightarrow> False | Some y \<Rightarrow> y \<noteq> x)"

text \<open>The first expectation of the caller that the stored manifest fails, if any.\<close>

definition manifest_mismatch :: "nat \<Rightarrow> cache_manifest \<Rightarrow> stored_manifest \<Rightarrow> string option" where
  "manifest_mismatch schema e m =
     (if differs (cm_schema e) schema then Some ''schema''
      else if differs (cm_source_identity e) (sm_source_identity m) then Some ''source identity''
      else if differs (cm_source_root e) (sm_source_root m) then Some ''source root''
      else if differs (cm_selector e) (sm_selector m) then Some ''selector''
      else if (case cm_options e of None \<Rightarrow> False | Some o' \<Rightarrow> \<not> same_options o' (sm_options m)) then Some ''index options''
      else if differs (cm_transform e) (sm_transform m) then Some ''transform''
      else if differs (cm_corpus_files e) (sm_corpus_files m) then Some ''corpus files''
      else if differs (cm_corpus_bytes e) (sm_corpus_bytes m) then Some ''corpus bytes''
      else if differs (cm_generation e) (sm_generation m) then Some ''generation''
      else None)"

definition check_manifest ::
  "(bytes \<Rightarrow> index_options \<Rightarrow> u64) \<Rightarrow> cache_manifest \<Rightarrow> bool \<Rightarrow> nat \<Rightarrow> stored_manifest \<Rightarrow> exn option" where
  "check_manifest ident e persisted schema m =
     (case manifest_mismatch schema e m of
        Some what \<Rightarrow> Some (stale what)
      | None \<Rightarrow>
          (let actual = ident (sm_source_root m) (sm_options m) in
           if \<not> persisted \<and> (actual = 0 \<or> actual \<noteq> sm_source_identity m)
           then Some (stale ''source changed or disappeared'') else None))"

text \<open>
  Everything up to the index sections: whether the corpus is persisted, and the manifest.  A
  legacy file without a manifest is read again from its first section.
\<close>

definition get_preamble ::
  "(bytes \<Rightarrow> index_options \<Rightarrow> u64) \<Rightarrow> cache_manifest \<Rightarrow> bool \<Rightarrow> nat \<Rightarrow> (bool \<times> stored_manifest option) reader" where
  "get_preamble ident e aware ver r0 =
     (let portable = (ver = kPortableIndexVersion) in
      read_bind (get_word 8) (\<lambda>marker.
        read_guard (portable \<and> marker \<noteq> kManifestMagic) (schema_error ''missing manifest'')
          (if marker = kManifestMagic then
             read_bind get_le32 (\<lambda>schema.
               read_guard (if portable then schema \<noteq> kManifestSchema else schema \<noteq> 1)
                 (schema_error ''unsupported manifest schema'')
                 (read_bind (if portable then get_word 4 else read_return 0) (\<lambda>flags :: u32.
                   read_guard (portable \<and> flags AND NOT (1 OR 2) \<noteq> 0) (schema_error ''unknown feature section'')
                   (read_guard (portable \<and> flags AND 2 = 0) (schema_error ''missing integrity checksum'')
                   (let persisted = (if portable then flags AND 1 \<noteq> 0 else ver = 6) in
                    read_bind get_manifest (\<lambda>m.
                      case check_manifest ident e persisted schema m of
                        Some err \<Rightarrow> (\<lambda>_. Inl err)
                      | None \<Rightarrow> read_return (persisted, Some m)))))))
           else (\<lambda>_. if aware then Inl (Runtime_error ''cache manifest missing'') else Inr ((ver = 6, None), r0)))) r0)"

section \<open>The sections\<close>

record index_head =
  ih_root :: bytes
  ih_opt :: index_options
  ih_corp_bytes :: nat
  ih_mtime :: int
  ih_byte_freq :: "u64 list"
  ih_qgram_freq :: "u32 list"
  ih_pos_block :: nat

definition get_head :: "bool \<Rightarrow> stored_manifest option \<Rightarrow> index_head reader" where
  "get_head persisted man =
     read_bind get_string (\<lambda>root'. read_bind (get_options persisted) (\<lambda>opt.
     read_bind get_le64 (\<lambda>cb. read_bind get_le_i64 (\<lambda>mt.
       read_guard (\<not> valid_index_options opt) (index_error ''invalid index options'')
       (read_guard (case man of None \<Rightarrow> False | Some m \<Rightarrow> \<not> same_options opt (sm_options m)) (stale ''index options'')
       (read_guard (case man of None \<Rightarrow> False | Some m \<Rightarrow> root' \<noteq> sm_source_root m) (stale ''source root'')
       (read_guard (case man of None \<Rightarrow> False | Some m \<Rightarrow> cb \<noteq> sm_corpus_bytes m) (stale ''corpus bytes'')
       (read_bind (read_times 256 (get_word 8)) (\<lambda>bf. read_bind (read_times 65536 (get_word 4)) (\<lambda>qf.
        read_bind get_le32 (\<lambda>pb.
          read_guard (pb \<noteq> positional_block_bytes opt) (index_error ''positional block mismatch'')
          (read_return \<lparr>ih_root = root', ih_opt = opt, ih_corp_bytes = cb, ih_mtime = mt, ih_byte_freq = bf,
             ih_qgram_freq = qf, ih_pos_block = pb\<rparr>))))))))))))"

definition get_info :: "file_info reader" where
  "get_info =
     read_bind get_string (\<lambda>p. read_bind get_le64 (\<lambda>sz. read_bind get_le_i64 (\<lambda>mt. read_bind get_bool (\<lambda>b.
       read_guard (unsafe_file_info_path p) (index_error ''invalid FileInfo path'')
         (read_return \<lparr>fi_path = p, fi_size = sz, fi_mtime_ns = mt, fi_binary = b\<rparr>)))))"

text \<open>The sum of the sizes, unless it leaves 64 bits.\<close>

fun info_total :: "nat \<Rightarrow> file_info list \<Rightarrow> nat option" where
  "info_total tot [] = Some tot"
| "info_total tot (f # fs) = (if u64_limit - tot < fi_size f then None else info_total (tot + fi_size f) fs)"

definition get_infos :: "index_head \<Rightarrow> stored_manifest option \<Rightarrow> file_info list reader" where
  "get_infos h man =
     read_bind get_le64 (\<lambda>nf.
       read_check (\<lambda>left. kMaxFiles < nf \<or> left div 25 < nf) truncated_error
       (read_guard (case man of None \<Rightarrow> False | Some m \<Rightarrow> nf \<noteq> sm_corpus_files m) (stale ''corpus files'')
       (read_bind (read_times nf get_info) (\<lambda>fs.
         read_guard (info_total 0 fs \<noteq> Some (ih_corp_bytes h)) (index_error ''invalid corpus totals'')
         (read_guard (case man of None \<Rightarrow> False | Some m \<Rightarrow> ih_corp_bytes h \<noteq> sm_corpus_bytes m) (stale ''corpus bytes'')
         (read_guard (kMaxCorpusBytes < ih_corp_bytes h) (Runtime_error ''index corpus exceeds 1 GiB limit'')
           (read_return fs)))))))"

definition get_chunk :: "chunk reader" where
  "get_chunk =
     read_bind get_le32 (\<lambda>fid. read_bind get_le64 (\<lambda>b. read_bind get_le64 (\<lambda>e. read_bind get_le64 (\<lambda>x.
       read_return \<lparr>file_id = fid, core_begin = b, core_end = e, ext_end = x\<rparr>))))"

text \<open>
  The geometry tests of one chunk; \<open>prev\<close> is \<open>previous_file\<close> unless the chunk is the first,
  \<open>next\<close> the end of the last core of each file.
\<close>

definition chunk_bad :: "index_options \<Rightarrow> file_info list \<Rightarrow> nat option \<Rightarrow> nat list \<Rightarrow> chunk \<Rightarrow> bool" where
  "chunk_bad opt fs prev next z \<longleftrightarrow>
     length fs \<le> file_id z \<or> core_end z < core_begin z \<or> ext_end z < core_end z \<or>
     fi_size (fs ! file_id z) < ext_end z \<or> chunk_bytes opt < core_end z - core_begin z \<or>
     (if u64_limit - chunk_overlap opt < core_end z then True
      else min (fi_size (fs ! file_id z)) (core_end z + chunk_overlap opt) < ext_end z) \<or>
     (case prev of None \<Rightarrow> False | Some p \<Rightarrow> file_id z < p) \<or>
     core_begin z \<noteq> next ! file_id z \<or>
     (core_begin z = core_end z \<and> fi_size (fs ! file_id z) \<noteq> 0)"

definition chunk_gap :: "file_info list \<Rightarrow> nat option \<Rightarrow> nat list \<Rightarrow> chunk \<Rightarrow> bool" where
  "chunk_gap fs prev next z \<longleftrightarrow>
     (case prev of None \<Rightarrow> False | Some p \<Rightarrow> p < file_id z \<and> next ! p \<noteq> fi_size (fs ! p))"

fun check_chunks :: "index_options \<Rightarrow> file_info list \<Rightarrow> nat option \<Rightarrow> nat list \<Rightarrow> bool list \<Rightarrow> chunk list \<Rightarrow> (nat list \<times> bool list) result" where
  "check_chunks opt fs prev next seen [] = Inr (next, seen)"
| "check_chunks opt fs prev next seen (z # zs) =
     (if chunk_bad opt fs prev next z then Inl (index_error ''invalid chunk geometry'')
      else if chunk_gap fs prev next z then Inl (index_error ''invalid chunk relationships'')
      else check_chunks opt fs (Some (file_id z)) (next[file_id z := core_end z]) (seen[file_id z := True]) zs)"

definition get_chunks :: "index_head \<Rightarrow> file_info list \<Rightarrow> chunk list reader" where
  "get_chunks h fs =
     read_bind get_le64 (\<lambda>nc.
       read_check (\<lambda>left. kMaxChunks < nc \<or> left div 28 < nc) truncated_error
       (read_bind (read_times nc get_chunk) (\<lambda>cs.
         case check_chunks (ih_opt h) fs None (replicate (length fs) 0) (replicate (length fs) False) cs of
           Inl err \<Rightarrow> (\<lambda>_. Inl err)
         | Inr (next, seen) \<Rightarrow>
             read_guard (\<exists>fid < length fs. \<not> seen ! fid \<or> next ! fid \<noteq> fi_size (fs ! fid))
               (index_error ''invalid chunk relationships'') (read_return cs))))"

definition group_bad :: "group \<Rightarrow> bool" where
  "group_bad g \<longleftrightarrow>
     g_lg g < 9 \<or> 16 < g_lg g \<or> g_m g \<noteq> 2 ^ g_lg g \<or> g_words g \<noteq> (length (g_gids g) + 63) div 64 \<or>
     u64_limit div 2 ^ g_lg g < g_words g \<or> length (g_bits g) \<noteq> 2 ^ g_lg g * g_words g"

text \<open>Every chunk belongs to one group, the one of its size class; \<open>None\<close> when a reference is refused.\<close>

fun mark_grouped :: "chunk list \<Rightarrow> nat \<Rightarrow> nat list \<Rightarrow> bool list \<Rightarrow> bool list option" where
  "mark_grouped cs lg [] grouped = Some grouped"
| "mark_grouped cs lg (gid # gids) grouped =
     (if length cs \<le> gid \<or> grouped ! gid \<or> lg_for (ext_len (cs ! gid)) \<noteq> lg then None
      else mark_grouped cs lg gids (grouped[gid := True]))"

definition get_group :: "group reader" where
  "get_group =
     read_bind get_u8 (\<lambda>lg. read_bind get_le32 (\<lambda>m. read_bind get_le32 (\<lambda>words.
     read_bind (get_vector 4 get_le32) (\<lambda>gids. read_bind (get_vector 8 (get_word 8)) (\<lambda>bits.
       read_return \<lparr>g_lg = lg, g_m = m, g_words = words, g_gids = gids, g_bits = bits\<rparr>)))))"

fun get_groups :: "chunk list \<Rightarrow> nat \<Rightarrow> bool list \<Rightarrow> (group list \<times> bool list) reader" where
  "get_groups cs 0 grouped = read_return ([], grouped)"
| "get_groups cs (Suc n) grouped =
     read_bind get_group (\<lambda>g.
       read_guard (group_bad g) (index_error ''invalid qgram group'')
         (case mark_grouped cs (g_lg g) (g_gids g) grouped of
            None \<Rightarrow> (\<lambda>_. Inl (index_error ''invalid qgram group reference''))
          | Some grouped' \<Rightarrow> read_bind (get_groups cs n grouped') (\<lambda>(gs, done'). read_return (g # gs, done'))))"

definition get_all_groups :: "chunk list \<Rightarrow> group list reader" where
  "get_all_groups cs =
     read_bind (get_groups cs 8 (replicate (length cs) False)) (\<lambda>(gs, grouped).
       read_guard (\<not> (\<forall>b \<in> set grouped. b)) (index_error ''incomplete qgram groups'') (read_return gs))"

definition get_pos_desc :: "pos_desc reader" where
  "get_pos_desc =
     read_bind get_le64 (\<lambda>off. read_bind get_le16 (\<lambda>m. read_bind get_le32 (\<lambda>mb. read_bind get_le32 (\<lambda>bl.
       read_return \<lparr>pd_off = off, pd_m = m, pd_mask_bytes = mb, pd_blocks = bl\<rparr>))))"

definition pos_desc_bad :: "nat \<Rightarrow> nat \<Rightarrow> nat \<Rightarrow> chunk \<Rightarrow> pos_desc \<Rightarrow> bool" where
  "pos_desc_bad pb npos pos_end z d \<longleftrightarrow>
     (let blocks = max 1 ((core_len z + pb - 1) div pb) in
      pd_m d < 64 \<or> 1024 < pd_m d \<or> pd_m d AND (pd_m d - 1) \<noteq> 0 \<or> pd_blocks d \<noteq> blocks \<or>
      pd_mask_bytes d \<noteq> (blocks + 7) div 8 \<or> pd_off d \<noteq> pos_end \<or>
      (npos - min pos_end npos) div pd_m d < pd_mask_bytes d \<or>
      u64_limit - pd_m d * pd_mask_bytes d < pos_end)"

text \<open>The end of the last matrix, when every descriptor passes.\<close>

fun check_pos_descs :: "nat \<Rightarrow> nat \<Rightarrow> nat \<Rightarrow> (chunk \<times> pos_desc) list \<Rightarrow> nat option" where
  "check_pos_descs pb npos pos_end [] = Some pos_end"
| "check_pos_descs pb npos pos_end ((z, d) # zs) =
     (if pos_desc_bad pb npos pos_end z d then None
      else check_pos_descs pb npos (pos_end + pd_m d * pd_mask_bytes d) zs)"

definition get_positional :: "index_head \<Rightarrow> chunk list \<Rightarrow> (pos_desc list \<times> byte list) reader" where
  "get_positional h cs =
     read_bind get_le64 (\<lambda>npd.
       read_check (\<lambda>left. npd \<noteq> length cs \<or> kMaxPosDesc < npd \<or> left div 18 < npd)
         (index_error ''invalid positional descriptors'')
       (read_bind (read_times npd get_pos_desc) (\<lambda>ds. read_bind (get_vector 1 get_u8) (\<lambda>ps.
         case check_pos_descs (ih_pos_block h) (length ps) 0 (zip cs ds) of
           None \<Rightarrow> (\<lambda>_. Inl (index_error ''invalid positional descriptors''))
         | Some pos_end \<Rightarrow>
             read_guard (pos_end \<noteq> length ps) (index_error ''invalid positional data'')
               (read_return (ds, map of_nat ps))))))"

section \<open>The corpus\<close>

fun get_payload :: "nat \<Rightarrow> file_info list \<Rightarrow> ((file_info \<times> bytes) list \<times> nat) reader" where
  "get_payload tot [] = read_return ([], tot)"
| "get_payload tot (f # fs) =
     read_bind get_le64 (\<lambda>n.
       read_guard (kMaxCorpusBytes - tot < n) (Runtime_error ''v6 corpus payload exceeds 1 GiB limit'')
       (read_guard (n \<noteq> fi_size f \<or> u64_limit - tot < n) (index_error ''invalid corpus payload'')
       (read_check (\<lambda>left. left < n) (index_error ''invalid corpus payload'')
         (read_bind (read_bytes n) (\<lambda>s.
           read_bind (get_payload (tot + n) fs) (\<lambda>(ls, tot'). read_return ((f, s) # ls, tot')))))))"

text \<open>
  Without a payload every file becomes a mapped provider, unless the recorded sizes exceed the
  limit; \<open>CorpusProvider::mapped\<close> refuses a source that changed since it was indexed.
\<close>

fun attach_sources :: "(file_info \<Rightarrow> bytes result) \<Rightarrow> file_info list \<Rightarrow> (file_info \<times> bytes) list result" where
  "attach_sources source [] = Inr []"
| "attach_sources source (f # fs) =
     (case source f of Inl e \<Rightarrow> Inl e
      | Inr s \<Rightarrow> (case attach_sources source fs of Inl e \<Rightarrow> Inl e | Inr ls \<Rightarrow> Inr ((f, s) # ls)))"

definition get_corpus ::
  "(bytes \<Rightarrow> file_info \<Rightarrow> bytes result) \<Rightarrow> bool \<Rightarrow> index_head \<Rightarrow> stored_manifest option \<Rightarrow> file_info list \<Rightarrow> (file_info \<times> bytes) list reader" where
  "get_corpus source persisted h man fs =
     (if \<not> persisted
      then read_guard (\<not> payload_fits 0 (map fi_size fs)) (Runtime_error ''indexed source corpus exceeds 1 GiB limit'')
             (case attach_sources (source (ih_root h)) fs of Inl err \<Rightarrow> (\<lambda>_. Inl err) | Inr ls \<Rightarrow> read_return ls)
      else read_bind (get_payload 0 fs) (\<lambda>(ls, tot).
             read_guard (tot \<noteq> ih_corp_bytes h \<or> (case man of None \<Rightarrow> False | Some m \<Rightarrow> tot \<noteq> sm_corpus_bytes m))
               (index_error ''invalid corpus payload totals'') (read_return ls)))"

section \<open>The whole file\<close>

definition assemble ::
  "index_head \<Rightarrow> file_info list \<Rightarrow> chunk list \<Rightarrow> group list \<Rightarrow> pos_desc list \<Rightarrow> byte list \<Rightarrow> (file_info \<times> bytes) list \<Rightarrow> index_data" where
  "assemble h fs cs gs ds ps ls =
     empty_index_data\<lparr>ix_root := ih_root h, ix_opt := ih_opt h, infos := fs, loaded := ls, chunks := cs,
       groups := gs, pos_descs := ds, pos_bits := ps, byte_freq := (\<lambda>b. ih_byte_freq h ! unat b),
       qgram_freq := (\<lambda>b. ih_qgram_freq h ! unat b), corp_bytes := ih_corp_bytes h,
       root_mtime_ns := ih_mtime h, pos_block := ih_pos_block h\<rparr>"

definition get_index ::
  "(bytes \<Rightarrow> file_info \<Rightarrow> bytes result) \<Rightarrow> bool \<Rightarrow> stored_manifest option \<Rightarrow> index_data reader" where
  "get_index source persisted man =
     read_bind (get_head persisted man) (\<lambda>h. read_bind (get_infos h man) (\<lambda>fs. read_bind (get_chunks h fs) (\<lambda>cs.
     read_bind (get_all_groups cs) (\<lambda>gs. read_bind (get_positional h cs) (\<lambda>(ds, ps).
     read_bind (get_corpus source persisted h man fs) (\<lambda>ls. read_return (assemble h fs cs gs ds ps ls)))))))"

definition stored_checksum :: "bytes \<Rightarrow> u64" where
  "stored_checksum file = le_word (drop (length file - 8) file)"

definition file_version :: "bytes \<Rightarrow> nat" where
  "file_version file = unat (le_word (take 4 (drop 8 file)) :: u32)"

definition load_bytes ::
  "(bytes \<Rightarrow> index_options \<Rightarrow> u64) \<Rightarrow> (bytes \<Rightarrow> file_info \<Rightarrow> bytes result) \<Rightarrow> cache_manifest \<Rightarrow> bool \<Rightarrow> bytes \<Rightarrow> index_data result" where
  "load_bytes ident source e aware file =
     (let ver = file_version file; portable = (ver = kPortableIndexVersion) in
      if length file < 12 then Inl truncated_error
      else if kMaxSnapshotBytes < length file then Inl (index_error ''exceeds size limit'')
      else if take 8 file \<noteq> [80, 69, 82, 71, 82, 69, 80, 0] then Inl truncated_error
      else if \<not> portable \<and> ver \<noteq> 5 \<and> ver \<noteq> 6 then Inl (Runtime_error ''unsupported pergrep index version'')
      else if portable \<and> length file < 20 then Inl truncated_error
      else if portable \<and> stored_checksum file \<noteq> fnv1a_bytes fnv_offset (take (length file - 20) (drop 12 file))
      then Inl (index_error ''checksum mismatch'')
      else case read_bind (get_preamble ident e aware ver) (\<lambda>(persisted, man). get_index source persisted man) (drop 12 file) of
             Inl err \<Rightarrow> Inl err
           | Inr (I, left) \<Rightarrow>
               if length left \<noteq> (if portable then 8 else 0) then Inl (index_error ''unexpected trailing data'')
               else Inr (rebuild_planner_stats I))"

end
