(* ===== verification/Snapshot_Roundtrip.thy ===== *)
theory Snapshot_Roundtrip
  imports Snapshot_Load Candidates
begin

text \<open>
  Loading what was saved gives the index back: every record has a codec that satisfies the
  contract, and the structural tests of the loader accept every well-formed index.
\<close>

section \<open>Records\<close>

lemma valid_options_small:
  "valid_index_options o' \<Longrightarrow> chunk_bytes o' < 2 ^ 64 \<and> chunk_overlap o' < 2 ^ 64 \<and>
     positional_block_bytes o' < 2 ^ 64 \<and> planned_qgrams o' < 2 ^ 64"
  by (auto simp: valid_index_options_def)

interpretation options: codec put_options "get_options persist" "\<lambda>o'. valid_index_options o' \<and> persist_corpus o' = persist"
  for persist
  by unfold_locales (auto simp: put_options_def get_options_def read_return_def dest: valid_options_small)

definition storable_manifest :: "stored_manifest \<Rightarrow> bool" where
  "storable_manifest m \<longleftrightarrow> length (sm_source_root m) \<le> kMaxString \<and> valid_index_options (sm_options m) \<and>
     sm_corpus_files m < 2 ^ 64 \<and> sm_corpus_bytes m < 2 ^ 64"

lemma valid_options_persist [simp]: "valid_index_options (o'\<lparr>persist_corpus := b\<rparr>) = valid_index_options o'"
  by (simp add: valid_index_options_def)

lemma put_options_persist [simp]: "put_options (o'\<lparr>persist_corpus := b\<rparr>) = put_options o'"
  by (simp add: put_options_def)

lemma get_options_any: "valid_index_options o' \<Longrightarrow> get_options b (put_options o' @ rest) = Inr (o'\<lparr>persist_corpus := b\<rparr>, rest)"
  using options.get_put [of "o'\<lparr>persist_corpus := b\<rparr>" b rest] by simp

interpretation manifest: codec put_manifest get_manifest storable_manifest
  by unfold_locales
    (simp add: put_manifest_def get_manifest_def storable_manifest_def get_options_any read_guard_def read_return_def Let_def)

definition storable_info :: "file_info \<Rightarrow> bool" where
  "storable_info f \<longleftrightarrow> length (fi_path f) \<le> kMaxString \<and> \<not> unsafe_file_info_path (fi_path f) \<and>
     fi_size f < 2 ^ 64 \<and> fits_i64 (fi_mtime_ns f)"

interpretation info: codec put_info get_info storable_info
  by unfold_locales (simp add: put_info_def get_info_def storable_info_def read_guard_def read_return_def)

definition storable_chunk :: "chunk \<Rightarrow> bool" where
  "storable_chunk z \<longleftrightarrow> file_id z < 2 ^ 32 \<and> core_begin z < 2 ^ 64 \<and> core_end z < 2 ^ 64 \<and> ext_end z < 2 ^ 64"

interpretation chnk: codec put_chunk get_chunk storable_chunk
  by unfold_locales (simp add: put_chunk_def get_chunk_def storable_chunk_def read_return_def)

definition storable_group :: "group \<Rightarrow> bool" where
  "storable_group g \<longleftrightarrow> g_lg g < 2 ^ 8 \<and> g_m g < 2 ^ 32 \<and> g_words g < 2 ^ 32 \<and>
     length (g_gids g) \<le> kMaxVectorElems \<and> (\<forall>x \<in> set (g_gids g). x < 2 ^ 32) \<and> length (g_bits g) \<le> kMaxVectorElems"

interpretation grp: codec put_group get_group storable_group
  by unfold_locales (simp add: put_group_def get_group_def storable_group_def read_return_def)

definition storable_pos_desc :: "pos_desc \<Rightarrow> bool" where
  "storable_pos_desc d \<longleftrightarrow> pd_off d < 2 ^ 64 \<and> pd_m d < 2 ^ 16 \<and> pd_mask_bytes d < 2 ^ 32 \<and> pd_blocks d < 2 ^ 32"

interpretation pdesc: codec put_pos_desc get_pos_desc storable_pos_desc
  by unfold_locales (simp add: put_pos_desc_def get_pos_desc_def storable_pos_desc_def read_return_def)

section \<open>Chunks\<close>

lemma length_concat_ge: "(\<And>x. k \<le> length (put x)) \<Longrightarrow> k * length xs \<le> length (concat (map put xs))"
proof (induction xs)
  case (Cons x xs)
  from Cons.prems [of x] Cons.IH [OF Cons.prems] show ?case by simp
qed simp

lemma put_sizes: "25 \<le> length (put_info f)" "length (put_chunk z) = 28" "length (put_pos_desc d) = 18"
  by (simp_all add: put_info_def put_chunk_def put_pos_desc_def put_string_def le64.length_put le32.length_put
      le16.length_put i64.length_put bool8.length_put)

definition chunk_sized :: "index_options \<Rightarrow> nat \<Rightarrow> bool" where
  "chunk_sized opt n \<longleftrightarrow> valid_index_options opt \<and> n \<le> kMaxCorpusBytes"

lemma chunk_sized_limits:
  "chunk_sized opt n \<Longrightarrow> 0 < chunk_bytes opt \<and> n + chunk_overlap opt \<le> u64_limit"
  by (auto simp: chunk_sized_def valid_index_options_def kMaxCorpusBytes_def u64_limit_def)

definition follows :: "file_info list \<Rightarrow> nat option \<Rightarrow> nat list \<Rightarrow> nat \<Rightarrow> bool" where
  "follows fs prev next fid \<longleftrightarrow>
     (case prev of None \<Rightarrow> True | Some p \<Rightarrow> p \<le> fid \<and> (p < fid \<longrightarrow> next ! p = fi_size (fs ! p)))"

lemma check_chunk_loop:
  assumes "fid < length fs" "length next = length fs" "length seen = length fs"
    and "n = fi_size (fs ! fid)" "chunk_sized opt n" "follows fs prev next fid"
    and "next ! fid = b" "b < n"
  shows "check_chunks opt fs prev next seen (chunk_loop fid n (chunk_bytes opt) (chunk_overlap opt) b @ rest) =
         check_chunks opt fs (Some fid) (next[fid := n]) (seen[fid := True]) rest"
  using assms
proof (induction fid n "chunk_bytes opt" "chunk_overlap opt" b arbitrary: prev "next" seen rule: chunk_loop.induct)
  case (1 fid n b)
  let ?e = "min n (b + chunk_bytes opt)" and ?x = "min n (min n (b + chunk_bytes opt) + chunk_overlap opt)"
  let ?z = "\<lparr>file_id = fid, core_begin = b, core_end = ?e, ext_end = ?x\<rparr>"
  note lim = chunk_sized_limits [OF "1.prems"(5)]
  have step: "chunk_loop fid n (chunk_bytes opt) (chunk_overlap opt) b =
      ?z # chunk_loop fid n (chunk_bytes opt) (chunk_overlap opt) (b + chunk_bytes opt)"
    using "1.prems"(8) lim by (subst chunk_loop.simps) (simp add: Let_def)
  have good: "\<not> chunk_bad opt fs prev next ?z"
    using "1.prems" lim by (auto simp: chunk_bad_def follows_def split: option.splits)
  have nogap: "\<not> chunk_gap fs prev next ?z"
    using "1.prems"(6) by (auto simp: chunk_gap_def follows_def split: option.splits)
  have one: "check_chunks opt fs prev next seen (?z # zs) =
      check_chunks opt fs (Some fid) (next[fid := ?e]) (seen[fid := True]) zs" for zs
    using good nogap by simp
  show ?case
  proof (cases "b + chunk_bytes opt < n")
    case True
    have "check_chunks opt fs (Some fid) (next[fid := ?e]) (seen[fid := True])
        (chunk_loop fid n (chunk_bytes opt) (chunk_overlap opt) (b + chunk_bytes opt) @ rest) =
      check_chunks opt fs (Some fid) (next[fid := ?e, fid := n]) (seen[fid := True, fid := True]) rest"
      by (rule "1.hyps") (use True "1.prems" lim in \<open>auto simp: follows_def\<close>)
    then show ?thesis unfolding step append_Cons one by simp
  next
    case False
    then have nil: "chunk_loop fid n (chunk_bytes opt) (chunk_overlap opt) (b + chunk_bytes opt) = []"
      by (subst chunk_loop.simps) simp
    have "?e = n" using False by simp
    then show ?thesis unfolding step append_Cons one nil append_Nil by simp
  qed
qed

lemma check_file_chunks:
  assumes "fid < length fs" "length next = length fs" "length seen = length fs"
    and "chunk_sized opt (fi_size (fs ! fid))" "follows fs prev next fid" "next ! fid = 0"
  shows "check_chunks opt fs prev next seen (file_chunks (chunk_bytes opt) (chunk_overlap opt) fid (fi_size (fs ! fid)) @ rest) =
         check_chunks opt fs (Some fid) (next[fid := fi_size (fs ! fid)]) (seen[fid := True]) rest"
proof (cases "fi_size (fs ! fid) = 0")
  case True
  let ?z = "\<lparr>file_id = fid, core_begin = 0, core_end = 0, ext_end = 0\<rparr>"
  have "\<not> chunk_bad opt fs prev next ?z"
    using assms True by (auto simp: chunk_bad_def follows_def split: option.splits)
  moreover have "\<not> chunk_gap fs prev next ?z"
    using assms(5) by (auto simp: chunk_gap_def follows_def split: option.splits)
  ultimately show ?thesis using True by (simp add: file_chunks_def)
next
  case False
  with assms show ?thesis by (simp add: file_chunks_def check_chunk_loop)
qed

lemma check_layout:
  assumes "length next = length fs" "length seen = length fs"
    and "\<forall>f \<in> set fs. chunk_sized opt (fi_size f)"
    and "k \<le> length fs" "\<forall>fid < k. seen ! fid \<and> next ! fid = fi_size (fs ! fid)" "\<forall>fid < length fs. k \<le> fid \<longrightarrow> next ! fid = 0"
    and "prev = (if k = 0 then None else Some (k - 1))"
  shows "\<exists>next' seen'. check_chunks opt fs prev next seen
           (concat (map (\<lambda>fid. file_chunks (chunk_bytes opt) (chunk_overlap opt) fid (fi_size (fs ! fid))) [k ..< length fs])) =
         Inr (next', seen') \<and> (\<forall>fid < length fs. seen' ! fid \<and> next' ! fid = fi_size (fs ! fid))"
  using assms
proof (induction "length fs - k" arbitrary: k prev "next" seen)
  case 0
  then show ?case by simp
next
  case (Suc m)
  then have k: "k < length fs" by simp
  have up: "[k ..< length fs] = k # [Suc k ..< length fs]" using k by (simp add: upt_rec)
  have fol: "follows fs prev next k" using Suc.prems(5,7) by (auto simp: follows_def)
  let ?n = "next[k := fi_size (fs ! k)]" and ?s = "seen[k := True]"
  have "\<exists>next' seen'. check_chunks opt fs (Some k) ?n ?s
           (concat (map (\<lambda>fid. file_chunks (chunk_bytes opt) (chunk_overlap opt) fid (fi_size (fs ! fid))) [Suc k ..< length fs])) =
         Inr (next', seen') \<and> (\<forall>fid < length fs. seen' ! fid \<and> next' ! fid = fi_size (fs ! fid))"
    by (rule Suc.hyps(1)) (use Suc.hyps(2) Suc.prems k in \<open>auto simp: nth_list_update less_Suc_eq\<close>)
  then show ?case
    unfolding up using k Suc.prems fol by (simp add: check_file_chunks)
qed

section \<open>Groups\<close>

lemma mark_grouped_ok:
  assumes "distinct gids" "length grouped = length cs"
    and "\<forall>gid \<in> set gids. gid < length cs \<and> \<not> grouped ! gid \<and> lg_for (ext_len (cs ! gid)) = lg"
  shows "\<exists>out. mark_grouped cs lg gids grouped = Some out \<and> length out = length cs \<and>
           (\<forall>i < length cs. out ! i \<longleftrightarrow> grouped ! i \<or> i \<in> set gids)"
  using assms
proof (induction gids arbitrary: grouped)
  case (Cons gid gids)
  have "\<exists>out. mark_grouped cs lg gids (grouped[gid := True]) = Some out \<and> length out = length cs \<and>
           (\<forall>i < length cs. out ! i \<longleftrightarrow> grouped[gid := True] ! i \<or> i \<in> set gids)"
    using Cons.prems by (intro Cons.IH) (auto simp: nth_list_update)
  with Cons.prems show ?case by (auto simp: nth_list_update)
qed simp

definition group_fits :: "chunk list \<Rightarrow> group \<Rightarrow> bool" where
  "group_fits cs g \<longleftrightarrow> storable_group g \<and> \<not> group_bad g \<and> distinct (g_gids g) \<and>
     (\<forall>gid \<in> set (g_gids g). gid < length cs \<and> lg_for (ext_len (cs ! gid)) = g_lg g)"

lemma get_groups_ok:
  assumes "\<forall>g \<in> set gs. group_fits cs g" "distinct (map g_lg gs)" "length grouped = length cs"
    and "\<forall>g \<in> set gs. \<forall>gid \<in> set (g_gids g). \<not> grouped ! gid"
  shows "\<exists>out. get_groups cs (length gs) grouped (concat (map put_group gs) @ rest) = Inr ((gs, out), rest) \<and>
           length out = length cs \<and> (\<forall>i < length cs. out ! i \<longleftrightarrow> grouped ! i \<or> (\<exists>g \<in> set gs. i \<in> set (g_gids g)))"
  using assms
proof (induction gs arbitrary: grouped)
  case Nil
  then show ?case by (simp add: read_return_def)
next
  case (Cons g gs)
  have g: "group_fits cs g" using Cons.prems(1) by simp
  have "\<exists>out. mark_grouped cs (g_lg g) (g_gids g) grouped = Some out \<and> length out = length cs \<and>
           (\<forall>i < length cs. out ! i \<longleftrightarrow> grouped ! i \<or> i \<in> set (g_gids g))"
    using g Cons.prems(3,4) by (intro mark_grouped_ok) (auto simp: group_fits_def)
  then obtain mid where mid: "mark_grouped cs (g_lg g) (g_gids g) grouped = Some mid" "length mid = length cs"
    "\<forall>i < length cs. mid ! i \<longleftrightarrow> grouped ! i \<or> i \<in> set (g_gids g)" by blast
  have apart: "gid \<notin> set (g_gids g)" if "h \<in> set gs" "gid \<in> set (g_gids h)" for h gid
  proof
    assume "gid \<in> set (g_gids g)"
    then have "g_lg h = g_lg g" using g Cons.prems(1) that by (auto simp: group_fits_def)
    moreover have "g_lg h \<in> g_lg ` set gs" using that(1) by simp
    ultimately show False using Cons.prems(2) by simp
  qed
  have "\<exists>out. get_groups cs (length gs) mid (concat (map put_group gs) @ rest) = Inr ((gs, out), rest) \<and>
           length out = length cs \<and> (\<forall>i < length cs. out ! i \<longleftrightarrow> mid ! i \<or> (\<exists>g \<in> set gs. i \<in> set (g_gids g)))"
  proof (rule Cons.IH)
    show "\<forall>h \<in> set gs. \<forall>gid \<in> set (g_gids h). \<not> mid ! gid"
      using Cons.prems(1,4) mid(3) apart by (auto simp: group_fits_def)
  qed (use Cons.prems mid(2) in auto)
  then obtain out where out: "get_groups cs (length gs) mid (concat (map put_group gs) @ rest) = Inr ((gs, out), rest)"
    "length out = length cs" "\<forall>i < length cs. out ! i \<longleftrightarrow> mid ! i \<or> (\<exists>g \<in> set gs. i \<in> set (g_gids g))" by blast
  have "get_groups cs (length (g # gs)) grouped (concat (map put_group (g # gs)) @ rest) = Inr ((g # gs, out), rest)"
    using g mid(1) out(1) by (simp add: group_fits_def read_guard_def read_return_def)
  with out(2,3) mid(3) show ?case by auto
qed

lemma chunk_class_lg: "lg_for (ext_len z) = chunk_class z + 9"
  using lg_for_bounds [of "ext_len z"] by (simp add: chunk_class_def)

lemma group_ok_fits:
  assumes "group_ok I (length (chunks I)) k g" "k < 8" "length (chunks I) \<le> kMaxChunks" "length (g_bits g) \<le> kMaxVectorElems"
  shows "group_fits (chunks I) g"
proof -
  let ?gids = "class_members I (length (chunks I)) k"
  have g: "g_lg g = k + 9" "g_m g = 2 ^ (k + 9)" "g_gids g = ?gids" "length (g_bits g) = g_m g * g_words g"
    "g_words g = (length (filter (\<lambda>c. chunk_class c = k) (chunks I)) + 63) div 64"
    using assms(1) by (simp_all add: group_ok_def)
  have mem: "length ?gids = length (filter (\<lambda>c. chunk_class c = k) (chunks I))"
  proof -
    let ?P = "\<lambda>z. chunk_class z = k"
    have "filter ?P (map ((!) (chunks I)) [0 ..< length (chunks I)]) = map ((!) (chunks I)) ?gids"
      unfolding filter_map class_members_def by (simp add: o_def)
    then have "filter ?P (chunks I) = map ((!) (chunks I)) ?gids" by (simp only: map_nth)
    then show ?thesis by simp
  qed
  have len: "length ?gids \<le> length (chunks I)" unfolding mem by simp
  have pw: "(2 :: nat) ^ (k + 9) \<le> 2 ^ 16" using assms(2) by (intro power_increasing) auto
  have "g_words g \<le> length ?gids + 63" unfolding g(5) mem by (rule div_le_dividend)
  also have "\<dots> \<le> 2 ^ 31" using len assms(3) by (simp add: kMaxChunks_def)
  finally have words: "g_words g \<le> 2 ^ 31" .
  have "u64_limit div 2 ^ 16 \<le> u64_limit div 2 ^ (k + 9)" using pw by (rule div_le_mono2 [rotated]) simp
  then have "\<not> u64_limit div 2 ^ g_lg g < g_words g" using words g(1) by (simp add: u64_limit_def)
  then have "\<not> group_bad g" using g mem assms(2) by (simp add: group_bad_def)
  moreover have "storable_group g"
    using g words len pw assms by (auto simp: storable_group_def kMaxChunks_def kMaxVectorElems_def class_members_def)
  ultimately show ?thesis using g(1,3) by (auto simp: group_fits_def class_members_def chunk_class_lg)
qed

lemma get_all_groups_ok:
  assumes "wf_index I" "length (chunks I) \<le> kMaxChunks" "\<forall>g \<in> set (groups I). length (g_bits g) \<le> kMaxVectorElems"
  shows "get_all_groups (chunks I) (concat (map put_group (groups I)) @ rest) = Inr (groups I, rest)"
proof -
  let ?cs = "chunks I"
  have len: "length (groups I) = 8" and ok: "\<And>k. k < 8 \<Longrightarrow> group_ok I (length ?cs) k (groups I ! k)"
    using assms(1) build_groups_bits [of I] by (auto simp: wf_index_def)
  have lg: "map g_lg (groups I) = map (\<lambda>k. k + 9) [0 ..< 8]"
    using ok len by (intro nth_equalityI) (auto simp: group_ok_def)
  have "\<exists>out. get_groups ?cs (length (groups I)) (replicate (length ?cs) False) (concat (map put_group (groups I)) @ rest) =
          Inr ((groups I, out), rest) \<and> length out = length ?cs \<and>
          (\<forall>i < length ?cs. out ! i \<longleftrightarrow> replicate (length ?cs) False ! i \<or> (\<exists>g \<in> set (groups I). i \<in> set (g_gids g)))"
  proof (rule get_groups_ok)
    show "\<forall>g \<in> set (groups I). group_fits ?cs g"
      using ok len assms(2,3) group_ok_fits by (metis in_set_conv_nth)
    show "distinct (map g_lg (groups I))" unfolding lg by (simp add: distinct_map)
    show "\<forall>g \<in> set (groups I). \<forall>gid \<in> set (g_gids g). \<not> replicate (length ?cs) False ! gid"
    proof (intro ballI)
      fix g gid assume "g \<in> set (groups I)" "gid \<in> set (g_gids g)"
      then have "gid < length ?cs" using ok len by (auto simp: in_set_conv_nth [of g] group_ok_def class_members_def)
      then show "\<not> replicate (length ?cs) False ! gid" by simp
    qed
  qed simp
  then obtain out where out: "get_groups ?cs 8 (replicate (length ?cs) False) (concat (map put_group (groups I)) @ rest) = Inr ((groups I, out), rest)"
    "length out = length ?cs" "\<forall>i < length ?cs. out ! i \<longleftrightarrow> (\<exists>g \<in> set (groups I). i \<in> set (g_gids g))"
    using len by auto
  have "out ! i" if i: "i < length ?cs" for i
  proof -
    let ?k = "chunk_class (?cs ! i)"
    have k: "?k < 8" by (rule chunk_class_less)
    then have "i \<in> set (g_gids (groups I ! ?k))" using ok [OF k] i by (simp add: group_ok_def class_members_def)
    with k len out(3) i show ?thesis by auto
  qed
  then have "\<forall>b \<in> set out. b" using out(2) by (auto simp: in_set_conv_nth)
  with out(1) show ?thesis by (simp add: get_all_groups_def read_guard_def read_return_def)
qed

section \<open>Positional descriptors\<close>

declare layout_pos.simps(2) [simp del]

lemma choose_m_cases: "choose_m opt clen mb \<in> {64, 128, 256, 512, 1024}"
  by (simp add: choose_m_def Let_def choose_m_loop.simps)

lemma check_pos_layout:
  assumes "snd (layout_pos I off zs) \<le> npos" "npos \<le> u64_limit"
  shows "check_pos_descs (pos_block I) npos off (zip zs (fst (layout_pos I off zs))) = Some (snd (layout_pos I off zs))"
  using assms(1)
proof (induction zs arbitrary: off)
  case (Cons z zs)
  let ?d = "make_pos_desc I off z"
  let ?off = "off + pd_m ?d * pd_mask_bytes ?d"
  have tot: "?off \<le> snd (layout_pos I ?off zs)" "snd (layout_pos I ?off zs) \<le> npos"
    using layout_pos_total Cons.prems by (simp_all add: layout_pos_Cons Let_def)
  then have le: "?off \<le> npos" by simp
  have m: "pd_m ?d \<in> {64, 128, 256, 512, 1024}" unfolding make_pos_desc_def Let_def by (simp only: pos_desc.simps choose_m_cases)
  have pw: "pd_m ?d AND (pd_m ?d - 1) = 0" "64 \<le> pd_m ?d" "pd_m ?d \<le> 1024" using m by auto
  have "pd_mask_bytes ?d \<le> (npos - off) div pd_m ?d"
    using le pw(2) by (simp add: less_eq_div_iff_mult_less_eq mult.commute)
  moreover have "min off npos = off" using le by simp
  moreover have "off \<le> u64_limit - pd_m ?d * pd_mask_bytes ?d" using le assms(2) by simp
  moreover have f: "pd_off ?d = off" "pd_blocks ?d = max 1 ((core_len z + pos_block I - 1) div pos_block I)"
    by (simp_all add: make_pos_desc_def Let_def)
  ultimately have "\<not> pos_desc_bad (pos_block I) npos off z ?d"
    unfolding pos_desc_bad_def Let_def f(2) [symmetric] using pw make_pos_desc_shape(3) [of I off z] by simp
  then show ?case using Cons.IH [of ?off] tot by (simp add: layout_pos_Cons Let_def)
qed simp

end
