(* ===== verification/Snapshot_Integrity.thy ===== *)
theory Snapshot_Integrity
  imports Snapshot_Load
begin

text \<open>
  What the checksum of a version 7 snapshot detects: every change of a single byte behind the
  header, before any length is trusted.
\<close>

section \<open>The digest separates strings that differ in one byte\<close>

lemma fnv_prime_inverse: "fnv_prime * 14886173955864302971 = 1"
  by (simp add: fnv_prime_def)

lemma fnv_step_inj: "((h :: u64) XOR x) * fnv_prime = (h' XOR x) * fnv_prime \<longleftrightarrow> h = h'"
proof
  assume "(h XOR x) * fnv_prime = (h' XOR x) * fnv_prime"
  then have "h XOR x = h' XOR x" using fnv_prime_inverse by (rule odd_times_inj)
  then have "(h XOR x) XOR x = (h' XOR x) XOR x" by simp
  then show "h = h'" by (simp add: xor.assoc)
qed simp

lemma fnv1a_bytes_inj: "fnv1a_bytes h s = fnv1a_bytes h' s \<longleftrightarrow> h = h'"
  by (induction s arbitrary: h h') (simp_all add: fnv_step_inj)

lemma fnv1a_bytes_update:
  assumes "k < length s" "b \<noteq> s ! k"
  shows "fnv1a_bytes h (s[k := b]) \<noteq> fnv1a_bytes h s"
proof -
  let ?g = "fnv1a_bytes h (take k s)"
  have s: "s = take k s @ s ! k # drop (Suc k) s" using assms(1) by (simp add: id_take_nth_drop)
  have u: "s[k := b] = take k s @ b # drop (Suc k) s" using assms(1) by (simp add: upd_conv_take_nth_drop)
  have "(?g XOR ucast b) * fnv_prime \<noteq> (?g XOR ucast (s ! k)) * fnv_prime"
  proof
    assume "(?g XOR ucast b) * fnv_prime = (?g XOR ucast (s ! k)) * fnv_prime"
    then have "(ucast b :: u64) = ucast (s ! k)" by (simp only: xor.commute [of ?g] fnv_step_inj)
    then have "bit (ucast b :: u64) n = bit (ucast (s ! k) :: u64) n" for n by simp
    then have bits: "(n < 64 \<and> bit b n) = (n < 64 \<and> bit (s ! k) n)" for n by (simp add: bit_simps)
    have "b = s ! k" by (rule bit_word_eqI) (use bits in force)
    with assms(2) show False by contradiction
  qed
  then show ?thesis
    by (subst s, subst u) (simp only: fnv1a_bytes_append fnv1a_bytes.simps fnv1a_bytes_inj not_False_eq_True)
qed

section \<open>A sealed file with one byte changed\<close>

lemma header_parts: "length snapshot_header = 12" "take 8 snapshot_header = [80, 69, 82, 71, 82, 69, 80, 0]"
  "drop 8 snapshot_header = put_le32 kPortableIndexVersion"
  by (simp_all add: snapshot_header_def le32.length_put)

lemma version_word: "le_word (put_le32 n) = (of_nat n :: u32)"
  by (simp add: put_le32_def le_word_bytes take_bit_word_eq_self)

text \<open>A file with an intact header and any body and trailer: what the loader reads before it decodes.\<close>

lemma sealed_parts:
  assumes "length tr = 8"
  shows "length (snapshot_header @ body @ tr) = length body + 20"
    "take 8 (snapshot_header @ body @ tr) = [80, 69, 82, 71, 82, 69, 80, 0]"
    "file_version (snapshot_header @ body @ tr) = kPortableIndexVersion"
    "take (length body) (drop 12 (snapshot_header @ body @ tr)) = body"
    "stored_checksum (snapshot_header @ body @ tr) = le_word tr"
    "drop 12 (snapshot_header @ body @ tr) = body @ tr"
  using assms header_parts
  by (simp_all add: file_version_def stored_checksum_def le32.length_put version_word kPortableIndexVersion_def)

lemma wrong_checksum_rejected:
  assumes "length tr = 8" "length body + 20 \<le> kMaxSnapshotBytes" "le_word tr \<noteq> fnv1a_bytes fnv_offset body"
  shows "load_bytes ident source e aware (snapshot_header @ body @ tr) = Inl (index_error ''checksum mismatch'')"
  using assms sealed_parts [OF assms(1), of body]
  by (simp add: load_bytes_def Let_def)

lemma put_word64_inj: "(le_word (put_word64 w) :: u64) = w"
  by (simp add: put_word64_def le_word_bytes take_bit_word_eq_self)

lemma bit_le_word:
  "bit (le_word bs :: 'a::len word) n \<longleftrightarrow> n < LENGTH('a) \<and> n div 8 < length bs \<and> bit (bs ! (n div 8)) (n mod 8)"
proof (induction bs arbitrary: n)
  case (Cons b bs)
  show ?case
  proof (cases "n < 8")
    case True
    then show ?thesis by (auto simp: bit_simps)
  next
    case False
    then have d: "n div 8 = Suc ((n - 8) div 8)" "n mod 8 = (n - 8) mod 8"
      by (simp_all add: le_div_geq le_mod_geq)
    have "\<not> bit b n" using False by (auto dest: bit_imp_le_length)
    then show ?thesis using False Cons.IH [of "n - 8"] by (auto simp: bit_simps d)
  qed
qed simp

lemma le_word_inj:
  assumes "length bs = length cs" "8 * length bs \<le> LENGTH('a)" "(le_word bs :: 'a::len word) = le_word cs"
  shows "bs = cs"
proof (rule nth_equalityI)
  fix k assume k: "k < length bs"
  show "bs ! k = cs ! k"
  proof (rule bit_word_eqI)
    fix j assume "j < LENGTH(8)"
    then have j: "j < 8" by simp
    have "bit (le_word bs :: 'a word) (8 * k + j) = bit (le_word cs :: 'a word) (8 * k + j)" using assms(3) by simp
    with j k assms(1,2) show "bit (bs ! k) j = bit (cs ! k) j" by (simp add: bit_le_word)
  qed
qed (rule assms)

text \<open>C19: A snapshot with any one changed byte after its header is rejected by the checksum.\<close>

theorem corrupted_byte_detected:
  assumes "length (seal body) \<le> kMaxSnapshotBytes" "12 \<le> k" "k < length (seal body)" "b \<noteq> seal body ! k"
  shows "load_bytes ident source e aware ((seal body)[k := b]) = Inl (index_error ''checksum mismatch'')"
proof -
  let ?tr = "put_word64 (fnv1a_bytes fnv_offset body)"
  have len: "length ?tr = 8" "length (seal body) = length body + 20" using header_parts(1) by (simp_all add: seal_def word64.length_put)
  have small: "length body + 20 \<le> kMaxSnapshotBytes" using assms(1) len by simp
  have upd: "(seal body)[k := b] = snapshot_header @ (body @ ?tr)[k - 12 := b]"
    using assms(2) header_parts(1) by (simp add: seal_def list_update_append)
  have old: "seal body ! k = (body @ ?tr) ! (k - 12)"
    using assms(2) header_parts(1) by (simp add: seal_def nth_append)
  show ?thesis
  proof (cases "k - 12 < length body")
    case True
    with assms(4) old have "fnv1a_bytes fnv_offset (body[k - 12 := b]) \<noteq> fnv1a_bytes fnv_offset body"
      by (intro fnv1a_bytes_update) (simp_all add: nth_append)
    with True upd small len show ?thesis
      by (simp add: list_update_append wrong_checksum_rejected put_word64_inj)
  next
    case False
    let ?j = "k - 12 - length body" and ?new = "?tr[k - 12 - length body := b]"
    have j: "?j < 8" using assms(2,3) len False by simp
    have "?new \<noteq> ?tr" using assms(4) old False j len(1) by (metis nth_append nth_list_update_eq)
    then have "(le_word ?new :: u64) \<noteq> le_word ?tr" using le_word_inj [where 'a = 64, of ?new ?tr] len(1) by auto
    with False upd small len show ?thesis
      by (simp add: list_update_append wrong_checksum_rejected put_word64_inj)
  qed
qed

end
