(* ===== verification/Snapshot_Correct.thy ===== *)
theory Snapshot_Correct
  imports Snapshot_Roundtrip Snapshot_Integrity
begin

text \<open>
  \<open>load\<close> after \<open>save\<close>: for an index with a persisted corpus whose tables fit the limits of the
  format, the file that \<open>save\<close> publishes loads, with any file system, to the same index.
\<close>

section \<open>Indexes the format can hold\<close>

definition storable_index :: "index_data \<Rightarrow> bool" where
  "storable_index I \<longleftrightarrow>
     wf_index I \<and> valid_index_options (ix_opt I) \<and> persist_corpus (ix_opt I) \<and>
     pos_block I = positional_block_bytes (ix_opt I) \<and> \<not> ephemeral I \<and> infos I = map fst (loaded I) \<and>
     (\<forall>(f, s) \<in> set (loaded I). fi_size f = length s \<and> storable_info f) \<and>
     corp_bytes I = sum_list (map fi_size (infos I)) \<and> corp_bytes I \<le> kMaxCorpusBytes \<and>
     length (ix_root I) \<le> kMaxString \<and> fits_i64 (root_mtime_ns I) \<and>
     length (infos I) \<le> kMaxFiles \<and> length (chunks I) \<le> kMaxChunks \<and> length (pos_bits I) \<le> kMaxVectorElems \<and>
     (\<forall>g \<in> set (groups I). length (g_bits g) \<le> kMaxVectorElems)"

text \<open>The fields a request may fix without contradicting the index.\<close>

definition consistent_request :: "index_data \<Rightarrow> cache_manifest \<Rightarrow> bool" where
  "consistent_request I q \<longleftrightarrow>
     \<not> differs (cm_source_root q) (ix_root I) \<and> \<not> differs (cm_corpus_files q) (length (infos I)) \<and>
     \<not> differs (cm_corpus_bytes q) (corp_bytes I)"

section \<open>The sections of the payload\<close>

lemma same_options_valid: "same_options a b \<Longrightarrow> valid_index_options b \<Longrightarrow> valid_index_options a"
  by (simp add: same_options_def valid_index_options_def fp_eq_def)

lemma same_options_sym: "same_options a b \<Longrightarrow> same_options b a"
  by (auto simp: same_options_def fp_eq_def)

lemma same_options_refl: "valid_index_options a \<Longrightarrow> same_options a a"
  by (auto simp: same_options_def valid_index_options_def fp_eq_def fp_finite_def)

lemma get_payload_ok:
  assumes "\<forall>(f, s) \<in> set ls. fi_size f = length s"
    and "tot + sum_list (map (fi_size \<circ> fst) ls) \<le> kMaxCorpusBytes"
  shows "get_payload tot (map fst ls) (concat (map (put_string \<circ> snd) ls) @ rest) =
           Inr ((ls, tot + sum_list (map (fi_size \<circ> fst) ls)), rest)"
  using assms
proof (induction ls arbitrary: tot)
  case (Cons x ls)
  obtain f s where x: "x = (f, s)" by fastforce
  have n: "length s < 2 ^ 64" "fi_size f = length s" "tot + length s \<le> kMaxCorpusBytes"
    using Cons.prems x by (auto simp: kMaxCorpusBytes_def)
  have rest: "get_payload (tot + length s) (map fst ls) (concat (map (put_string \<circ> snd) ls) @ rest) =
      Inr ((ls, tot + length s + sum_list (map (fi_size \<circ> fst) ls)), rest)"
    using Cons.prems n(2) x by (intro Cons.IH) auto
  have "u64_limit - tot \<ge> length s" using n(3) by (simp add: kMaxCorpusBytes_def u64_limit_def)
  moreover have "\<not> kMaxCorpusBytes - tot < length s" using n(3) by linarith
  moreover have "put_string s @ r = put_le64 (length s) @ s @ r" for r by (simp add: put_string_def)
  ultimately show ?case
    using n(1,2) rest by (simp add: x read_guard_def read_check_def read_bytes_def read_return_def add.assoc o_def)
qed (simp add: read_return_def)

lemma info_total_ok: "tot + sum_list (map fi_size fs) \<le> u64_limit \<Longrightarrow> info_total tot fs = Some (tot + sum_list (map fi_size fs))"
  by (induction fs arbitrary: tot) auto

lemma put_frequencies_read:
  "read_bind (read_times 256 (get_word 8)) (\<lambda>bf. read_bind (read_times 65536 (get_word 4)) (f bf)) (put_frequencies I @ rest) =
   f (map (\<lambda>i. byte_freq I (of_nat i)) [0 ..< 256]) (map (\<lambda>i. qgram_freq I (of_nat i)) [0 ..< 65536]) rest"
  unfolding put_frequencies_def append_assoc
  by (subst word64.bind_times, simp, simp, subst word32.bind_times, simp, simp, rule refl)

section \<open>The index sections\<close>

definition index_head_of :: "index_data \<Rightarrow> index_head" where
  "index_head_of I = \<lparr>ih_root = ix_root I, ih_opt = ix_opt I, ih_corp_bytes = corp_bytes I, ih_mtime = root_mtime_ns I,
     ih_byte_freq = map (\<lambda>i. byte_freq I (of_nat i)) [0 ..< 256],
     ih_qgram_freq = map (\<lambda>i. qgram_freq I (of_nat i)) [0 ..< 65536], ih_pos_block = pos_block I\<rparr>"

lemma index_head_of_simps [simp]:
  "ih_root (index_head_of I) = ix_root I" "ih_opt (index_head_of I) = ix_opt I"
  "ih_corp_bytes (index_head_of I) = corp_bytes I" "ih_mtime (index_head_of I) = root_mtime_ns I"
  "ih_byte_freq (index_head_of I) = map (\<lambda>i. byte_freq I (of_nat i)) [0 ..< 256]"
  "ih_qgram_freq (index_head_of I) = map (\<lambda>i. qgram_freq I (of_nat i)) [0 ..< 65536]"
  "ih_pos_block (index_head_of I) = pos_block I"
  by (simp_all add: index_head_of_def)

definition agrees :: "stored_manifest option \<Rightarrow> index_data \<Rightarrow> bool" where
  "agrees man I \<longleftrightarrow> (case man of None \<Rightarrow> True
     | Some m \<Rightarrow> same_options (ix_opt I) (sm_options m) \<and> ix_root I = sm_source_root m \<and>
                  corp_bytes I = sm_corpus_bytes m \<and> length (infos I) = sm_corpus_files m)"

lemma agreesD:
  assumes "agrees man I"
  shows "\<not> (case man of None \<Rightarrow> False | Some m \<Rightarrow> \<not> same_options (ix_opt I) (sm_options m))"
    "\<not> (case man of None \<Rightarrow> False | Some m \<Rightarrow> ix_root I \<noteq> sm_source_root m)"
    "\<not> (case man of None \<Rightarrow> False | Some m \<Rightarrow> corp_bytes I \<noteq> sm_corpus_bytes m)"
    "\<not> (case man of None \<Rightarrow> False | Some m \<Rightarrow> length (infos I) \<noteq> sm_corpus_files m)"
  using assms by (auto simp: agrees_def split: option.splits)

lemma get_head_ok:
  assumes "storable_index I" "agrees man I"
  shows "get_head True man (put_string (ix_root I) @ put_options (ix_opt I) @ put_le64 (corp_bytes I) @
           put_le_i64 (root_mtime_ns I) @ put_frequencies I @ put_le32 (pos_block I) @ rest) = Inr (index_head_of I, rest)"
proof -
  have I: "valid_index_options (ix_opt I)" "persist_corpus (ix_opt I)" "corp_bytes I < 2 ^ 64" "length (ix_root I) \<le> kMaxString"
    "fits_i64 (root_mtime_ns I)" "pos_block I = positional_block_bytes (ix_opt I)" "pos_block I < 2 ^ 32"
    using assms(1) by (auto simp: storable_index_def kMaxCorpusBytes_def valid_index_options_def)
  show ?thesis
    unfolding get_head_def
    using I agreesD [OF assms(2)]
    by (simp add: read_guard_def put_frequencies_read read_return_def index_head_of_def)
qed

lemma get_infos_ok:
  assumes "storable_index I" "agrees man I"
  shows "get_infos (index_head_of I) man (put_le64 (length (infos I)) @ concat (map put_info (infos I)) @ rest) = Inr (infos I, rest)"
proof -
  have I: "length (infos I) \<le> kMaxFiles" "\<forall>f \<in> set (infos I). storable_info f" "corp_bytes I \<le> kMaxCorpusBytes"
    "corp_bytes I = sum_list (map fi_size (infos I))"
    using assms(1) by (auto simp: storable_index_def)
  have left: "\<not> (length (concat (map put_info (infos I))) + length rest) div 25 < length (infos I)"
    using length_concat_ge [of 25 put_info "infos I", OF put_sizes(1)]
    by (simp add: not_less less_eq_div_iff_mult_less_eq)
  have tot: "info_total 0 (infos I) = Some (corp_bytes I)"
    using I(3,4) info_total_ok [of 0 "infos I"] by (simp add: kMaxCorpusBytes_def u64_limit_def)
  have n: "length (infos I) < 2 ^ 64" using I(1) by (simp add: kMaxFiles_def)
  show ?thesis
    using I(1-3) n left tot assms(2)
    by (cases man) (simp_all add: get_infos_def read_check_def read_guard_def read_return_def agrees_def)
qed

lemma storable_size:
  assumes "storable_index I" "f \<in> set (infos I)"
  shows "fi_size f \<le> kMaxCorpusBytes"
proof -
  have "fi_size f \<le> sum_list (map fi_size (infos I))" using assms(2) by (intro member_le_sum_list) auto
  moreover have "corp_bytes I = sum_list (map fi_size (infos I))" "corp_bytes I \<le> kMaxCorpusBytes"
    using assms(1) by (auto simp: storable_index_def)
  ultimately show ?thesis by linarith
qed

lemma wf_layout:
  assumes "storable_index I"
  shows "chunks I = concat (map (\<lambda>fid. file_chunks (chunk_bytes (ix_opt I)) (chunk_overlap (ix_opt I)) fid
           (fi_size (infos I ! fid))) [0 ..< length (infos I)])"
proof -
  have "length (content I fid) = fi_size (infos I ! fid)" if "fid < length (infos I)" for fid
    using assms that by (auto simp: storable_index_def content_def split_beta)
  then show ?thesis
    using assms by (auto simp: storable_index_def wf_index_def layout_chunks_def intro!: arg_cong [where f = concat])
qed

lemma storable_chunks: "storable_index I \<Longrightarrow> z \<in> set (chunks I) \<Longrightarrow> storable_chunk z"
proof -
  assume I: "storable_index I" and z: "z \<in> set (chunks I)"
  then obtain fid where fid: "fid < length (infos I)"
    "z \<in> set (file_chunks (chunk_bytes (ix_opt I)) (chunk_overlap (ix_opt I)) fid (fi_size (infos I ! fid)))"
    unfolding wf_layout [OF I] by auto
  then have "fi_size (infos I ! fid) \<le> kMaxCorpusBytes" using storable_size [OF I] by simp
  moreover have "length (infos I) \<le> kMaxFiles" using I unfolding storable_index_def by blast
  ultimately show ?thesis
    using fid(1) file_chunks_members [OF fid(2)] by (simp add: storable_chunk_def kMaxFiles_def kMaxCorpusBytes_def)
qed

lemma get_chunks_ok:
  assumes "storable_index I"
  shows "get_chunks (index_head_of I) (infos I) (put_le64 (length (chunks I)) @ concat (map put_chunk (chunks I)) @ rest) = Inr (chunks I, rest)"
proof -
  let ?n = "length (infos I)"
  have I: "length (chunks I) \<le> kMaxChunks" "\<forall>z \<in> set (chunks I). storable_chunk z"
    using assms storable_chunks by (auto simp: storable_index_def)
  have left: "\<not> (length (concat (map put_chunk (chunks I))) + length rest) div 28 < length (chunks I)"
    using length_concat_ge [of 28 put_chunk "chunks I"] put_sizes(2)
    by (simp add: not_less less_eq_div_iff_mult_less_eq)
  have n: "length (chunks I) < 2 ^ 64" using I(1) by (simp add: kMaxChunks_def)
  have sized: "\<forall>f \<in> set (infos I). chunk_sized (ix_opt I) (fi_size f)"
    using assms storable_size by (auto simp: storable_index_def chunk_sized_def)
  have "\<exists>next' seen'. check_chunks (ix_opt I) (infos I) None (replicate ?n 0) (replicate ?n False) (chunks I) = Inr (next', seen') \<and>
      (\<forall>fid < ?n. seen' ! fid \<and> next' ! fid = fi_size (infos I ! fid))"
    unfolding wf_layout [OF assms] by (rule check_layout) (use sized in auto)
  then obtain next' seen' where ok: "check_chunks (ix_opt I) (infos I) None (replicate ?n 0) (replicate ?n False) (chunks I) = Inr (next', seen')"
    "\<not> (\<exists>fid < ?n. \<not> seen' ! fid \<or> next' ! fid \<noteq> fi_size (infos I ! fid))" by blast
  show ?thesis
    using I n left ok
    by (simp add: get_chunks_def read_check_def read_guard_def read_return_def)
qed

lemma pos_total: "wf_index I \<Longrightarrow> snd (layout_pos I 0 (chunks I)) = length (pos_bits I)"
  by (simp add: wf_index_def fold_mark_positional)

lemma storable_pos_descs:
  assumes "storable_index I" "d \<in> set (pos_descs I)"
  shows "storable_pos_desc d"
proof -
  have I: "wf_index I" "length (pos_bits I) \<le> kMaxVectorElems" using assms(1) by (auto simp: storable_index_def)
  then have ds: "pos_descs I = fst (layout_pos I 0 (chunks I))" by (simp add: wf_index_def)
  from assms(2) obtain ci where ci: "ci < length (chunks I)" "d = fst (layout_pos I 0 (chunks I)) ! ci"
    unfolding ds by (auto simp: in_set_conv_nth)
  from layout_pos_nth [OF ci(1), of I 0] ci(2) obtain o' where
    d: "d = make_pos_desc I o' (chunks I ! ci)" "desc_end d \<le> snd (layout_pos I 0 (chunks I))" by auto
  have off: "pd_off d + pd_m d * pd_mask_bytes d \<le> kMaxVectorElems"
    using d(2) I(2) pos_total [OF I(1)] by (simp add: desc_end_def)
  have m: "pd_m d \<in> {64, 128, 256, 512, 1024}" unfolding d(1) make_pos_desc_def Let_def by (simp only: pos_desc.simps choose_m_cases)
  then have m': "pd_m d < 2 ^ 16" "1 * pd_mask_bytes d \<le> pd_m d * pd_mask_bytes d" by (auto intro: mult_le_mono1)
  then have "pd_mask_bytes d \<le> kMaxVectorElems" "pd_off d \<le> kMaxVectorElems" using off by linarith+
  moreover have "pd_blocks d \<le> 8 * pd_mask_bytes d" using make_pos_desc_shape(3) [of I o' "chunks I ! ci"] d(1) by simp
  ultimately show ?thesis using m'(1) by (simp add: storable_pos_desc_def kMaxVectorElems_def)
qed

lemma get_positional_ok:
  assumes "storable_index I"
  shows "get_positional (index_head_of I) (chunks I)
           (put_le64 (length (pos_descs I)) @ concat (map put_pos_desc (pos_descs I)) @ put_vector put_u8 (map unat (pos_bits I)) @ rest) =
         Inr ((pos_descs I, pos_bits I), rest)"
proof -
  have I: "wf_index I" "length (chunks I) \<le> kMaxChunks" "length (pos_bits I) \<le> kMaxVectorElems"
    using assms by (auto simp: storable_index_def)
  then have ds: "pos_descs I = fst (layout_pos I 0 (chunks I))" by (simp add: wf_index_def)
  then have len: "length (pos_descs I) = length (chunks I)" by simp
  have left: "\<not> (length (concat (map put_pos_desc (pos_descs I))) + r) div 18 < length (pos_descs I)" for r
    using length_concat_ge [of 18 put_pos_desc "pos_descs I"] put_sizes(3)
    by (simp add: not_less less_eq_div_iff_mult_less_eq)
  have n: "length (pos_descs I) < 2 ^ 64" "length (pos_descs I) \<le> kMaxPosDesc"
    using I(2) len by (simp_all add: kMaxChunks_def kMaxPosDesc_def)
  have chk: "check_pos_descs (pos_block I) (length (pos_bits I)) 0 (zip (chunks I) (pos_descs I)) = Some (length (pos_bits I))"
    using check_pos_layout [of I 0 "chunks I" "length (pos_bits I)"] pos_total [OF I(1)] I(3) ds
    by (simp add: kMaxVectorElems_def u64_limit_def)
  have "unat (b :: byte) < 256" for b using unsigned_less [of b] by simp
  then have "\<forall>x \<in> set (map unat (pos_bits I)). x < 2 ^ 8" by auto
  then have vec: "get_vector 1 get_u8 (put_vector put_u8 (map unat (pos_bits I)) @ rest) = Inr (map unat (pos_bits I), rest)"
    using I(3) by (intro vec_u8.get_put) simp
  show ?thesis
    using n left chk len vec storable_pos_descs [OF assms]
    by (simp add: get_positional_def read_check_def read_guard_def read_return_def o_def)
qed

lemma get_corpus_ok:
  assumes "storable_index I" "agrees man I"
  shows "get_corpus source True (index_head_of I) man (infos I) (concat (map (put_string \<circ> snd) (loaded I)) @ rest) = Inr (loaded I, rest)"
proof -
  have I: "infos I = map fst (loaded I)" "\<forall>(f, s) \<in> set (loaded I). fi_size f = length s"
    "corp_bytes I = sum_list (map fi_size (infos I))" "corp_bytes I \<le> kMaxCorpusBytes"
    using assms(1) by (auto simp: storable_index_def)
  have sum: "corp_bytes I = sum_list (map (fi_size \<circ> fst) (loaded I))" using I(1,3) by (simp add: o_def)
  have "get_payload 0 (infos I) (concat (map (put_string \<circ> snd) (loaded I)) @ rest) = Inr ((loaded I, corp_bytes I), rest)"
    unfolding I(1) sum by (rule get_payload_ok [where tot = 0, simplified]) (use I sum in auto)
  then show ?thesis
    using agreesD(3) [OF assms(2)] by (cases man) (simp_all add: get_corpus_def read_guard_def read_return_def)
qed

lemma get_index_ok:
  assumes "storable_index I" "agrees man I"
  shows "get_index source True man (snapshot_payload I @ rest) =
         Inr (assemble (index_head_of I) (infos I) (chunks I) (groups I) (pos_descs I) (pos_bits I) (loaded I), rest)"
proof -
  have I: "wf_index I" "length (chunks I) \<le> kMaxChunks" "\<forall>g \<in> set (groups I). length (g_bits g) \<le> kMaxVectorElems" "persist_corpus (ix_opt I)"
    using assms(1) by (auto simp: storable_index_def)
  show ?thesis
    unfolding get_index_def snapshot_payload_def append_assoc
    by (subst read_bind_simps(2), rule get_head_ok [OF assms], subst read_bind_simps(2), rule get_infos_ok [OF assms],
        subst read_bind_simps(2), rule get_chunks_ok [OF assms(1)], subst read_bind_simps(2), rule get_all_groups_ok [OF I(1-3)],
        subst read_bind_simps(2), rule get_positional_ok [OF assms(1)])
      (simp add: I(4) get_corpus_ok [OF assms] read_return_def)
qed

lemma differs_or_else [simp]: "\<not> differs x (or_else x d)"
  by (cases x) (simp_all add: differs_def or_else_def)

lemma or_else_Some: "or_else (Some y) d = y"
  by (simp add: or_else_def)

lemma resolve_manifestD:
  assumes "resolve_manifest ident I q = Inr m"
  shows "sm_options m = or_else (cm_options q) (ix_opt I)" "\<And>o'. cm_options q = Some o' \<Longrightarrow> same_options o' (ix_opt I)"
    "\<not> differs (cm_schema q) kManifestSchema"
    "sm_source_root m = or_else (cm_source_root q) (ix_root I)"
    "sm_corpus_files m = or_else (cm_corpus_files q) (length (infos I))"
    "sm_corpus_bytes m = or_else (cm_corpus_bytes q) (corp_bytes I)"
    "\<not> differs (cm_source_identity q) (sm_source_identity m)" "\<not> differs (cm_selector q) (sm_selector m)"
    "\<not> differs (cm_transform q) (sm_transform m)" "\<not> differs (cm_generation q) (sm_generation m)"
    "\<not> differs (cm_source_root q) (sm_source_root m)" "\<not> differs (cm_corpus_files q) (sm_corpus_files m)"
    "\<not> differs (cm_corpus_bytes q) (sm_corpus_bytes m)"
proof -
  have sc: "\<not> (cm_schema q \<noteq> None \<and> cm_schema q \<noteq> Some kManifestSchema)"
    and op: "\<not> (case cm_options q of None \<Rightarrow> False | Some o' \<Rightarrow> \<not> same_options o' (ix_opt I))"
    using assms by (auto simp: resolve_manifest_def split: if_splits)
  show "\<not> differs (cm_schema q) kManifestSchema" using sc by (auto simp: differs_def)
  show "\<And>o'. cm_options q = Some o' \<Longrightarrow> same_options o' (ix_opt I)" using op by simp
  note m = assms [unfolded resolve_manifest_def if_not_P [OF sc] if_not_P [OF op] sum.inject(2), symmetric]
  show "sm_options m = or_else (cm_options q) (ix_opt I)" "sm_source_root m = or_else (cm_source_root q) (ix_root I)"
    "sm_corpus_files m = or_else (cm_corpus_files q) (length (infos I))"
    "sm_corpus_bytes m = or_else (cm_corpus_bytes q) (corp_bytes I)"
    "\<not> differs (cm_source_identity q) (sm_source_identity m)" "\<not> differs (cm_selector q) (sm_selector m)"
    "\<not> differs (cm_transform q) (sm_transform m)" "\<not> differs (cm_generation q) (sm_generation m)"
    "\<not> differs (cm_source_root q) (sm_source_root m)" "\<not> differs (cm_corpus_files q) (sm_corpus_files m)"
    "\<not> differs (cm_corpus_bytes q) (sm_corpus_bytes m)"
    by (simp_all add: m)
qed

definition planner_reset :: "index_data \<Rightarrow> index_data" where
  "planner_reset I = I\<lparr>exact_qgrams := [], hash_chunk_freq := (\<lambda>_. 0), hash_chunk_ids := (\<lambda>_. []), planner_stats_ready := False\<rparr>"

lemma rebuild_cong: "planner_reset I = planner_reset J \<Longrightarrow> rebuild_planner_stats I = rebuild_planner_stats J"
  by (simp only: rebuild_planner_stats_def planner_reset_def)

lemma assemble_same:
  assumes "storable_index I"
  shows "rebuild_planner_stats (assemble (index_head_of I) (infos I) (chunks I) (groups I) (pos_descs I) (pos_bits I) (loaded I)) =
         rebuild_planner_stats (I\<lparr>segment_count := 0, appended_bytes := 0\<rparr>)"
proof -
  have "unat (b :: byte) < 256" for b using unsigned_less [of b] by simp
  moreover have "unat (b :: u16) < 65536" for b using unsigned_less [of b] by simp
  ultimately have freq: "(\<lambda>b. map (\<lambda>i. byte_freq I (of_nat i)) [0 ..< 256] ! unat b) = byte_freq I"
    "(\<lambda>b. map (\<lambda>i. qgram_freq I (of_nat i)) [0 ..< 65536] ! unat b) = qgram_freq I"
    by (simp_all add: fun_eq_iff)
  have "\<not> ephemeral I" using assms by (simp add: storable_index_def)
  then have "planner_reset (assemble (index_head_of I) (infos I) (chunks I) (groups I) (pos_descs I) (pos_bits I) (loaded I)) =
      planner_reset (I\<lparr>segment_count := 0, appended_bytes := 0\<rparr>)"
    unfolding assemble_def index_head_of_simps freq planner_reset_def empty_index_data_def by simp
  then show ?thesis by (rule rebuild_cong)
qed

lemma save_load_index:
  assumes "storable_index I" "consistent_request I q"
    and "save_bytes ident I q = Inr file" "length file \<le> kMaxSnapshotBytes"
  shows "load_bytes ident' source q aware file = Inr (rebuild_planner_stats (I\<lparr>segment_count := 0, appended_bytes := 0\<rparr>))"
proof -
  from assms(3) obtain m where m: "resolve_manifest ident I q = Inr m" and f: "file = seal (snapshot_body m I)"
    by (auto simp: save_bytes_def split: sum.splits)
  have I: "valid_index_options (ix_opt I)" "persist_corpus (ix_opt I)" "length (ix_root I) \<le> kMaxString"
    "length (infos I) < 2 ^ 64" "corp_bytes I < 2 ^ 64"
    using assms(1) by (auto simp: storable_index_def kMaxFiles_def kMaxCorpusBytes_def)
  note r = resolve_manifestD [OF m]
  have same: "same_options (sm_options m) (ix_opt I)"
    using r(1,2) I(1) by (auto simp: or_else_def same_options_refl split: option.splits)
  have rest: "sm_source_root m = ix_root I" "sm_corpus_files m = length (infos I)" "sm_corpus_bytes m = corp_bytes I"
    using r(4,5,6) assms(2) by (auto simp: consistent_request_def or_else_def differs_def split: option.splits)
  have st: "storable_manifest m"
    using same_options_valid [OF same I(1)] I rest by (simp add: storable_manifest_def)
  have ag: "agrees (Some m) I" using same_options_sym [OF same] rest by (simp add: agrees_def)
  have mm: "manifest_mismatch kManifestSchema q m = None"
    using r same_options_refl [OF same_options_valid [OF same I(1)]]
    by (auto simp: manifest_mismatch_def or_else_Some split: option.splits)
  have flags: "feature_flags I = 3" using I(2) by (simp add: feature_flags_def)
  let ?tr = "put_word64 (fnv1a_bytes fnv_offset (snapshot_body m I))"
  have pre: "get_preamble ident' q aware kPortableIndexVersion (snapshot_body m I @ ?tr) =
      Inr ((True, Some m), snapshot_payload I @ ?tr)"
    unfolding snapshot_body_def append_assoc get_preamble_def flags
    using st mm by (simp add: Let_def read_guard_def check_manifest_def read_return_def kManifestSchema_def)
  have tr: "length ?tr = 8" by (rule word64.length_put)
  have "file = snapshot_header @ snapshot_body m I @ ?tr" by (simp add: f seal_def)
  then show ?thesis
    using assms(4) sealed_parts [OF tr, of "snapshot_body m I"] pre get_index_ok [OF assms(1) ag, of source ?tr] tr
    by (simp add: load_bytes_def Let_def put_word64_inj assemble_same [OF assms(1)])
qed

text \<open>C16: Whatever identity fields the request sets, the published file satisfies the same request, on
  any later file system.\<close>

theorem save_load_roundtrip:
  assumes "storable_index I" "consistent_request I q"
    and "save_bytes ident I q = Inr file" "length file \<le> kMaxSnapshotBytes"
  shows "load_bytes ident' source q aware file = Inr (rebuild_planner_stats (I\<lparr>segment_count := 0, appended_bytes := 0\<rparr>))"
  by (rule save_load_index [OF assms])

end
