(* ===== verification/Index_Build.thy ===== *)
theory Index_Build
  imports Snapshot_Correct
begin

text \<open>
  \<open>Index::build\<close>, \<open>Index::append\<close> and the compaction bounds of \<open>index.cpp\<close>.  The directory
  traversal is a parameter: the list of regular files it visits, in path order, each with its
  modification time and the bytes reading it gives (\<open>None\<close> when it cannot be opened).
\<close>

section \<open>Building from a tree\<close>

record source_file =
  sf_path :: bytes
  sf_mtime_ns :: int
  sf_data :: "bytes option"

datatype root_kind = Missing_root | Not_a_directory | Directory

definition source_info :: "source_file \<Rightarrow> bytes \<Rightarrow> file_info" where
  "source_info f s = \<lparr>fi_path = sf_path f, fi_size = length s, fi_mtime_ns = sf_mtime_ns f, fi_binary = looks_binary s\<rparr>"

definition add_source :: "index_data \<Rightarrow> source_file \<Rightarrow> index_data result" where
  "add_source I f =
     (case sf_data f of None \<Rightarrow> Inr I
      | Some s \<Rightarrow>
          if length s > kMaxCorpusBytes - min (corp_bytes I) kMaxCorpusBytes
          then Inl (Runtime_error ''index corpus exceeds 1 GiB limit'')
          else Inr (I\<lparr>corp_bytes := corp_bytes I + length s,
                      byte_freq := count_bytes (byte_freq I) s,
                      qgram_freq := count_qgrams (qgram_freq I) s,
                      infos := infos I @ [source_info f s], loaded := loaded I @ [(source_info f s, s)]\<rparr>))"

fun add_sources :: "index_data \<Rightarrow> source_file list \<Rightarrow> index_data result" where
  "add_sources I [] = Inr I"
| "add_sources I (f # fs) = (case add_source I f of Inl e \<Rightarrow> Inl e | Inr I' \<Rightarrow> add_sources I' fs)"

text \<open>A provider that cannot be attached keeps the bytes read while indexing.\<close>

definition attach_providers :: "(file_info \<Rightarrow> bytes result) \<Rightarrow> (file_info \<times> bytes) list \<Rightarrow> (file_info \<times> bytes) list" where
  "attach_providers source = map (\<lambda>(f, s). (f, case source f of Inr s' \<Rightarrow> s' | Inl e \<Rightarrow> s))"

definition build_start :: "bytes \<Rightarrow> int \<Rightarrow> index_options \<Rightarrow> index_data" where
  "build_start root' mt opt =
     empty_index_data\<lparr>ix_root := root', ix_opt := opt, pos_block := positional_block_bytes opt, root_mtime_ns := mt\<rparr>"

definition index_build ::
  "(bytes \<Rightarrow> file_info \<Rightarrow> bytes result) \<Rightarrow> root_kind \<Rightarrow> bytes \<Rightarrow> int \<Rightarrow> source_file list \<Rightarrow> index_options \<Rightarrow> index_data result" where
  "index_build source kind root' mt fs opt =
     (case validate_index_options opt of Inl e \<Rightarrow> Inl e
      | Inr _ \<Rightarrow>
          if kind = Missing_root then Inl (Runtime_error ''pergrep: root path does not exist'')
          else if kind = Not_a_directory then Inl (Runtime_error ''pergrep: root path is not a directory'')
          else (case add_sources (build_start root' mt opt) fs of
             Inl e \<Rightarrow> Inl e
           | Inr I \<Rightarrow>
               let J = materialize_index_filters I
               in Inr (if persist_corpus opt then J else J\<lparr>loaded := attach_providers (source root') (loaded J)\<rparr>)))"

section \<open>Appending a segment\<close>

record segment_manifest =
  sg_paths :: "bytes list"
  sg_tombstones :: "bytes list"
  sg_source_identity :: u64
  sg_generation :: u64
  sg_corpus_files :: nat
  sg_corpus_bytes :: nat

definition base_documents :: "index_data \<Rightarrow> bytes list \<Rightarrow> document list" where
  "base_documents I dead =
     map (\<lambda>i. \<lparr>doc_path = fi_path (infos I ! i), doc_content = content I i\<rparr>)
       (filter (\<lambda>i. fi_path (infos I ! i) \<notin> set dead) [0 ..< length (infos I)])"

definition tombstoned_bytes :: "index_data \<Rightarrow> bytes list \<Rightarrow> nat" where
  "tombstoned_bytes I dead = sum_list (map fi_size (filter (\<lambda>f. fi_path f \<in> set dead) (infos I)))"

fun apply_change :: "document list \<Rightarrow> document \<Rightarrow> document list" where
  "apply_change [] c = [c]"
| "apply_change (m # ms) c = (if doc_path m = doc_path c then m\<lparr>doc_content := doc_content c\<rparr> # ms else m # apply_change ms c)"

definition index_append :: "index_data \<Rightarrow> document list \<Rightarrow> segment_manifest \<Rightarrow> index_options \<Rightarrow> index_data result" where
  "index_append base changed man opt =
     (case validate_index_options opt of Inl e \<Rightarrow> Inl e
      | Inr _ \<Rightarrow>
          if infos base = [] \<and> changed = [] then from_documents [] opt
          else let merged = foldl apply_change (base_documents base (sg_tombstones man)) changed;
                   delta = sum_list (map (length \<circ> doc_content) changed) + tombstoned_bytes base (sg_tombstones man);
                   total_bytes = sum_list (map (length \<circ> doc_content) merged)
               in if sg_corpus_files man \<noteq> 0 \<and> sg_corpus_files man \<noteq> length merged
                  then Inl (Runtime_error ''pergrep: segment manifest corpus_files mismatch'')
                  else if sg_corpus_bytes man \<noteq> 0 \<and> sg_corpus_bytes man \<noteq> total_bytes
                  then Inl (Runtime_error ''pergrep: segment manifest corpus_bytes mismatch'')
                  else (case from_documents merged opt of Inl e \<Rightarrow> Inl e
                        | Inr I \<Rightarrow> Inr (I\<lparr>segment_count := segment_count base + 1,
                                          appended_bytes := appended_bytes base + delta\<rparr>)))"

section \<open>Compaction\<close>

definition kMaxSegmentFanout :: nat where "kMaxSegmentFanout = 64"
definition kCompactionByteRatio :: fp where "kCompactionByteRatio = Fin (1 / 4)"

definition should_compact :: "nat \<Rightarrow> nat \<Rightarrow> nat \<Rightarrow> bool" where
  "should_compact corpus segments appended \<longleftrightarrow>
     (if kMaxSegmentFanout < segments then True
      else corpus \<noteq> 0 \<and> fp_trunc (fp_mul (fp_of_nat corpus) kCompactionByteRatio) < appended)"

definition read_amplification :: "index_data \<Rightarrow> fp" where
  "read_amplification I = (if corp_bytes I \<noteq> 0 then fp_div (fp_of_nat (appended_bytes I)) (fp_of_nat (corp_bytes I)) else Fin 0)"

text \<open>C32: while a corpus has fewer than \<open>2 ^ 53\<close> bytes, the floating-point test of the compaction
  policy is the exact integer one.\<close>

theorem should_compact_exact:
  assumes "corpus < 2 ^ 53"
  shows "should_compact corpus segments appended \<longleftrightarrow> 64 < segments \<or> (corpus \<noteq> 0 \<and> corpus div 4 < appended)"
proof -
  have "fp_mul (fp_of_nat corpus) (Fin (1 / 4)) = Fin (of_nat corpus / 4)"
    using fp_of_nat_exact [OF assms] fp_round_dyadic [OF assms, of 2] by simp
  moreover have "nat \<lfloor>rat_of_nat corpus / 4\<rfloor> = corpus div 4"
    using floor_divide_of_nat_eq [of corpus 4, where 'a = rat] by simp
  ultimately show ?thesis
    by (simp add: should_compact_def kMaxSegmentFanout_def kCompactionByteRatio_def fp_trunc_def)
qed

theorem should_compact_exact_witness: "should_compact 400 2 101 \<and> \<not> should_compact 400 2 100"
  using should_compact_exact [of 400 2 101] should_compact_exact [of 400 2 100] by simp

section \<open>The merged view of an append\<close>

text \<open>What a path shows in a list of documents: the first document with this path.\<close>

definition doc_lookup :: "document list \<Rightarrow> bytes \<Rightarrow> bytes option" where
  "doc_lookup ds p = map_option doc_content (List.find (\<lambda>d. doc_path d = p) ds)"

definition index_lookup :: "index_data \<Rightarrow> bytes \<Rightarrow> bytes option" where
  "index_lookup I p = map_of (map (\<lambda>(f, s). (fi_path f, s)) (loaded I)) p"

lemma doc_lookup_simps [simp]:
  "doc_lookup [] p = None"
  "doc_lookup (d # ds) p = (if doc_path d = p then Some (doc_content d) else doc_lookup ds p)"
  by (simp_all add: doc_lookup_def)

lemma apply_change_lookup: "doc_lookup (apply_change ms c) p = (if p = doc_path c then Some (doc_content c) else doc_lookup ms p)"
  by (induction ms c rule: apply_change.induct) auto

lemma apply_change_paths:
  "set (map doc_path (apply_change ms c)) = insert (doc_path c) (set (map doc_path ms))"
  "distinct (map doc_path ms) \<Longrightarrow> distinct (map doc_path (apply_change ms c))"
proof -
  show paths: "set (map doc_path (apply_change ms c)) = insert (doc_path c) (set (map doc_path ms))" for ms c
    by (induction ms c rule: apply_change.induct) auto
  show "distinct (map doc_path ms) \<Longrightarrow> distinct (map doc_path (apply_change ms c))"
    by (induction ms c rule: apply_change.induct) (use paths in \<open>auto simp: image_iff\<close>)
qed

lemma apply_changes_lookup:
  "doc_lookup (foldl apply_change ms cs) p =
     (case List.find (\<lambda>d. doc_path d = p) (rev cs) of Some c \<Rightarrow> Some (doc_content c) | None \<Rightarrow> doc_lookup ms p)"
proof (induction cs rule: rev_induct)
  case (snoc c cs)
  then show ?case by (auto simp: apply_change_lookup split: option.splits)
qed simp

lemma apply_changes_distinct: "distinct (map doc_path ms) \<Longrightarrow> distinct (map doc_path (foldl apply_change ms cs))"
  by (induction cs arbitrary: ms) (simp_all add: apply_change_paths)

lemma wf_index_cong:
  assumes "loaded I = loaded J" "ix_opt I = ix_opt J" "infos I = infos J" "chunks I = chunks J" "groups I = groups J"
    "pos_descs I = pos_descs J" "pos_bits I = pos_bits J" "pos_block I = pos_block J"
  shows "wf_index I = wf_index J"
  using assms layout_chunks_cong [OF assms(1,2)] build_groups_cong [OF assms(1,4)] layout_pos_cong [OF assms(2,8)]
    mark_positional_cong [OF assms(1,4,6,8)]
  by (simp add: wf_index_def)

lemma doc_lookup_map_of: "doc_lookup ds = map_of (map (\<lambda>d. (doc_path d, doc_content d)) ds)"
  by (induction ds) auto

lemma distinct_sorted_paths: "distinct (map doc_path ds) \<Longrightarrow> distinct (map doc_path (sort_key doc_path ds))"
  by (simp add: distinct_map)

lemma doc_lookup_sorted: "distinct (map doc_path ds) \<Longrightarrow> doc_lookup (sort_key doc_path ds) = doc_lookup ds"
proof -
  assume d: "distinct (map doc_path ds)"
  then have "distinct (map doc_path (sort_key doc_path ds))" by (rule distinct_sorted_paths)
  then show ?thesis
    unfolding doc_lookup_map_of using d by (intro map_of_inject_set [THEN iffD2]) (simp_all add: o_def)
qed

lemma index_lookup_documents:
  assumes "from_documents ds opt = Inr I" "distinct (map doc_path ds)"
  shows "index_lookup I = doc_lookup ds"
proof -
  have "map (\<lambda>(f, s). (fi_path f, s)) (loaded I) = map (\<lambda>d. (doc_path d, doc_content d)) (sort_key doc_path ds)"
    using from_documents_frame [OF assms(1)] by (simp add: document_info_def)
  then show ?thesis
    unfolding index_lookup_def using doc_lookup_sorted [OF assms(2)] by (auto simp: doc_lookup_map_of fun_eq_iff)
qed

lemma base_documents_lookup:
  assumes "map fst (loaded I) = infos I"
  shows "doc_lookup (base_documents I dead) p = (if p \<in> set dead then None else index_lookup I p)"
proof -
  have doc: "\<lparr>doc_path = fi_path (infos I ! i), doc_content = content I i\<rparr> = (\<lambda>(f, s). \<lparr>doc_path = fi_path f, doc_content = s\<rparr>) (loaded I ! i)"
    and pth: "fi_path (infos I ! i) = fi_path (fst (loaded I ! i))" if "i < length (infos I)" for i
    using that arg_cong [OF assms, of length] by (simp_all add: content_def split_beta flip: assms)
  have len: "length (infos I) = length (loaded I)" using arg_cong [OF assms, of length] by simp
  have "base_documents I dead = map (\<lambda>(f, s). \<lparr>doc_path = fi_path f, doc_content = s\<rparr>) (map ((!) (loaded I)) (filter (\<lambda>i. fi_path (fst (loaded I ! i)) \<notin> set dead) [0 ..< length (loaded I)]))"
    unfolding base_documents_def map_map len [symmetric]
    using doc pth by (intro map_cong filter_cong) auto
  also have "map ((!) (loaded I)) (filter (\<lambda>i. fi_path (fst (loaded I ! i)) \<notin> set dead) [0 ..< length (loaded I)]) =
      filter (\<lambda>x. fi_path (fst x) \<notin> set dead) (loaded I)"
    using filter_map [of "\<lambda>x. fi_path (fst x) \<notin> set dead" "(!) (loaded I)" "[0 ..< length (loaded I)]"]
    by (simp add: map_nth o_def)
  finally have b: "base_documents I dead = map (\<lambda>(f, s). \<lparr>doc_path = fi_path f, doc_content = s\<rparr>) (filter (\<lambda>x. fi_path (fst x) \<notin> set dead) (loaded I))" .
  have "doc_lookup (map (\<lambda>(f, s). \<lparr>doc_path = fi_path f, doc_content = s\<rparr>) (filter (\<lambda>x. fi_path (fst x) \<notin> set dead) ls)) p =
      (if p \<in> set dead then None else map_of (map (\<lambda>(f, s). (fi_path f, s)) ls) p)" for ls
    by (induction ls) auto
  then show ?thesis unfolding b index_lookup_def .
qed

lemma base_documents_distinct:
  assumes "distinct (map fi_path (infos I))"
  shows "distinct (map doc_path (base_documents I dead))"
proof -
  have "map doc_path (base_documents I dead) = map ((!) (map fi_path (infos I))) (filter (\<lambda>i. fi_path (infos I ! i) \<notin> set dead) [0 ..< length (infos I)])"
    by (auto simp: base_documents_def intro!: map_cong)
  moreover have "distinct \<dots>"
    using inj_on_nth [OF assms, of "set (filter (\<lambda>i. fi_path (infos I ! i) \<notin> set dead) [0 ..< length (infos I)])"]
    by (simp add: distinct_map)
  ultimately show ?thesis by simp
qed

text \<open>C23: an append shows, for every path, the last change of that path; a path without a change keeps
  what the base shows unless a tombstone removes it.\<close>

theorem append_lookup:
  assumes "index_append base changed man opt = Inr J"
    and "distinct (map fi_path (infos base))" "map fst (loaded base) = infos base"
  shows "index_lookup J p =
           (case List.find (\<lambda>d. doc_path d = p) (rev changed) of
              Some c \<Rightarrow> Some (doc_content c)
            | None \<Rightarrow> if p \<in> set (sg_tombstones man) then None else index_lookup base p) \<and>
         wf_index J \<and> distinct (map fi_path (infos J))"
proof (cases "infos base = [] \<and> changed = []")
  case True
  then have J: "from_documents [] opt = Inr J" using assms(1) by (auto simp: index_append_def split: sum.splits)
  have "loaded base = []" using True assms(3) by simp
  with J True from_documents_frame [OF J] wf_index_from_documents [OF J] show ?thesis
    by (simp add: index_lookup_def)
next
  case False
  let ?m = "foldl apply_change (base_documents base (sg_tombstones man)) changed"
  from assms(1) False obtain I where I: "from_documents ?m opt = Inr I"
    "J = I\<lparr>segment_count := segment_count base + 1, appended_bytes := appended_bytes J\<rparr>"
    by (auto simp: index_append_def Let_def split: sum.splits if_splits)
  have d: "distinct (map doc_path ?m)" by (intro apply_changes_distinct base_documents_distinct assms(2))
  have "index_lookup J = index_lookup I" by (subst I(2)) (simp add: index_lookup_def fun_eq_iff)
  moreover have "wf_index J \<longleftrightarrow> wf_index I"
    by (subst I(2), rule wf_index_cong) simp_all
  moreover have "distinct (map fi_path (infos I))"
  proof -
    have "map fi_path (infos I) = map doc_path (sort_key doc_path ?m)"
      using from_documents_frame [OF I(1)] by (simp add: document_info_def o_def)
    with distinct_sorted_paths [OF d] show ?thesis by simp
  qed
  moreover have "infos J = infos I" by (subst I(2)) simp
  ultimately show ?thesis
    using index_lookup_documents [OF I(1) d] wf_index_from_documents [OF I(1)]
    by (simp add: apply_changes_lookup base_documents_lookup [OF assms(3)] split: option.split)
qed

end
