(* ===== verification/Build_Correct.thy ===== *)
theory Build_Correct
  imports Index_Build Fixed_Correct
begin

text \<open>
  An index built from a directory tree, saved and loaded again: the loaded index is the built
  one, planner statistics included, so a search gives the same answers.
\<close>

section \<open>What building produces\<close>

definition readable :: "source_file list \<Rightarrow> (file_info \<times> bytes) list" where
  "readable fs = concat (map (\<lambda>f. case sf_data f of None \<Rightarrow> [] | Some s \<Rightarrow> [(source_info f s, s)]) fs)"

lemma readable_simps [simp]:
  "readable [] = []"
  "readable (f # fs) = (case sf_data f of None \<Rightarrow> [] | Some s \<Rightarrow> [(source_info f s, s)]) @ readable fs"
  by (simp_all add: readable_def)

lemma add_sources_frame:
  assumes "add_sources I fs = Inr J"
  shows "ix_opt J = ix_opt I \<and> pos_block J = pos_block I \<and> ephemeral J = ephemeral I \<and> ix_root J = ix_root I \<and>
         root_mtime_ns J = root_mtime_ns I \<and> segment_count J = segment_count I \<and> appended_bytes J = appended_bytes I \<and>
         loaded J = loaded I @ readable fs \<and> infos J = infos I @ map fst (readable fs) \<and>
         corp_bytes J = corp_bytes I + sum_list (map (fi_size \<circ> fst) (readable fs)) \<and>
         (corp_bytes I \<le> kMaxCorpusBytes \<longrightarrow> corp_bytes J \<le> kMaxCorpusBytes)"
  using assms
proof (induction I fs rule: add_sources.induct)
  case (2 I f fs)
  then obtain K where K: "add_source I f = Inr K" "add_sources K fs = Inr J" by (auto split: sum.splits)
  note IH = "2.IH" [OF K]
  show ?case
  proof (cases "sf_data f")
    case None
    with K(1) have "K = I" by (simp add: add_source_def)
    with IH None show ?thesis by auto
  next
    case (Some s)
    with K(1) have "\<not> length s > kMaxCorpusBytes - min (corp_bytes I) kMaxCorpusBytes"
      "K = I\<lparr>corp_bytes := corp_bytes I + length s, byte_freq := count_bytes (byte_freq I) s,
             qgram_freq := count_qgrams (qgram_freq I) s,
             infos := infos I @ [source_info f s], loaded := loaded I @ [(source_info f s, s)]\<rparr>"
      by (auto simp: add_source_def split: if_splits)
    with IH Some show ?thesis by (auto simp: source_info_def)
  qed
qed simp

lemma readable_sizes: "(f, s) \<in> set (readable fs) \<Longrightarrow> fi_size f = length s"
  by (auto simp: readable_def source_info_def split: option.splits)

text \<open>The fields that neither the filters nor the planner statistics touch.\<close>

lemma rebuild_frame:
  "ephemeral (rebuild_planner_stats I) = ephemeral I \<and> ix_root (rebuild_planner_stats I) = ix_root I \<and>
   root_mtime_ns (rebuild_planner_stats I) = root_mtime_ns I \<and> segment_count (rebuild_planner_stats I) = segment_count I \<and>
   appended_bytes (rebuild_planner_stats I) = appended_bytes I"
proof -
  have "ephemeral (fold (\<lambda>ci J. chunk_stats J ci) ks J) = ephemeral J \<and> ix_root (fold (\<lambda>ci J. chunk_stats J ci) ks J) = ix_root J \<and>
      root_mtime_ns (fold (\<lambda>ci J. chunk_stats J ci) ks J) = root_mtime_ns J \<and>
      segment_count (fold (\<lambda>ci J. chunk_stats J ci) ks J) = segment_count J \<and>
      appended_bytes (fold (\<lambda>ci J. chunk_stats J ci) ks J) = appended_bytes J" for ks J
    by (induction ks arbitrary: J) (simp_all add: chunk_stats_def Let_def)
  then show ?thesis by (auto simp: rebuild_planner_stats_def Let_def split: option.splits)
qed

section \<open>Planner statistics depend on the chunks and the corpus only\<close>

definition set_filters :: "group list \<Rightarrow> pos_desc list \<Rightarrow> byte list \<Rightarrow> index_data \<Rightarrow> index_data" where
  "set_filters gs ds ps I = I\<lparr>groups := gs, pos_descs := ds, pos_bits := ps\<rparr>"

lemma chunk_stats_filters: "chunk_stats (set_filters gs ds ps I) ci = set_filters gs ds ps (chunk_stats I ci)"
  by (simp add: chunk_stats_def set_filters_def Let_def content_def chunk_view_def)

lemma fold_chunk_stats_filters:
  "fold (\<lambda>ci J. chunk_stats J ci) ks (set_filters gs ds ps I) = set_filters gs ds ps (fold (\<lambda>ci J. chunk_stats J ci) ks I)"
  by (induction ks arbitrary: I) (simp_all add: chunk_stats_filters)

lemma rebuild_filters: "rebuild_planner_stats (set_filters gs ds ps I) = set_filters gs ds ps (rebuild_planner_stats I)"
proof -
  have "set_filters gs ds ps I\<lparr>exact_qgrams := a, hash_chunk_freq := b, hash_chunk_ids := c, planner_stats_ready := d\<rparr> =
      set_filters gs ds ps (I\<lparr>exact_qgrams := a, hash_chunk_freq := b, hash_chunk_ids := c, planner_stats_ready := d\<rparr>)" for a b c d
    by (simp add: set_filters_def)
  moreover have "(set_filters gs ds ps J)\<lparr>exact_qgrams := t\<rparr> = set_filters gs ds ps (J\<lparr>exact_qgrams := t\<rparr>)"
    "(set_filters gs ds ps J)\<lparr>planner_stats_ready := True\<rparr> = set_filters gs ds ps (J\<lparr>planner_stats_ready := True\<rparr>)"
    "corp_bytes (set_filters gs ds ps J) = corp_bytes J" "loaded (set_filters gs ds ps J) = loaded J"
    "chunks (set_filters gs ds ps J) = chunks J" for J t
    by (simp_all add: set_filters_def)
  ultimately show ?thesis
    by (simp only: rebuild_planner_stats_def Let_def fold_chunk_stats_filters) (simp split: option.split)
qed

lemma planner_reset_rebuild: "planner_reset (rebuild_planner_stats I) = planner_reset I"
proof -
  have "planner_reset (fold (\<lambda>ci J. chunk_stats J ci) ks J) = planner_reset J" for ks J
    by (induction ks arbitrary: J) (simp_all add: chunk_stats_def planner_reset_def Let_def)
  moreover have "planner_reset (J\<lparr>planner_stats_ready := b\<rparr>) = planner_reset J" "planner_reset (J\<lparr>exact_qgrams := t\<rparr>) = planner_reset J" for J b t
    by (simp_all add: planner_reset_def)
  ultimately show ?thesis
    by (simp add: rebuild_planner_stats_def Let_def split: option.split) (simp add: planner_reset_def)
qed

lemma rebuild_idem: "rebuild_planner_stats (rebuild_planner_stats I) = rebuild_planner_stats I"
  by (rule rebuild_cong) (rule planner_reset_rebuild)

lemma materialize_current: "rebuild_planner_stats (materialize_index_filters I) = materialize_index_filters I"
proof -
  let ?R = "rebuild_planner_stats (I\<lparr>chunks := layout_chunks I\<rparr>)"
  let ?J = "?R\<lparr>groups := build_groups ?R\<rparr>"
  obtain ds tot where "layout_pos ?J 0 (chunks ?J) = (ds, tot)" by fastforce
  then have "materialize_index_filters I = set_filters (build_groups ?R) ds
      (fold (mark_positional (?J\<lparr>pos_descs := ds\<rparr>)) [0 ..< length (chunks ?J)] (replicate tot 0)) ?R"
    by (simp add: materialize_index_filters_def set_filters_def Let_def)
  then show ?thesis by (simp add: rebuild_filters rebuild_idem)
qed

lemma materialize_kept:
  "ephemeral (materialize_index_filters I) = ephemeral I \<and> ix_root (materialize_index_filters I) = ix_root I \<and>
   root_mtime_ns (materialize_index_filters I) = root_mtime_ns I \<and> corp_bytes (materialize_index_filters I) = corp_bytes I \<and>
   segment_count (materialize_index_filters I) = segment_count I \<and> appended_bytes (materialize_index_filters I) = appended_bytes I"
  using rebuild_frame [of "I\<lparr>chunks := layout_chunks I\<rparr>"] rebuild_planner_stats_frame [of "I\<lparr>chunks := layout_chunks I\<rparr>"]
  by (simp add: materialize_index_filters_def Let_def split: prod.splits)

section \<open>Build, save, load\<close>

text \<open>The limits of the snapshot format on a built index; the corpus limit is already enforced.\<close>

definition within_format :: "index_data \<Rightarrow> bool" where
  "within_format I \<longleftrightarrow> length (ix_root I) \<le> kMaxString \<and> fits_i64 (root_mtime_ns I) \<and>
     (\<forall>f \<in> set (infos I). length (fi_path f) \<le> kMaxString \<and> \<not> unsafe_file_info_path (fi_path f) \<and> fits_i64 (fi_mtime_ns f)) \<and>
     length (infos I) \<le> kMaxFiles \<and> length (chunks I) \<le> kMaxChunks \<and> length (pos_bits I) \<le> kMaxVectorElems \<and>
     (\<forall>g \<in> set (groups I). length (g_bits g) \<le> kMaxVectorElems)"

lemma build_storable:
  assumes "index_build source kind root' mt fs opt = Inr I" "persist_corpus opt" "valid_index_options opt" "within_format I"
  shows "storable_index I \<and> rebuild_planner_stats I = I \<and> segment_count I = 0 \<and> appended_bytes I = 0 \<and> loaded I = readable fs"
proof -
  from assms(1,2) obtain J where J: "add_sources (build_start root' mt opt) fs = Inr J" "I = materialize_index_filters J"
    by (auto simp: index_build_def Let_def split: sum.splits if_splits)
  note fr = add_sources_frame [OF J(1)] materialize_frame [of J] materialize_kept [of J]
  have pos: "0 < chunk_bytes opt" "0 < positional_block_bytes opt" using assms(3) by (auto simp: valid_index_options_def)
  have st: "ix_opt J = opt" "pos_block J = positional_block_bytes opt" "\<not> ephemeral J" "infos J = map fst (readable fs)"
    "loaded J = readable fs" "corp_bytes J = sum_list (map (fi_size \<circ> fst) (readable fs))" "corp_bytes J \<le> kMaxCorpusBytes"
    "segment_count J = 0" "appended_bytes J = 0"
    using fr(1) by (simp_all add: build_start_def empty_index_data_def)
  have wf: "wf_index I" unfolding J(2) by (rule wf_index_materialize) (use st pos in simp_all)
  have sizes: "\<forall>(f, s) \<in> set (loaded I). fi_size f = length s" using readable_sizes fr(2) st(5) J(2) by auto
  have small: "fi_size f < 2 ^ 64" if "f \<in> set (infos I)" for f
  proof -
    have "fi_size f \<le> sum_list (map fi_size (infos I))" using that by (intro member_le_sum_list) auto
    also have "\<dots> \<le> kMaxCorpusBytes" using st fr(2) J(2) by simp
    finally show ?thesis by (simp add: kMaxCorpusBytes_def)
  qed
  have infos: "infos I = map fst (loaded I)" using st fr(2) J(2) by simp
  have "\<forall>f \<in> set (infos I). storable_info f" using assms(4) small by (auto simp: within_format_def storable_info_def)
  then have "\<forall>(f, s) \<in> set (loaded I). fi_size f = length s \<and> storable_info f" using sizes infos by auto
  moreover have "corp_bytes I = sum_list (map fi_size (infos I))" "corp_bytes I \<le> kMaxCorpusBytes" "\<not> ephemeral I"
    "ix_opt I = opt" "pos_block I = positional_block_bytes opt"
    using st fr(2,3) J(2) by (simp_all add: o_def)
  ultimately have "storable_index I"
    using assms(2,3,4) wf infos unfolding storable_index_def within_format_def by blast
  then show ?thesis using st fr(2,3) J(2) materialize_current [of J] by simp
qed


end
