(* ===== verification/Snapshot_Safety.thy ===== *)
theory Snapshot_Safety
  imports Snapshot_Load Index_Filters
begin

text \<open>
  What the validating loader promises of any file, hostile or not: the index it returns has
  chunks inside their files whose cores tile them, groups whose bitmaps have the size their
  descriptors imply and which together contain every chunk, and positional matrices that lie one
  after the other inside the positional bytes.  So no lookup of the search leaves a table.
\<close>

section \<open>The shape of an index\<close>

definition core_range :: "chunk \<Rightarrow> nat list" where
  "core_range z = [core_begin z ..< core_end z]"

definition chunks_tile :: "file_info list \<Rightarrow> chunk list \<Rightarrow> bool" where
  "chunks_tile fs cs \<longleftrightarrow>
     (\<forall>z \<in> set cs. file_id z < length fs \<and> core_begin z \<le> core_end z \<and> core_end z \<le> ext_end z \<and> ext_end z \<le> fi_size (fs ! file_id z)) \<and>
     (\<forall>fid < length fs. concat (map core_range (filter (\<lambda>z. file_id z = fid) cs)) = [0 ..< fi_size (fs ! fid)])"

definition group_shaped :: "chunk list \<Rightarrow> group \<Rightarrow> bool" where
  "group_shaped cs g \<longleftrightarrow> 9 \<le> g_lg g \<and> g_lg g \<le> 16 \<and> g_m g = 2 ^ g_lg g \<and> g_words g = (length (g_gids g) + 63) div 64 \<and>
     length (g_bits g) = g_m g * g_words g \<and> distinct (g_gids g) \<and>
     (\<forall>ci \<in> set (g_gids g). ci < length cs \<and> lg_for (ext_len (cs ! ci)) = g_lg g)"

definition groups_cover :: "chunk list \<Rightarrow> group list \<Rightarrow> bool" where
  "groups_cover cs gs \<longleftrightarrow> length gs = 8 \<and> (\<forall>g \<in> set gs. group_shaped cs g) \<and>
     (\<forall>ci < length cs. \<exists>g \<in> set gs. ci \<in> set (g_gids g))"

definition desc_fits :: "nat \<Rightarrow> chunk \<Rightarrow> pos_desc \<Rightarrow> bool" where
  "desc_fits pb z d \<longleftrightarrow> pd_blocks d = max 1 ((core_len z + pb - 1) div pb) \<and>
     pd_mask_bytes d = (pd_blocks d + 7) div 8 \<and> 64 \<le> pd_m d \<and> pd_m d \<le> 1024"

definition matrices_fit :: "nat \<Rightarrow> chunk list \<Rightarrow> pos_desc list \<Rightarrow> nat \<Rightarrow> bool" where
  "matrices_fit pb cs ds npos \<longleftrightarrow> length ds = length cs \<and>
     (\<forall>i < length cs. desc_fits pb (cs ! i) (ds ! i) \<and> desc_end (ds ! i) \<le> npos) \<and>
     (\<forall>i j. i < j \<longrightarrow> j < length cs \<longrightarrow> desc_end (ds ! i) \<le> pd_off (ds ! j))"

definition well_shaped :: "index_data \<Rightarrow> bool" where
  "well_shaped I \<longleftrightarrow> valid_index_options (ix_opt I) \<and> map fst (loaded I) = infos I \<and>
     chunks_tile (infos I) (chunks I) \<and> groups_cover (chunks I) (groups I) \<and>
     matrices_fit (pos_block I) (chunks I) (pos_descs I) (length (pos_bits I))"

section \<open>Chunks\<close>

lemma upt_join: "i \<le> j \<Longrightarrow> j \<le> k \<Longrightarrow> [i ..< j] @ [j ..< k] = [i ..< k]"
  by (metis le_iff_add upt_add_eq_append)

lemma check_chunks_tile:
  assumes "check_chunks opt fs prev next seen cs = Inr (next', seen')" "length next = length fs"
  shows "length next' = length fs \<and>
    (\<forall>z \<in> set cs. file_id z < length fs \<and> core_begin z \<le> core_end z \<and> core_end z \<le> ext_end z \<and> ext_end z \<le> fi_size (fs ! file_id z)) \<and>
    (\<forall>fid < length fs. next ! fid \<le> next' ! fid \<and>
       concat (map core_range (filter (\<lambda>z. file_id z = fid) cs)) = [next ! fid ..< next' ! fid])"
  using assms
proof (induction opt fs prev "next" seen cs rule: check_chunks.induct)
  case (2 opt fs prev "next" seen z zs)
  have good: "\<not> chunk_bad opt fs prev next z" and gap: "\<not> chunk_gap fs prev next z" using "2.prems"(1) by (auto split: if_splits)
  with "2.prems" have rec: "check_chunks opt fs (Some (file_id z)) (next[file_id z := core_end z]) (seen[file_id z := True]) zs = Inr (next', seen')"
    by simp
  have z: "file_id z < length fs" "core_begin z \<le> core_end z" "core_end z \<le> ext_end z" "ext_end z \<le> fi_size (fs ! file_id z)"
    "core_begin z = next ! file_id z"
    using good by (auto simp: chunk_bad_def)
  note IH = "2.IH" [OF good gap rec] 
  have IH': "length next' = length fs"
    "\<forall>z \<in> set zs. file_id z < length fs \<and> core_begin z \<le> core_end z \<and> core_end z \<le> ext_end z \<and> ext_end z \<le> fi_size (fs ! file_id z)"
    "\<And>fid. fid < length fs \<Longrightarrow> next[file_id z := core_end z] ! fid \<le> next' ! fid \<and>
       concat (map core_range (filter (\<lambda>z. file_id z = fid) zs)) = [next[file_id z := core_end z] ! fid ..< next' ! fid]"
    using IH "2.prems"(2) by auto
  have "next ! fid \<le> next' ! fid \<and> concat (map core_range (filter (\<lambda>z. file_id z = fid) (z # zs))) = [next ! fid ..< next' ! fid]"
    if fid: "fid < length fs" for fid
  proof (cases "fid = file_id z")
    case True
    with IH'(3) [OF fid] "2.prems"(2) z have "core_end z \<le> next' ! fid"
      "concat (map core_range (filter (\<lambda>z. file_id z = fid) zs)) = [core_end z ..< next' ! fid]" by auto
    with True z(2,5) show ?thesis by (simp add: core_range_def upt_join)
  next
    case False
    with IH'(3) [OF fid] show ?thesis by simp
  qed
  with IH' z(1-4) show ?case by auto
qed auto

lemma get_chunks_tile:
  assumes "get_chunks h fs r = Inr (cs, r')"
  shows "chunks_tile fs cs"
proof -
  from assms obtain n r1 xs r2 where xs: "read_times n get_chunk r1 = Inr (xs, r2)"
    "(case check_chunks (ih_opt h) fs None (replicate (length fs) 0) (replicate (length fs) False) xs of
        Inl err \<Rightarrow> (\<lambda>_. Inl err)
      | Inr (next, seen) \<Rightarrow> read_guard (\<exists>fid < length fs. \<not> seen ! fid \<or> next ! fid \<noteq> fi_size (fs ! fid))
          (index_error ''invalid chunk relationships'') (read_return xs)) r2 = Inr (cs, r')"
    unfolding get_chunks_def read_bind_Inr read_check_Inr by blast
  then obtain nx sn where "check_chunks (ih_opt h) fs None (replicate (length fs) 0) (replicate (length fs) False) cs = Inr (nx, sn)"
    "\<forall>fid < length fs. nx ! fid = fi_size (fs ! fid)"
    by (auto simp: read_guard_Inr read_return_Inr split: sum.splits prod.splits)
  with check_chunks_tile [OF this(1)] show ?thesis unfolding chunks_tile_def by auto
qed

section \<open>Groups\<close>

lemma mark_grouped_mem:
  assumes "mark_grouped cs lg gids grouped = Some out" "length grouped = length cs"
  shows "length out = length cs \<and> distinct gids \<and> (\<forall>g \<in> set gids. g < length cs \<and> \<not> grouped ! g \<and> lg_for (ext_len (cs ! g)) = lg) \<and>
         (\<forall>i < length cs. out ! i \<longrightarrow> grouped ! i \<or> i \<in> set gids)"
  using assms
proof (induction cs lg gids grouped rule: mark_grouped.induct)
  case (2 cs lg gid gids grouped)
  then have ok: "\<not> (length cs \<le> gid \<or> grouped ! gid \<or> lg_for (ext_len (cs ! gid)) \<noteq> lg)" by (auto split: if_splits)
  with 2 show ?case by (auto simp: nth_list_update split: if_splits)
qed auto

lemma get_groups_cover:
  assumes "get_groups cs n grouped r = Inr ((gs, out), r')" "length grouped = length cs"
  shows "length gs = n \<and> length out = length cs \<and> (\<forall>g \<in> set gs. group_shaped cs g) \<and>
         (\<forall>i < length cs. out ! i \<longrightarrow> grouped ! i \<or> (\<exists>g \<in> set gs. i \<in> set (g_gids g)))"
  using assms
proof (induction cs n grouped arbitrary: r gs out r' rule: get_groups.induct)
  case (2 cs n grouped)
  from "2.prems"(1) obtain g r1 mid gs' r2 where g: "\<not> group_bad g" "mark_grouped cs (g_lg g) (g_gids g) grouped = Some mid"
    "get_groups cs n mid r1 = Inr ((gs', out), r2)" "gs = g # gs'"
    by (auto simp: read_bind_Inr read_guard_Inr read_return_Inr split: option.splits prod.splits)
  note mg = mark_grouped_mem [OF g(2) "2.prems"(2)]
  then have "length gs' = n \<and> length out = length cs \<and> (\<forall>g \<in> set gs'. group_shaped cs g) \<and>
         (\<forall>i < length cs. out ! i \<longrightarrow> mid ! i \<or> (\<exists>g \<in> set gs'. i \<in> set (g_gids g)))"
    using g "2.IH" by blast
  moreover have "group_shaped cs g" using g(1) mg by (auto simp: group_shaped_def group_bad_def)
  ultimately show ?case using g(4) mg by auto
qed (auto simp: read_return_Inr)

lemma get_all_groups_cover:
  assumes "get_all_groups cs r = Inr (gs, r')"
  shows "groups_cover cs gs"
proof -
  from assms obtain x r1 where x: "get_groups cs 8 (replicate (length cs) False) r = Inr (x, r1)"
    "(case x of (gs, grouped) \<Rightarrow> read_guard (\<not> (\<forall>b \<in> set grouped. b)) (index_error ''incomplete qgram groups'') (read_return gs)) r1 = Inr (gs, r')"
    unfolding get_all_groups_def read_bind_Inr by blast
  obtain gs' out where p: "x = (gs', out)" by (cases x)
  with x(2) have out: "gs' = gs" "\<forall>b \<in> set out. b" by (auto simp: read_guard_Inr read_return_Inr)
  note c = get_groups_cover [OF x(1) [unfolded p out(1)] length_replicate]
  have "\<exists>g \<in> set gs. i \<in> set (g_gids g)" if i: "i < length cs" for i
  proof -
    have "out ! i" using c out(2) i by (simp add: all_set_conv_all_nth)
    with c i show ?thesis by fastforce
  qed
  with c show ?thesis unfolding groups_cover_def by blast
qed

section \<open>Positional matrices\<close>

lemma check_pos_descs_fit:
  assumes "check_pos_descs pb npos pos_end (zip cs ds) = Some e" "length ds = length cs"
  shows "pos_end \<le> e \<and>
     (\<forall>i < length cs. desc_fits pb (cs ! i) (ds ! i) \<and> pos_end \<le> pd_off (ds ! i) \<and> desc_end (ds ! i) \<le> e) \<and>
     (\<forall>i j. i < j \<longrightarrow> j < length cs \<longrightarrow> desc_end (ds ! i) \<le> pd_off (ds ! j))"
  using assms
proof (induction cs arbitrary: ds pos_end)
  case (Cons z cs)
  then obtain d ds' where ds: "ds = d # ds'" by (cases ds) auto
  from Cons.prems(1) ds have ok: "\<not> pos_desc_bad pb npos pos_end z d"
    and rec: "check_pos_descs pb npos (pos_end + pd_m d * pd_mask_bytes d) (zip cs ds') = Some e"
    by (auto split: if_splits)
  have d: "desc_fits pb z d" "pd_off d = pos_end"
    using ok unfolding pos_desc_bad_def desc_fits_def Let_def by (simp_all only: de_Morgan_disj not_less not_not simp_thms)
  have rec: "check_pos_descs pb npos (desc_end d) (zip cs ds') = Some e" using rec d(2) by (simp add: desc_end_def)
  have IH: "desc_end d \<le> e"
     "\<And>i. i < length cs \<Longrightarrow> desc_fits pb (cs ! i) (ds' ! i) \<and> desc_end d \<le> pd_off (ds' ! i) \<and> desc_end (ds' ! i) \<le> e"
     "\<And>i j. i < j \<Longrightarrow> j < length cs \<Longrightarrow> desc_end (ds' ! i) \<le> pd_off (ds' ! j)"
    using Cons.IH [OF rec] Cons.prems(2) ds by auto
  have le: "pos_end \<le> desc_end d" using d(2) by (simp add: desc_end_def)
  have "desc_fits pb ((z # cs) ! i) (ds ! i) \<and> pos_end \<le> pd_off (ds ! i) \<and> desc_end (ds ! i) \<le> e" if "i < length (z # cs)" for i
  proof (cases i)
    case 0
    with d IH(1) ds show ?thesis by simp
  next
    case (Suc k)
    with IH(2) [of k] that le ds show ?thesis by simp
  qed
  moreover have "desc_end (ds ! i) \<le> pd_off (ds ! j)" if ij: "i < j" "j < length (z # cs)" for i j
  proof -
    obtain l where l: "j = Suc l" using ij by (cases j) auto
    show ?thesis
    proof (cases i)
      case 0
      with IH(2) [of l] ij l ds show ?thesis by simp
    next
      case (Suc k)
      with IH(3) [of k l] ij l ds show ?thesis by simp
    qed
  qed
  ultimately show ?case using le IH(1) by (meson order_trans)
qed auto

lemma get_positional_fit:
  assumes "get_positional h cs r = Inr ((ds, ps), r')"
  shows "matrices_fit (ih_pos_block h) cs ds (length ps)"
proof -
  from assms obtain qs where "check_pos_descs (ih_pos_block h) (length qs) 0 (zip cs ds) = Some (length qs)" "length ds = length cs" "ps = map of_nat qs"
    by (auto simp: get_positional_def read_bind_Inr read_check_Inr read_guard_Inr read_return_Inr
        dest!: read_times_length split: option.splits)
  with check_pos_descs_fit [OF this(1,2)] show ?thesis unfolding matrices_fit_def by auto
qed

section \<open>The whole index\<close>

lemma get_payload_infos: "get_payload tot fs r = Inr ((ls, e), r') \<Longrightarrow> map fst ls = fs"
  by (induction tot fs arbitrary: r ls e r' rule: get_payload.induct)
    (auto simp: read_return_Inr read_bind_Inr read_guard_Inr read_check_Inr split: prod.splits)

lemma attach_sources_infos: "attach_sources src fs = Inr ls \<Longrightarrow> map fst ls = fs"
  by (induction src fs arbitrary: ls rule: attach_sources.induct) (auto split: sum.splits)

lemma get_corpus_infos: "get_corpus source persisted h man fs r = Inr (ls, r') \<Longrightarrow> map fst ls = fs"
  by (auto simp: get_corpus_def read_bind_Inr read_guard_Inr read_return_Inr
      dest: get_payload_infos attach_sources_infos split: if_splits sum.splits prod.splits)

lemma get_index_shaped:
  assumes "get_index source persisted man r = Inr (I, r')"
  shows "well_shaped I"
proof -
  from assms obtain h fs cs gs ds ps ls r1 r2 r3 r4 r5 r6 where
    h: "get_head persisted man r = Inr (h, r1)" and "get_chunks h fs r2 = Inr (cs, r3)" "get_all_groups cs r3 = Inr (gs, r4)"
    "get_positional h cs r4 = Inr ((ds, ps), r5)" "get_corpus source persisted h man fs r5 = Inr (ls, r6)" and I: "I = assemble h fs cs gs ds ps ls"
    by (auto simp: get_index_def read_bind_Inr read_return_Inr split: prod.splits)
  moreover from h have "valid_index_options (ih_opt h)"
    by (auto simp: get_head_def read_bind_Inr read_guard_Inr read_return_Inr)
  ultimately show ?thesis
    by (simp add: well_shaped_def assemble_def get_chunks_tile get_all_groups_cover get_positional_fit get_corpus_infos)
qed

lemma rebuild_shape:
  "groups (rebuild_planner_stats I) = groups I \<and> pos_descs (rebuild_planner_stats I) = pos_descs I \<and>
   pos_bits (rebuild_planner_stats I) = pos_bits I"
proof -
  have "groups (fold (\<lambda>ci J. chunk_stats J ci) ks J) = groups J \<and> pos_descs (fold (\<lambda>ci J. chunk_stats J ci) ks J) = pos_descs J \<and>
      pos_bits (fold (\<lambda>ci J. chunk_stats J ci) ks J) = pos_bits J" for ks J
    by (induction ks arbitrary: J) (simp_all add: chunk_stats_def Let_def)
  then show ?thesis by (auto simp: rebuild_planner_stats_def Let_def split: option.splits)
qed

text \<open>C18: Whatever bytes a file holds, an index that load accepts has chunks that tile its files,
  groups that cover its chunks and positional matrices within their buffer.\<close>

theorem load_well_shaped:
  assumes "load_bytes ident source e aware file = Inr I"
  shows "well_shaped I"
proof -
  from assms obtain persisted man r J left where "get_index source persisted man r = Inr (J, left)" "I = rebuild_planner_stats J"
    by (auto simp: load_bytes_def Let_def read_bind_Inr split: if_splits sum.splits prod.splits)
  with get_index_shaped [OF this(1)] show ?thesis
    by (simp add: well_shaped_def rebuild_shape rebuild_planner_stats_frame)
qed

end
