(* ===== verification/System_Samples.thy ===== *)
theory System_Samples
  imports Build_Correct Snapshot_Safety Samples
begin

text \<open>
  A one-file tree built into an index, saved and loaded; an index to which changes are appended;
  and the theorems of the persistence layer applied to them.
\<close>

section \<open>The size of a snapshot\<close>

lemmas put_lengths =
  u8.length_put le16.length_put le32.length_put le64.length_put word64.length_put word32.length_put i64.length_put bool8.length_put
  u8.length_puts le32.length_puts word64.length_puts word32.length_puts

lemma length_put_string: "length (put_string s) = length s + 8"
  by (simp add: put_string_def put_lengths)

lemma length_put_group: "length (put_group g) = 25 + 4 * length (g_gids g) + 8 * length (g_bits g)"
  by (simp add: put_group_def put_vector_def put_lengths)

lemma length_seal: "length (seal body) = length body + 20"
  by (simp add: seal_def put_lengths header_parts(1))

lemma sum_list_bound: "\<forall>x \<in> set xs. f x \<le> (b :: nat) \<Longrightarrow> sum_list (map f xs) \<le> length xs * b"
  by (induction xs) auto

lemma length_snapshot:
  assumes "\<forall>f \<in> set (infos I). length (fi_path f) \<le> p" "\<forall>g \<in> set (groups I). length (g_gids g) + length (g_bits g) \<le> b"
    and "sum_list (map (length \<circ> snd) (loaded I)) \<le> c" "length (loaded I) \<le> length (infos I)"
  shows "length (seal (snapshot_body m I)) \<le> 265000 + length (ix_root I) + length (sm_source_root m) + length (infos I) * (p + 33) +
           length (chunks I) * 28 + length (groups I) * (8 * b + 25) + length (pos_descs I) * 18 + length (pos_bits I) + c"
proof -
  have i: "length (concat (map put_info (infos I))) \<le> length (infos I) * (p + 25)"
    using assms(1) sum_list_bound [of "infos I" "length \<circ> put_info" "p + 25"]
    by (simp add: length_concat o_def put_info_def length_put_string put_lengths)
  have k: "length (concat (map put_chunk (chunks I))) = length (chunks I) * 28"
    by (simp add: length_concat o_def put_chunk_def put_lengths sum_list_triv)
  have g: "length (concat (map put_group (groups I))) \<le> length (groups I) * (8 * b + 25)"
    using assms(2) sum_list_bound [of "groups I" "length \<circ> put_group" "8 * b + 25"]
    by (fastforce simp: length_concat o_def length_put_group)
  have d: "length (concat (map put_pos_desc (pos_descs I))) = length (pos_descs I) * 18"
    by (simp add: length_concat o_def put_pos_desc_def put_lengths sum_list_triv)
  have l: "length (concat (map (put_string \<circ> snd) (loaded I))) \<le> length (infos I) * 8 + c"
    using assms(3,4) by (simp add: length_concat o_def length_put_string sum_list_addf sum_list_triv)
  have v: "length (put_vector put_u8 (map unat (pos_bits I))) = 8 + length (pos_bits I)"
    by (simp add: put_vector_def put_lengths del: map_map)
  have f: "length (put_frequencies I) = 2048 + 262144" by (simp add: put_frequencies_def put_lengths del: map_map)
  have o: "length (put_options o') = 42" for o' by (simp add: put_options_def put_lengths)
  have "length (infos I) * (p + 25) + length (infos I) * 8 = length (infos I) * (p + 33)" by (simp add: algebra_simps)
  with i k g d l show ?thesis
    by (simp add: length_seal snapshot_body_def snapshot_payload_def put_manifest_def f o v length_put_string put_lengths)
qed

declare layout_pos.simps(2) [simp del]

section \<open>A built index\<close>

definition tree_options :: index_options where
  "tree_options = sample_options\<lparr>persist_corpus := True\<rparr>"

definition sample_tree :: "source_file list" where
  "sample_tree = [\<lparr>sf_path = ascii_bytes ''a.txt'', sf_mtime_ns = 5, sf_data = Some (ascii_bytes ''needle'')\<rparr>]"

definition no_source :: "bytes \<Rightarrow> file_info \<Rightarrow> bytes result" where
  "no_source r f = Inl (Runtime_error ''cannot open'')"

definition built_index :: index_data where
  "built_index = (case index_build no_source Directory [47] 7 sample_tree tree_options of Inr I \<Rightarrow> I | Inl e \<Rightarrow> empty_index_data)"

lemma tree_options_simps [simp]:
  "chunk_bytes tree_options = 64" "chunk_overlap tree_options = 16" "positional_block_bytes tree_options = 16"
  "persist_corpus tree_options" "positional_budget_ratio tree_options = positional_budget_ratio default_index_options"
  by (simp_all add: tree_options_def sample_options_def)

lemma tree_valid: "validate_index_options tree_options = Inr ()"
  using fp_value_half by (simp add: validate_index_options_def tree_options_def sample_options_def default_index_options_def)

lemma tree_valid_options: "valid_index_options tree_options"
  using fp_value_half
  by (simp add: valid_index_options_def tree_options_def sample_options_def default_index_options_def fp_finite_def fp_le_def)

lemma built: "index_build no_source Directory [47] 7 sample_tree tree_options = Inr built_index"
proof -
  have "\<exists>J. add_sources (build_start [47] 7 tree_options) sample_tree = Inr J"
    by (simp add: sample_tree_def add_source_def kMaxCorpusBytes_def build_start_def empty_index_data_def ascii_bytes_def)
  then show ?thesis
    by (auto simp: index_build_def tree_valid built_index_def Let_def)
qed

lemma built_loaded: "loaded built_index =
    [(\<lparr>fi_path = ascii_bytes ''a.txt'', fi_size = 6, fi_mtime_ns = 5, fi_binary = False\<rparr>, ascii_bytes ''needle'')]"
  "infos built_index = map fst (loaded built_index)" "ix_opt built_index = tree_options" "pos_block built_index = 16"
  "ix_root built_index = [47]" "root_mtime_ns built_index = 7" "corp_bytes built_index = 6"
  "wf_index built_index"
proof -
  from built obtain J where J: "add_sources (build_start [47] 7 tree_options) sample_tree = Inr J" "built_index = materialize_index_filters J"
    by (auto simp: index_build_def Let_def split: sum.splits if_splits)
  have r: "readable sample_tree =
      [(\<lparr>fi_path = ascii_bytes ''a.txt'', fi_size = 6, fi_mtime_ns = 5, fi_binary = False\<rparr>, ascii_bytes ''needle'')]"
    by (simp add: sample_tree_def source_info_def ascii_bytes_def looks_binary_def)
  note fr = add_sources_frame [OF J(1)] materialize_frame [of J] materialize_kept [of J]
  show "loaded built_index = [(\<lparr>fi_path = ascii_bytes ''a.txt'', fi_size = 6, fi_mtime_ns = 5, fi_binary = False\<rparr>, ascii_bytes ''needle'')]"
    "infos built_index = map fst (loaded built_index)" "ix_opt built_index = tree_options" "pos_block built_index = 16"
    "ix_root built_index = [47]" "root_mtime_ns built_index = 7" "corp_bytes built_index = 6"
    using fr unfolding J(2) r by (simp_all add: build_start_def empty_index_data_def)
  show "wf_index built_index" unfolding J(2)
    by (rule wf_index_materialize) (use fr in \<open>simp_all add: build_start_def empty_index_data_def\<close>)
qed

lemma built_chunks: "chunks built_index = [\<lparr>file_id = 0, core_begin = 0, core_end = 6, ext_end = 6\<rparr>]"
proof -
  have "chunks built_index = layout_chunks built_index" using built_loaded(8) by (simp add: wf_index_def)
  also have "\<dots> = file_chunks 64 16 0 6"
    unfolding layout_chunks_def built_loaded(1,3) content_def by (simp add: ascii_bytes_def eval_nat_numeral)
  finally show ?thesis by (simp add: file_chunks_def chunk_loop.simps)
qed

lemma built_groups: "length (groups built_index) = 8" "\<forall>g \<in> set (groups built_index). length (g_gids g) + length (g_bits g) \<le> 65537"
proof -
  have g: "groups built_index = build_groups built_index" using built_loaded(8) by (simp add: wf_index_def)
  note b = build_groups_bits [of built_index]
  show "length (groups built_index) = 8" using g b by simp
  show "\<forall>g \<in> set (groups built_index). length (g_gids g) + length (g_bits g) \<le> 65537"
  proof
    fix g assume "g \<in> set (groups built_index)"
    then obtain k where k: "k < 8" "g = build_groups built_index ! k" using g b by (metis in_set_conv_nth)
    then have ok: "group_ok built_index 1 k g" using b by (simp add: built_chunks)
    have "length (g_gids g) \<le> 1" using ok by (simp add: group_ok_def class_members_def)
    moreover have "g_words g \<le> 1" using ok by (simp add: group_ok_def built_chunks)
    then have "g_m g * g_words g \<le> g_m g" using mult_le_mono2 [of "g_words g" 1 "g_m g"] by simp
    moreover have "(2::nat) ^ (k + 9) \<le> 65536" using k(1) power_increasing [of "k + 9" 16 "2 :: nat"] by simp
    moreover have "g_m g = 2 ^ (k + 9)" "length (g_bits g) = g_m g * g_words g" using ok by (simp_all add: group_ok_def)
    ultimately show "length (g_gids g) + length (g_bits g) \<le> 65537" by linarith
  qed
qed

lemma built_positional: "length (pos_descs built_index) = 1" "length (pos_bits built_index) \<le> 1024"
proof -
  show "length (pos_descs built_index) = 1" using built_loaded(8) unfolding wf_index_def by (metis built_chunks length_layout_pos length_Cons list.size(3) One_nat_def)
  have "length (pos_bits built_index) = snd (layout_pos built_index 0 (chunks built_index))"
    using built_loaded(8) by (simp add: wf_index_def fold_mark_positional)
  then show "length (pos_bits built_index) \<le> 1024"
    using choose_m_bounds(2) by (simp add: built_chunks layout_pos_Cons make_pos_desc_def Let_def built_loaded(4) core_len_def)
qed

lemma built_within: "within_format built_index"
proof -
  have "\<forall>g \<in> set (groups built_index). length (g_bits g) \<le> kMaxVectorElems"
    using built_groups(2) by (auto simp: kMaxVectorElems_def)
  moreover have "\<not> unsafe_file_info_path (ascii_bytes ''a.txt'')" "length (ascii_bytes ''a.txt'') = 5" by code_simp+
  ultimately show ?thesis
    using built_positional by (simp add: within_format_def built_loaded built_chunks kMaxString_def fits_i64_def kMaxFiles_def
        kMaxChunks_def kMaxVectorElems_def)
qed

definition built_file :: bytes where
  "built_file = (case save_bytes (\<lambda>_ _. 1) built_index empty_manifest of Inr s \<Rightarrow> s | Inl e \<Rightarrow> [])"

lemma built_storable: "storable_index built_index" "loaded built_index = readable sample_tree"
  using build_storable [OF built _ tree_valid_options built_within] by simp_all

lemma built_saved: "save_bytes (\<lambda>_ _. 1) built_index empty_manifest = Inr built_file" "length built_file \<le> kMaxSnapshotBytes"
proof -
  have "check_savable built_index = Inr ()"
    using built_storable(1) by (simp add: check_savable_def storable_index_def kMaxCorpusBytes_def built_loaded)
  moreover obtain m where m: "resolve_manifest (\<lambda>_ _. 1) built_index empty_manifest = Inr m" "sm_source_root m = [47]"
    by (simp add: resolve_manifest_def empty_manifest_def or_else_def built_loaded)
  ultimately show s: "save_bytes (\<lambda>_ _. 1) built_index empty_manifest = Inr built_file"
    by (simp add: save_bytes_def built_file_def)
  have "built_file = seal (snapshot_body m built_index)" using m \<open>check_savable built_index = Inr ()\<close> s by (simp add: save_bytes_def)
  moreover have "length (seal (snapshot_body m built_index)) \<le> 265000 + length (ix_root built_index) + length (sm_source_root m) +
      length (infos built_index) * (5 + 33) + length (chunks built_index) * 28 + length (groups built_index) * (8 * 65537 + 25) +
      length (pos_descs built_index) * 18 + length (pos_bits built_index) + 6"
    using built_groups(2) by (intro length_snapshot) (simp_all add: built_loaded ascii_bytes_def)
  ultimately show "length built_file \<le> kMaxSnapshotBytes"
    using built_groups(1) built_positional m(2) by (simp add: built_loaded built_chunks kMaxSnapshotBytes_def kMaxCorpusBytes_def)
qed

lemma built_request: "consistent_request built_index empty_manifest"
  by (simp add: consistent_request_def empty_manifest_def differs_def)

lemma built_loads: "load_bytes (\<lambda>_ _. 2) no_source empty_manifest True built_file =
    Inr (rebuild_planner_stats (built_index\<lparr>segment_count := 0, appended_bytes := 0\<rparr>))"
  by (rule save_load_index [OF built_storable(1) built_request built_saved])

section \<open>The theorems at these inputs\<close>


theorem save_load_roundtrip_witness:
  "load_bytes (\<lambda>_ _. 2) no_source empty_manifest True built_file =
     Inr (rebuild_planner_stats (built_index\<lparr>segment_count := 0, appended_bytes := 0\<rparr>))"
  by (rule save_load_roundtrip [OF built_storable(1) built_request built_saved])

theorem load_well_shaped_witness:
  "well_shaped (rebuild_planner_stats (built_index\<lparr>segment_count := 0, appended_bytes := 0\<rparr>))"
  by (rule load_well_shaped [OF built_loads])

theorem corrupted_byte_detected_witness:
  "load_bytes (\<lambda>_ _. 2) no_source empty_manifest True ((seal [1, 2, 3])[13 := 9]) = Inl (index_error ''checksum mismatch'')"
proof -
  have h: "length snapshot_header = 12" by (rule header_parts(1))
  have "length (seal [1, 2, 3]) = 23" by (simp add: length_seal)
  moreover have "seal [1, 2, 3] ! 13 = 2" by (simp add: seal_def nth_append h)
  ultimately show ?thesis by (intro corrupted_byte_detected) (simp_all add: kMaxSnapshotBytes_def kMaxCorpusBytes_def)
qed

section \<open>An append\<close>

definition sample_change :: "document list" where
  "sample_change = [\<lparr>doc_path = ascii_bytes ''b.txt'', doc_content = ascii_bytes ''pins''\<rparr>]"

definition sample_segment :: segment_manifest where
  "sample_segment = \<lparr>sg_paths = [ascii_bytes ''b.txt''], sg_tombstones = [ascii_bytes ''a.txt''], sg_source_identity = 0,
     sg_generation = 0, sg_corpus_files = 0, sg_corpus_bytes = 0\<rparr>"

definition appended_index :: index_data where
  "appended_index = (case index_append sample_index sample_change sample_segment sample_options of Inr I \<Rightarrow> I | Inl e \<Rightarrow> empty_index_data)"

lemma sample_loaded: "map fst (loaded sample_index) = infos sample_index" "distinct (map fi_path (infos sample_index))"
proof -
  show "map fst (loaded sample_index) = infos sample_index"
    using from_documents_frame [OF sample_built] unfolding sample_sorted by simp
  show "distinct (map fi_path (infos sample_index))"
    by (simp add: sample_infos document_info_def sample_docs_def ascii_bytes_def)
qed

lemma sample_merged: "foldl apply_change (base_documents sample_index (sg_tombstones sample_segment)) sample_change = sample_change"
proof -
  have "[0 ..< length (infos sample_index)] = [0, Suc 0]" by (simp add: sample_infos upt_rec)
  then show ?thesis
    by (simp add: base_documents_def sample_infos document_info_def sample_docs_def sample_segment_def sample_change_def ascii_bytes_def)
qed

lemma sample_appended: "index_append sample_index sample_change sample_segment sample_options = Inr appended_index"
proof -
  have "\<exists>J. from_documents sample_change sample_options = Inr J"
    by (simp add: from_documents_def sample_valid sample_change_def add_document_def Let_def kMaxCorpusBytes_def empty_index_data_def ascii_bytes_def)
  then have "\<exists>J. index_append sample_index sample_change sample_segment sample_options = Inr J"
    unfolding index_append_def sample_merged
    by (auto simp: sample_valid sample_infos Let_def) (simp_all add: sample_segment_def)
  then show ?thesis by (auto simp: appended_index_def)
qed

theorem append_lookup_witness:
  "index_lookup appended_index (ascii_bytes ''b.txt'') = Some (ascii_bytes ''pins'') \<and>
   index_lookup appended_index (ascii_bytes ''a.txt'') = None"
  using append_lookup [OF sample_appended sample_loaded(2,1), of "ascii_bytes ''b.txt''"]
    append_lookup [OF sample_appended sample_loaded(2,1), of "ascii_bytes ''a.txt''"]
  by (simp add: sample_change_def sample_segment_def ascii_bytes_def)

end
