(* ===== verification/Publication.thy ===== *)
theory Publication
  imports Snapshot_Integrity Api
begin

text \<open>
  How \<open>Index::save\<close> publishes a snapshot and \<open>load\<close> cleans up after a crashed writer.  A file
  system maps names to inodes and inodes to contents, so that a stream keeps writing to the file it
  opened when the name moves.  Every system call of a writer is a step and a crash is a prefix of
  the steps; the bytes of a stream may reach the file in pieces of any size.
\<close>

section \<open>Files\<close>

record file_system =
  fs_names :: "bytes \<rightharpoonup> nat"
  fs_data :: "nat \<Rightarrow> bytes"
  fs_fresh :: nat

definition file_bytes :: "file_system \<Rightarrow> bytes \<Rightarrow> bytes option" where
  "file_bytes F n = map_option (fs_data F) (fs_names F n)"

definition remove_name :: "bytes \<Rightarrow> file_system \<Rightarrow> file_system" where
  "remove_name n F = F\<lparr>fs_names := (fs_names F)(n := None)\<rparr>"

text \<open>Opening a name for output creates the file when there is none.\<close>

definition open_file :: "bytes \<Rightarrow> file_system \<Rightarrow> file_system \<times> nat" where
  "open_file n F =
     (case fs_names F n of Some i \<Rightarrow> (F, i)
      | None \<Rightarrow> (\<lparr>fs_names = (fs_names F)(n \<mapsto> fs_fresh F), fs_data = (fs_data F)(fs_fresh F := []),
                   fs_fresh = fs_fresh F + 1\<rparr>, fs_fresh F))"

definition set_data :: "nat \<Rightarrow> bytes \<Rightarrow> file_system \<Rightarrow> file_system" where
  "set_data i s F = F\<lparr>fs_data := (fs_data F)(i := s)\<rparr>"

definition write_at :: "nat \<Rightarrow> bytes \<Rightarrow> bytes \<Rightarrow> bytes" where
  "write_at off new old = take off (old @ replicate (off - length old) 0) @ new @ drop (off + length new) old"

definition rename_name :: "bytes \<Rightarrow> bytes \<Rightarrow> file_system \<Rightarrow> file_system" where
  "rename_name a b F = F\<lparr>fs_names := (fs_names F)(a := None, b := fs_names F a)\<rparr>"

section \<open>The writer\<close>

text \<open>\<open>file + ".tmp." + pid\<close>\<close>

definition temp_name :: "bytes \<Rightarrow> bytes \<Rightarrow> bytes" where
  "temp_name target pid = target @ ascii_bytes ''.tmp.'' @ pid"

text \<open>
  The stream writes the payload at its own offset; the checksum is then computed from the file
  found under the temporary name, and appended to the file found there.
\<close>

datatype phase = Start | Opening | Writing nat nat | Closed | Hashed bytes | Sealing nat bytes nat | Published | Failed

text \<open>\<open>hash_file_range(tmp, 12, body_end - 12)\<close>, as \<open>put_le64\<close> writes it\<close>

definition file_checksum :: "bytes \<Rightarrow> bytes" where
  "file_checksum s = put_word64 (fnv1a_bytes fnv_offset (drop 12 s))"

inductive publish_step :: "bytes \<Rightarrow> bytes \<Rightarrow> bytes \<Rightarrow> file_system \<times> phase \<Rightarrow> file_system \<times> phase \<Rightarrow> bool"
  for tmp target payload where
  remove_stale: "publish_step tmp target payload (F, Start) (remove_name tmp F, Opening)"
| remove_fails: "publish_step tmp target payload (F, Start) (F, Opening)"
| open_temp: "open_file tmp F = (F', i) \<Longrightarrow>
    publish_step tmp target payload (F, Opening) (set_data i [] F', Writing i 0)"
| write_some: "n < k \<Longrightarrow> k \<le> length payload \<Longrightarrow>
    publish_step tmp target payload (F, Writing i n)
      (set_data i (write_at n (drop n (take k payload)) (fs_data F i)) F, Writing i k)"
| close_temp: "publish_step tmp target payload (F, Writing i (length payload)) (F, Closed)"
| hash_temp: "file_bytes F tmp = Some s \<Longrightarrow> 12 \<le> length s \<Longrightarrow>
    publish_step tmp target payload (F, Closed) (F, Hashed (file_checksum s))"
| open_tail: "open_file tmp F = (F', i) \<Longrightarrow>
    publish_step tmp target payload (F, Hashed c) (F', Sealing i c 0)"
| seal_some: "n < k \<Longrightarrow> k \<le> length c \<Longrightarrow>
    publish_step tmp target payload (F, Sealing i c n)
      (set_data i (fs_data F i @ drop n (take k c)) F, Sealing i c k)"
| rename_temp: "fs_names F tmp = Some j \<Longrightarrow>
    publish_step tmp target payload (F, Sealing i c (length c)) (rename_name tmp target F, Published)"
| give_up: "ph \<notin> {Start, Published, Failed} \<Longrightarrow> publish_step tmp target payload (F, ph) (remove_name tmp F, Failed)"
| leave_temp: "ph \<notin> {Start, Published, Failed} \<Longrightarrow> publish_step tmp target payload (F, ph) (F, Failed)"

definition publish :: "bytes \<Rightarrow> bytes \<Rightarrow> bytes \<Rightarrow> file_system \<times> phase \<Rightarrow> file_system \<times> phase \<Rightarrow> bool" where
  "publish tmp target payload = (publish_step tmp target payload)\<^sup>*\<^sup>*"

text \<open>Writers of two processes, or of two threads, interleave their steps on one file system.\<close>

inductive race_step ::
  "bytes \<Rightarrow> bytes \<Rightarrow> bytes \<Rightarrow> bytes \<Rightarrow> bytes \<Rightarrow> file_system \<times> phase \<times> phase \<Rightarrow> file_system \<times> phase \<times> phase \<Rightarrow> bool"
  for t1 t2 target p1 p2 where
  first_moves: "publish_step t1 target p1 (F, a) (F', a') \<Longrightarrow> race_step t1 t2 target p1 p2 (F, a, b) (F', a', b)"
| second_moves: "publish_step t2 target p2 (F, b) (F', b') \<Longrightarrow> race_step t1 t2 target p1 p2 (F, a, b) (F', a, b')"

definition cleanup_orphans :: "bytes \<Rightarrow> file_system \<Rightarrow> file_system" where
  "cleanup_orphans pattern F = F\<lparr>fs_names := (\<lambda>n. if contains_str n pattern then None else fs_names F n)\<rparr>"

definition temp_pattern :: bytes where "temp_pattern = ascii_bytes ''.tmp.''"

section \<open>The invariant of a writer\<close>

definition published_bytes :: "bytes \<Rightarrow> bytes" where
  "published_bytes payload = payload @ file_checksum payload"

text \<open>No two names share an inode, and the next inode is unused.\<close>

definition wf_files :: "file_system \<Rightarrow> bool" where
  "wf_files F \<longleftrightarrow> inj_on (fs_names F) (dom (fs_names F)) \<and> (\<forall>i \<in> ran (fs_names F). i < fs_fresh F)"

definition writer_owns :: "bytes \<Rightarrow> bytes \<Rightarrow> file_system \<Rightarrow> phase \<Rightarrow> bool" where
  "writer_owns tmp payload F ph \<longleftrightarrow>
     (case ph of
        Writing i n \<Rightarrow> n \<le> length payload \<and> fs_names F tmp = Some i \<and> fs_data F i = take n payload
      | Closed \<Rightarrow> file_bytes F tmp = Some payload
      | Hashed c \<Rightarrow> file_bytes F tmp = Some payload \<and> c = file_checksum payload
      | Sealing i c n \<Rightarrow> n \<le> length c \<and> fs_names F tmp = Some i \<and> fs_data F i = payload @ take n c \<and> c = file_checksum payload
      | _ \<Rightarrow> True)"

lemmas file_system_defs = remove_name_def set_data_def rename_name_def file_bytes_def

lemma wf_files_apart: "wf_files F \<Longrightarrow> fs_names F a = Some i \<Longrightarrow> fs_names F b = Some i \<Longrightarrow> a = b"
  by (metis domI inj_onD wf_files_def)

lemma wf_files_fresh: "wf_files F \<Longrightarrow> fs_names F a \<noteq> Some (fs_fresh F)"
  by (auto simp: wf_files_def ran_def)

lemma wf_files_updates:
  "wf_files F \<Longrightarrow> wf_files (remove_name n F)" "wf_files F \<Longrightarrow> wf_files (set_data i s F)"
  "wf_files F \<Longrightarrow> wf_files (rename_name a b F)" "wf_files F \<Longrightarrow> wf_files (cleanup_orphans pattern F)"
  by (auto simp: wf_files_def file_system_defs cleanup_orphans_def inj_on_def dom_def ran_def split: if_splits)

lemma open_file_wf: "wf_files F \<Longrightarrow> open_file n F = (F', i) \<Longrightarrow> wf_files F' \<and> fs_names F' n = Some i"
  by (fastforce simp: open_file_def wf_files_def inj_on_def dom_def ran_def split: option.splits if_splits)

lemma open_file_frame: "wf_files F \<Longrightarrow> open_file n F = (F', i) \<Longrightarrow> m \<noteq> n \<Longrightarrow> fs_names F' m = fs_names F m \<and> file_bytes F' m = file_bytes F m"
  by (cases "fs_names F m") (auto simp: open_file_def file_bytes_def wf_files_def ran_def split: option.splits)

lemma set_data_frame: "wf_files F \<Longrightarrow> fs_names F n = Some i \<Longrightarrow> m \<noteq> n \<Longrightarrow> file_bytes (set_data i s F) m = file_bytes F m"
  using wf_files_apart [of F n i m] by (cases "fs_names F m") (auto simp: file_system_defs)

lemma write_at_end: "length old = off \<Longrightarrow> write_at off new old = old @ new"
  by (simp add: write_at_def)

lemma length_file_checksum [simp]: "length (file_checksum s) = 8"
  by (simp add: file_checksum_def word64.length_put)

text \<open>
  One step of a writer keeps its invariant, touches no other name but the target, and gives the
  target no other contents than the sealed payload.
\<close>

lemma publish_step_keeps:
  assumes "publish_step tmp target payload s s'" "wf_files (fst s)" "writer_owns tmp payload (fst s) (snd s)" "tmp \<noteq> target"
  shows "wf_files (fst s') \<and> writer_owns tmp payload (fst s') (snd s') \<and>
         (\<forall>m. m \<noteq> tmp \<longrightarrow> m \<noteq> target \<longrightarrow> fs_names (fst s') m = fs_names (fst s) m \<and> file_bytes (fst s') m = file_bytes (fst s) m) \<and>
         (if snd s' = Published then file_bytes (fst s') target = Some (published_bytes payload)
          else fs_names (fst s') target = fs_names (fst s) target \<and> file_bytes (fst s') target = file_bytes (fst s) target)"
  using assms
proof (induction rule: publish_step.induct)
  case (open_temp F F' i)
  then have F': "wf_files F'" "fs_names F' tmp = Some i" using open_file_wf by simp_all
  have "fs_names (set_data i [] F') m = fs_names F m \<and> file_bytes (set_data i [] F') m = file_bytes F m" if "m \<noteq> tmp" for m
    using open_file_frame [OF _ open_temp(1) that] open_temp(2) set_data_frame [OF F' that] by (simp add: set_data_def)
  with F' open_temp show ?case
    by (simp add: wf_files_updates writer_owns_def) (simp add: set_data_def)
next
  case (write_some n k F i)
  then have o: "fs_names F tmp = Some i" "fs_data F i = take n payload" "n \<le> length payload" by (simp_all add: writer_owns_def)
  have "take n payload @ drop n (take k payload) = take k payload"
    using write_some(1) by (metis append_take_drop_id min.absorb1 less_imp_le take_take)
  with o write_some show ?case
    by (simp add: wf_files_updates writer_owns_def set_data_frame [OF _ o(1)] write_at_end) (simp add: set_data_def)
next
  case (seal_some n k c F i)
  then have o: "fs_names F tmp = Some i" "fs_data F i = payload @ take n c" by (simp_all add: writer_owns_def)
  have "take n c @ drop n (take k c) = take k c"
    using seal_some(1) by (metis append_take_drop_id min.absorb1 less_imp_le take_take)
  with o seal_some show ?case
    by (simp add: wf_files_updates writer_owns_def set_data_frame [OF _ o(1)]) (simp add: set_data_def)
next
  case (open_tail F F' i c)
  then have F': "wf_files F'" "fs_names F' tmp = Some i" using open_file_wf by simp_all
  moreover have "F' = F" using open_tail by (auto simp: open_file_def writer_owns_def file_bytes_def split: option.splits)
  ultimately show ?case using open_tail by (auto simp: writer_owns_def file_bytes_def)
next
  case (rename_temp F j i c)
  then show ?case
    by (auto simp: wf_files_updates writer_owns_def published_bytes_def) (auto simp: file_system_defs)
next
  case (remove_stale F)
  then show ?case by (simp add: wf_files_updates writer_owns_def) (simp add: file_system_defs)
next
  case (give_up ph F)
  then show ?case by (simp add: wf_files_updates writer_owns_def) (simp add: file_system_defs)
qed (auto simp: wf_files_updates writer_owns_def file_system_defs)

lemma writer_owns_frame:
  "fs_names F' tmp = fs_names F tmp \<Longrightarrow> file_bytes F' tmp = file_bytes F tmp \<Longrightarrow> writer_owns tmp payload F' ph = writer_owns tmp payload F ph"
  by (cases ph) (auto simp: writer_owns_def file_bytes_def)

lemma temp_name_neq: "temp_name target pid \<noteq> target"
  by (simp add: temp_name_def ascii_bytes_def)

lemma temp_name_inject: "temp_name target p = temp_name target q \<longleftrightarrow> p = q"
  by (simp add: temp_name_def)

lemma temp_name_pattern: "contains_str (temp_name target pid) temp_pattern"
  unfolding contains_str_iff
  by (rule exI [of _ "length target"]) (simp add: occurs_at_def temp_name_def temp_pattern_def)

lemma published_seal: "published_bytes (snapshot_header @ body) = seal body"
  by (simp add: published_bytes_def seal_def file_checksum_def header_parts(1))

section \<open>One writer\<close>

definition solo_inv :: "bytes \<Rightarrow> bytes \<Rightarrow> bytes \<Rightarrow> file_system \<Rightarrow> file_system \<times> phase \<Rightarrow> bool" where
  "solo_inv tmp target payload F0 s \<longleftrightarrow>
     wf_files (fst s) \<and> writer_owns tmp payload (fst s) (snd s) \<and>
     (\<forall>m. m \<noteq> tmp \<longrightarrow> m \<noteq> target \<longrightarrow> file_bytes (fst s) m = file_bytes F0 m) \<and>
     file_bytes (fst s) target = (if snd s = Published then Some (published_bytes payload) else file_bytes F0 target)"

lemma publish_not_after_end: "publish_step tmp target payload s s' \<Longrightarrow> snd s \<noteq> Published"
  by (induction rule: publish_step.induct) auto

lemma solo_inv_reachable:
  assumes "publish tmp target payload (F, Start) s" "tmp \<noteq> target" "wf_files F"
  shows "solo_inv tmp target payload F s"
proof -
  have "(publish_step tmp target payload)\<^sup>*\<^sup>* (F, Start) s" using assms(1) by (simp add: publish_def)
  then show ?thesis
  proof (induction rule: rtranclp_induct)
    case base
    show ?case using assms(3) by (simp add: solo_inv_def writer_owns_def)
  next
    case (step y z)
    then have w: "wf_files (fst y)" "writer_owns tmp payload (fst y) (snd y)" by (simp_all add: solo_inv_def)
    show ?case
      using publish_step_keeps [OF step(2) w assms(2)] publish_not_after_end [OF step(2)] step(3)
      by (simp add: solo_inv_def split: if_splits)
  qed
qed

lemma cleanup_orphans_bytes: "file_bytes (cleanup_orphans pattern F) n = (if contains_str n pattern then None else file_bytes F n)"
  by (simp add: cleanup_orphans_def file_bytes_def)


section \<open>Two writers\<close>

definition race_inv :: "bytes \<Rightarrow> bytes \<Rightarrow> bytes \<Rightarrow> bytes \<Rightarrow> bytes \<Rightarrow> bytes option \<Rightarrow> file_system \<times> phase \<times> phase \<Rightarrow> bool" where
  "race_inv t1 t2 target p1 p2 old s \<longleftrightarrow>
     (case s of (F, a, b) \<Rightarrow>
        wf_files F \<and> writer_owns t1 p1 F a \<and> writer_owns t2 p2 F b \<and>
        file_bytes F target \<in> {old, Some (published_bytes p1), Some (published_bytes p2)} \<and>
        (a = Published \<or> b = Published \<longrightarrow> file_bytes F target \<in> {Some (published_bytes p1), Some (published_bytes p2)}))"

lemma race_inv_step:
  assumes "race_step t1 t2 target p1 p2 s s'" "race_inv t1 t2 target p1 p2 old s"
    and "t1 \<noteq> t2" "t1 \<noteq> target" "t2 \<noteq> target"
  shows "race_inv t1 t2 target p1 p2 old s'"
  using assms
proof (induction rule: race_step.induct)
  case (first_moves F a F' a' b)
  then have w: "wf_files F" "writer_owns t1 p1 F a" "writer_owns t2 p2 F b" by (simp_all add: race_inv_def)
  note k = publish_step_keeps [OF first_moves(1), simplified, OF w(1,2) first_moves(4)]
  then have "writer_owns t2 p2 F' b" using w(3) writer_owns_frame [of F' t2 F] first_moves(3,5) by simp
  then show ?case using k first_moves(2) publish_not_after_end [OF first_moves(1)]
    by (auto simp: race_inv_def split: if_splits)
next
  case (second_moves F b F' b' a)
  then have w: "wf_files F" "writer_owns t1 p1 F a" "writer_owns t2 p2 F b" by (simp_all add: race_inv_def)
  note k = publish_step_keeps [OF second_moves(1), simplified, OF w(1,3) second_moves(5)]
  then have "writer_owns t1 p1 F' a" using w(2) writer_owns_frame [of F' t1 F] second_moves(3,4) by simp
  then show ?case using k second_moves(2) publish_not_after_end [OF second_moves(1)]
    by (auto simp: race_inv_def split: if_splits)
qed

lemma race_inv_reachable:
  assumes "(race_step t1 t2 target p1 p2)\<^sup>*\<^sup>* (F, Start, Start) s" "wf_files F"
    and "t1 \<noteq> t2" "t1 \<noteq> target" "t2 \<noteq> target"
  shows "race_inv t1 t2 target p1 p2 (file_bytes F target) s"
  using assms(1)
proof (induction rule: rtranclp_induct)
  case base
  show ?case using assms(2) by (simp add: race_inv_def writer_owns_def)
next
  case (step y z)
  then show ?case using race_inv_step assms(3-5) by blast
qed

text \<open>C21: Writers of two processes leave under the published name the old file or one of the two whole
  snapshots, at every moment of any interleaving.\<close>

theorem concurrent_processes_publish_whole_files:
  assumes "(race_step (temp_name target pid1) (temp_name target pid2) target (snapshot_header @ b1) (snapshot_header @ b2))\<^sup>*\<^sup>*
             (F, Start, Start) (F', ph1, ph2)"
    and "wf_files F" "pid1 \<noteq> pid2"
  shows "file_bytes F' target \<in> {file_bytes F target, Some (seal b1), Some (seal b2)} \<and>
         (ph1 = Published \<or> ph2 = Published \<longrightarrow> file_bytes F' target \<in> {Some (seal b1), Some (seal b2)})"
  using race_inv_reachable [OF assms(1,2)] assms(3)
  by (simp add: race_inv_def temp_name_inject temp_name_neq published_seal)

end
