(* ===== verification/Tree_Walk.thy ===== *)
theory Tree_Walk
  imports Build_Correct "HOL-Library.Multiset"
begin

text \<open>
  The directory traversal that \<open>Index::build\<close>, \<open>Index::fresh\<close> and \<open>source_identity\<close> share, and
  what the three make of the files it finds.  A tree maps the identity of a directory (its
  canonical path) to its entries in the order of the directory iterator; a directory that cannot
  be read has none.
\<close>

section \<open>The traversal\<close>

record source_attr =
  sa_size :: nat
  sa_mtime_ns :: int
  sa_data :: "bytes option"

datatype entry_kind = Regular_entry source_attr | Directory_entry nat | Other_entry

record dir_entry =
  en_name :: bytes
  en_reparse :: bool
  en_kind :: entry_kind

type_synonym tree = "nat \<rightharpoonup> dir_entry list"

definition hidden_name :: "bytes \<Rightarrow> bool" where
  "hidden_name n \<longleftrightarrow> n \<noteq> [] \<and> hd n = 46 \<and> n \<noteq> [46] \<and> n \<noteq> [46, 46]"

definition listing :: "tree \<Rightarrow> nat \<Rightarrow> dir_entry list" where
  "listing t d = (case t d of None \<Rightarrow> [] | Some es \<Rightarrow> es)"

text \<open>
  The fuel bounds the depth; \<open>None\<close> is a traversal that is still descending.  The third result is
  the set of canonical directories seen, which the code keeps when it follows links.
\<close>

fun walk :: "tree \<Rightarrow> index_options \<Rightarrow> nat \<Rightarrow> bytes list \<Rightarrow> nat list \<Rightarrow> dir_entry list \<Rightarrow>
    ((bytes list \<times> source_attr) list \<times> nat list) option" where
  "walk t opt fuel pre vis [] = Some ([], vis)"
| "walk t opt fuel pre vis (e # es) =
     (if \<not> include_hidden opt \<and> hidden_name (en_name e) then walk t opt fuel pre vis es
      else if \<not> follow_symlinks opt \<and> en_reparse e then walk t opt fuel pre vis es
      else case en_kind e of
          Other_entry \<Rightarrow> walk t opt fuel pre vis es
        | Regular_entry a \<Rightarrow>
            map_option (\<lambda>(r, v). ((pre @ [en_name e], a) # r, v)) (walk t opt fuel pre vis es)
        | Directory_entry d \<Rightarrow>
            if follow_symlinks opt \<and> d \<in> set vis then walk t opt fuel pre vis es
            else (case fuel of 0 \<Rightarrow> None
              | Suc n \<Rightarrow>
                  (case walk t opt n (pre @ [en_name e]) (if follow_symlinks opt then d # vis else vis) (listing t d) of
                     None \<Rightarrow> None
                   | Some (r1, v1) \<Rightarrow> map_option (\<lambda>(r2, v2). (r1 @ r2, v2)) (walk t opt fuel pre v1 es))))"

definition walk_root :: "tree \<Rightarrow> index_options \<Rightarrow> nat \<Rightarrow> nat \<Rightarrow> (bytes list \<times> source_attr) list option" where
  "walk_root t opt fuel rid =
     map_option fst (walk t opt fuel [] (if follow_symlinks opt then [rid] else []) (listing t rid))"

text \<open>\<open>path_to_utf8 (lexically_relative p root)\<close>\<close>

definition path_string :: "bytes list \<Rightarrow> bytes" where
  "path_string p = (case p of [] \<Rightarrow> [] | c # cs \<Rightarrow> c @ concat (map ((#) 47) cs))"

section \<open>What is made of the files\<close>

text \<open>\<open>build\<close> sorts \<open>fs::path\<close> values, which compare component by component.\<close>

definition found_source :: "bytes list \<times> source_attr \<Rightarrow> source_file" where
  "found_source x = \<lparr>sf_path = path_string (fst x), sf_mtime_ns = sa_mtime_ns (snd x), sf_data = sa_data (snd x)\<rparr>"

definition build_tree ::
  "(bytes \<Rightarrow> file_info \<Rightarrow> bytes result) \<Rightarrow> root_kind \<Rightarrow> bytes \<Rightarrow> int \<Rightarrow> (bytes list \<times> source_attr) list \<Rightarrow> index_options \<Rightarrow>
   index_data result" where
  "build_tree source kind root' mt found opt =
     index_build source kind root' mt (map found_source (sort_key fst found)) opt"

text \<open>\<open>fresh\<close> sorts the path strings.\<close>

definition stat_path :: "(bytes list \<times> source_attr) list \<Rightarrow> bytes \<Rightarrow> source_attr option" where
  "stat_path found p = map_of (map (\<lambda>x. (path_string (fst x), snd x)) found) p"

definition unchanged_file :: "(bytes list \<times> source_attr) list \<Rightarrow> bytes \<Rightarrow> file_info \<Rightarrow> bool" where
  "unchanged_file found p f \<longleftrightarrow>
     p = fi_path f \<and>
     (case stat_path found (fi_path f) of None \<Rightarrow> False
      | Some a \<Rightarrow> sa_size a = fi_size f \<and> sa_mtime_ns a = fi_mtime_ns f)"

definition index_fresh :: "index_data \<Rightarrow> (bytes list \<times> source_attr) list \<Rightarrow> bool" where
  "index_fresh I found \<longleftrightarrow>
     \<not> ephemeral I \<and> list_all2 (unchanged_file found) (sort (map (path_string \<circ> fst) found)) (infos I)"

definition kMaxManifestFiles :: nat where "kMaxManifestFiles = 1000000"
definition kMaxManifestMetadataBytes :: nat where "kMaxManifestMetadataBytes = 256 * 1024 * 1024"

fun metadata_fits :: "nat \<Rightarrow> nat \<Rightarrow> nat \<Rightarrow> (bytes \<times> nat \<times> int) list \<Rightarrow> bool" where
  "metadata_fits n meta corpus [] = True"
| "metadata_fits n meta corpus ((rel, bytes, mt) # fs) =
     (if kMaxManifestFiles \<le> n \<or> kMaxManifestMetadataBytes < meta \<or> kMaxManifestMetadataBytes - meta < length rel \<or>
         kMaxCorpusBytes - min corpus kMaxCorpusBytes < bytes
      then False else metadata_fits (n + 1) (meta + length rel) (corpus + bytes) fs)"

definition identity_step :: "u64 \<Rightarrow> bytes \<times> nat \<times> int \<Rightarrow> u64" where
  "identity_step h = (\<lambda>(rel, bytes, mt). fnv1a_u64 8 (fnv1a_u64 8 (fnv1a_bytes h rel) (of_nat bytes)) (of_int mt))"

definition file_metadata :: "bytes list \<times> source_attr \<Rightarrow> bytes \<times> nat \<times> int" where
  "file_metadata x = (path_string (fst x), sa_size (snd x), sa_mtime_ns (snd x))"

definition source_identity :: "root_kind \<Rightarrow> bytes \<Rightarrow> (bytes list \<times> source_attr) list \<Rightarrow> u64" where
  "source_identity kind root' found =
     (let fs = map file_metadata found in
      if kind \<noteq> Directory \<or> \<not> metadata_fits 0 0 0 fs then 0
      else foldl identity_step (fnv1a_bytes 1469598103934665603 root') (sort fs))"

section \<open>The traversal ends\<close>

text \<open>A set of directories that no entry leaves.\<close>

definition closed_dirs :: "tree \<Rightarrow> nat set \<Rightarrow> bool" where
  "closed_dirs t D \<longleftrightarrow> (\<forall>d \<in> D. \<forall>e \<in> set (listing t d). \<forall>d'. en_kind e = Directory_entry d' \<longrightarrow> d' \<in> D)"

definition entries_in :: "nat set \<Rightarrow> dir_entry list \<Rightarrow> bool" where
  "entries_in D es \<longleftrightarrow> (\<forall>e \<in> set es. \<forall>d. en_kind e = Directory_entry d \<longrightarrow> d \<in> D)"

lemma walk_following_ends:
  assumes "follow_symlinks opt" "finite D" "closed_dirs t D" "entries_in D es" "card (D - set vis) \<le> fuel"
  shows "\<exists>r v. walk t opt fuel pre vis es = Some (r, v) \<and> set vis \<subseteq> set v"
  using assms
proof (induction t opt fuel pre vis es rule: walk.induct)
  case (2 t opt fuel pre vis e es)
  have es: "entries_in D es" using "2.prems"(4) by (simp add: entries_in_def)
  have "\<exists>r v. walk t opt fuel pre vis (e # es) = Some (r, v) \<and> set vis \<subseteq> set v"
    if d: "en_kind e = Directory_entry d" "d \<notin> set vis" "include_hidden opt \<or> \<not> hidden_name (en_name e)" for d
  proof -
    have dD: "d \<in> D" using "2.prems"(4) d(1) by (simp add: entries_in_def)
    have "card (D - set (d # vis)) < card (D - set vis)"
      using dD d(2) "2.prems"(2) by (intro psubset_card_mono) auto
    with "2.prems"(5) obtain n where n: "fuel = Suc n" "card (D - set (d # vis)) \<le> n" by (cases fuel) auto
    have "entries_in D (listing t d)" using "2.prems"(3) dD by (auto simp: closed_dirs_def entries_in_def)
    then obtain r1 v1 where 1: "walk t opt n (pre @ [en_name e]) (d # vis) (listing t d) = Some (r1, v1)" "set (d # vis) \<subseteq> set v1"
      using "2.IH"(5) [of d n] d n "2.prems"(1-3) by auto
    have "card (D - set v1) \<le> card (D - set vis)" using 1(2) "2.prems"(2) by (intro card_mono) auto
    then obtain r2 v2 where "walk t opt fuel pre v1 es = Some (r2, v2)" "set v1 \<subseteq> set v2"
      using "2.IH"(6) [of d n "(r1, v1)" r1 v1] d n 1 "2.prems"(1-3,5) es by auto
    with 1 d n(1) "2.prems"(1) show ?thesis by auto
  qed
  moreover have "\<exists>r v. walk t opt fuel pre vis es = Some (r, v) \<and> set vis \<subseteq> set v"
    if "\<not> (\<exists>d. en_kind e = Directory_entry d \<and> d \<notin> set vis) \<or> \<not> (include_hidden opt \<or> \<not> hidden_name (en_name e))"
    using that "2.IH"(1-4,7) "2.prems"(1-3,5) es by (cases "en_kind e") auto
  ultimately show ?case using "2.prems"(1) by (cases "en_kind e") (auto split: if_splits)
qed simp

end
