(* ===== verification/Tree_Correct.thy ===== *)
theory Tree_Correct
  imports Tree_Walk System_Samples
begin

text \<open>
  The traversal always ends, however links are arranged; when an index counts as fresh; and the
  fingerprint of a source tree.
\<close>

section \<open>Termination\<close>

text \<open>C29: A traversal that follows links ends within a fuel read off the identities of the tree,
  whatever cycles the links make.\<close>

theorem following_walk_terminates:
  assumes "follow_symlinks opt" "finite D" "closed_dirs t D" "rid \<in> D"
  shows "walk_root t opt (card D) rid \<noteq> None"
proof -
  have "entries_in D (listing t rid)" using assms(3,4) by (auto simp: closed_dirs_def entries_in_def)
  moreover have "card (D - set [rid]) \<le> card D" using assms(2) by (intro card_mono) auto
  ultimately obtain r v where "walk t opt (card D) [] [rid] (listing t rid) = Some (r, v)"
    using walk_following_ends [OF assms(1-3)] by blast
  then show ?thesis using assms(1) by (simp add: walk_root_def)
qed

text \<open>Two directories that link to each other.\<close>

definition loop_tree :: tree where
  "loop_tree = [0 \<mapsto> [\<lparr>en_name = [97], en_reparse = False, en_kind = Directory_entry 1\<rparr>],
                1 \<mapsto> [\<lparr>en_name = [98], en_reparse = True, en_kind = Directory_entry 0\<rparr>]]"

theorem following_walk_terminates_witness:
  "walk_root loop_tree (default_index_options\<lparr>follow_symlinks := True\<rparr>) 2 0 \<noteq> None"
proof -
  have "closed_dirs loop_tree {0, 1}" by (simp add: closed_dirs_def loop_tree_def listing_def)
  moreover have "card {0, 1 :: nat} = 2" by simp
  ultimately show ?thesis
    using following_walk_terminates [of "default_index_options\<lparr>follow_symlinks := True\<rparr>" "{0, 1}" loop_tree 0]
    by (metis finite.emptyI finite.insertI insertI1 index_options.select_convs(7) index_options.surjective index_options.update_convs(7))
qed

lemma walk_mono: "walk t opt n pre vis es = Some r \<Longrightarrow> n \<le> m \<Longrightarrow> walk t opt m pre vis es = Some r"
proof (induction t opt n pre vis es arbitrary: m r rule: walk.induct)
  case (2 t opt n pre vis e es)
  show ?case
  proof (cases "en_kind e")
    case (Directory_entry d)
    show ?thesis
    proof (cases "(include_hidden opt \<or> \<not> hidden_name (en_name e)) \<and> (follow_symlinks opt \<or> \<not> en_reparse e) \<and>
        \<not> (follow_symlinks opt \<and> d \<in> set vis)")
      case True
      let ?vis = "if follow_symlinks opt then d # vis else vis"
      from True Directory_entry "2.prems"(1) obtain k where k: "n = Suc k" by (cases n) auto
      with True Directory_entry "2.prems"(1) obtain r1 v1 r2 v2 where
        1: "walk t opt k (pre @ [en_name e]) ?vis (listing t d) = Some (r1, v1)"
        and 2: "walk t opt n pre v1 es = Some (r2, v2)" "r = (r1 @ r2, v2)"
        by (auto split: option.splits)
      obtain j where j: "m = Suc j" "k \<le> j" using k "2.prems"(2) by (cases m) auto
      have "walk t opt j (pre @ [en_name e]) ?vis (listing t d) = Some (r1, v1)"
        using "2.IH"(5) [OF _ _ Directory_entry _ k 1 j(2)] True by auto
      moreover have "walk t opt m pre v1 es = Some (r2, v2)"
        using "2.IH"(6) [OF _ _ Directory_entry _ k 1 refl 2(1) "2.prems"(2)] True by auto
      ultimately show ?thesis using True Directory_entry j(1) 2(2) by auto
    next
      case False
      then consider "\<not> include_hidden opt \<and> hidden_name (en_name e)"
        | "\<not> (\<not> include_hidden opt \<and> hidden_name (en_name e))" "\<not> follow_symlinks opt \<and> en_reparse e"
        | "\<not> (\<not> include_hidden opt \<and> hidden_name (en_name e))" "\<not> (\<not> follow_symlinks opt \<and> en_reparse e)"
          "follow_symlinks opt \<and> d \<in> set vis" by blast
      then show ?thesis
      proof cases
        case 1
        then have "walk t opt n pre vis es = Some r" using "2.prems"(1) by simp
        from "2.IH"(1) [OF 1 this "2.prems"(2)] show ?thesis using 1 by simp
      next
        case 2
        have "walk t opt n pre vis es = Some r"
          using "2.prems"(1) unfolding walk.simps if_not_P [OF 2(1)] if_P [OF 2(2)] .
        from "2.IH"(2) [OF 2 this "2.prems"(2)] show ?thesis
          unfolding walk.simps if_not_P [OF 2(1)] if_P [OF 2(2)] .
      next
        case 3
        have "walk t opt n pre vis es = Some r"
          using "2.prems"(1) unfolding walk.simps if_not_P [OF 3(1)] if_not_P [OF 3(2)] Directory_entry entry_kind.case if_P [OF 3(3)] .
        from "2.IH"(4) [OF 3(1,2) Directory_entry 3(3) this "2.prems"(2)] show ?thesis
          unfolding walk.simps if_not_P [OF 3(1)] if_not_P [OF 3(2)] Directory_entry entry_kind.case if_P [OF 3(3)] .
      qed
    qed
  next
    case (Regular_entry a)
    obtain q where q: "walk t opt n pre vis es = Some q" using "2.prems"(1) Regular_entry by (auto split: if_splits)
    have "walk t opt m pre vis es = Some q"
      using "2.IH"(1) [OF _ q "2.prems"(2)] "2.IH"(2) [OF _ _ q "2.prems"(2)] "2.IH"(3) [OF _ _ Regular_entry q "2.prems"(2)] by blast
    then show ?thesis using q "2.prems"(1) Regular_entry by (auto split: if_splits)
  next
    case Other_entry
    have q: "walk t opt n pre vis es = Some r" using "2.prems"(1) Other_entry by (auto split: if_splits)
    have "walk t opt m pre vis es = Some r"
      using "2.IH"(1) [OF _ q "2.prems"(2)] "2.IH"(2) [OF _ _ q "2.prems"(2)] "2.IH"(7) [OF _ _ Other_entry q "2.prems"(2)] by blast
    then show ?thesis using Other_entry by simp
  qed
qed simp

text \<open>Without links a directory that holds another has the larger rank.\<close>

definition ranked_tree :: "tree \<Rightarrow> (nat \<Rightarrow> nat) \<Rightarrow> bool" where
  "ranked_tree t rank \<longleftrightarrow>
     (\<forall>d. \<forall>e \<in> set (listing t d). \<forall>d'. en_kind e = Directory_entry d' \<longrightarrow> \<not> en_reparse e \<longrightarrow> rank d' < rank d)"

lemma ranked_walk_ends:
  assumes "\<not> follow_symlinks opt" "ranked_tree t rank"
    and "\<forall>e \<in> set es. \<forall>d. en_kind e = Directory_entry d \<longrightarrow> \<not> en_reparse e \<longrightarrow> rank d < fuel"
  shows "walk t opt fuel pre vis es \<noteq> None"
  using assms
proof (induction t opt fuel pre vis es rule: walk.induct)
  case (2 t opt fuel pre vis e es)
  show ?case
  proof (cases "en_kind e")
    case (Directory_entry d)
    show ?thesis
    proof (cases "(include_hidden opt \<or> \<not> hidden_name (en_name e)) \<and> \<not> en_reparse e")
      case True
      with Directory_entry "2.prems"(3) obtain k where k: "fuel = Suc k" "rank d \<le> k" by (cases fuel) auto
      have "\<forall>e' \<in> set (listing t d). \<forall>d'. en_kind e' = Directory_entry d' \<longrightarrow> \<not> en_reparse e' \<longrightarrow> rank d' < k"
        using "2.prems"(2) k(2) unfolding ranked_tree_def by (meson less_le_trans)
      then obtain r1 v1 where 1: "walk t opt k (pre @ [en_name e]) vis (listing t d) = Some (r1, v1)"
        using "2.IH"(5) [OF _ _ Directory_entry _ k(1)] True "2.prems"(1,2) by force
      have "walk t opt fuel pre v1 es \<noteq> None"
        using "2.IH"(6) [OF _ _ Directory_entry _ k(1)] 1 True "2.prems" by force
      then show ?thesis using True Directory_entry k(1) 1 "2.prems"(1) by auto
    next
      case False
      with Directory_entry "2.IH"(1,2) "2.prems" show ?thesis by auto
    qed
  qed (use 2 in auto)
qed simp

text \<open>A traversal that does not follow links ends within the size of the tree.\<close>

theorem linkless_walk_terminates:
  assumes "\<not> follow_symlinks opt" "ranked_tree t rank" "rank rid \<le> fuel"
  shows "walk_root t opt fuel rid \<noteq> None"
proof -
  have "\<forall>e \<in> set (listing t rid). \<forall>d. en_kind e = Directory_entry d \<longrightarrow> \<not> en_reparse e \<longrightarrow> rank d < fuel"
    using assms(2,3) unfolding ranked_tree_def by (meson less_le_trans)
  then show ?thesis using ranked_walk_ends [OF assms(1,2)] assms(1) by (simp add: walk_root_def)
qed

theorem linkless_walk_terminates_witness: "walk_root loop_tree (default_index_options\<lparr>follow_symlinks := False\<rparr>) 1 0 \<noteq> None"
  by (rule linkless_walk_terminates [of _ _ "\<lambda>d. 1 - d"])
    (auto simp: ranked_tree_def loop_tree_def listing_def split: if_splits)

section \<open>The fingerprint does not depend on the directory order\<close>

lemma metadata_fits_sums:
  "corpus \<le> kMaxCorpusBytes \<Longrightarrow> metadata_fits n meta corpus fs \<longleftrightarrow>
     fs = [] \<or> (n + length fs \<le> kMaxManifestFiles \<and> meta + sum_list (map (\<lambda>(rel, bytes, mt). length rel) fs) \<le> kMaxManifestMetadataBytes \<and>
       corpus + sum_list (map (\<lambda>(rel, bytes, mt). bytes) fs) \<le> kMaxCorpusBytes)"
proof (induction n meta corpus fs rule: metadata_fits.induct)
  case (2 n meta corpus rel b mt fs)
  let ?sum = "\<lambda>f. sum_list (map f fs) :: nat"
  show ?case
  proof (cases "kMaxManifestFiles \<le> n \<or> kMaxManifestMetadataBytes < meta \<or> kMaxManifestMetadataBytes - meta < length rel \<or>
      kMaxCorpusBytes - min corpus kMaxCorpusBytes < b")
    case True
    then show ?thesis using 2(2) by (simp add: min_def) linarith
  next
    case False
    with 2(2) have c: "corpus + b \<le> kMaxCorpusBytes" "n + 1 \<le> kMaxManifestFiles" "meta + length rel \<le> kMaxManifestMetadataBytes"
      by (simp_all add: min_def) (linarith+)
    have "metadata_fits n meta corpus ((rel, b, mt) # fs) = metadata_fits (n + 1) (meta + length rel) (corpus + b) fs"
      using False by (simp only: metadata_fits.simps if_False)
    also note 2(1) [OF False c(1)]
    finally show ?thesis using c by (cases "fs = []") (simp_all add: add.assoc)
  qed
qed simp

lemma sort_mset_eq: "mset xs = mset ys \<Longrightarrow> sort xs = sort (ys :: 'a::linorder list)"
  by (intro properties_for_sort) simp_all


definition two_files :: "(bytes list \<times> source_attr) list" where
  "two_files = [([[97], [98]], \<lparr>sa_size = 1, sa_mtime_ns = 3, sa_data = Some [120]\<rparr>),
                ([[97, 46, 116]], \<lparr>sa_size = 2, sa_mtime_ns = 4, sa_data = Some [120, 121]\<rparr>)]"


section \<open>Freshness\<close>

text \<open>Attributes as a quiet tree shows them: the recorded size is the number of bytes read.\<close>

definition sized_files :: "(bytes list \<times> source_attr) list \<Rightarrow> bool" where
  "sized_files found \<longleftrightarrow> (\<forall>x \<in> set found. \<forall>s. sa_data (snd x) = Some s \<longrightarrow> sa_size (snd x) = length s)"

lemma readable_found_le: "length (readable (map found_source xs)) \<le> length xs"
  by (induction xs) (auto split: option.splits)

lemma readable_found_all: "length (readable (map found_source xs)) = length xs \<longleftrightarrow> (\<forall>x \<in> set xs. sa_data (snd x) \<noteq> None)"
proof (induction xs)
  case (Cons x xs)
  have d: "sf_data (found_source x) = sa_data (snd x)" by (simp add: found_source_def)
  show ?case
  proof (cases "sa_data (snd x)")
    case None
    have "length (readable (map found_source xs)) \<noteq> Suc (length xs)" using readable_found_le [of xs] by linarith
    then show ?thesis using None d by simp
  next
    case (Some s)
    then show ?thesis using Cons d by simp
  qed
qed simp

lemma readable_found:
  "\<forall>x \<in> set xs. sa_data (snd x) \<noteq> None \<Longrightarrow>
   map fst (readable (map found_source xs)) = map (\<lambda>x. source_info (found_source x) (the (sa_data (snd x)))) xs"
  by (induction xs) (auto simp: found_source_def split: option.splits)

lemma built_infos:
  assumes "build_tree source kind root' mt found opt = Inr I"
  shows "infos I = map fst (readable (map found_source (sort_key fst found)))" "\<not> ephemeral I"
proof -
  from assms obtain J where J: "add_sources (build_start root' mt opt) (map found_source (sort_key fst found)) = Inr J"
    "infos I = infos (materialize_index_filters J)" "ephemeral I = ephemeral (materialize_index_filters J)"
    by (auto simp: build_tree_def index_build_def Let_def split: sum.splits if_splits)
  note fr = add_sources_frame [OF J(1)] materialize_frame [of J] materialize_kept [of J]
  show "infos I = map fst (readable (map found_source (sort_key fst found)))" "\<not> ephemeral I"
    using fr J(2,3) by (simp_all add: build_start_def empty_index_data_def)
qed

lemma stat_found:
  assumes "distinct (map (path_string \<circ> fst) found)" "x \<in> set found"
  shows "stat_path found (path_string (fst x)) = Some (snd x)"
proof -
  have "distinct (map fst (map (\<lambda>x. (path_string (fst x), snd x)) found))" using assms(1) by (simp add: o_def)
  then show ?thesis unfolding stat_path_def using assms(2) by (intro map_of_is_SomeI) auto
qed


text \<open>
  \<open>build\<close> orders the paths by component and \<open>fresh\<close> by string, so that a tree with \<open>a/b\<close> and
  \<open>a.t\<close> is never fresh, although nothing changed.
\<close>

definition stale_index :: index_data where
  "stale_index = (case build_tree no_source Directory [47] 7 two_files tree_options of Inr I \<Rightarrow> I | Inl e \<Rightarrow> empty_index_data)"

lemma two_files_sorted: "sort_key fst two_files = two_files"
  by code_simp

lemma stale_built: "build_tree no_source Directory [47] 7 two_files tree_options = Inr stale_index"
proof -
  have "\<exists>J. add_sources (build_start [47] 7 tree_options) (map found_source two_files) = Inr J"
    by (simp add: two_files_def found_source_def add_source_def kMaxCorpusBytes_def build_start_def empty_index_data_def)
  then have "\<exists>J. build_tree no_source Directory [47] 7 two_files tree_options = Inr J"
    by (auto simp: build_tree_def two_files_sorted index_build_def tree_valid Let_def)
  then show ?thesis by (auto simp: stale_index_def)
qed


end
