(* ===== verification/Nfa_Fragments.thy ===== *)
theory Nfa_Fragments
  imports Vm_Reach Nfa
begin

text \<open>
  Runs of an automaton, and what is true of a fragment of its program.  A run is a path over
  pairs of a program counter and a text position; a fragment is described by the relation between
  the position where a run enters it and the position where the run leaves it through one of its
  open references.
\<close>

section \<open>Matches as relations on positions\<close>

definition node_spans :: "icu \<Rightarrow> verifier_context \<Rightarrow> node \<Rightarrow> nat \<Rightarrow> nat \<Rightarrow> bool" where
  "node_spans U c n a b \<longleftrightarrow> (\<forall>cs. \<exists>cs'. vm_reach U c n \<lparr>vs_pos = a, vs_caps = cs\<rparr> \<lparr>vs_pos = b, vs_caps = cs'\<rparr>)"

definition spans_path :: "icu \<Rightarrow> verifier_context \<Rightarrow> node list \<Rightarrow> nat \<Rightarrow> nat \<Rightarrow> bool" where
  "spans_path U c ns a b \<longleftrightarrow> (\<forall>cs. \<exists>cs'. vm_path U c ns \<lparr>vs_pos = a, vs_caps = cs\<rparr> \<lparr>vs_pos = b, vs_caps = cs'\<rparr>)"

lemma spans_same:
  "(\<And>cs. vm_reach U c n \<lparr>vs_pos = a, vs_caps = cs\<rparr> \<lparr>vs_pos = b, vs_caps = cs\<rparr>) \<Longrightarrow> node_spans U c n a b"
  by (auto simp: node_spans_def)

lemma spans_path_Nil: "spans_path U c [] a a"
  by (auto simp: spans_path_def intro: path_nil)

lemma spans_path_Cons: "node_spans U c n a b \<Longrightarrow> spans_path U c ns b d \<Longrightarrow> spans_path U c (n # ns) a d"
  unfolding node_spans_def spans_path_def by (meson path_cons)

lemma spans_concat: "spans_path U c ns a b \<Longrightarrow> node_spans U c (KConcat f ns) a b"
  unfolding node_spans_def spans_path_def by (meson reach_concat)

lemma spans_alt: "n \<in> set ns \<Longrightarrow> node_spans U c n a b \<Longrightarrow> node_spans U c (KAlt f ns) a b"
  unfolding node_spans_def by (meson reach_alt)

lemma spans_group: "node_spans U c n a b \<Longrightarrow> node_spans U c (KGroup f g n) a b"
  unfolding node_spans_def using reach_group by fastforce

lemma spans_iter:
  "(node_spans U c n ^^ k) a b \<Longrightarrow> \<exists>cs'. vm_iter U c n k \<lparr>vs_pos = a, vs_caps = cs\<rparr> \<lparr>vs_pos = b, vs_caps = cs'\<rparr>"
proof (induction k arbitrary: b)
  case 0
  then show ?case by (auto intro: iter_zero)
next
  case (Suc k)
  then obtain d where "(node_spans U c n ^^ k) a d" "node_spans U c n d b" by auto
  with Suc.IH show ?case unfolding node_spans_def by (meson iter_Suc)
qed

lemma spans_repeat:
  "(node_spans U c n ^^ k) a b \<Longrightarrow> mn \<le> k \<Longrightarrow> (case mx of None \<Rightarrow> True | Some m \<Rightarrow> k \<le> m) \<Longrightarrow> node_spans U c (KRepeat f mn mx greedy n) a b"
  unfolding node_spans_def [of U c "KRepeat f mn mx greedy n"] by (meson spans_iter reach_repeat)

section \<open>Runs\<close>

text \<open>What an instruction allows at a position; the flag tells whether the run leaves by \<open>y\<close>.\<close>

definition inst_edge :: "icu \<Rightarrow> verifier_context \<Rightarrow> nfa_inst \<Rightarrow> nat \<Rightarrow> bool \<Rightarrow> nat \<Rightarrow> bool" where
  "inst_edge U c i a y b \<longleftrightarrow>
     (case i_op i of
        OpSplit \<Rightarrow> b = a
      | OpJmp \<Rightarrow> \<not> y \<and> b = a
      | OpSaveStart \<Rightarrow> \<not> y \<and> b = a
      | OpSaveEnd \<Rightarrow> \<not> y \<and> b = a
      | OpMatch \<Rightarrow> False
      | OpRune \<Rightarrow> \<not> y \<and> (\<exists>cp. context_rune_at U c a = Some (cp, b) \<and> nfa_consume U i cp (c_separator c))
      | OpAny \<Rightarrow> \<not> y \<and> (\<exists>cp. context_rune_at U c a = Some (cp, b) \<and> nfa_consume U i cp (c_separator c))
      | OpClass \<Rightarrow> \<not> y \<and> (\<exists>cp. context_rune_at U c a = Some (cp, b) \<and> nfa_consume U i cp (c_separator c))
      | _ \<Rightarrow> \<not> y \<and> b = a \<and> thread_assert U i c a)"

definition goto :: "nfa_inst \<Rightarrow> bool \<Rightarrow> int" where
  "goto i y = (if y then i_y i else i_x i)"

inductive nfa_path :: "icu \<Rightarrow> verifier_context \<Rightarrow> code \<Rightarrow> nat \<Rightarrow> int \<Rightarrow> nat \<Rightarrow> int \<Rightarrow> nat \<Rightarrow> bool"
  for U c p where
  stay: "nfa_path U c p 0 pc a pc a"
| move: "valid_pc p pc \<Longrightarrow> inst_edge U c (p ! nat pc) a y b \<Longrightarrow> nfa_path U c p k (goto (p ! nat pc) y) b m e \<Longrightarrow>
    nfa_path U c p (Suc k) pc a m e"

inductive_cases nfa_path_zeroE: "nfa_path U c p 0 pc a m e"
inductive_cases nfa_path_SucE: "nfa_path U c p (Suc k) pc a m e"

lemma nfa_path_leaves:
  assumes "nfa_path U c q k pc a m e" "pc \<noteq> m"
  obtains j y b where "k = Suc j" "valid_pc q pc" "inst_edge U c (q ! nat pc) a y b" "nfa_path U c q j (goto (q ! nat pc) y) b m e"
  using assms by (cases k) (auto elim: nfa_path_zeroE nfa_path_SucE)

section \<open>Open references\<close>

definition wire_inst :: "patch_ref set \<Rightarrow> (patch_ref \<Rightarrow> int) \<Rightarrow> nat \<Rightarrow> nfa_inst \<Rightarrow> nfa_inst" where
  "wire_inst R t i s =
     s\<lparr>i_x := if (i, False) \<in> R then t (i, False) else i_x s, i_y := if (i, True) \<in> R then t (i, True) else i_y s\<rparr>"

lemma wire_inst_fields [simp]:
  "i_op (wire_inst R t i s) = i_op s" "i_rune (wire_inst R t i s) = i_rune s" "i_class (wire_inst R t i s) = i_class s"
  "i_group (wire_inst R t i s) = i_group s" "i_negative (wire_inst R t i s) = i_negative s" "i_flags (wire_inst R t i s) = i_flags s"
  by (simp_all add: wire_inst_def)

lemma inst_edge_wire [simp]: "inst_edge U c (wire_inst R t i s) = inst_edge U c s"
  by (intro ext) (simp add: inst_edge_def nfa_consume_def thread_assert_def cong: nfa_op.case_cong option.case_cong)

lemma goto_wire: "goto (wire_inst R t i s) y = (if (i, y) \<in> R then t (i, y) else goto s y)"
  by (cases y) (simp_all add: goto_def wire_inst_def)

lemma wire_inst_other: "i \<notin> fst ` R \<Longrightarrow> wire_inst R t i s = s"
  by (cases s) (force simp: wire_inst_def)

lemma wire_inst_cong: "(\<And>y. (i, y) \<in> R \<longleftrightarrow> (i, y) \<in> R') \<Longrightarrow> wire_inst R t i s = wire_inst R' t i s"
  by (simp add: wire_inst_def)

lemma not_fst: "i \<notin> fst ` R \<Longrightarrow> (i, y) \<notin> R"
  by force

lemma wire_inst_twice:
  "i \<notin> fst ` R2 \<Longrightarrow> wire_inst R2 t2 i (wire_inst R1 t1 i s) = wire_inst R1 t1 i s"
  by (rule wire_inst_other)

lemma wire_inst_both:
  "R1 \<inter> R2 = {} \<Longrightarrow> wire_inst R2 t2 i (wire_inst R1 t1 i s) = wire_inst (R1 \<union> R2) (\<lambda>r. if r \<in> R1 then t1 r else t2 r) i s"
  by (auto simp: wire_inst_def)

lemma set_ref_simps:
  "length (set_ref t r p) = length p"
  "j < length p \<Longrightarrow> set_ref t r p ! j = wire_inst {r} (\<lambda>_. t) j (p ! j)"
  by (cases r; auto simp: set_ref_def wire_inst_def nth_list_update)+

lemma patch_simps:
  "length (patch rs t p) = length p"
  "j < length p \<Longrightarrow> patch rs t p ! j = wire_inst (set rs) (\<lambda>_. t) j (p ! j)"
proof (induction rs arbitrary: p)
  case Nil
  case 2
  then show ?case by (simp add: patch_def wire_inst_def)
next
  case (Cons r rs)
  case 2
  then show ?case using Cons.IH(2) [of "set_ref t r p"]
    by (simp add: patch_def set_ref_simps) (auto simp: wire_inst_def)
qed (simp_all add: patch_def set_ref_simps)

section \<open>Fragments\<close>

definition outside :: "nat \<Rightarrow> nat \<Rightarrow> int \<Rightarrow> bool" where
  "outside lo hi m \<longleftrightarrow> m < int lo \<or> int hi \<le> m"

definition wired :: "code \<Rightarrow> code \<Rightarrow> nat \<Rightarrow> patch_ref set \<Rightarrow> (patch_ref \<Rightarrow> int) \<Rightarrow> bool" where
  "wired p q lo R t \<longleftrightarrow> length p \<le> length q \<and> (\<forall>i. lo \<le> i \<and> i < length p \<longrightarrow> q ! i = wire_inst R t i (p ! i))"

text \<open>
  \<open>p\<close> from \<open>lo\<close> on is a fragment with start \<open>s\<close> and open references \<open>R\<close>: however the references
  are filled in, a run from the start to a place outside passes through one of them, and \<open>P\<close>
  relates the two positions.
\<close>

definition fragment ::
  "icu \<Rightarrow> verifier_context \<Rightarrow> nat \<Rightarrow> code \<Rightarrow> int \<Rightarrow> patch_ref set \<Rightarrow> (patch_ref \<Rightarrow> nat \<Rightarrow> nat \<Rightarrow> bool) \<Rightarrow> bool" where
  "fragment U c lo p s R P \<longleftrightarrow>
     int lo \<le> s \<and> s < int (length p) \<and> fst ` R \<subseteq> {lo ..< length p} \<and>
     (\<forall>i. lo \<le> i \<and> i < length p \<longrightarrow> i_op (p ! i) \<noteq> OpMatch) \<and>
     (\<forall>q t k a m e. wired p q lo R t \<longrightarrow> nfa_path U c q k s a m e \<longrightarrow> outside lo (length p) m \<longrightarrow>
        (\<exists>r \<in> R. \<exists>b j. j < k \<and> P r a b \<and> nfa_path U c q j (t r) b m e))"

lemma fragment_bounds:
  assumes "fragment U c lo p s R P"
  shows "int lo \<le> s" "s < int (length p)" "fst ` R \<subseteq> {lo ..< length p}" "lo < length p"
    "lo \<le> i \<Longrightarrow> i < length p \<Longrightarrow> i_op (p ! i) \<noteq> OpMatch"
  using assms by (auto simp: fragment_def)

lemma fragment_run:
  assumes "fragment U c lo p s R P" "wired p q lo R t" "nfa_path U c q k s a m e" "outside lo (length p) m"
  obtains r b j where "r \<in> R" "j < k" "P r a b" "nfa_path U c q j (t r) b m e"
  using assms unfolding fragment_def by meson

lemma fragment_mono:
  "fragment U c lo p s R P \<Longrightarrow> (\<And>r a b. r \<in> R \<Longrightarrow> P r a b \<Longrightarrow> Q r a b) \<Longrightarrow> fragment U c lo p s R Q"
  unfolding fragment_def by meson

lemma fragment_widen:
  assumes "fragment U c lo p s R P" "lo' \<le> lo" "\<And>i. lo' \<le> i \<Longrightarrow> i < lo \<Longrightarrow> i_op (p ! i) \<noteq> OpMatch"
  shows "fragment U c lo' p s R P"
proof -
  have "wired p q lo' R t \<Longrightarrow> wired p q lo R t" "outside lo' (length p) m \<Longrightarrow> outside lo (length p) m" for q t m
    using assms(2) by (auto simp: wired_def outside_def)
  moreover have "i_op (p ! i) \<noteq> OpMatch" if "lo' \<le> i" "i < length p" for i
    using that assms(3) fragment_bounds(5) [OF assms(1)] by (cases "lo \<le> i") auto
  moreover have "fst ` R \<subseteq> {lo' ..< length p}" using fragment_bounds(3) [OF assms(1)] assms(2) by auto
  ultimately show ?thesis using assms(1,2) unfolding fragment_def by (meson le_trans of_nat_mono order.trans)
qed

text \<open>The part of a larger program that a fragment became.\<close>

lemma wired_part:
  assumes "wired p' q lo R' t'" "length p \<le> length p'" "lo \<le> lo0"
    and "\<And>i. lo0 \<le> i \<Longrightarrow> i < length p \<Longrightarrow> p' ! i = wire_inst R0 t0 i (p ! i)"
    and "\<And>i. lo0 \<le> i \<Longrightarrow> i < length p \<Longrightarrow> wire_inst R' t' i (wire_inst R0 t0 i (p ! i)) = wire_inst R t i (p ! i)"
  shows "wired p q lo0 R t"
  unfolding wired_def
proof (intro conjI allI impI)
  show "length p \<le> length q" using assms(1,2) by (simp add: wired_def)
  fix i assume i: "lo0 \<le> i \<and> i < length p"
  then have "q ! i = wire_inst R' t' i (p' ! i)" using assms(1-3) by (simp add: wired_def)
  with i assms(4,5) show "q ! i = wire_inst R t i (p ! i)" by simp
qed

lemma wired_at:
  "wired p q lo R t \<Longrightarrow> lo \<le> i \<Longrightarrow> i < length p \<Longrightarrow> q ! i = wire_inst R t i (p ! i) \<and> valid_pc q (int i)"
  by (simp add: wired_def valid_pc_def)

section \<open>Single instructions\<close>

lemma fragment_single:
  assumes "i_op i \<noteq> OpMatch" "i_op i \<noteq> OpSplit"
  shows "fragment U c (length p) (p @ [i]) (int (length p)) {(length p, False)} (\<lambda>_ a b. inst_edge U c i a False b)"
  unfolding fragment_def
proof (intro conjI allI impI)
  fix q t k a m e
  assume w: "wired (p @ [i]) q (length p) {(length p, False)} t"
    and run: "nfa_path U c q k (int (length p)) a m e" and out: "outside (length p) (length (p @ [i])) m"
  have at: "q ! length p = wire_inst {(length p, False)} t (length p) i"
    using wired_at [OF w, of "length p"] by simp
  from out have "int (length p) \<noteq> m" by (auto simp: outside_def)
  from nfa_path_leaves [OF run this] obtain j y b where "k = Suc j"
    "inst_edge U c (q ! nat (int (length p))) a y b" "nfa_path U c q j (goto (q ! nat (int (length p))) y) b m e" by blast
  then have k: "k = Suc j" "inst_edge U c i a y b" "nfa_path U c q j (goto (wire_inst {(length p, False)} t (length p) i) y) b m e"
    by (simp_all add: at)
  moreover have "\<not> y" using k(2) assms by (auto simp: inst_edge_def split: nfa_op.splits)
  ultimately show "\<exists>r\<in>{(length p, False)}. \<exists>b j. j < k \<and> inst_edge U c i a False b \<and> nfa_path U c q j (t r) b m e"
    by (auto simp: goto_wire)
qed (use assms in \<open>auto simp: nth_append\<close>)

lemma one_fragment:
  assumes "one i p = Inr (g, p')" "i_op i \<noteq> OpMatch" "i_op i \<noteq> OpSplit" "\<And>a b. inst_edge U c i a False b \<Longrightarrow> P a b"
  shows "p' = p @ [i]" "fragment U c (length p) p' (fr_start g) (set (fr_out g)) (\<lambda>_. P)"
proof -
  have g: "p' = p @ [i]" "fr_start g = int (length p)" "fr_out g = [(length p, False)]"
    using assms(1) by (auto simp: one_def emit_def split: if_splits)
  then show "p' = p @ [i]" by simp
  show "fragment U c (length p) p' (fr_start g) (set (fr_out g)) (\<lambda>_. P)"
    using fragment_mono [OF fragment_single [OF assms(2,3)]] assms(4) g by simp
qed

lemma epsilon_fragment:
  assumes "epsilon p = Inr (g, p')"
  shows "p' = p @ [blank_inst no_flags OpJmp]" "fragment U c (length p) p' (fr_start g) (set (fr_out g)) (\<lambda>_. (=))"
  using one_fragment [OF assms [unfolded epsilon_def], of U c "(=)"]
  by (simp_all add: blank_inst_def inst_edge_def)

section \<open>Composition\<close>

lemma fragment_concat:
  assumes P: "fragment U c lo p s R (\<lambda>_. P)" and Q: "fragment U c (length p) p1 s1 R1 (\<lambda>_. Q)"
    and pre: "take (length p) p1 = p" and R: "R = set rs"
  shows "fragment U c lo (patch rs s1 p1) s R1 (\<lambda>_. P OO Q)"
proof -
  let ?p = "patch rs s1 p1"
  have len: "length p < length p1" "length ?p = length p1" using fragment_bounds(4) [OF Q] by (simp_all add: patch_simps)
  have old: "p1 ! i = p ! i" if "i < length p" for i using that pre by (metis nth_take)
  have sep: "i \<notin> fst ` R1" if "i < length p" for i using that fragment_bounds(3) [OF Q] by auto
  have sep': "i \<notin> fst ` R" if "length p \<le> i" for i using that fragment_bounds(3) [OF P] by auto
  have first: "?p ! i = wire_inst R (\<lambda>_. s1) i (p ! i)" if "i < length p" for i
    using that len old R by (simp add: patch_simps)
  have second: "?p ! i = p1 ! i" if "length p \<le> i" "i < length p1" for i
    using that sep' R by (simp add: patch_simps wire_inst_other)
  show ?thesis
    unfolding fragment_def
  proof (intro conjI allI impI)
    fix q t k a m e
    assume w: "wired ?p q lo R1 t" and run: "nfa_path U c q k s a m e" and out: "outside lo (length ?p) m"
    have w1: "wired p q lo R (\<lambda>_. s1)"
      using w by (rule wired_part) (use len first sep in \<open>auto simp: wire_inst_twice\<close>)
    have w2: "wired p1 q (length p) R1 t"
      using w len second fragment_bounds(4) [OF P] by (simp add: wired_def)
    from out len have o1: "outside lo (length p) m" and o2: "outside (length p) (length p1) m"
      using fragment_bounds(4) [OF P] by (auto simp: outside_def)
    from fragment_run [OF P w1 run o1] obtain b j where 1: "j < k" "P a b" "nfa_path U c q j s1 b m e" by blast
    from fragment_run [OF Q w2 1(3) o2] obtain r d j' where "r \<in> R1" "j' < j" "Q b d" "nfa_path U c q j' (t r) d m e" by blast
    with 1 show "\<exists>r\<in>R1. \<exists>d j. j < k \<and> (P OO Q) a d \<and> nfa_path U c q j (t r) d m e"
      by (meson less_trans relcomppI)
  next
    fix i assume "lo \<le> i \<and> i < length ?p"
    then show "i_op (?p ! i) \<noteq> OpMatch"
      using fragment_bounds(5) [OF P, of i] fragment_bounds(5) [OF Q, of i] len first second
      by (cases "i < length p") auto
  qed (use fragment_bounds(1-4) [OF P] fragment_bounds(3,4) [OF Q] len in auto)
qed

text \<open>A step of a run from a known instruction.\<close>

lemma run_step:
  assumes "nfa_path U c q k (int pc) a m e" "int pc \<noteq> m" "q ! pc = wire_inst R t pc i"
  obtains j y b where "k = Suc j" "inst_edge U c i a y b" "nfa_path U c q j (if (pc, y) \<in> R then t (pc, y) else goto i y) b m e"
proof -
  from nfa_path_leaves [OF assms(1,2)] obtain j y b where "k = Suc j" "inst_edge U c (q ! nat (int pc)) a y b"
    "nfa_path U c q j (goto (q ! nat (int pc)) y) b m e" by blast
  with assms(3) show thesis by (intro that) (simp_all add: goto_wire)
qed

lemma split_edge: "inst_edge U c ((blank_inst f OpSplit)\<lparr>i_x := x, i_y := z\<rparr>) a y b \<longleftrightarrow> b = a"
  "inst_edge U c (blank_inst f OpSplit) a y b \<longleftrightarrow> b = a"
  by (simp_all add: inst_edge_def blank_inst_def)

lemma fragment_alt:
  assumes P: "fragment U c lo p s R (\<lambda>_. P)" and Q: "fragment U c (length p) p1 s1 R1 (\<lambda>_. Q)"
    and pre: "take (length p) p1 = p"
  shows "fragment U c lo (p1 @ [(blank_inst f OpSplit)\<lparr>i_x := s, i_y := s1\<rparr>]) (int (length p1)) (R \<union> R1) (\<lambda>_ a b. P a b \<or> Q a b)"
    (is "fragment U c lo (p1 @ [?i]) _ _ _")
proof -
  have len: "lo < length p" "length p < length p1" using fragment_bounds(4) [OF P] fragment_bounds(4) [OF Q] by simp_all
  have old: "p1 ! i = p ! i" if "i < length p" for i using that pre by (metis nth_take)
  have R1: "wire_inst (R \<union> R1) t i s = wire_inst R t i s" if "i < length p" for t i s
    using that fragment_bounds(3) [OF Q] by (intro wire_inst_cong) force
  have R: "wire_inst (R \<union> R1) t i s = wire_inst R1 t i s" if "length p \<le> i" for t i s
    using that fragment_bounds(3) [OF P] by (intro wire_inst_cong) force
  show ?thesis
    unfolding fragment_def
  proof (intro conjI allI impI)
    fix q t k a m e
    assume w: "wired (p1 @ [?i]) q lo (R \<union> R1) t" and run: "nfa_path U c q k (int (length p1)) a m e"
      and out: "outside lo (length (p1 @ [?i])) m"
    have w1: "wired p q lo R t" using w len old R1 by (simp add: wired_def nth_append)
    have w2: "wired p1 q (length p) R1 t" using w len R by (simp add: wired_def nth_append)
    have o: "outside lo (length p) m" "outside (length p) (length p1) m" "int (length p1) \<noteq> m"
      using out len by (auto simp: outside_def)
    have fresh: "(length p1, y) \<notin> R \<union> R1" for y
      using fragment_bounds(3) [OF P] fragment_bounds(3) [OF Q] len by (auto simp: subset_iff image_iff)
    have "q ! length p1 = wire_inst (R \<union> R1) t (length p1) ?i"
      using wired_at [OF w, of "length p1"] len by simp
    from run_step [OF run o(3) this] obtain j y b where "k = Suc j" "inst_edge U c ?i a y b"
      "nfa_path U c q j (if (length p1, y) \<in> R \<union> R1 then t (length p1, y) else goto ?i y) b m e" by blast
    then have 1: "k = Suc j" "nfa_path U c q j (if y then s1 else s) a m e"
      using fresh [of y] by (cases y; simp add: split_edge goto_def)+
    show "\<exists>r\<in>R \<union> R1. \<exists>b j. j < k \<and> (P a b \<or> Q a b) \<and> nfa_path U c q j (t r) b m e"
    proof (cases y)
      case True
      with 1 have "nfa_path U c q j s1 a m e" by simp
      from fragment_run [OF Q w2 this o(2)] obtain r b j' where "r \<in> R1" "j' < j" "Q a b" "nfa_path U c q j' (t r) b m e" by blast
      with 1(1) show ?thesis by (intro bexI [of _ r] exI [of _ b] exI [of _ j']) simp_all
    next
      case False
      with 1 have "nfa_path U c q j s a m e" by simp
      from fragment_run [OF P w1 this o(1)] obtain r b j' where "r \<in> R" "j' < j" "P a b" "nfa_path U c q j' (t r) b m e" by blast
      with 1(1) show ?thesis by (intro bexI [of _ r] exI [of _ b] exI [of _ j']) simp_all
    qed
  next
    fix i assume i: "lo \<le> i \<and> i < length (p1 @ [?i])"
    then consider "i < length p" | "length p \<le> i" "i < length p1" | "i = length p1" by fastforce
    then show "i_op ((p1 @ [?i]) ! i) \<noteq> OpMatch"
      using i fragment_bounds(5) [OF P, of i] fragment_bounds(5) [OF Q, of i] len old
      by cases (simp_all add: nth_append blank_inst_def)
  next
    show "fst ` (R \<union> R1) \<subseteq> {lo ..< length (p1 @ [?i])}"
      using fragment_bounds(3) [OF P] fragment_bounds(3) [OF Q] len by (auto simp: subset_iff image_iff)
  qed (use len in auto)
qed

lemma fragment_group:
  assumes Q: "fragment U c (length p) p1 sc (set rc) (\<lambda>_. Q)" and pre: "take (length p) p1 = p"
    and i1: "i_op i1 = OpSaveStart" and i2: "i_op i2 = OpSaveEnd"
  shows "fragment U c (length p) (patch rc (int (Suc (length p1))) (set_ref sc (length p1, False) (p1 @ [i1]) @ [i2]))
           (int (length p1)) {(Suc (length p1), False)} (\<lambda>_. Q)"
    (is "fragment U c _ ?p _ _ _")
proof -
  let ?b = "int (Suc (length p1))"
  have len: "length p < length p1" "length ?p = Suc (Suc (length p1))"
    using fragment_bounds(4) [OF Q] by (simp_all add: patch_simps set_ref_simps)
  have rc: "i \<notin> fst ` set rc" if "length p1 \<le> i" for i using that fragment_bounds(3) [OF Q] by auto
  have mid: "?p ! i = wire_inst (set rc) (\<lambda>_. ?b) i (p1 ! i)" if "i < length p1" for i
    using that by (simp add: patch_simps set_ref_simps nth_append wire_inst_other)
  have a: "?p ! length p1 = wire_inst {(length p1, False)} (\<lambda>_. sc) (length p1) i1"
    using rc by (simp add: patch_simps set_ref_simps nth_append wire_inst_other [OF rc])
  have b: "?p ! Suc (length p1) = i2"
    using rc by (simp add: patch_simps set_ref_simps nth_append wire_inst_other [OF rc])
  show ?thesis
    unfolding fragment_def
  proof (intro conjI allI impI)
    fix q t k x m e
    assume w: "wired ?p q (length p) {(Suc (length p1), False)} t" and run: "nfa_path U c q k (int (length p1)) x m e"
      and out: "outside (length p) (length ?p) m"
    have o: "outside (length p) (length p1) m" "int (length p1) \<noteq> m" "?b \<noteq> m"
      using out len by (auto simp: outside_def)
    have w2: "wired p1 q (length p) (set rc) (\<lambda>_. ?b)"
      using w len mid by (simp add: wired_def wire_inst_other)
    have qa: "q ! length p1 = wire_inst {(length p1, False)} (\<lambda>_. sc) (length p1) i1"
      using wired_at [OF w, of "length p1"] len a by (simp add: wire_inst_other)
    have qb: "q ! Suc (length p1) = wire_inst {(Suc (length p1), False)} t (Suc (length p1)) i2"
      using wired_at [OF w, of "Suc (length p1)"] len b by simp
    from run_step [OF run o(2) qa] i1 obtain j where 1: "k = Suc j" "nfa_path U c q j sc x m e"
      by (force simp: inst_edge_def)
    from fragment_run [OF Q w2 1(2) o(1)] obtain y j' where 2: "j' < j" "Q x y" "nfa_path U c q j' ?b y m e" by blast
    from run_step [OF 2(3) o(3) qb] i2 obtain j'' where "j' = Suc j''" "nfa_path U c q j'' (t (Suc (length p1), False)) y m e"
      by (force simp: inst_edge_def)
    with 1 2 show "\<exists>r\<in>{(Suc (length p1), False)}. \<exists>y j. j < k \<and> Q x y \<and> nfa_path U c q j (t r) y m e"
      by (intro bexI [of _ "(Suc (length p1), False)"] exI [of _ y] exI [of _ j'']) auto
  next
    fix i assume "length p \<le> i \<and> i < length ?p"
    then consider "i < length p1" | "i = length p1" | "i = Suc (length p1)" using len by linarith
    then show "i_op (?p ! i) \<noteq> OpMatch"
      using fragment_bounds(5) [OF Q, of i] mid a b i1 i2 \<open>length p \<le> i \<and> i < length ?p\<close> by cases simp_all
  qed (use len in auto)
qed

lemma fragment_star:
  assumes P: "fragment U c lo p s (set rs) (\<lambda>_. P)" and Q: "fragment U c (length p) p1 sc (set rc) (\<lambda>_. Q)"
    and pre: "take (length p) p1 = p"
  shows "fragment U c lo
     (patch rs (int (length p1)) (patch rc (int (length p1)) (set_ref sc (length p1, \<not> greedy) (p1 @ [blank_inst f OpSplit]))))
     s {(length p1, greedy)} (\<lambda>_ a b. \<exists>k. (P OO (Q ^^ k)) a b)"
    (is "fragment U c lo ?p _ _ _")
proof -
  let ?s = "length p1" and ?i = "blank_inst f OpSplit"
  have len: "lo < length p" "length p < length p1" "length ?p = Suc ?s"
    using fragment_bounds(4) [OF P] fragment_bounds(4) [OF Q] by (simp_all add: patch_simps set_ref_simps)
  have old: "p1 ! i = p ! i" if "i < length p" for i using that pre by (metis nth_take)
  have rs: "i \<notin> fst ` set rs" if "length p \<le> i" for i using that fragment_bounds(3) [OF P] by auto
  have rc: "i \<notin> fst ` set rc" if "i < length p \<or> ?s \<le> i" for i using that fragment_bounds(3) [OF Q] len by auto
  have first: "?p ! i = wire_inst (set rs) (\<lambda>_. int ?s) i (p ! i)" if "i < length p" for i
    using that len rc old by (simp add: patch_simps set_ref_simps nth_append wire_inst_other)
  have mid: "?p ! i = wire_inst (set rc) (\<lambda>_. int ?s) i (p1 ! i)" if "length p \<le> i" "i < ?s" for i
    using that rs by (simp add: patch_simps set_ref_simps nth_append wire_inst_other)
  have spl: "?p ! ?s = wire_inst {(?s, \<not> greedy)} (\<lambda>_. sc) ?s ?i"
    using rs [of ?s] rc [of ?s] len by (simp add: patch_simps set_ref_simps wire_inst_other)
  show ?thesis
    unfolding fragment_def
  proof (intro conjI allI impI)
    fix q t k a m e
    assume w: "wired ?p q lo {(?s, greedy)} t" and run: "nfa_path U c q k s a m e" and out: "outside lo (length ?p) m"
    have o: "outside lo (length p) m" "outside (length p) (length p1) m" "int ?s \<noteq> m"
      using out len by (auto simp: outside_def)
    have w1: "wired p q lo (set rs) (\<lambda>_. int ?s)" using w len first by (simp add: wired_def wire_inst_other)
    have w2: "wired p1 q (length p) (set rc) (\<lambda>_. int ?s)" using w len mid by (simp add: wired_def wire_inst_other)
    have qs: "q ! ?s = wire_inst {(?s, greedy), (?s, \<not> greedy)} (\<lambda>r. if r = (?s, greedy) then t r else sc) ?s ?i"
      using wired_at [OF w, of ?s] len spl by (cases greedy) (simp_all add: wire_inst_def)
    have loop: "\<exists>b j n. j < k \<and> (Q ^^ n) a b \<and> nfa_path U c q j (t (?s, greedy)) b m e" if "nfa_path U c q k (int ?s) a m e" for k a
      using that
    proof (induction k arbitrary: a rule: less_induct)
      case (less k)
      from run_step [OF less.prems o(3) qs] obtain j y b where "k = Suc j" "inst_edge U c ?i a y b"
        "nfa_path U c q j (if (?s, y) \<in> {(?s, greedy), (?s, \<not> greedy)} then if (?s, y) = (?s, greedy) then t (?s, y) else sc else goto ?i y) b m e"
        by blast
      then have 1: "k = Suc j" "nfa_path U c q j (if y = greedy then t (?s, greedy) else sc) a m e"
        by (cases y; cases greedy; simp add: split_edge)+
      show ?case
      proof (cases "y = greedy")
        case True
        with 1 show ?thesis by (intro exI [of _ a] exI [of _ j] exI [of _ 0]) simp
      next
        case False
        with 1 have "nfa_path U c q j sc a m e" by simp
        from fragment_run [OF Q w2 this o(2)] obtain b j' where 2: "j' < j" "Q a b" "nfa_path U c q j' (int ?s) b m e" by blast
        with less.IH [of j' b] 1(1) obtain d j'' n where 3: "j'' < j'" "(Q ^^ n) b d" "nfa_path U c q j'' (t (?s, greedy)) d m e"
          by auto
        from 2(2) 3(2) have "(Q ^^ Suc n) a d" by (rule relpowp_Suc_I2)
        with 1(1) 2(1) 3 show ?thesis by (intro exI [of _ d] exI [of _ j''] exI [of _ "Suc n"]) simp
      qed
    qed
    from fragment_run [OF P w1 run o(1)] obtain b j where 1: "j < k" "P a b" "nfa_path U c q j (int ?s) b m e" by blast
    from loop [OF 1(3)] obtain d j' n where 2: "j' < j" "(Q ^^ n) b d" "nfa_path U c q j' (t (?s, greedy)) d m e" by blast
    with 1 have "(P OO (Q ^^ n)) a d" by blast
    with 1(1) 2 show "\<exists>r\<in>{(?s, greedy)}. \<exists>b j. j < k \<and> (\<exists>n. (P OO (Q ^^ n)) a b) \<and> nfa_path U c q j (t r) b m e"
      by (intro bexI [of _ "(?s, greedy)"] exI [of _ d] exI [of _ j']) auto
  next
    fix i assume i: "lo \<le> i \<and> i < length ?p"
    then consider "i < length p" | "length p \<le> i" "i < ?s" | "i = ?s" using len by linarith
    then show "i_op (?p ! i) \<noteq> OpMatch"
      using i fragment_bounds(5) [OF P, of i] fragment_bounds(5) [OF Q, of i] first mid spl by cases (simp_all add: blank_inst_def)
  next
    show "s < int (length ?p)" using fragment_bounds(2) [OF P] len by simp
  qed (use fragment_bounds(1) [OF P] len in auto)
qed

lemma fragment_optional:
  assumes P: "fragment U c lo p s (E \<union> set rs) PP" and Q: "fragment U c (length p) p1 sc (set rc) (\<lambda>_. Q)"
    and pre: "take (length p) p1 = p" and dis: "E \<inter> set rs = {}"
  shows "fragment U c lo (patch rs (int (length p1)) (set_ref sc (length p1, \<not> greedy) (p1 @ [blank_inst f OpSplit])))
     s (E \<union> {(length p1, greedy)} \<union> set rc)
     (\<lambda>r a b. if r \<in> E then PP r a b else \<exists>r' \<in> set rs. if r = (length p1, greedy) then PP r' a b else (PP r' OO Q) a b)"
    (is "fragment U c lo ?p _ ?R ?PP")
proof -
  let ?s = "length p1" and ?i = "blank_inst f OpSplit"
  have len: "lo < length p" "length p < length p1" "length ?p = Suc ?s"
    using fragment_bounds(4) [OF P] fragment_bounds(4) [OF Q] by (simp_all add: patch_simps set_ref_simps)
  have old: "p1 ! i = p ! i" if "i < length p" for i using that pre by (metis nth_take)
  have rs: "i \<notin> fst ` set rs" "i \<notin> fst ` E" if "length p \<le> i" for i using that fragment_bounds(3) [OF P] by auto
  have rc: "i \<notin> fst ` set rc" if "i < length p \<or> ?s \<le> i" for i using that fragment_bounds(3) [OF Q] len by auto
  have first: "?p ! i = wire_inst (set rs) (\<lambda>_. int ?s) i (p ! i)" if "i < length p" for i
    using that len old by (simp add: patch_simps set_ref_simps nth_append wire_inst_other)
  have mid: "?p ! i = p1 ! i" if "length p \<le> i" "i < ?s" for i
    using that rs by (simp add: patch_simps set_ref_simps nth_append wire_inst_other)
  have spl: "?p ! ?s = wire_inst {(?s, \<not> greedy)} (\<lambda>_. sc) ?s ?i"
    using rs [of ?s] len by (simp add: patch_simps set_ref_simps wire_inst_other)
  have only: "wire_inst ?R t i x = wire_inst E t i x" if "i < length p" for t i x
    using that not_fst [OF rc [of i]] len by (intro wire_inst_cong) auto
  have only': "wire_inst ?R t i x = wire_inst (set rc) t i x" if "length p \<le> i" "i < ?s" for t i x
    using that not_fst [OF rs(2) [of i]] by (intro wire_inst_cong) auto
  have only'': "wire_inst ?R t ?s x = wire_inst {(?s, greedy)} t ?s x" for t x
    using not_fst [OF rc [of ?s]] not_fst [OF rs(2) [of ?s]] len by (intro wire_inst_cong) auto
  show ?thesis
    unfolding fragment_def
  proof (intro conjI allI impI)
    fix q t k a m e
    assume w: "wired ?p q lo ?R t" and run: "nfa_path U c q k s a m e" and out: "outside lo (length ?p) m"
    have o: "outside lo (length p) m" "outside (length p) (length p1) m" "int ?s \<noteq> m"
      using out len by (auto simp: outside_def)
    let ?t = "\<lambda>r. if r \<in> set rs then int ?s else t r"
    have w1: "wired p q lo (E \<union> set rs) ?t"
      using w len first only dis by (simp add: wired_def wire_inst_both inf_commute sup_commute)
    have w2: "wired p1 q (length p) (set rc) t" using w len mid only' by (simp add: wired_def)
    have qs: "q ! ?s = wire_inst {(?s, greedy), (?s, \<not> greedy)} (\<lambda>r. if r = (?s, greedy) then t r else sc) ?s ?i"
    proof -
      have "q ! ?s = wire_inst {(?s, greedy)} t ?s (wire_inst {(?s, \<not> greedy)} (\<lambda>_. sc) ?s ?i)"
        using wired_at [OF w, of ?s] len spl only'' by simp
      then show ?thesis by (cases greedy) (simp_all add: wire_inst_def)
    qed
    from fragment_run [OF P w1 run o(1)] obtain r b j where
      1: "r \<in> E \<union> set rs" "j < k" "PP r a b" "nfa_path U c q j (?t r) b m e" by blast
    show "\<exists>r\<in>?R. \<exists>b j. j < k \<and> ?PP r a b \<and> nfa_path U c q j (t r) b m e"
    proof (cases "r \<in> set rs")
      case False
      with 1 show ?thesis by (intro bexI [of _ r] exI [of _ b] exI [of _ j]) auto
    next
      case True
      with 1(4) have at: "nfa_path U c q j (int ?s) b m e" by simp
      from run_step [OF at o(3) qs] obtain j' y d where "j = Suc j'" "inst_edge U c ?i b y d"
        "nfa_path U c q j' (if (?s, y) \<in> {(?s, greedy), (?s, \<not> greedy)} then if (?s, y) = (?s, greedy) then t (?s, y) else sc else goto ?i y) d m e"
        by blast
      then have 2: "j = Suc j'" "nfa_path U c q j' (if y = greedy then t (?s, greedy) else sc) b m e"
        by (cases y; cases greedy; simp add: split_edge)+
      have new: "(?s, greedy) \<notin> E" using rs(2) [of ?s] len by force
      show ?thesis
      proof (cases "y = greedy")
        case True
        with 1 2 new \<open>r \<in> set rs\<close> show ?thesis
          by (intro bexI [of _ "(?s, greedy)"] exI [of _ b] exI [of _ j']) auto
      next
        case False
        with 2 have "nfa_path U c q j' sc b m e" by simp
        from fragment_run [OF Q w2 this o(2)] obtain r' d j'' where
          3: "r' \<in> set rc" "j'' < j'" "Q b d" "nfa_path U c q j'' (t r') d m e" by blast
        moreover have "r' \<noteq> (?s, greedy)" using 3(1) rc [of ?s] by force
        moreover have "r' \<notin> E" using 3(1) rs(2) [of "fst r'"] fragment_bounds(3) [OF Q] by force
        ultimately show ?thesis using 1 2(1) \<open>r \<in> set rs\<close>
          by (intro bexI [of _ r'] exI [of _ d] exI [of _ j'']) auto
      qed
    qed
  next
    fix i assume i: "lo \<le> i \<and> i < length ?p"
    then consider "i < length p" | "length p \<le> i" "i < ?s" | "i = ?s" using len by linarith
    then show "i_op (?p ! i) \<noteq> OpMatch"
      using i fragment_bounds(5) [OF P, of i] fragment_bounds(5) [OF Q, of i] first mid spl by cases (simp_all add: blank_inst_def)
  next
    show "s < int (length ?p)" using fragment_bounds(2) [OF P] len by simp
    show "fst ` ?R \<subseteq> {lo ..< length ?p}"
      using fragment_bounds(3) [OF P] fragment_bounds(3) [OF Q] len by (auto simp: subset_iff image_iff)
  qed (use fragment_bounds(1) [OF P] in auto)
qed

end
