(* ===== verification/Nfa_Sound.thy ===== *)
theory Nfa_Sound
  imports Nfa_Fragments
begin

text \<open>
  The Thompson construction is sound: a run of the compiled program from its start to \<open>Match\<close>
  spells a match of the syntax tree.
\<close>

section \<open>Literals\<close>

lemma take_patch: "(\<And>r. r \<in> set rs \<Longrightarrow> lo \<le> fst r) \<Longrightarrow> take lo (patch rs t p) = take lo p"
  by (rule nth_equalityI) (fastforce simp: patch_simps intro!: wire_inst_other)+

lemma take_set_ref: "lo \<le> fst r \<Longrightarrow> take lo (set_ref t r p) = take lo p"
  by (cases r) (simp add: set_ref_def)

text \<open>A program that extends another one and keeps it up to \<open>lo\<close>.\<close>

definition extends :: "nat \<Rightarrow> code \<Rightarrow> code \<Rightarrow> bool" where
  "extends lo p p' \<longleftrightarrow> length p \<le> length p' \<and> take lo p' = take lo p"

lemma extends_refl [simp]: "extends lo p p"
  by (simp add: extends_def)

lemma extends_trans: "extends lo p q \<Longrightarrow> extends lo q r \<Longrightarrow> extends lo p r"
  by (simp add: extends_def)

lemma extends_less: "extends hi p q \<Longrightarrow> lo \<le> hi \<Longrightarrow> extends lo p q"
  unfolding extends_def by (metis min.absorb1 take_take)

lemma extends_snoc [simp]: "lo \<le> length p \<Longrightarrow> extends lo p (p @ is)"
  by (simp add: extends_def)

lemma extends_all: "extends (length p) p q \<longleftrightarrow> length p \<le> length q \<and> take (length p) q = p"
  by (simp add: extends_def)

lemma extends_patch: "extends lo p q \<Longrightarrow> fst ` set rs \<subseteq> {lo ..< n} \<Longrightarrow> extends lo p (patch rs t q)"
  unfolding extends_def by (subst take_patch) (auto simp: patch_simps)

lemma extends_set_ref: "extends lo p q \<Longrightarrow> lo \<le> fst r \<Longrightarrow> extends lo p (set_ref t r q)"
  by (simp add: extends_def take_set_ref set_ref_simps)

lemma frag_concat_fragment:
  assumes P: "fragment U c lo p (fr_start r) (set (fr_out r)) (\<lambda>_. P)"
    and Q: "fragment U c (length p) p1 (fr_start b) (set (fr_out b)) (\<lambda>_. Q)"
    and ext: "extends (length p) p p1" and res: "frag_concat r b p1 = (g, p2)"
  shows "fragment U c lo p2 (fr_start g) (set (fr_out g)) (\<lambda>_. P OO Q)" "extends lo p p2"
proof -
  have g: "g = \<lparr>fr_start = fr_start r, fr_out = fr_out b\<rparr>" "p2 = patch (fr_out r) (fr_start b) p1"
    using res by (simp_all add: frag_concat_def)
  show "fragment U c lo p2 (fr_start g) (set (fr_out g)) (\<lambda>_. P OO Q)"
    unfolding g using fragment_concat [OF P Q] ext by (simp add: extends_all)
  show "extends lo p p2"
    unfolding g using extends_less [OF ext] fragment_bounds(3,4) [OF P] by (intro extends_patch) auto
qed

lemma rune_fragment:
  assumes "one ((blank_inst f OpRune)\<lparr>i_rune := cp\<rparr>) p = Inr (g, p')"
  shows "extends (length p) p p'"
    "fragment U c (length p) p' (fr_start g) (set (fr_out g))
       (\<lambda>_ a b. \<exists>x. context_rune_at U c a = Some (x, b) \<and> cp_eq U x cp (rf_icase f))"
  using one_fragment [OF assms, of U c "\<lambda>a b. \<exists>x. context_rune_at U c a = Some (x, b) \<and> cp_eq U x cp (rf_icase f)"]
  by (simp_all add: blank_inst_def inst_edge_def nfa_consume_def)

lemma literal_loop_rune:
  assumes "icu_ok U" "rune_at U lit lp = Some (cp, nx)" "context_rune_at U c a = Some (x, b)" "cp_eq U x cp ic"
  shows "literal_loop U c lit ic a lp = literal_loop U c lit ic b nx"
  using rune_at_bounds [OF assms(1,2)] assms(2-4) by (subst literal_loop.simps) simp

lemma literal_loop_end: "length lit \<le> lp \<Longrightarrow> literal_loop U c lit ic a lp = Some a"
  by (subst literal_loop.simps) simp

lemma literal_frags_fragment:
  assumes "icu_ok U" "literal_frags U f lit lp (Some a) p = Inr (res, p')"
    and "fragment U c lo p (fr_start a) (set (fr_out a))
           (\<lambda>_ x b. literal_loop U c lit (rf_icase f) x 0 = literal_loop U c lit (rf_icase f) b lp)"
  shows "\<exists>g. res = Some g \<and> extends lo p p' \<and>
           fragment U c lo p' (fr_start g) (set (fr_out g)) (\<lambda>_ x b. literal_loop U c lit (rf_icase f) x 0 = Some b)"
  using assms(2,3)
proof (induction "length lit - lp" arbitrary: lp a p rule: less_induct)
  case less
  show ?case
  proof (cases "rune_at U lit lp")
    case None
    with less.prems(1) have "res = Some a" "p' = p" by (subst (asm) literal_frags.simps; simp)+
    moreover have "length lit \<le> lp" using None by (simp add: rune_at_None)
    ultimately show ?thesis using less.prems(2) by (auto simp: literal_loop_end)
  next
    case (Some r)
    obtain cp nx where r: "rune_at U lit lp = Some (cp, nx)" using Some by (cases r) auto
    note nx = rune_at_bounds [OF assms(1) r]
    from less.prems(1) r obtain g p1 where g: "one ((blank_inst f OpRune)\<lparr>i_rune := cp\<rparr>) p = Inr (g, p1)"
      by (subst (asm) literal_frags.simps) (auto split: sum.splits)
    obtain a2 p2 where c: "frag_concat a g p1 = (a2, p2)" by (cases "frag_concat a g p1")
    note F = frag_concat_fragment [OF less.prems(2) rune_fragment(2,1) [OF g] c]
    have rest: "literal_frags U f lit nx (Some a2) p2 = Inr (res, p')"
      using less.prems(1) r g c nx by (subst (asm) literal_frags.simps) simp
    have "fragment U c lo p2 (fr_start a2) (set (fr_out a2))
           (\<lambda>_ x b. literal_loop U c lit (rf_icase f) x 0 = literal_loop U c lit (rf_icase f) b nx)"
      using F(1) by (rule fragment_mono) (auto simp: literal_loop_rune [OF assms(1) r])
    moreover have "length lit - nx < length lit - lp" using nx by linarith
    ultimately obtain h where "res = Some h" "extends lo p2 p'"
      "fragment U c lo p' (fr_start h) (set (fr_out h)) (\<lambda>_ x b. literal_loop U c lit (rf_icase f) x 0 = Some b)"
      using less.hyps [OF _ rest] by blast
    with extends_trans [OF F(2)] show ?thesis by blast
  qed
qed

lemma literal_fragment:
  assumes "icu_ok U" "build_literal U f lit p = Inr (g, p')"
  shows "extends (length p) p p' \<and> fragment U c (length p) p' (fr_start g) (set (fr_out g)) (\<lambda>_. node_spans U c (KLiteral f lit))"
proof -
  from assms(2) obtain e0 p1 where e0: "epsilon p = Inr (e0, p1)" by (auto simp: build_literal_def split: sum.splits)
  note p1 = epsilon_fragment(1) [OF e0]
  have done_if: ?thesis if F: "fragment U c (length p1) p' (fr_start g) (set (fr_out g)) (\<lambda>_. node_spans U c (KLiteral f lit))"
    and ext: "extends (length p1) p1 p'"
  proof -
    have "take (length p1) p' = p1" using ext by (simp add: extends_def)
    then have "p' ! length p = p1 ! length p" using p1 by (metis length_append_singleton lessI nth_take)
    then have "i_op (p' ! i) \<noteq> OpMatch" if "length p \<le> i" "i < length p1" for i
      using that p1 by (simp add: less_Suc_eq blank_inst_def)
    then have "fragment U c (length p) p' (fr_start g) (set (fr_out g)) (\<lambda>_. node_spans U c (KLiteral f lit))"
      using fragment_widen [OF F, of "length p"] p1 by simp
    moreover have "extends (length p) p p1" "length p \<le> length p1" using p1 by simp_all
    ultimately show ?thesis using extends_trans extends_less [OF ext] by blast
  qed
  have lit: "context_literal_at U c a lit (rf_icase f) = Some b \<Longrightarrow> node_spans U c (KLiteral f lit) a b" for a b
    using reach_literal [of U c "\<lparr>vs_pos = a, vs_caps = cs\<rparr>" lit f b for cs] by (intro spans_same) simp
  show ?thesis
  proof (cases "rune_at U lit 0")
    case None
    then have lit0: "lit = []" by (simp add: rune_at_None)
    from assms(2) e0 None have "epsilon p1 = Inr (g, p')" by (simp add: build_literal_def literal_frags.simps [of U f lit 0])
    note E = epsilon_fragment [OF this]
    have refl: "node_spans U c (KLiteral f lit) a a" for a by (rule lit) (simp add: context_literal_at_def literal_loop_end lit0)
    have "fragment U c (length p1) p' (fr_start g) (set (fr_out g)) (\<lambda>_. node_spans U c (KLiteral f lit))"
      by (rule fragment_mono [OF E(2)]) (simp add: refl)
    moreover have "extends (length p1) p1 p'" using E(1) by simp
    ultimately show ?thesis by (rule done_if)
  next
    case (Some r)
    obtain cp nx where r: "rune_at U lit 0 = Some (cp, nx)" using Some by (cases r) auto
    note nx = rune_at_bounds [OF assms(1) r]
    from assms(2) e0 r obtain h p2 where h: "one ((blank_inst f OpRune)\<lparr>i_rune := cp\<rparr>) p1 = Inr (h, p2)"
      by (simp add: build_literal_def literal_frags.simps [of U f lit 0] split: sum.splits prod.splits)
    have step: "literal_frags U f lit 0 None p1 = literal_frags U f lit nx (Some h) p2"
      using r h nx by (subst literal_frags.simps) simp
    have "fragment U c (length p1) p2 (fr_start h) (set (fr_out h))
           (\<lambda>_ x b. literal_loop U c lit (rf_icase f) x 0 = literal_loop U c lit (rf_icase f) b nx)"
      using rune_fragment(2) [OF h] by (rule fragment_mono) (auto simp: literal_loop_rune [OF assms(1) r])
    note run = literal_frags_fragment [OF assms(1) _ this]
    obtain res p3 where l: "literal_frags U f lit nx (Some h) p2 = Inr (res, p3)"
      using assms(2) e0 step by (auto simp: build_literal_def split: sum.splits)
    from run [OF l] obtain g' where F': "res = Some g'" "extends (length p1) p2 p3"
      "fragment U c (length p1) p3 (fr_start g') (set (fr_out g')) (\<lambda>_ x b. literal_loop U c lit (rf_icase f) x 0 = Some b)" by blast
    have "g' = g" "p3 = p'" using assms(2) e0 step l F'(1) by (simp_all add: build_literal_def)
    note F = F'(2,3) [unfolded this]
    have "fragment U c (length p1) p' (fr_start g) (set (fr_out g)) (\<lambda>_. node_spans U c (KLiteral f lit))"
      using F(2) by (rule fragment_mono) (auto intro!: lit simp: context_literal_at_def)
    moreover have "extends (length p1) p1 p'" using rune_fragment(1) [OF h] F(1) by (rule extends_trans)
    ultimately show ?thesis by (rule done_if)
  qed
qed

section \<open>The compiler\<close>

lemma one_extends: "one i p = Inr (g, p') \<Longrightarrow> extends (length p) p p'"
  by (auto simp: one_def emit_def split: if_splits)

lemma one_spans:
  assumes "one i p = Inr (g, p')" "i_op i \<noteq> OpMatch" "i_op i \<noteq> OpSplit"
    and "\<And>a b. inst_edge U c i a False b \<Longrightarrow> node_spans U c n a b"
  shows "extends (length p) p p' \<and> fragment U c (length p) p' (fr_start g) (set (fr_out g)) (\<lambda>_. node_spans U c n)"
  using one_extends [OF assms(1)] one_fragment(2) [OF assms(1-3)] assms(4) by blast

lemma rune_spans:
  "inst_edge U c (blank_inst f OpAny) a False b \<Longrightarrow> node_spans U c (KDot f) a b"
  "inst_edge U c ((blank_inst f OpClass)\<lparr>i_class := Some cls\<rparr>) a False b \<Longrightarrow> node_spans U c (KClass f cls) a b"
proof -
  assume "inst_edge U c (blank_inst f OpAny) a False b"
  then obtain cp where "context_rune_at U c a = Some (cp, b)" "rf_dotall f \<or> cp \<noteq> byte_cp (c_separator c)"
    by (auto simp: inst_edge_def blank_inst_def nfa_consume_def)
  then show "node_spans U c (KDot f) a b"
    using reach_dot [of U c "\<lparr>vs_pos = a, vs_caps = cs\<rparr>" cp b f for cs] by (intro spans_same) simp
next
  assume "inst_edge U c ((blank_inst f OpClass)\<lparr>i_class := Some cls\<rparr>) a False b"
  then obtain cp where "context_rune_at U c a = Some (cp, b)" "class_match U cls cp (rf_icase f)"
    by (auto simp: inst_edge_def blank_inst_def nfa_consume_def)
  then show "node_spans U c (KClass f cls) a b"
    using reach_class [of U c "\<lparr>vs_pos = a, vs_caps = cs\<rparr>" cp b cls f for cs] by (intro spans_same) simp
qed

lemma assert_spans:
  "inst_edge U c (blank_inst f OpAssertBegin) a False b \<Longrightarrow> node_spans U c (KBegin f) a b"
  "inst_edge U c (blank_inst f OpAssertEnd) a False b \<Longrightarrow> node_spans U c (KEnd f) a b"
  "inst_edge U c (blank_inst f OpAssertAbsBegin) a False b \<Longrightarrow> node_spans U c (KAbsBegin f) a b"
  "inst_edge U c (blank_inst f OpAssertAbsEnd) a False b \<Longrightarrow> node_spans U c (KAbsEnd f) a b"
  "inst_edge U c (blank_inst f OpAssertEndNewline) a False b \<Longrightarrow> node_spans U c (KEndNewline f) a b"
  "inst_edge U c ((blank_inst f OpAssertWord)\<lparr>i_negative := neg\<rparr>) a False b \<Longrightarrow> node_spans U c (KWordBoundary f neg) a b"
  "inst_edge U c (blank_inst f OpAssertWordStartHalf) a False b \<Longrightarrow> node_spans U c (KWordStartHalf f) a b"
  "inst_edge U c (blank_inst f OpAssertWordEndHalf) a False b \<Longrightarrow> node_spans U c (KWordEndHalf f) a b"
  by (auto simp: inst_edge_def blank_inst_def thread_assert_def intro!: spans_same reach_begin reach_end reach_abs_begin
      reach_abs_end reach_end_newline reach_word reach_word_start reach_word_end)

text \<open>What each of the five loops of the compiler makes of the program it is given.\<close>

definition compiles :: "icu \<Rightarrow> verifier_context \<Rightarrow> nat \<Rightarrow> code \<Rightarrow> (frag \<times> code) result \<Rightarrow> (nat \<Rightarrow> nat \<Rightarrow> bool) \<Rightarrow> bool" where
  "compiles U c lo p r P \<longleftrightarrow>
     (\<forall>g p'. r = Inr (g, p') \<longrightarrow> extends lo p p' \<and> fragment U c lo p' (fr_start g) (set (fr_out g)) (\<lambda>_. P))"

lemma compilesD:
  "compiles U c lo p r P \<Longrightarrow> r = Inr (g, p') \<Longrightarrow> extends lo p p'"
  "compiles U c lo p r P \<Longrightarrow> r = Inr (g, p') \<Longrightarrow> fragment U c lo p' (fr_start g) (set (fr_out g)) (\<lambda>_. P)"
  by (auto simp: compiles_def)

lemma compiles_mono:
  assumes "compiles U c lo p r P" "\<And>a b. P a b \<Longrightarrow> Q a b"
  shows "compiles U c lo p r Q"
  unfolding compiles_def
proof (intro allI impI conjI)
  fix g p' assume r: "r = Inr (g, p')"
  show "extends lo p p'" by (rule compilesD(1) [OF assms(1) r])
  show "fragment U c lo p' (fr_start g) (set (fr_out g)) (\<lambda>_. Q)"
    by (rule fragment_mono [OF compilesD(2) [OF assms(1) r]]) (rule assms(2))
qed

lemma compiles_Inl [simp]: "compiles U c lo p (Inl e) P"
  by (simp add: compiles_def)

lemma compiles_one:
  "i_op i \<noteq> OpMatch \<Longrightarrow> i_op i \<noteq> OpSplit \<Longrightarrow> (\<And>a b. inst_edge U c i a False b \<Longrightarrow> node_spans U c n a b) \<Longrightarrow>
   compiles U c (length p) p (one i p) (node_spans U c n)"
  unfolding compiles_def using one_spans by blast

lemma compiles_epsilon: "compiles U c (length p) p (epsilon p) (=)"
  using epsilon_fragment by (fastforce simp: compiles_def)

lemma compiles_step:
  assumes "fragment U c lo p (fr_start r) (set (fr_out r)) (\<lambda>_. P)" "compiles U c (length p) p (Inr (b, p1)) Q"
    and "frag_concat r b p1 = (r1, p2)"
    and "fragment U c lo p2 (fr_start r1) (set (fr_out r1)) (\<lambda>_. P OO Q) \<Longrightarrow> compiles U c lo p2 rest R"
  shows "compiles U c lo p rest R"
proof -
  note F = frag_concat_fragment [OF assms(1) compilesD(2,1) [OF assms(2) refl] assms(3)]
  show ?thesis using assms(4) [OF F(1)] extends_trans [OF F(2)] by (auto simp: compiles_def)
qed

lemma optional_step:
  assumes P: "fragment U c lo p (fr_start r) (set exits \<union> set (fr_out r))
                (\<lambda>x a b. \<exists>j. mn \<le> j \<and> j \<le> i \<and> (Q ^^ j) a b \<and> (x \<in> set (fr_out r) \<longrightarrow> j = i))"
    and Q: "compiles U c (length p) p (Inr (g, p1)) Q" and dis: "set exits \<inter> set (fr_out r) = {}" and mn: "mn \<le> i"
    and p2_def: "p2 = patch (fr_out r) (int (length p1)) (set_ref (fr_start g) (length p1, \<not> greedy) (p1 @ [blank_inst f OpSplit]))"
  shows "fragment U c lo p2 (fr_start r) (set (exits @ [(length p1, greedy)]) \<union> set (fr_out g))
           (\<lambda>x a b. \<exists>j. mn \<le> j \<and> j \<le> Suc i \<and> (Q ^^ j) a b \<and> (x \<in> set (fr_out g) \<longrightarrow> j = Suc i))"
    "set (exits @ [(length p1, greedy)]) \<inter> set (fr_out g) = {}" "extends lo p p2"
proof -
  note F = compilesD(2) [OF Q refl] and E = compilesD(1) [OF Q refl]
  have sep: "x \<notin> set (fr_out g)" if "x \<in> set exits \<or> x = (length p1, greedy)" for x
    using that fragment_bounds(3) [OF P] fragment_bounds(3) [OF F] by force
  then show "set (exits @ [(length p1, greedy)]) \<inter> set (fr_out g) = {}" by auto
  have new: "(length p1, greedy) \<notin> set exits" using fragment_bounds(3) [OF P] fragment_bounds(4) [OF F] by force
  have "fragment U c lo p2 (fr_start r) (set exits \<union> {(length p1, greedy)} \<union> set (fr_out g))
          (\<lambda>x a b. \<exists>j. mn \<le> j \<and> j \<le> Suc i \<and> (Q ^^ j) a b \<and> (x \<in> set (fr_out g) \<longrightarrow> j = Suc i))"
    unfolding p2_def
  proof (rule fragment_mono [OF fragment_optional [OF P F _ dis]])
    show "take (length p) p1 = p" using E by (simp add: extends_def)
    fix x a b
    assume x: "x \<in> set exits \<union> {(length p1, greedy)} \<union> set (fr_out g)"
      and r: "if x \<in> set exits then \<exists>j. mn \<le> j \<and> j \<le> i \<and> (Q ^^ j) a b \<and> (x \<in> set (fr_out r) \<longrightarrow> j = i)
        else \<exists>r' \<in> set (fr_out r).
          if x = (length p1, greedy) then \<exists>j. mn \<le> j \<and> j \<le> i \<and> (Q ^^ j) a b \<and> (r' \<in> set (fr_out r) \<longrightarrow> j = i)
          else ((\<lambda>a b. \<exists>j. mn \<le> j \<and> j \<le> i \<and> (Q ^^ j) a b \<and> (r' \<in> set (fr_out r) \<longrightarrow> j = i)) OO Q) a b"
    show "\<exists>j. mn \<le> j \<and> j \<le> Suc i \<and> (Q ^^ j) a b \<and> (x \<in> set (fr_out g) \<longrightarrow> j = Suc i)"
    proof (cases "x \<in> set exits \<or> x = (length p1, greedy)")
      case True
      with r new obtain j where "mn \<le> j" "j \<le> i" "(Q ^^ j) a b" by (cases "x \<in> set exits") auto
      with sep [OF True] show ?thesis by (intro exI [of _ j]) simp
    next
      case False
      with r obtain d where "(Q ^^ i) a d" "Q d b" by auto
      with mn show ?thesis by (intro exI [of _ "Suc i"]) auto
    qed
  qed
  then show "fragment U c lo p2 (fr_start r) (set (exits @ [(length p1, greedy)]) \<union> set (fr_out g))
      (\<lambda>x a b. \<exists>j. mn \<le> j \<and> j \<le> Suc i \<and> (Q ^^ j) a b \<and> (x \<in> set (fr_out g) \<longrightarrow> j = Suc i))"
    by (simp add: Un_commute insert_commute)
  show "extends lo p p2"
    unfolding p2_def
  proof (rule extends_patch [where n = "length p"])
    have "lo \<le> length p1" "lo \<le> length p" using fragment_bounds(4) [OF P] fragment_bounds(4) [OF F] by simp_all
    then show "extends lo p (set_ref (fr_start g) (length p1, \<not> greedy) (p1 @ [blank_inst f OpSplit]))"
      using extends_less [OF E] by (intro extends_set_ref extends_trans [OF _ extends_snoc]) simp_all
    show "fst ` set (fr_out r) \<subseteq> {lo ..< length p}" using fragment_bounds(3) [OF P] by auto
  qed
qed

text \<open>The parser makes no alternation without branches and no repetition with its bounds exchanged.\<close>

fun tree_ok :: "node \<Rightarrow> bool" where
  "tree_ok (KConcat f cs) = (\<forall>n \<in> set cs. tree_ok n)"
| "tree_ok (KAlt f cs) = (cs \<noteq> [] \<and> (\<forall>n \<in> set cs. tree_ok n))"
| "tree_ok (KRepeat f mn mx greedy n) = ((case mx of None \<Rightarrow> True | Some m \<Rightarrow> mn \<le> m) \<and> tree_ok n)"
| "tree_ok (KGroup f g n) = tree_ok n"
| "tree_ok (KLookAhead f neg n) = tree_ok n"
| "tree_ok (KLookBehind f neg n) = tree_ok n"
| "tree_ok _ = True"

lemma compiles_group:
  assumes "compiles U c (length p) p (build U n p) (node_spans U c n)"
  shows "compiles U c (length p) p (build U (KGroup f g n) p) (node_spans U c (KGroup f g n))"
  unfolding compiles_def
proof (intro allI impI)
  fix h p' assume b: "build U (KGroup f g n) p = Inr (h, p')"
  then obtain d p1 where d: "build U n p = Inr (d, p1)" by (auto split: sum.splits)
  note F = compilesD(2) [OF assms d] and E = compilesD(1) [OF assms d]
  let ?i1 = "(blank_inst f OpSaveStart)\<lparr>i_group := g\<rparr>" and ?i2 = "(blank_inst f OpSaveEnd)\<lparr>i_group := g\<rparr>"
  let ?q = "patch (fr_out d) (int (Suc (length p1))) (set_ref (fr_start d) (length p1, False) (p1 @ [?i1]) @ [?i2])"
  have h: "fr_start h = int (length p1)" "fr_out h = [(Suc (length p1), False)]" "p' = ?q"
    using b d by (auto simp: emit_def set_ref_simps split: if_splits)
  have "fragment U c (length p) ?q (int (length p1)) {(Suc (length p1), False)} (\<lambda>_. node_spans U c n)"
    by (rule fragment_group [OF F]) (use E in \<open>simp_all add: extends_def blank_inst_def\<close>)
  then have "fragment U c (length p) ?q (int (length p1)) {(Suc (length p1), False)} (\<lambda>_. node_spans U c (KGroup f g n))"
    by (rule fragment_mono) (rule spans_group)
  moreover have "extends (length p) p ?q"
  proof (rule extends_patch [where n = "length p1"])
    have "length p \<le> length p1" using E by (simp add: extends_def)
    then show "extends (length p) p (set_ref (fr_start d) (length p1, False) (p1 @ [?i1]) @ [?i2])"
      using E by (intro extends_trans [OF _ extends_snoc] extends_set_ref) (simp_all add: set_ref_simps)
    show "fst ` set (fr_out d) \<subseteq> {length p ..< length p1}" by (rule fragment_bounds(3) [OF F])
  qed
  ultimately show "extends (length p) p p' \<and>
      fragment U c (length p) p' (fr_start h) (set (fr_out h)) (\<lambda>_. node_spans U c (KGroup f g n))"
    using h by simp
qed

lemma compiles_star:
  assumes P: "fragment U c lo p (fr_start r) (set (fr_out r)) (\<lambda>_. P)"
    and Q: "compiles U c (length p) p (build U n p) Q"
  shows "compiles U c lo p
    (case build U n p of Inl e \<Rightarrow> Inl e
     | Inr (d, p2) \<Rightarrow>
         (case emit (blank_inst f OpSplit) p2 of Inl e \<Rightarrow> Inl e
          | Inr (pc, p3) \<Rightarrow>
              Inr (\<lparr>fr_start = fr_start r, fr_out = [(pc, greedy)]\<rparr>,
                   patch (fr_out r) (int pc) (patch (fr_out d) (int pc) (set_ref (fr_start d) (pc, \<not> greedy) p3)))))
    (\<lambda>a b. \<exists>k. (P OO (Q ^^ k)) a b)"
  unfolding compiles_def
proof (intro allI impI, goal_cases)
  case (1 h p')
  then obtain d p1 where d: "build U n p = Inr (d, p1)" by (auto split: sum.splits)
  note F = compilesD(2) [OF Q d] and E = compilesD(1) [OF Q d]
  let ?q = "patch (fr_out r) (int (length p1)) (patch (fr_out d) (int (length p1))
    (set_ref (fr_start d) (length p1, \<not> greedy) (p1 @ [blank_inst f OpSplit])))"
  have h: "fr_start h = fr_start r" "fr_out h = [(length p1, greedy)]" "p' = ?q"
    using 1 d by (auto simp: emit_def split: if_splits)
  have "fragment U c lo ?q (fr_start r) {(length p1, greedy)} (\<lambda>_ a b. \<exists>k. (P OO (Q ^^ k)) a b)"
    by (rule fragment_star [OF P F]) (use E in \<open>simp add: extends_def\<close>)
  moreover have "extends lo p ?q"
  proof (rule extends_patch [where n = "length p"], rule extends_patch [where n = "length p1"])
    have "lo \<le> length p1" "lo \<le> length p" using fragment_bounds(4) [OF P] fragment_bounds(4) [OF F] by simp_all
    then show "extends lo p (set_ref (fr_start d) (length p1, \<not> greedy) (p1 @ [blank_inst f OpSplit]))"
      using extends_less [OF E] by (intro extends_set_ref extends_trans [OF _ extends_snoc]) simp_all
    show "fst ` set (fr_out r) \<subseteq> {lo ..< length p}" using fragment_bounds(3) [OF P] by auto
    show "fst ` set (fr_out d) \<subseteq> {lo ..< length p1}" using fragment_bounds(3) [OF F] \<open>lo \<le> length p\<close> by auto
  qed
  ultimately show ?case using h by simp
qed

lemma build_compiles:
  "icu_ok U \<Longrightarrow> tree_ok n \<Longrightarrow> compiles U c (length p) p (build U n p) (node_spans U c n)"
  "icu_ok U \<Longrightarrow> fragment U c lo p (fr_start r) (set (fr_out r)) (\<lambda>_. P) \<Longrightarrow> \<forall>n \<in> set cs. tree_ok n \<Longrightarrow>
     compiles U c lo p (build_concat U cs r p) (P OO spans_path U c cs)"
  "icu_ok U \<Longrightarrow> fragment U c lo p (fr_start r) (set (fr_out r)) (\<lambda>_. P) \<Longrightarrow> \<forall>n \<in> set cs. tree_ok n \<Longrightarrow>
     compiles U c lo p (build_alt U f cs r p) (\<lambda>a b. P a b \<or> (\<exists>n \<in> set cs. node_spans U c n a b))"
  "icu_ok U \<Longrightarrow> fragment U c lo p (fr_start r) (set (fr_out r)) (\<lambda>_. P) \<Longrightarrow> tree_ok n \<Longrightarrow>
     compiles U c lo p (build_copies U n k r p) (P OO (node_spans U c n ^^ k))"
  "icu_ok U \<Longrightarrow> tree_ok n \<Longrightarrow> least \<le> i \<Longrightarrow> set exits \<inter> set (fr_out r) = {} \<Longrightarrow>
     fragment U c lo p (fr_start r) (set exits \<union> set (fr_out r))
       (\<lambda>x a b. \<exists>j. least \<le> j \<and> j \<le> i \<and> (node_spans U c n ^^ j) a b \<and> (x \<in> set (fr_out r) \<longrightarrow> j = i)) \<Longrightarrow>
     compiles U c lo p (build_optional U f greedy n k r exits p) (\<lambda>a b. \<exists>j. least \<le> j \<and> j \<le> i + k \<and> (node_spans U c n ^^ j) a b)"
proof (induction U n p and U cs r p and U f cs r p and U n k r p and U f greedy n k r exits p
    arbitrary: and lo P and lo P and lo P and lo i least rule: build_build_concat_build_alt_build_copies_build_optional.induct)
  case (1 U f p)
  have "node_spans U c (KEmpty f) a a" for a by (rule spans_same) (rule reach_empty)
  then show ?case using compiles_mono [OF compiles_epsilon] by auto
next
  case (2 U f lit p)
  then show ?case using literal_fragment by (simp add: compiles_def)
next
  case (3 U f p)
  show ?case unfolding build.simps by (rule compiles_one) (simp_all add: rune_spans, simp_all add: blank_inst_def)
next
  case (4 U f cls p)
  show ?case unfolding build.simps by (rule compiles_one) (simp_all add: rune_spans, simp_all add: blank_inst_def)
next
  case (5 U f p)
  show ?case unfolding build.simps by (rule compiles_one) (simp_all add: assert_spans, simp_all add: blank_inst_def)
next
  case (6 U f p)
  show ?case unfolding build.simps by (rule compiles_one) (simp_all add: assert_spans, simp_all add: blank_inst_def)
next
  case (7 U f p)
  show ?case unfolding build.simps by (rule compiles_one) (simp_all add: assert_spans, simp_all add: blank_inst_def)
next
  case (8 U f p)
  show ?case unfolding build.simps by (rule compiles_one) (simp_all add: assert_spans, simp_all add: blank_inst_def)
next
  case (9 U f p)
  show ?case unfolding build.simps by (rule compiles_one) (simp_all add: assert_spans, simp_all add: blank_inst_def)
next
  case (10 U f neg p)
  show ?case unfolding build.simps by (rule compiles_one) (simp_all add: assert_spans, simp_all add: blank_inst_def)
next
  case (11 U f p)
  show ?case unfolding build.simps by (rule compiles_one) (simp_all add: assert_spans, simp_all add: blank_inst_def)
next
  case (12 U f p)
  show ?case unfolding build.simps by (rule compiles_one) (simp_all add: assert_spans, simp_all add: blank_inst_def)
next
  case (13 U f g ch p)
  then show ?case by (intro compiles_group) simp
next
  case (14 U f cs p)
  show ?case
  proof (cases "epsilon p")
    case (Inr x)
    obtain r p1 where e: "epsilon p = Inr (r, p1)" using Inr by (cases x) auto
    note E = epsilon_fragment [OF e]
    have ext: "extends (length p) p p1" using E(1) by simp
    have "compiles U c (length p) p1 (build_concat U cs r p1) ((=) OO spans_path U c cs)"
      using 14(1) [OF e refl 14(2) E(2)] 14(3) by simp
    then have "compiles U c (length p) p1 (build_concat U cs r p1) (node_spans U c (KConcat f cs))"
      by (rule compiles_mono) (auto intro: spans_concat)
    then show ?thesis using e extends_trans [OF ext] by (auto simp: compiles_def)
  qed simp
next
  case (15 U f p)
  then show ?case by simp
next
  case (16 U f ch cs p)
  show ?case
  proof (cases "build U ch p")
    case (Inr x)
    obtain r p1 where b: "build U ch p = Inr (r, p1)" using Inr by (cases x) auto
    have C: "compiles U c (length p) p (build U ch p) (node_spans U c ch)" using 16 by simp
    note F = compilesD(2) [OF C b] and E = compilesD(1) [OF C b]
    have "compiles U c (length p) p1 (build_alt U f cs r p1) (\<lambda>a b. node_spans U c ch a b \<or> (\<exists>n \<in> set cs. node_spans U c n a b))"
      using 16(2) [OF b refl 16(3) F] 16(4) by simp
    then have "compiles U c (length p) p1 (build_alt U f cs r p1) (node_spans U c (KAlt f (ch # cs)))"
      by (rule compiles_mono) (auto intro: spans_alt)
    then show ?thesis using b extends_trans [OF E] by (auto simp: compiles_def)
  qed simp
next
  case (17 U f mn mx greedy ch p)
  show ?case
  proof (cases "epsilon p")
    case (Inr x)
    obtain r p1 where e: "epsilon p = Inr (r, p1)" using Inr by (cases x) auto
    note E = epsilon_fragment [OF e]
    have ext: "extends (length p) p p1" using E(1) by simp
    have ok: "tree_ok ch" using 17 by simp
    have C: "compiles U c (length p) p1 (build_copies U ch mn r p1) ((=) OO (node_spans U c ch ^^ mn))"
      using 17(1) [OF e refl 17(4) E(2) ok] .
    show ?thesis
    proof (cases "build_copies U ch mn r p1")
      case (Inr y)
      obtain g p2 where b: "build_copies U ch mn r p1 = Inr (g, p2)" using Inr by (cases y) auto
      have F: "fragment U c (length p) p2 (fr_start g) (set (fr_out g)) (\<lambda>_. node_spans U c ch ^^ mn)"
        using compilesD(2) [OF C b] by (simp add: eq_OO)
      have E2: "extends (length p) p p2" using ext compilesD(1) [OF C b] by (rule extends_trans)
      show ?thesis
      proof (cases "mx = Some mn")
        case True
        have "fragment U c (length p) p2 (fr_start g) (set (fr_out g)) (\<lambda>_. node_spans U c (KRepeat f mn mx greedy ch))"
          by (rule fragment_mono [OF F]) (simp add: spans_repeat True)
        with True e b E2 show ?thesis by (simp add: compiles_def)
      next
        case False
        show ?thesis
        proof (cases mx)
          case None
          have Q: "compiles U c (length p2) p2 (build U ch p2) (node_spans U c ch)"
            using 17(2) [OF e refl b refl False None 17(4) ok] .
          have "compiles U c (length p) p2 (build U (KRepeat f mn mx greedy ch) p) (\<lambda>a b. \<exists>k. ((node_spans U c ch ^^ mn) OO (node_spans U c ch ^^ k)) a b)"
            using compiles_star [OF F Q, where f = f and greedy = greedy] e b False None by simp
          then have "compiles U c (length p) p2 (build U (KRepeat f mn mx greedy ch) p) (node_spans U c (KRepeat f mn mx greedy ch))"
          proof (rule compiles_mono)
            fix a b assume "\<exists>k. ((node_spans U c ch ^^ mn) OO (node_spans U c ch ^^ k)) a b"
            then obtain k where "(node_spans U c ch ^^ (mn + k)) a b" unfolding relpowp_add by blast
            then show "node_spans U c (KRepeat f mn mx greedy ch) a b" by (rule spans_repeat) (simp_all add: None)
          qed
          then show ?thesis using extends_trans [OF E2] by (auto simp: compiles_def)
        next
          case (Some m)
          have S: "fragment U c (length p) p2 (fr_start g) (set [] \<union> set (fr_out g))
              (\<lambda>x a b. \<exists>j. mn \<le> j \<and> j \<le> mn \<and> (node_spans U c ch ^^ j) a b \<and> (x \<in> set (fr_out g) \<longrightarrow> j = mn))"
            using fragment_mono [OF F] by simp
          have "compiles U c (length p) p2 (build_optional U f greedy ch (m - mn) g [] p2)
              (\<lambda>a b. \<exists>j. mn \<le> j \<and> j \<le> mn + (m - mn) \<and> (node_spans U c ch ^^ j) a b)"
            by (rule 17(3) [OF e refl b refl False Some 17(4) ok le_refl]) (use S in simp_all)
          then have "compiles U c (length p) p2 (build U (KRepeat f mn mx greedy ch) p)
              (\<lambda>a b. \<exists>j. mn \<le> j \<and> j \<le> mn + (m - mn) \<and> (node_spans U c ch ^^ j) a b)"
            using e b False Some by simp
          then have "compiles U c (length p) p2 (build U (KRepeat f mn mx greedy ch) p) (node_spans U c (KRepeat f mn mx greedy ch))"
          proof (rule compiles_mono)
            fix a b assume "\<exists>j. mn \<le> j \<and> j \<le> mn + (m - mn) \<and> (node_spans U c ch ^^ j) a b"
            then obtain j where "mn \<le> j" "j \<le> m" "(node_spans U c ch ^^ j) a b" using 17(5) Some by auto
            then show "node_spans U c (KRepeat f mn mx greedy ch) a b" by (intro spans_repeat) (simp_all add: Some)
          qed
          then show ?thesis using extends_trans [OF E2] by (auto simp: compiles_def)
        qed
      qed
    qed (use e in simp)
  qed simp
next
  case (18 U f g p)
  show ?case by simp
next
  case (19 U f neg ch p)
  show ?case by simp
next
  case (20 U f neg ch p)
  show ?case by simp
next
  case (21 U r p)
  have "fragment U c lo p (fr_start r) (set (fr_out r)) (\<lambda>_. P OO spans_path U c [])"
    by (rule fragment_mono [OF 21(2)]) (use spans_path_Nil in blast)
  then show ?case by (simp add: compiles_def)
next
  case (22 U n cs r p)
  show ?case
  proof (cases "build U n p")
    case (Inr x)
    obtain b p1 where b: "build U n p = Inr (b, p1)" using Inr by (cases x) auto
    obtain r1 p2 where fc: "frag_concat r b p1 = (r1, p2)" by (cases "frag_concat r b p1")
    have C: "compiles U c (length p) p (Inr (b, p1)) (node_spans U c n)" using 22(1) [OF 22(3)] 22(5) b by simp
    have "compiles U c lo p (build_concat U cs r1 p2) ((P OO node_spans U c n) OO spans_path U c cs)"
      by (rule compiles_step [OF 22(4) C fc]) (use 22(2) [OF b refl fc [symmetric] 22(3)] 22(5) in simp)
    then have "compiles U c lo p (build_concat U cs r1 p2) (P OO spans_path U c (n # cs))"
      by (rule compiles_mono) (auto intro: spans_path_Cons)
    then show ?thesis using b fc by simp
  qed simp
next
  case (23 U f r p)
  then show ?case by (simp add: compiles_def)
next
  case (24 U f n cs r p)
  show ?case
  proof (cases "build U n p")
    case (Inr x)
    obtain b p1 where b: "build U n p = Inr (b, p1)" using Inr by (cases x) auto
    have C: "compiles U c (length p) p (build U n p) (node_spans U c n)" using 24(1) [OF 24(3)] 24(5) by simp
    note F = compilesD(2) [OF C b] and E = compilesD(1) [OF C b]
    let ?i = "(blank_inst f OpSplit)\<lparr>i_x := fr_start r, i_y := fr_start b\<rparr>"
    let ?r = "\<lparr>fr_start = int (length p1), fr_out = fr_out r @ fr_out b\<rparr>"
    have G: "fragment U c lo (p1 @ [?i]) (fr_start ?r) (set (fr_out ?r)) (\<lambda>_ a b. P a b \<or> node_spans U c n a b)"
      using fragment_alt [OF 24(4) F] E by (simp add: extends_def)
    have "lo \<le> length p1" using fragment_bounds(4) [OF 24(4)] fragment_bounds(4) [OF F] by simp
    then have ext: "extends lo p (p1 @ [?i])"
      using extends_less [OF E] fragment_bounds(4) [OF 24(4)] by (intro extends_trans [OF _ extends_snoc]) simp_all
    show ?thesis
    proof (cases "length p1 < 1000000")
      case True
      then have em: "emit ?i p1 = Inr (length p1, p1 @ [?i])" by (simp add: emit_def)
      have "compiles U c lo (p1 @ [?i]) (build_alt U f cs ?r (p1 @ [?i])) (\<lambda>a b. (P a b \<or> node_spans U c n a b) \<or> (\<exists>n \<in> set cs. node_spans U c n a b))"
        by (rule 24(2) [OF b refl em refl 24(3) G]) (use 24(5) in simp)
      then have "compiles U c lo (p1 @ [?i]) (build_alt U f cs ?r (p1 @ [?i])) (\<lambda>a b. P a b \<or> (\<exists>n \<in> set (n # cs). node_spans U c n a b))"
        by (rule compiles_mono) auto
      then show ?thesis using b em extends_trans [OF ext] by (auto simp: compiles_def)
    qed (use b in \<open>simp add: emit_def\<close>)
  qed simp
next
  case (25 U n r p)
  have "fragment U c lo p (fr_start r) (set (fr_out r)) (\<lambda>_. P OO (node_spans U c n ^^ 0))"
    by (rule fragment_mono [OF 25(2)]) auto
  then show ?case by (simp add: compiles_def)
next
  case (26 U n k r p)
  show ?case
  proof (cases "build U n p")
    case (Inr x)
    obtain b p1 where b: "build U n p = Inr (b, p1)" using Inr by (cases x) auto
    obtain r1 p2 where fc: "frag_concat r b p1 = (r1, p2)" by (cases "frag_concat r b p1")
    have C: "compiles U c (length p) p (Inr (b, p1)) (node_spans U c n)" using 26(1) [OF 26(3,5)] b by simp
    have "compiles U c lo p (build_copies U n k r1 p2) ((P OO node_spans U c n) OO (node_spans U c n ^^ k))"
      by (rule compiles_step [OF 26(4) C fc]) (use 26(2) [OF b refl fc [symmetric] 26(3)] 26(5) in simp)
    moreover have "(P OO node_spans U c n) OO (node_spans U c n ^^ k) = P OO (node_spans U c n ^^ Suc k)"
      by (simp add: relcompp_assoc relpowp_commute)
    ultimately show ?thesis using b fc by simp
  qed simp
next
  case (27 U f greedy n r exits p)
  have "fragment U c lo p (fr_start r) (set exits \<union> set (fr_out r)) (\<lambda>_ a b. \<exists>j. least \<le> j \<and> j \<le> i \<and> (node_spans U c n ^^ j) a b)"
    by (rule fragment_mono [OF 27(5)]) blast
  then show ?case by (simp add: compiles_def)
next
  case (28 U f greedy n k r exits p)
  show ?case
  proof (cases "build U n p")
    case (Inr x)
    obtain g p1 where b: "build U n p = Inr (g, p1)" using Inr by (cases x) auto
    have C: "compiles U c (length p) p (Inr (g, p1)) (node_spans U c n)" using 28(1) [OF 28(3,4)] b by simp
    note step = optional_step [where f = f and greedy = greedy, OF 28(7) C 28(6,5) refl]
    show ?thesis
    proof (cases "length p1 < 1000000")
      case True
      then have em: "emit (blank_inst f OpSplit) p1 = Inr (length p1, p1 @ [blank_inst f OpSplit])" by (simp add: emit_def)
      note IH = 28(2) [OF b refl em refl 28(3,4)]
      show ?thesis
      proof -
        let ?q = "patch (fr_out r) (int (length p1)) (set_ref (fr_start g) (length p1, \<not> greedy) (p1 @ [blank_inst f OpSplit]))"
        have "compiles U c lo ?q
           (build_optional U f greedy n k \<lparr>fr_start = fr_start r, fr_out = fr_out g\<rparr> (exits @ [(length p1, greedy)]) ?q)
           (\<lambda>a b. \<exists>j. least \<le> j \<and> j \<le> Suc i + k \<and> (node_spans U c n ^^ j) a b)"
          by (rule IH) (use step 28(5) in simp_all)
        then show ?thesis using b em extends_trans [OF step(3)] by (auto simp: compiles_def)
      qed
    qed (use b in \<open>simp add: emit_def\<close>)
  qed simp
qed

text \<open>A run of the compiled program from its start to \<open>Match\<close>.\<close>

lemma compile_nfa_start:
  assumes "icu_ok U" "tree_ok n" "compile_nfa U n = Inr (q, s0)"
  shows "0 \<le> s0" "s0 < int (length q)"
proof -
  from assms(3) obtain g p mi p1 where b: "build U n [] = Inr (g, p)" "emit (blank_inst no_flags OpMatch) p = Inr (mi, p1)"
    and q: "q = patch (fr_out g) (int mi) p1" "s0 = fr_start g"
    by (auto simp: compile_nfa_def split: sum.splits prod.splits)
  have "compiles U c 0 [] (build U n []) (node_spans U c n)" for c using build_compiles(1) [OF assms(1,2), of c "[]"] by simp
  note F = compilesD(2) [OF this b(1)]
  show "0 \<le> s0" "s0 < int (length q)"
    using fragment_bounds(1,2) [OF F] b(2) q by (auto simp: emit_def patch_simps split: if_splits)
qed

lemma compile_nfa_sound:
  assumes "icu_ok U" "tree_ok n" "compile_nfa U n = Inr (q, s0)"
    and run: "nfa_path U c q k s0 a pc e" and pc: "valid_pc q pc" "i_op (q ! nat pc) = OpMatch"
  shows "node_spans U c n a e"
proof -
  from assms(3) obtain g p mi p1 where b: "build U n [] = Inr (g, p)" "emit (blank_inst no_flags OpMatch) p = Inr (mi, p1)"
    and q: "q = patch (fr_out g) (int mi) p1" "s0 = fr_start g"
    by (auto simp: compile_nfa_def split: sum.splits prod.splits)
  from b(2) have mi: "mi = length p" "p1 = p @ [blank_inst no_flags OpMatch]" by (auto simp: emit_def split: if_splits)
  have "compiles U c 0 [] (build U n []) (node_spans U c n)" using build_compiles(1) [OF assms(1,2), of c "[]"] by simp
  note F = compilesD(2) [OF this b(1)]
  have w: "wired p q 0 (set (fr_out g)) (\<lambda>_. int mi)"
    unfolding wired_def q mi by (simp add: patch_simps nth_append)
  have len: "length q = Suc (length p)" by (simp add: q mi patch_simps)
  have "nat pc < length q" using pc(1) by (auto simp: valid_pc_def)
  moreover have "\<not> nat pc < length p"
    using wired_at [OF w, of "nat pc"] fragment_bounds(5) [OF F, of "nat pc"] pc(2) by auto
  ultimately have "nat pc = length p" using len by simp
  then have pm: "pc = int (length p)" using pc(1) by (auto simp: valid_pc_def)
  then have "outside 0 (length p) pc" by (simp add: outside_def)
  from fragment_run [OF F w run [unfolded q(2)] this] obtain r d j where 1: "node_spans U c n a d" "nfa_path U c q j (int mi) d pc e" by blast
  have "j = 0"
  proof (rule ccontr)
    assume "j \<noteq> 0"
    then obtain j' where "j = Suc j'" by (cases j) auto
    with 1(2) obtain y x where "inst_edge U c (q ! nat (int mi)) d y x" by (auto elim: nfa_path_SucE)
    then show False using pc(2) pm mi by (simp add: inst_edge_def)
  qed
  with 1 pm mi show ?thesis by (auto elim: nfa_path_zeroE)
qed

section \<open>Paths of threads\<close>

lemma nfa_path_append:
  "nfa_path U c p j x a y b \<Longrightarrow> nfa_path U c p k y b z d \<Longrightarrow> nfa_path U c p (j + k) x a z d"
  by (induction rule: nfa_path.induct) (auto intro: nfa_path.intros)

definition reaches :: "icu \<Rightarrow> verifier_context \<Rightarrow> code \<Rightarrow> int \<Rightarrow> nat \<Rightarrow> int \<Rightarrow> nat \<Rightarrow> bool" where
  "reaches U c p x a y b \<longleftrightarrow> (\<exists>k. nfa_path U c p k x a y b)"

lemma reaches_refl [simp]: "reaches U c p x a x a"
  by (auto simp: reaches_def intro: nfa_path.stay)

lemma reaches_trans: "reaches U c p x a y b \<Longrightarrow> reaches U c p y b z d \<Longrightarrow> reaches U c p x a z d"
  unfolding reaches_def using nfa_path_append by blast

lemma reaches_step:
  "reaches U c p x a pc b \<Longrightarrow> valid_pc p pc \<Longrightarrow> inst_edge U c (p ! nat pc) b y d \<Longrightarrow> reaches U c p x a (goto (p ! nat pc) y) d"
  by (rule reaches_trans) (auto simp: reaches_def intro!: exI [of _ "Suc 0"] intro: nfa_path.intros)

text \<open>What is true of every thread in the list at a position.\<close>

definition thread_ok :: "icu \<Rightarrow> verifier_context \<Rightarrow> nfa_program \<Rightarrow> nat \<Rightarrow> nfa_thread \<Rightarrow> bool" where
  "thread_ok U c p pos t \<longleftrightarrow> c_candidate_begin c \<le> t_start t \<and> t_start t < c_candidate_end c \<and>
     reaches U c (np_code p) (np_start p) (t_start t) (t_pc t) pos"

lemma thread_ok_goto:
  "thread_ok U c p pos t \<Longrightarrow> valid_pc (np_code p) (t_pc t) \<Longrightarrow> inst_edge U c (np_code p ! nat (t_pc t)) pos y d \<Longrightarrow>
   t_start t' = t_start t \<Longrightarrow> t_pc t' = goto (np_code p ! nat (t_pc t)) y \<Longrightarrow> thread_ok U c p d t'"
  by (auto simp: thread_ok_def intro: reaches_step)

lemma expand_thread_ok:
  assumes "thread_ok U c p pos t" "valid_pc (np_code p) (t_pc t)" "expand_thread U (np_code p) c pos t = Some ts" "t' \<in> set ts"
  shows "thread_ok U c p pos t'"
proof -
  let ?i = "np_code p ! nat (t_pc t)"
  have "\<exists>y. inst_edge U c ?i pos y pos \<and> t_start t' = t_start t \<and> t_pc t' = goto ?i y"
    using assms(3,4)
    by (cases "i_op ?i"; simp add: expand_thread_def inst_edge_def goto_def save_start_def save_end_def Let_def ex_bool_eq
        split: if_splits; auto)
  with thread_ok_goto [OF assms(1,2)] show ?thesis by blast
qed

lemma add_threads_ok:
  assumes "q = np_code p" "\<forall>t \<in> set stack \<union> set ts. thread_ok U c p pos t" "\<forall>t \<in> set ts. valid_pc q (t_pc t)"
  shows "\<forall>t \<in> set (snd (add_threads U q c pos gen stack seen ts)). thread_ok U c p pos t \<and> valid_pc q (t_pc t)"
  using assms
proof (induction U q c pos gen stack seen ts rule: add_threads.induct)
  case (2 U q c pos gen t stack seen ts)
  consider (a) "\<not> valid_pc q (t_pc t) \<or> length seen \<le> nat (t_pc t)"
    | (b) "valid_pc q (t_pc t)" "\<not> length seen \<le> nat (t_pc t)" "seen ! nat (t_pc t) = gen"
    | (d) "valid_pc q (t_pc t)" "\<not> length seen \<le> nat (t_pc t)" "seen ! nat (t_pc t) \<noteq> gen" by blast
  then show ?case
  proof cases
    case a
    with "2.IH"(1) [OF a] "2.prems" show ?thesis by simp
  next
    case b
    with "2.IH"(2) [OF _ b(3)] "2.prems" show ?thesis by simp
  next
    case d
    show ?thesis
    proof (cases "expand_thread U q c pos t")
      case None
      with d "2.IH"(3) [OF _ d(3) refl None] "2.prems" show ?thesis by (simp add: Let_def)
    next
      case (Some new)
      have "thread_ok U c p pos t'" if "t' \<in> set new" for t'
        using expand_thread_ok [of U c p pos t new t'] Some that d "2.prems" by simp
      with d Some "2.IH"(4) [OF _ d(3) refl Some] "2.prems" show ?thesis by (auto simp: Let_def)
    qed
  qed
qed simp

section \<open>Precomputed closures\<close>

text \<open>Instructions that a run passes without reading the text, for any text.\<close>

inductive free_path :: "code \<Rightarrow> int \<Rightarrow> int \<Rightarrow> bool" for p where
  free_here: "free_path p pc pc"
| free_x: "free_path p s pc \<Longrightarrow> valid_pc p pc \<Longrightarrow> i_op (p ! nat pc) \<in> {OpSplit, OpJmp} \<Longrightarrow> free_path p s (i_x (p ! nat pc))"
| free_y: "free_path p s pc \<Longrightarrow> valid_pc p pc \<Longrightarrow> i_op (p ! nat pc) = OpSplit \<Longrightarrow> free_path p s (i_y (p ! nat pc))"

lemma free_reaches: "free_path q s pc \<Longrightarrow> reaches U c q s a pc a"
proof (induction rule: free_path.induct)
  case (free_x s pc)
  then show ?case using reaches_step [of U c q s a pc a False a] by (auto simp: inst_edge_def goto_def)
next
  case (free_y s pc)
  then show ?case using reaches_step [of U c q s a pc a True a] by (auto simp: inst_edge_def goto_def)
qed simp

lemma closure_walk_free:
  assumes "closure_walk p visited stack pcs = Some r" "\<forall>pc \<in> set stack. free_path p s pc"
  shows "\<exists>new. r = pcs @ new \<and> (\<forall>pc \<in> set new. free_path p s pc \<and> valid_pc p pc)"
  using assms
proof (induction p visited stack pcs rule: closure_walk.induct)
  case (2 p visited pc stack pcs)
  show ?case
  proof (cases "\<not> valid_pc p pc \<or> length visited \<le> nat pc \<or> visited ! nat pc")
    case True
    with "2.IH"(1) [OF True] "2.prems" show ?thesis by simp
  next
    case False
    then have v: "valid_pc p pc" by simp
    let ?i = "p ! nat pc" and ?v = "visited[nat pc := True]"
    have free: "free_path p s pc" using "2.prems"(2) by simp
    consider (split) "i_op ?i = OpSplit" | (jmp) "i_op ?i = OpJmp" | (keep) "i_op ?i \<noteq> OpSplit" "i_op ?i \<noteq> OpJmp" by blast
    then show ?thesis
    proof cases
      case split
      have "closure_walk p ?v (i_x ?i # i_y ?i # stack) pcs = Some r"
        using "2.prems"(1) False split by (subst (asm) closure_walk.simps(2)) (simp add: Let_def del: closure_walk.simps)
      from "2.IH"(5) [OF False refl refl split this] free_x [OF free v] free_y [OF free v] split "2.prems"(2) show ?thesis by simp
    next
      case jmp
      have "closure_walk p ?v (i_x ?i # stack) pcs = Some r"
        using "2.prems"(1) False jmp by (subst (asm) closure_walk.simps(2)) (simp add: Let_def del: closure_walk.simps)
      from "2.IH"(6) [OF False refl refl jmp this] free_x [OF free v] jmp "2.prems"(2) show ?thesis by simp
    next
      case keep
      then have step: "closure_walk p visited (pc # stack) pcs =
          (if length pcs = closure_max_entries then None else closure_walk p ?v stack (pcs @ [pc]))"
        using False by (simp add: Let_def split: nfa_op.splits)
      have "\<exists>new. r = (pcs @ [pc]) @ new \<and> (\<forall>pc \<in> set new. free_path p s pc \<and> valid_pc p pc)"
        using step "2.prems" keep "2.IH"(2-4,7-17) [OF False refl refl]
        by (cases "i_op ?i") (simp_all split: if_splits)
      then show ?thesis using free v by (metis append.assoc append_Cons append_Nil set_ConsD)
    qed
  qed
qed simp

text \<open>The slice of a source in the table: the instructions its free runs reach.\<close>

definition closures_ok :: "code \<Rightarrow> nat list \<Rightarrow> int list \<Rightarrow> bool" where
  "closures_ok p offs pcs \<longleftrightarrow>
     offs \<noteq> [] \<and> sorted offs \<and> last offs = length pcs \<and>
     (\<forall>s. Suc s < length offs \<longrightarrow> (\<forall>pc \<in> set (substr pcs (offs ! s) (offs ! Suc s - offs ! s)). free_path p (int s) pc \<and> valid_pc p pc))"

lemma closure_table_ok:
  assumes "closure_table p srcs offs pcs = Some (offs', pcs')" "closures_ok p offs pcs" "srcs = [length offs - 1 ..< n]"
  shows "closures_ok p offs' pcs'"
  using assms
proof (induction p srcs offs pcs rule: closure_table.induct)
  case (2 p src srcs offs pcs)
  obtain pcs1 where w: "closure_walk p (replicate (length p) False) [int src] pcs = Some pcs1"
    and rest: "closure_table p srcs (offs @ [length pcs1]) pcs1 = Some (offs', pcs')"
    using "2.prems"(1) by (auto split: option.splits)
  have src: "src = length offs - 1" "srcs = [length (offs @ [length pcs1]) - 1 ..< n]"
    using "2.prems"(2,3) by (cases "length offs - 1 < n"; auto simp: upt_conv_Cons closures_ok_def)+
  from closure_walk_free [OF w] obtain new where new: "pcs1 = pcs @ new" "\<forall>pc \<in> set new. free_path p (int src) pc \<and> valid_pc p pc"
    using free_here by fastforce
  have offs: "offs \<noteq> []" "sorted offs" "last offs = length pcs" using "2.prems"(2) by (auto simp: closures_ok_def)
  have le: "offs ! s \<le> length pcs" if "s < length offs" for s
    using offs that sorted_nth_mono [OF offs(2), of s "length offs - 1"] by (simp add: last_conv_nth)
  have "closures_ok p (offs @ [length pcs1]) pcs1"
    unfolding closures_ok_def
  proof (intro conjI allI impI ballI)
    show "sorted (offs @ [length pcs1])" using offs le new(1) by (fastforce simp: sorted_append in_set_conv_nth intro: trans_le_add1)
    fix s pc
    assume s: "Suc s < length (offs @ [length pcs1])"
      and pc: "pc \<in> set (substr pcs1 ((offs @ [length pcs1]) ! s) ((offs @ [length pcs1]) ! Suc s - (offs @ [length pcs1]) ! s))"
    have "free_path p (int s) pc \<and> valid_pc p pc"
    proof (cases "Suc s < length offs")
      case True
      then have "substr pcs1 (offs ! s) (offs ! Suc s - offs ! s) = substr pcs (offs ! s) (offs ! Suc s - offs ! s)"
        using le [of "Suc s"] le [of s] new(1) by (simp add: substr_def)
      with True pc "2.prems"(2) show ?thesis by (auto simp: nth_append closures_ok_def)
    next
      case False
      with s have sl: "Suc s = length offs" by simp
      then have "s = src" "offs ! s = last offs" using src(1) offs(1) by (simp, metis diff_Suc_1 last_conv_nth)
      then have "s = src" "(offs @ [length pcs1]) ! s = length pcs" "(offs @ [length pcs1]) ! Suc s = length pcs1"
        using sl offs(3) by (simp_all add: nth_append)
      with pc new show ?thesis by (simp add: substr_def)
    qed
    then show "free_path p (int s) pc" "valid_pc p pc" by simp_all
  qed (simp_all add: offs)
  from "2.IH" [OF w rest this src(2)] show ?case .
qed simp

lemma build_closures_ok:
  assumes "length (fst (build_nfa_closures k p)) = length p + 1"
  shows "closures_ok p (fst (build_nfa_closures k p)) (snd (build_nfa_closures k p))"
proof (cases "closure_table p [0 ..< length p] [0] []")
  case None
  with assms show ?thesis by (simp add: build_nfa_closures_def split: if_splits)
next
  case (Some r)
  obtain offs pcs where t: "closure_table p [0 ..< length p] [0] [] = Some (offs, pcs)" using Some by (cases r) auto
  have "closures_ok p offs pcs" by (rule closure_table_ok [OF t]) (simp_all add: closures_ok_def)
  moreover have "build_nfa_closures k p = (offs, pcs)" using assms t by (simp add: build_nfa_closures_def split: if_splits)
  ultimately show ?thesis by simp
qed

section \<open>The simulation\<close>

text \<open>A program as \<open>parse_regex\<close> leaves it, with the table of closures that belongs to the code.\<close>

definition nfa_compiled :: "icu \<Rightarrow> nfa_program \<Rightarrow> bool" where
  "nfa_compiled U p \<longleftrightarrow>
     compile_nfa U (rp_ast p) = Inr (np_code p, np_start p) \<and> tree_ok (rp_ast p) \<and>
     (np_closure_offsets p, np_closure_pcs p) = build_nfa_closures (rp_groups p) (np_code p)"

lemma compiled_closures:
  "nfa_compiled U p \<Longrightarrow> length (np_closure_offsets p) = length (np_code p) + 1 \<Longrightarrow>
   closures_ok (np_code p) (np_closure_offsets p) (np_closure_pcs p)"
  using build_closures_ok [of "rp_groups p" "np_code p"] by (metis fst_conv nfa_compiled_def snd_conv)

definition threads_ok :: "icu \<Rightarrow> verifier_context \<Rightarrow> nfa_program \<Rightarrow> nat \<Rightarrow> nfa_thread list \<Rightarrow> bool" where
  "threads_ok U c p pos ts \<longleftrightarrow> (\<forall>t \<in> set ts. thread_ok U c p pos t \<and> valid_pc (np_code p) (t_pc t))"

lemma add_closure_ok:
  assumes "threads_ok U c p pos ts"
    and "\<forall>pc \<in> set pcs. valid_pc (np_code p) pc \<and> reaches U c (np_code p) (np_start p) s pc pos"
    and "c_candidate_begin c \<le> s" "s < c_candidate_end c"
  shows "threads_ok U c p pos (snd (add_closure gen s pcs seen ts))"
  using assms by (induction gen s pcs seen ts rule: add_closure.induct) (simp_all add: threads_ok_def thread_ok_def)

lemma add_nfa_thread_ok:
  assumes "nfa_compiled U p" "thread_ok U c p pos seed" "threads_ok U c p pos ts"
  shows "threads_ok U c p pos (snd (add_nfa_thread U p c pos seed gen seen ts))"
proof (cases "valid_pc (np_code p) (t_pc seed) \<and> length (np_closure_offsets p) = length (np_code p) + 1 \<and> t_caps seed = []")
  case True
  let ?offs = "np_closure_offsets p" and ?s = "nat (t_pc seed)"
  have s: "int ?s = t_pc seed" "Suc ?s < length ?offs" using True by (auto simp: valid_pc_def)
  have table: "closures_ok (np_code p) ?offs (np_closure_pcs p)" using compiled_closures [OF assms(1)] True by simp
  have seed: "reaches U c (np_code p) (np_start p) (t_start seed) (t_pc seed) pos" using assms(2) by (simp add: thread_ok_def)
  have "valid_pc (np_code p) pc \<and> reaches U c (np_code p) (np_start p) (t_start seed) pc pos"
    if pc: "pc \<in> set (substr (np_closure_pcs p) (?offs ! ?s) (?offs ! Suc ?s - ?offs ! ?s))" for pc
  proof -
    from table have "\<forall>s. Suc s < length ?offs \<longrightarrow> (\<forall>pc \<in> set (substr (np_closure_pcs p) (?offs ! s) (?offs ! Suc s - ?offs ! s)).
        free_path (np_code p) (int s) pc \<and> valid_pc (np_code p) pc)" unfolding closures_ok_def by (elim conjE)
    from this [THEN spec, of ?s, THEN mp, OF s(2), THEN bspec, OF pc]
    have v: "free_path (np_code p) (t_pc seed) pc \<and> valid_pc (np_code p) pc" by (simp only: s(1))
    have "reaches U c (np_code p) (np_start p) (t_start seed) pc pos"
      by (rule reaches_trans [OF seed free_reaches]) (simp only: v)
    with v show ?thesis by simp
  qed
  then have "threads_ok U c p pos (snd (add_closure gen (t_start seed) (substr (np_closure_pcs p) (?offs ! ?s) (?offs ! Suc ?s - ?offs ! ?s)) seen ts))"
    using assms(2) by (intro add_closure_ok [OF assms(3)]) (simp_all add: thread_ok_def)
  with True show ?thesis by (simp add: add_nfa_thread_def Let_def)
next
  case False
  then have "add_nfa_thread U p c pos seed gen seen ts = add_threads U (np_code p) c pos gen [seed] seen ts"
    by (simp only: add_nfa_thread_def Let_def if_False)
  moreover have "threads_ok U c p pos (snd (add_threads U (np_code p) c pos gen [seed] seen ts))"
    unfolding threads_ok_def by (rule add_threads_ok [OF refl]) (use assms(2,3) in \<open>auto simp: threads_ok_def\<close>)
  ultimately show ?thesis by (simp only:)
qed

text \<open>Both functions that read the next rune agree on a valid context without a region.\<close>

lemma rune_at_validated:
  assumes "icu_ok U" "validate c" "\<not> c_bounded_region c"
  shows "context_rune_at_validated U c pos = context_rune_at U c pos"
proof (cases "pos < c_record_begin c \<or> c_record_end c \<le> pos")
  case False
  then have o: "pos - c_source_begin c < length (c_source c)" "ctx_contains c pos" "c_source_begin c \<le> pos"
    using assms(2) by (auto simp: validate_def ctx_contains_def split: if_splits)
  show ?thesis
  proof (cases "c_source c ! (pos - c_source_begin c) < 0x80")
    case True
    with rune_at_ascii [OF assms(1) o(1)] False o assms show ?thesis
      by (simp add: context_rune_at_validated_def context_rune_at_def region_contains_def)
  next
    case asc: False
    then show ?thesis using False o assms
      by (simp add: context_rune_at_validated_def context_rune_at_def region_contains_def Let_def split: option.splits)
  qed
qed (auto simp: context_rune_at_validated_def context_rune_at_def)

lemma step_threads_ok:
  assumes "nfa_compiled U p" "context_rune_at U c pos = Some (cp, nx)" "threads_ok U c p pos cur" "threads_ok U c p nx ts"
  shows "threads_ok U c p nx (snd (step_threads U p c cp nx gen cur seen ts))"
  using assms(3,4)
proof (induction cur arbitrary: seen ts)
  case (Cons t cur)
  let ?i = "np_code p ! nat (t_pc t)"
  have tc: "thread_ok U c p pos t" "valid_pc (np_code p) (t_pc t)" "threads_ok U c p pos cur"
    using Cons.prems(1) by (simp_all add: threads_ok_def)
  show ?case
  proof (cases "nfa_consume U ?i cp (c_separator c)")
    case True
    have "inst_edge U c ?i pos False nx"
      using True assms(2) by (cases "i_op ?i") (simp_all add: inst_edge_def nfa_consume_def)
    then have "thread_ok U c p nx (t\<lparr>t_pc := i_x ?i\<rparr>)"
      by (rule thread_ok_goto [OF tc(1,2)]) (simp_all add: goto_def)
    note new = add_nfa_thread_ok [OF assms(1) this Cons.prems(2), of gen seen]
    obtain seen' ts' where add: "add_nfa_thread U p c nx (t\<lparr>t_pc := i_x ?i\<rparr>) gen seen ts = (seen', ts')" by fastforce
    have "step_threads U p c cp nx gen (t # cur) seen ts = step_threads U p c cp nx gen cur seen' ts'"
      using True add by (simp add: Let_def)
    with Cons.IH [OF tc(3), of ts' seen'] new add show ?thesis by simp
  next
    case False
    then have "step_threads U p c cp nx gen (t # cur) seen ts = step_threads U p c cp nx gen cur seen ts" by (simp add: Let_def)
    with Cons.IH [OF tc(3) Cons.prems(2)] show ?thesis by simp
  qed
qed simp

lemma split_match_ok:
  assumes "threads_ok U c p pos cur" "split_match (np_code p) cur = (cur2, hit)"
  shows "threads_ok U c p pos cur2"
    "hit = Some t \<Longrightarrow> thread_ok U c p pos t \<and> valid_pc (np_code p) (t_pc t) \<and> i_op (np_code p ! nat (t_pc t)) = OpMatch"
proof -
  show "threads_ok U c p pos cur2"
    using assms set_takeWhileD by (fastforce simp: threads_ok_def split_match_def Let_def)
  assume "hit = Some t"
  let ?Q = "\<lambda>t. i_op (np_code p ! nat (t_pc t)) \<noteq> OpMatch"
  have l: "length (takeWhile ?Q cur) < length cur" "t = cur ! length (takeWhile ?Q cur)"
    using \<open>hit = Some t\<close> assms(2) by (auto simp: split_match_def Let_def split: if_splits)
  with nth_length_takeWhile [OF l(1)] assms(1) show "thread_ok U c p pos t \<and> valid_pc (np_code p) (t_pc t) \<and> i_op (np_code p ! nat (t_pc t)) = OpMatch"
    by (simp add: threads_ok_def)
qed

definition best_ok :: "icu \<Rightarrow> verifier_context \<Rightarrow> nfa_program \<Rightarrow> (nfa_thread \<times> nat) option \<Rightarrow> bool" where
  "best_ok U c p best \<longleftrightarrow>
     (\<forall>t e. best = Some (t, e) \<longrightarrow> thread_ok U c p e t \<and> valid_pc (np_code p) (t_pc t) \<and> i_op (np_code p ! nat (t_pc t)) = OpMatch)"

lemma best_ok_None [simp]: "best_ok U c p None"
  by (simp add: best_ok_def)

lemma start_thread_ok: "c_candidate_begin c \<le> pos \<Longrightarrow> pos < c_candidate_end c \<Longrightarrow> thread_ok U c p pos (start_thread p pos)"
  by (simp add: thread_ok_def start_thread_def)

lemma nfa_loop_ok:
  assumes "icu_ok U" "validate c" "\<not> c_bounded_region c" "nfa_compiled U p"
    and "threads_ok U c p pos0 cur" "best_ok U c p best" "c_candidate_begin c \<le> pos0"
  shows "best_ok U c p (nfa_loop U p c cur seen cg ng best pos0)"
  using assms(5-7)
proof (induction "c_record_end c - pos0" arbitrary: cur seen cg ng best pos0 rule: less_induct)
  case less
  define jumping where "jumping = (cur = [] \<and> best = None \<and> qi_prefixes (np_ir p) \<noteq> [] \<and> pos0 < c_record_end c)"
  define jump where "jump = prefix_jump (c_source c) (pos0 - c_source_begin c) (qi_prefixes (np_ir p)) None"
  define pos where "pos = (if jumping then c_source_begin c + the jump else pos0)"
  obtain seen1 cur1 where s1: "(if pos < c_candidate_end c then add_nfa_thread U p c pos (start_thread p pos) cg seen cur else (seen, cur)) = (seen1, cur1)"
    by fastforce
  obtain cur2 hit where s2: "split_match (np_code p) cur1 = (cur2, hit)" by fastforce
  define best' where "best' = (case hit of None \<Rightarrow> best | Some t \<Rightarrow> Some (t, pos))"
  have loop: "nfa_loop U p c cur seen cg ng best pos0 =
     (if cur = [] \<and> best = None \<and> c_candidate_end c \<le> pos0 then best
      else if jumping \<and> (case jump of None \<Rightarrow> True | Some j \<Rightarrow> c_candidate_end c \<le> c_source_begin c + j) then best
      else if best' \<noteq> None \<and> cur2 = [] then best'
      else if c_record_end c \<le> pos then best'
      else (case context_rune_at_validated U c pos of None \<Rightarrow> best'
        | Some (cp, nx) \<Rightarrow>
            (case step_threads U p c cp nx ng cur2 seen1 [] of (seen2, next) \<Rightarrow>
               if next = [] \<and> best' \<noteq> None then best'
               else if pos0 < nx then nfa_loop U p c next seen2 ng (ng + 1) best' nx
               else best')))"
    by (subst nfa_loop.simps)
      (simp only: jumping_def [symmetric] jump_def [symmetric] Let_def pos_def [symmetric] s1 s2 prod.case best'_def [symmetric])
  let ?missed = "jumping \<and> (case jump of None \<Rightarrow> True | Some j \<Rightarrow> c_candidate_end c \<le> c_source_begin c + j)"
  have pos: "c_candidate_begin c \<le> pos" if "\<not> ?missed"
  proof (cases jumping)
    case True
    with that obtain j where j: "jump = Some j" by (cases jump) simp_all
    from prefix_jump_ge [OF j [unfolded jump_def]] have "pos0 - c_source_begin c \<le> j" by simp
    with True j less.prems(3) show ?thesis by (simp add: pos_def)
  qed (use less.prems(3) in \<open>simp add: pos_def\<close>)
  show ?case
  proof (cases ?missed)
    case True
    then show ?thesis unfolding loop using less.prems(2) by simp
  next
    case False
    note pos = pos [OF this]
    have "threads_ok U c p pos cur"
      using less.prems(1) by (cases jumping) (auto simp: pos_def jumping_def threads_ok_def)
    then have t1: "threads_ok U c p pos cur1"
      using s1 add_nfa_thread_ok [OF assms(4) start_thread_ok [OF pos], of cur cg seen]
      by (cases "pos < c_candidate_end c") auto
    have t2: "threads_ok U c p pos cur2" by (rule split_match_ok(1) [OF t1 s2])
    have b': "best_ok U c p best'"
      using split_match_ok(2) [OF t1 s2] less.prems(2) by (cases hit) (auto simp: best'_def best_ok_def)
    show ?thesis
    proof (cases "context_rune_at_validated U c pos")
      case None
      then show ?thesis unfolding loop using b' less.prems(2) by simp
    next
      case (Some x)
      obtain cp nx where r: "context_rune_at_validated U c pos = Some (cp, nx)" using Some by (cases x) auto
      obtain seen2 nxt where st: "step_threads U p c cp nx ng cur2 seen1 [] = (seen2, nxt)" by fastforce
      have "context_rune_at U c pos = Some (cp, nx)" using r rune_at_validated [OF assms(1-3)] by simp
      from step_threads_ok [OF assms(4) this t2, of "[]" ng seen1] st have t3: "threads_ok U c p nx nxt"
        by (simp add: threads_ok_def)
      have "best_ok U c p (nfa_loop U p c nxt seen2 ng (ng + 1) best' nx)" if "pos0 < nx" "\<not> c_record_end c \<le> pos0"
        by (rule less.hyps [OF _ t3 b']) (use that less.prems(3) in linarith)+
      moreover have "\<not> c_record_end c \<le> pos \<Longrightarrow> \<not> c_record_end c \<le> pos0" by (auto simp: pos_def jumping_def split: if_splits)
      ultimately show ?thesis
        unfolding loop r option.case st prod.case using b' less.prems(2) by (simp only: split: if_split) blast
    qed
  qed
qed

lemma nfa_loop_sound:
  assumes "icu_ok U" "validate c" "\<not> c_bounded_region c" "nfa_compiled U p"
    and "nfa_loop U p c [] seen cg ng None pos = Some (t, e)" "c_candidate_begin c \<le> pos"
  shows "node_spans U c (rp_ast p) (t_start t) e" "t_start t < c_candidate_end c" "c_candidate_begin c \<le> t_start t"
proof -
  have "best_ok U c p (nfa_loop U p c [] seen cg ng None pos)"
    by (rule nfa_loop_ok [OF assms(1-4)]) (use assms(6) in \<open>simp_all add: threads_ok_def best_ok_def\<close>)
  with assms(5) have t: "thread_ok U c p e t" "valid_pc (np_code p) (t_pc t)" "i_op (np_code p ! nat (t_pc t)) = OpMatch"
    by (simp_all add: best_ok_def)
  then show "t_start t < c_candidate_end c" "c_candidate_begin c \<le> t_start t" by (simp_all add: thread_ok_def)
  from t(1) obtain k where "nfa_path U c (np_code p) k (np_start p) (t_start t) (t_pc t) e" by (auto simp: thread_ok_def reaches_def)
  from compile_nfa_sound [OF assms(1) _ _ this t(2,3)] assms(4) show "node_spans U c (rp_ast p) (t_start t) e"
    by (simp add: nfa_compiled_def)
qed

end
