(* ===== verification/Parser_Correct.thy ===== *)
theory Parser_Correct
  imports Parser Nfa_Sound
begin

text \<open>
  The recursive descent: the fuel the model gives it is enough, so the parser returns for every
  pattern, and what it returns is a tree the compiler and the matcher are made for.
\<close>

section \<open>The scanners move forward\<close>

text \<open>
  The position stays in the pattern, \<open>extended_\<close> is never taken back, the count of groups never
  drops and the list of their names keeps pace with it.
\<close>

definition grows :: "bytes \<Rightarrow> parser_state \<Rightarrow> parser_state \<Rightarrow> bool" where
  "grows s a b \<longleftrightarrow> ps_i a \<le> ps_i b \<and> (ps_i a \<le> length s \<longrightarrow> ps_i b \<le> length s) \<and> (ps_extended a \<longrightarrow> ps_extended b) \<and>
     ps_groups a \<le> ps_groups b \<and> (length (ps_names a) = ps_groups a + 1 \<longrightarrow> length (ps_names b) = ps_groups b + 1)"

definition eats :: "bytes \<Rightarrow> parser_state \<Rightarrow> parser_state \<Rightarrow> bool" where
  "eats s a b \<longleftrightarrow> grows s a b \<and> ps_i a < ps_i b"

lemma grows_refl [simp]: "grows s a a"
  by (simp add: grows_def)

lemma grows_trans: "grows s a b \<Longrightarrow> grows s b c \<Longrightarrow> grows s a c"
  by (auto simp: grows_def)

lemma eats_grows: "eats s a b \<Longrightarrow> grows s a b"
  by (simp add: eats_def)

lemma eats_trans: "eats s a b \<Longrightarrow> grows s b c \<Longrightarrow> eats s a c" "grows s a b \<Longrightarrow> eats s b c \<Longrightarrow> eats s a c"
  by (auto simp: eats_def grows_def)

lemma advance_simps [simp]:
  "ps_i (advance k a) = ps_i a + k" "ps_extended (advance k a) = ps_extended a"
  "ps_groups (advance k a) = ps_groups a" "ps_names (advance k a) = ps_names a"
  by (simp_all add: advance_def)

lemma eats_advance: "ps_i a + k \<le> length s \<Longrightarrow> 0 < k \<Longrightarrow> eats s a (advance k a)"
  by (simp add: eats_def grows_def)

lemma eats_peeks: "peeks s a c \<Longrightarrow> eats s a (advance 1 a)"
  by (rule eats_advance) (auto simp: peeks_def)

lemma fail_not_Inr [simp]: "fail m st \<noteq> Inr x" "Inr x \<noteq> fail m st"
  by (simp_all add: fail_def)

lemma skip_ws_bounds: "i \<le> skip_ws s i \<and> (i \<le> length s \<longrightarrow> skip_ws s i \<le> length s)"
proof (induction s i rule: skip_ws.induct)
  case (1 s i)
  let ?j = "skip_while ascii_isspace s i" let ?k = "skip_while (\<lambda>c. c \<noteq> 10) s (?j + 1)"
  have j: "i \<le> ?j" "i \<le> length s \<longrightarrow> ?j \<le> length s" "?j + 1 \<le> ?k" "?j + 1 \<le> length s \<longrightarrow> ?k \<le> length s"
    by (simp_all add: skip_while_ge skip_while_le)
  show ?case
  proof (cases "?j < length s \<and> s ! ?j = 35")
    case True
    with 1 j show ?thesis by (subst (1 2) skip_ws.simps) (simp add: Let_def)
  next
    case False
    with j show ?thesis by (subst (1 2) skip_ws.simps) (auto simp: Let_def)
  qed
qed

lemma grows_skip_ignored: "grows s a (skip_ignored s a)"
  using skip_ws_bounds [of "ps_i a" s] by (simp add: skip_ignored_def grows_def)

lemma number_loop_bounds: "number_loop s i x = Inr (y, j) \<Longrightarrow> i \<le> j \<and> (i \<le> length s \<longrightarrow> j \<le> length s)"
proof (induction s i x rule: number_loop.induct)
  case (1 s i x)
  let ?d = "unat (s ! i) - 48"
  show ?case
  proof (cases "i < length s \<and> ascii_isdigit (s ! i)")
    case True
    with 1(2) have "\<not> (2 ^ 64 - 1 - ?d) div 10 < x" "number_loop s (i + 1) (x * 10 + ?d) = Inr (y, j)"
      by (subst (asm) number_loop.simps; simp add: Let_def split: if_splits)+
    from 1(1) [OF True refl this] True show ?thesis by simp
  next
    case False
    with 1(2) show ?thesis by (subst (asm) number_loop.simps) auto
  qed
qed

lemma number_grows: "number s a = Inr (x, b) \<Longrightarrow> grows s a b"
  by (auto simp: number_def grows_def split: if_splits sum.splits dest!: number_loop_bounds)

lemma name_loop_bounds: "name_loop s i acc = Inr (nm, j) \<Longrightarrow> i \<le> j \<and> (i \<le> length s \<longrightarrow> j \<le> length s)"
proof (induction s i acc rule: name_loop.induct)
  case (1 s i acc)
  show ?case
  proof (cases "i < length s \<and> s ! i \<noteq> 62")
    case True
    with 1(2) have "ascii_alnum (s ! i) \<or> s ! i = 95" "name_loop s (i + 1) (acc @ [s ! i]) = Inr (nm, j)"
      by (subst (asm) name_loop.simps; simp split: if_splits)+
    from 1(1) [OF True this] True show ?thesis by simp
  next
    case False
    with 1(2) show ?thesis by (subst (asm) name_loop.simps) auto
  qed
qed

lemma group_name_eats: "group_name s a = Inr (nm, b) \<Longrightarrow> eats s a b"
  by (auto simp: group_name_def eats_def grows_def peeks_def Let_def split: if_splits sum.splits dest!: name_loop_bounds)

lemma property_name_eats: "property_name s a = Inr (nm, b) \<Longrightarrow> eats s a b"
  using skip_while_ge [of "Suc (ps_i a)" "\<lambda>c. c \<noteq> char_byte CHR ''}''" s]
  by (auto simp: property_name_def eats_def grows_def peeks_def Let_def split: if_splits)

lemma hex_escape_eats: "hex_escape s a = Inr (x, b) \<Longrightarrow> eats s a b"
  by (auto simp: hex_escape_def split: if_splits option.splits intro: eats_advance)

lemma pattern_rune_eats: "icu_ok U \<Longrightarrow> pattern_rune U s a = Inr (cp, b) \<Longrightarrow> eats s a b"
  using icu_okD(1) [of U "ps_i a" s cp]
  by (auto simp: pattern_rune_def eats_def grows_def Let_def not_le not_less split: if_splits prod.splits)

lemma class_rune_eats:
  assumes "icu_ok U" "class_rune U s a = Inr (cp, b)"
  shows "eats s a b"
proof (cases "peeks s a 92")
  case True
  have e: "eats s a (advance 1 a)" by (rule eats_peeks [OF True])
  have len: "\<not> length s \<le> ps_i (advance 1 a)" using assms(2) True by (auto simp: class_rune_def split: if_splits)
  then have g: "grows s (advance 1 a) (advance 1 (advance 1 a))" by (intro eats_grows eats_advance) auto
  have "b = advance 1 (advance 1 a) \<or> (\<exists>x. hex_escape s (advance 1 (advance 1 a)) = Inr (x, b))"
    using assms(2) True len by (auto simp: class_rune_def Let_def split: if_splits option.splits sum.splits)
  then show ?thesis using eats_trans(1) [OF e] g hex_escape_eats eats_grows grows_trans by blast
next
  case False
  then show ?thesis using assms pattern_rune_eats by (simp add: class_rune_def)
qed

lemma class_item_eats:
  assumes "icu_ok U" "class_item U s a cls prev = Inr (x, b)" "ps_i a < length s"
  shows "eats s a b"
proof -
  have two: "eats s a (advance 2 a)" if "ps_i a + 1 < length s" using that by (intro eats_advance) simp_all
  have one: "eats s a (advance 1 a)" using assms(3) by (intro eats_advance) simp_all
  show ?thesis
    using assms(2) eats_trans(1) [OF two eats_grows [OF property_name_eats]] eats_trans(1) [OF one eats_grows [OF class_rune_eats [OF assms(1)]]]
      class_rune_eats [OF assms(1)] two
    by (auto simp: class_item_def Let_def split: if_splits sum.splits prod.splits)
qed

lemma class_loop_eats:
  assumes "icu_ok U" "class_loop U s a first cls prev = Inr (x, b)"
  shows "eats s a b"
  using assms
proof (induction U s a first cls prev rule: class_loop.induct)
  case (1 U s a first cls prev)
  have len: "\<not> length s \<le> ps_i a" using 1(3) by (subst (asm) class_loop.simps) (simp split: if_splits)
  show ?case
  proof (cases "s ! ps_i a = 93 \<and> \<not> first")
    case True
    with 1(3) len have "b = advance 1 a" by (subst (asm) class_loop.simps) simp
    with len show ?thesis by (auto intro: eats_advance)
  next
    case False
    with 1(3) len obtain cls' prev' a' where item: "class_item U s a cls prev = Inr ((cls', prev'), a')"
      and mv: "ps_i a < ps_i a'" and rest: "class_loop U s a' False cls' prev' = Inr (x, b)"
      by (subst (asm) class_loop.simps) (auto split: sum.splits if_splits)
    have "eats s a a'" using class_item_eats [OF 1(2) item] len by simp
    moreover have "eats s a' b" by (rule 1(1) [OF len False item refl refl mv 1(2) rest])
    ultimately show ?thesis using eats_trans(1) eats_grows by blast
  qed
qed

lemma char_class_result:
  assumes "icu_ok U" "char_class U s a = Inr (x, b)"
  shows "eats s a b" "\<exists>f cls. x = KClass f cls"
proof -
  let ?a = "if peeks s a 94 then advance 1 a else a"
  obtain cls where l: "class_loop U s ?a True \<lparr>cc_ranges = [], cc_properties = [], cc_negated = peeks s a 94\<rparr> None = Inr (cls, b)"
    and x: "x = KClass (state_flags a) cls"
    using assms(2) by (auto simp: char_class_def Let_def split: sum.splits)
  have "grows s a ?a" using eats_grows [OF eats_peeks] by simp
  with class_loop_eats [OF assms(1) l] show "eats s a b" using eats_trans(2) by blast
  show "\<exists>f cls. x = KClass f cls" using x by blast
qed

text \<open>The trees without sub-patterns that the automaton can run, or \<open>extended_\<close> is set.\<close>

fun regular :: "node \<Rightarrow> bool" where
  "regular (KConcat f cs) = (\<forall>n \<in> set cs. regular n)"
| "regular (KAlt f cs) = (\<forall>n \<in> set cs. regular n)"
| "regular (KRepeat f mn mx greedy n) = regular n"
| "regular (KGroup f g n) = regular n"
| "regular (KLookAhead f neg n) = False"
| "regular (KLookBehind f neg n) = False"
| "regular (KBackRef f g) = False"
| "regular _ = True"

text \<open>The groups of a tree are numbered from 1 and counted by \<open>k\<close>.\<close>

fun groups_ok :: "nat \<Rightarrow> node \<Rightarrow> bool" where
  "groups_ok k (KConcat f cs) = (\<forall>n \<in> set cs. groups_ok k n)"
| "groups_ok k (KAlt f cs) = (\<forall>n \<in> set cs. groups_ok k n)"
| "groups_ok k (KRepeat f mn mx greedy n) = groups_ok k n"
| "groups_ok k (KGroup f g n) = (1 \<le> g \<and> g \<le> k \<and> groups_ok k n)"
| "groups_ok k (KLookAhead f neg n) = groups_ok k n"
| "groups_ok k (KLookBehind f neg n) = groups_ok k n"
| "groups_ok k _ = True"

lemma groups_ok_mono: "groups_ok k n \<Longrightarrow> k \<le> l \<Longrightarrow> groups_ok l n"
  by (induction k n rule: groups_ok.induct) auto

definition parsed_ok :: "node \<Rightarrow> parser_state \<Rightarrow> bool" where
  "parsed_ok n b \<longleftrightarrow> tree_ok n \<and> (regular n \<or> ps_extended b) \<and> groups_ok (ps_groups b) n"

lemma parsed_ok_grows: "parsed_ok n a \<Longrightarrow> grows s a b \<Longrightarrow> parsed_ok n b"
  using groups_ok_mono by (auto simp: parsed_ok_def grows_def)

lemma escaped_result:
  assumes "escaped U s a = Inr (x, b)"
  shows "eats s a b" "parsed_ok x b"
proof -
  have len: "\<not> length s \<le> ps_i a" using assms by (simp add: escaped_def split: if_splits)
  have one: "eats s a (advance 1 a)" using len by (intro eats_advance) simp_all
  have backref: "eats s a ((advance 1 a)\<lparr>ps_extended := True\<rparr>)" using one by (simp add: eats_def grows_def)
  show "eats s a b"
    using assms one backref eats_trans(1) [OF one eats_grows [OF property_name_eats]] eats_trans(1) [OF one eats_grows [OF hex_escape_eats]]
    by (auto simp: escaped_def Let_def split: if_splits sum.splits prod.splits option.splits)
  show "parsed_ok x b"
    using assms by (auto simp: escaped_def Let_def parsed_ok_def split: if_splits sum.splits prod.splits option.splits)
qed

lemma literal_atom_result:
  "icu_ok U \<Longrightarrow> literal_atom U s a = Inr (x, b) \<Longrightarrow> eats s a b \<and> parsed_ok x b"
  by (auto simp: literal_atom_def parsed_ok_def split: sum.splits prod.splits dest: pattern_rune_eats)

lemma quantifier_result:
  assumes "quantifier s a = Inr (q, b)"
  shows "grows s a b" "q = Some (mn, Some m) \<Longrightarrow> mn \<le> m"
proof -
  let ?a = "advance 1 a"
  have simple: "grows s a ?a" if "peeks s a c" for c using eats_grows [OF eats_peeks [OF that]] .
  have "grows s a b \<and> (\<forall>mn m. q = Some (mn, Some m) \<longrightarrow> mn \<le> m)"
  proof (cases "peeks s a (char_byte CHR ''*'') \<or> peeks s a (char_byte CHR ''+'') \<or> peeks s a (char_byte CHR ''?'') \<or>
      \<not> peeks s a (char_byte CHR ''{'')")
    case True
    with assms simple show ?thesis by (auto simp: quantifier_def split: if_splits)
  next
    case False
    then have open_b: "peeks s a (char_byte CHR ''{'')" by simp
    with assms False obtain n1 a1 where n1: "number s ?a = Inr (n1, a1)"
      by (auto simp: quantifier_def split: sum.splits)
    have g1: "grows s a a1" using simple [OF open_b] number_grows [OF n1] by (rule grows_trans)
    let ?mx = "if \<not> peeks s a1 (char_byte CHR '','') then Inr (max_count n1, a1)
      else let a2 = advance 1 a1
           in if ps_i a2 < length s \<and> s ! ps_i a2 \<noteq> char_byte CHR ''}''
              then (case number s a2 of Inl e \<Rightarrow> Inl e | Inr (m, a3) \<Rightarrow> Inr (max_count m, a3)) else Inr (None, a2)"
    obtain mx a4 where mx: "?mx = Inr (mx, a4)"
      using assms False open_b n1 by (cases ?mx) (auto simp: quantifier_def)
    have "grows s a1 a4"
    proof (cases "peeks s a1 (char_byte CHR '','')")
      case True
      have "grows s a1 (advance 1 a1)" using eats_grows [OF eats_peeks [OF True]] .
      with True mx grows_trans [OF this number_grows] show ?thesis
        by (auto simp: Let_def split: if_splits sum.splits prod.splits)
    qed (use mx in simp)
    with g1 have g4: "grows s a a4" by (rule grows_trans)
    have cl: "peeks s a4 (char_byte CHR ''}'')" and b: "b = advance 1 a4"
      "\<forall>mn m. q = Some (mn, Some m) \<longrightarrow> mn \<le> m"
      using assms False open_b n1 mx by (auto simp: quantifier_def Let_def split: if_splits option.splits)
    with grows_trans [OF g4 eats_grows [OF eats_peeks [OF cl]]] show ?thesis by simp
  qed
  then show "grows s a b" "q = Some (mn, Some m) \<Longrightarrow> mn \<le> m" by auto
qed

section \<open>Lists of nodes\<close>

lemma foldl_all:
  assumes step: "\<And>ys x. \<forall>n \<in> set ys. P n \<Longrightarrow> P x \<Longrightarrow> \<forall>n \<in> set (f ys x). P n"
  shows "\<forall>n \<in> set xs. P n \<Longrightarrow> \<forall>n \<in> set ys. P n \<Longrightarrow> \<forall>n \<in> set (foldl f ys xs). P n"
proof (induction xs arbitrary: ys)
  case (Cons x xs)
  have "\<forall>n \<in> set (f ys x). P n" by (rule step) (use Cons.prems in simp_all)
  moreover have "\<forall>n \<in> set xs. P n" using Cons.prems(1) by simp
  ultimately show ?case unfolding foldl_Cons by (intro Cons.IH)
qed simp

lemma merge_literals_all:
  assumes "\<And>f l. P (KLiteral f l)" "\<forall>n \<in> set xs. P n"
  shows "\<forall>n \<in> set (merge_literals xs). P n"
proof -
  let ?f = "\<lambda>ys x. case (ys, x) of
      (_ # _, KLiteral g b) \<Rightarrow>
        (case last ys of KLiteral f a \<Rightarrow> if rf_icase f = rf_icase g then butlast ys @ [KLiteral f (a @ b)] else ys @ [x]
         | _ \<Rightarrow> ys @ [x])
    | _ \<Rightarrow> ys @ [x]"
  have step: "\<forall>n \<in> set (?f ys x). P n" if "\<forall>n \<in> set ys. P n" "P x" for ys x
  proof (cases ys)
    case (Cons y zs)
    have but: "\<forall>n \<in> set (butlast ys). P n" using that(1) in_set_butlastD by fast
    have snoc: "\<forall>n \<in> set (ys @ [x]). P n" using that by simp
    show ?thesis
    proof (cases x)
      case (KLiteral g b)
      then show ?thesis using Cons but snoc assms(1) by (cases "last ys") (simp_all add: list.case)
    qed (use snoc Cons in simp_all)
  qed (use that in simp)
  show ?thesis unfolding merge_literals_def by (rule foldl_all [OF step assms(2)]) simp_all
qed

lemma finish_concat_ok:
  assumes "\<forall>n \<in> set xs. parsed_ok n a"
  shows "parsed_ok (finish_concat xs a) a"
proof -
  have "\<forall>n \<in> set (merge_literals xs). parsed_ok n a"
    by (rule merge_literals_all [OF _ assms]) (simp add: parsed_ok_def)
  then show ?thesis by (auto simp: finish_concat_def parsed_ok_def split: list.splits)
qed

lemma finish_alt_ok: "\<forall>n \<in> set xs. parsed_ok n a \<Longrightarrow> xs \<noteq> [] \<Longrightarrow> parsed_ok (finish_alt xs a) a"
  by (auto simp: finish_alt_def parsed_ok_def split: list.splits)

section \<open>Groups\<close>

lemma flag_loop_grows:
  assumes "flag_loop s a seen unset = Inr (x, b)"
  shows "grows s a b"
  using assms
proof (induction s a seen unset rule: flag_loop.induct)
  case (1 s a seen unset)
  show ?case
  proof (cases "length s \<le> ps_i a")
    case True
    with 1(3) show ?thesis by (subst (asm) flag_loop.simps) simp
  next
    case False
    have one: "grows s a (advance 1 a)" using False by (intro eats_grows eats_advance) simp_all
    have flag: "grows s a (set_flag f v (advance 1 a))" for f v using one by (simp add: grows_def set_flag_def)
    let ?f = "s ! ps_i a"
    consider "?f = char_byte CHR ''-''" | "?f \<noteq> char_byte CHR ''-''" "?f = char_byte CHR '':'' \<or> ?f = char_byte CHR '')''"
      | "?f \<noteq> char_byte CHR ''-''" "\<not> (?f = char_byte CHR '':'' \<or> ?f = char_byte CHR '')'')" by blast
    then show ?thesis
    proof cases
      case 1
      with \<open>flag_loop s a seen unset = Inr (x, b)\<close> False have "flag_loop s (advance 1 a) seen True = Inr (x, b)"
        by (subst (asm) flag_loop.simps) (simp add: Let_def)
      from "1.IH"(1) [OF False refl 1 this] show ?thesis using one grows_trans by blast
    next
      case 2
      with \<open>flag_loop s a seen unset = Inr (x, b)\<close> False have "b = a"
        by (subst (asm) flag_loop.simps) (simp add: Let_def)
      then show ?thesis by simp
    next
      case 3
      with \<open>flag_loop s a seen unset = Inr (x, b)\<close> False have
        "\<not> ?f \<notin> set (ascii_bytes ''imsUxu'')" "flag_loop s (set_flag ?f (\<not> unset) (advance 1 a)) True unset = Inr (x, b)"
        by (subst (asm) flag_loop.simps; simp add: Let_def split: if_splits)+
      from "1.IH"(2) [OF False refl 3 this] show ?thesis using flag grows_trans by blast
    qed
  qed
qed


text \<open>What an opened group means for the tree that will be built: only the assertions set \<open>extended_\<close>.\<close>

definition opened_ok :: "group_open \<Rightarrow> parser_state \<Rightarrow> bool" where
  "opened_ok g b \<longleftrightarrow> (case g of GDone x \<Rightarrow> parsed_ok x b | GLookAhead neg \<Rightarrow> ps_extended b | GLookBehind neg \<Rightarrow> ps_extended b | _ \<Rightarrow> True)"

lemma grows_extend: "grows s a b \<Longrightarrow> grows s a (b\<lparr>ps_extended := True\<rparr>)"
  by (simp add: grows_def)

lemma grows_peeks: "grows s a b \<Longrightarrow> peeks s b c \<Longrightarrow> grows s a (advance 1 b)"
  using eats_peeks eats_grows grows_trans by blast

lemma group_extension_result:
  assumes "group_extension s a = Inr (g, b)"
  shows "grows s a b \<and> opened_ok g b"
proof -
  note one = grows_peeks [OF grows_refl [of s a]] and two = grows_peeks [OF grows_peeks [OF grows_refl [of s a]]]
  consider (named) "peeks s a (char_byte CHR ''P'')" | (assertion) "\<not> peeks s a (char_byte CHR ''P'')"
      "peeks s a (char_byte CHR '':'') \<or> peeks s a 61 \<or> peeks s a (char_byte CHR ''!'') \<or> peeks s a 60"
    | (flags) "\<not> peeks s a (char_byte CHR ''P'')" "\<not> (peeks s a (char_byte CHR '':'') \<or> peeks s a 61 \<or> peeks s a (char_byte CHR ''!'') \<or> peeks s a 60)"
    by blast
  then show ?thesis
  proof cases
    case named
    then obtain nm where p: "peeks s (advance 1 a) 60" and n: "group_name s (advance 1 (advance 1 a)) = Inr (nm, b)" and g: "g = GCapture nm"
      using assms by (auto simp: group_extension_def Let_def split: if_splits sum.splits)
    show ?thesis using grows_trans [OF two [OF named p] eats_grows [OF group_name_eats [OF n]]] g by (simp add: opened_ok_def)
  next
    case assertion
    have nm: "grows s a b" if "peeks s a 60" "group_name s (advance 1 a) = Inr (n, b)" for n
      using grows_trans [OF one [OF that(1)] eats_grows [OF group_name_eats [OF that(2)]]] .
    show ?thesis using assms assertion nm
      by (auto simp: group_extension_def opened_ok_def Let_def simp del: One_nat_def split: if_splits sum.splits intro: one two grows_extend)
  next
    case flags
    then obtain seen st1 where f: "flag_loop s a False False = Inr (seen, st1)" using assms
      by (auto simp: group_extension_def split: sum.splits)
    note fg = flag_loop_grows [OF f]
    show ?thesis using assms flags f grows_peeks [OF fg]
      by (auto simp: group_extension_def opened_ok_def parsed_ok_def split: if_splits)
  qed
qed

lemma group_start_result: "group_start s a = Inr (g, b) \<Longrightarrow> grows s a b \<and> opened_ok g b"
  using group_extension_result [of s "advance 1 a" g b] grows_trans [OF grows_peeks [OF grows_refl]]
  by (auto simp: group_start_def opened_ok_def split: if_splits)

section \<open>Every rule returns, and returns a good tree\<close>

text \<open>The result of a rule started in \<open>a\<close>; \<open>strict\<close> says that it consumes something.\<close>

definition returns :: "bytes \<Rightarrow> bool \<Rightarrow> parser_state \<Rightarrow> node parsed \<Rightarrow> bool" where
  "returns s strict a r \<longleftrightarrow>
     (\<exists>x. r = Some x \<and> (\<forall>n b. x = Inr (n, b) \<longrightarrow> grows s a b \<and> (strict \<longrightarrow> ps_i a < ps_i b) \<and> parsed_ok n b))"

lemma returns_failed [simp]: "returns s strict a (Some (Inl e))"
  by (simp add: returns_def)

lemma returns_fail [simp]: "returns s strict a (Some (fail m st))"
  by (simp add: returns_def fail_def)

lemma returns_done: "returns s strict a (Some (Inr (n, b))) \<longleftrightarrow> grows s a b \<and> (strict \<longrightarrow> ps_i a < ps_i b) \<and> parsed_ok n b"
  by (auto simp: returns_def)

lemma returns_weaken: "returns s True a r \<Longrightarrow> returns s strict a r"
  by (auto simp: returns_def)

lemma returns_from: "grows s a b \<Longrightarrow> (strict \<Longrightarrow> ps_i a < ps_i b) \<Longrightarrow> returns s False b r \<Longrightarrow> returns s strict a r"
  unfolding returns_def using grows_trans by (fastforce simp: grows_def)

lemma returns_then:
  assumes "returns s strict a m"
    and "\<And>n b. grows s a b \<Longrightarrow> (strict \<longrightarrow> ps_i a < ps_i b) \<Longrightarrow> parsed_ok n b \<Longrightarrow> returns s False b (k n b)"
  shows "returns s strict a (then_parse m k)"
proof (cases m)
  case None
  with assms(1) show ?thesis by (simp add: returns_def)
next
  case (Some x)
  show ?thesis
  proof (cases x)
    case (Inr y)
    obtain n b where y: "y = (n, b)" by (cases y)
    with assms(1) Some Inr have *: "grows s a b" "strict \<longrightarrow> ps_i a < ps_i b" "parsed_ok n b" by (auto simp: returns_done)
    with assms(2) [OF this] returns_from [of s a b strict] show ?thesis by (simp add: then_parse_def Some Inr y)
  qed (simp add: then_parse_def Some)
qed

lemma quantified_returns:
  assumes "parsed_ok n a"
  shows "returns s False a (Some (quantified s n a))"
proof (cases "quantifier s a")
  case (Inr y)
  obtain q b where y: "y = (q, b)" by (cases y)
  note g = quantifier_result(1) [OF Inr [unfolded y]]
  have mm: "\<And>mn m. q = Some (mn, Some m) \<Longrightarrow> mn \<le> m" by (rule quantifier_result(2) [OF Inr [unfolded y]])
  have n: "parsed_ok n b" by (rule parsed_ok_grows [OF assms g])
  have n1: "parsed_ok n (advance 1 b)" using n by (simp add: parsed_ok_def)
  show ?thesis
  proof (cases q)
    case None
    with g n show ?thesis by (simp add: quantified_def Inr y returns_done)
  next
    case (Some z)
    with mm g n n1 grows_peeks [OF g] show ?thesis
      by (cases z) (auto simp: quantified_def Inr y returns_done Let_def parsed_ok_def split: option.splits)
  qed
qed (simp add: quantified_def)

lemma close_group_returns: "parsed_ok n a \<Longrightarrow> returns s False a (close_group s msg n a)"
  using grows_peeks [OF grows_refl, of s a] by (simp add: close_group_def returns_done parsed_ok_def)

lemma close_flagged_returns:
  assumes "parsed_ok n a"
  shows "returns s False a (close_flagged s old n a)"
proof -
  let ?b = "skip_ignored s a"
  have g: "grows s a ?b" by (rule grows_skip_ignored)
  have "parsed_ok n ?b" by (rule parsed_ok_grows [OF assms g])
  with grows_peeks [OF g] show ?thesis
    by (auto simp: close_flagged_def returns_done Let_def parsed_ok_def restore_flags_def grows_def)
qed

lemma group_body_returns:
  assumes "opened_ok g a" "\<And>b. grows s a b \<Longrightarrow> ps_i b = ps_i a \<Longrightarrow> returns s False b (alt_p b)"
  shows "returns s False a (group_body s alt_p g a)"
proof (cases g)
  case (GDone x)
  with assms(1) show ?thesis by (simp add: group_body_def returns_done opened_ok_def)
next
  case GPlain
  then show ?thesis by (auto simp: group_body_def intro: returns_then [OF assms(2)] close_group_returns)
next
  case (GFlagged old)
  then show ?thesis by (auto simp: group_body_def intro: returns_then [OF assms(2)] close_flagged_returns)
next
  case (GLookAhead neg)
  have "returns s False b (close_group s msg (KLookAhead f neg n) b)" if "grows s a b" "parsed_ok n b" for msg f n b
    using that assms(1) GLookAhead by (intro close_group_returns) (simp add: parsed_ok_def opened_ok_def grows_def)
  with GLookAhead show ?thesis by (auto simp: group_body_def intro: returns_then [OF assms(2)])
next
  case (GLookBehind neg)
  have "returns s False b (close_group s msg (KLookBehind f neg n) b)" if "grows s a b" "parsed_ok n b" for msg f n b
    using that assms(1) GLookBehind by (intro close_group_returns) (simp add: parsed_ok_def opened_ok_def grows_def)
  with GLookBehind show ?thesis by (auto simp: group_body_def intro: returns_then [OF assms(2)])
next
  case (GCapture nm)
  obtain k b where o: "open_capture nm a = (k, b)" by (cases "open_capture nm a")
  then have b: "ps_i b = ps_i a" "ps_extended b = ps_extended a" "ps_groups b = k" "k = ps_groups a + 1"
    "length (ps_names a) = ps_groups a + 1 \<longrightarrow> length (ps_names b) = ps_groups b + 1" by (auto simp: open_capture_def Let_def)
  then have g: "grows s a b" by (simp add: grows_def)
  have "returns s False c (close_group s msg (KGroup f k n) c)" if "grows s b c" "parsed_ok n c" for msg f n c
    using that b by (intro close_group_returns) (auto simp: parsed_ok_def grows_def)
  then have "returns s False b (group_body s alt_p g a)"
    by (auto simp: group_body_def GCapture o intro: returns_then [OF assms(2) [OF g b(1)]])
  then show ?thesis by (rule returns_from [OF g, rotated]) simp
qed


text \<open>
  The fuel a rule needs with \<open>r\<close> bytes left: an atom consumes its opening parenthesis before it
  calls \<open>alt\<close>, so four calls are made per byte at most.
\<close>

fun need :: "grammar_rule \<Rightarrow> nat \<Rightarrow> nat" where
  "need PAtom r = 4 * r + 1"
| "need PRepeat r = 4 * r + 2"
| "need (PConcat xs) r = 4 * r + 3"
| "need (PAltLoop xs) r = 4 * r + 3"
| "need PAlt r = 4 * r + 4"

fun rule_ok :: "grammar_rule \<Rightarrow> parser_state \<Rightarrow> bool" where
  "rule_ok (PConcat xs) a = (\<forall>n \<in> set xs. parsed_ok n a)"
| "rule_ok (PAltLoop xs) a = (xs \<noteq> [] \<and> (\<forall>n \<in> set xs. parsed_ok n a))"
| "rule_ok _ a = True"

definition strict_rule :: "grammar_rule \<Rightarrow> bool" where
  "strict_rule g \<longleftrightarrow> g = PAtom \<or> g = PRepeat"

lemma all_parsed_grows: "\<forall>n \<in> set xs. parsed_ok n a \<Longrightarrow> grows s a b \<Longrightarrow> \<forall>n \<in> set xs. parsed_ok n b"
  using parsed_ok_grows by blast

lemma parse_atom_returns:
  assumes U: "icu_ok U" and alt_p: "\<And>b. eats s a b \<Longrightarrow> returns s False b (alt_p b)"
  shows "returns s True a (parse_atom U s alt_p a)"
proof -
  have one: "eats s a (advance 1 a)" if "peeks s a c" for c using eats_peeks [OF that] .
  have simple: "returns s True a (Some (Inr (n, advance 1 a)))" if "peeks s a c" "\<And>b. parsed_ok n b" for c n
    using one [OF that(1)] that(2) by (simp add: returns_done eats_def)
  have wrapped: "returns s True a r" if "peeks s a c" "returns s False (advance 1 a) r" for c r
    using returns_from [OF eats_grows [OF one [OF that(1)]] _ that(2)] by simp
  have cls: "returns s False b (Some (char_class U s b))" for b
    using char_class_result [OF U, of s b] eats_grows by (cases "char_class U s b") (force simp: returns_def parsed_ok_def)+
  have esc: "returns s False b (Some (escaped U s b))" for b
    using escaped_result [of U s b] eats_grows by (cases "escaped U s b") (force simp: returns_def)+
  have lit: "returns s True a (Some (literal_atom U s a))"
    using literal_atom_result [OF U, of s a] by (cases "literal_atom U s a") (force simp: returns_def eats_def)+
  have grp: "returns s True a (case group_start s (advance 1 a) of Inl e \<Rightarrow> Some (Inl e) | Inr (g, st1) \<Rightarrow> group_body s alt_p g st1)"
    if p: "peeks s a c" for c
  proof (cases "group_start s (advance 1 a)")
    case (Inr y)
    obtain g b where y: "y = (g, b)" by (cases y)
    note gs = group_start_result [OF Inr [unfolded y]]
    have e: "eats s a b" using one [OF p] gs eats_trans(1) by blast
    have "returns s False b (group_body s alt_p g b)"
      by (rule group_body_returns) (use gs e eats_trans(1) alt_p in \<open>auto\<close>)
    then have "returns s True a (group_body s alt_p g b)"
      by (rule returns_from [OF eats_grows [OF e], rotated]) (use e in \<open>simp add: eats_def\<close>)
    then show ?thesis by (simp add: Inr y del: One_nat_def)
  qed (simp del: One_nat_def)
  show ?thesis unfolding parse_atom_def
    by (simp add: lit grp simple wrapped [OF _ cls] wrapped [OF _ esc] parsed_ok_def del: One_nat_def)
qed

lemma run_parser_returns:
  assumes U: "icu_ok U"
  shows "ps_i a \<le> length s \<Longrightarrow> rule_ok g a \<Longrightarrow> need g (length s - ps_i a) \<le> n \<Longrightarrow>
    returns s (strict_rule g) a (run_parser n U s g a)"
proof (induction n arbitrary: g a)
  case 0
  then show ?case by (cases g) simp_all
next
  case (Suc n)
  let ?run = "run_parser n U s"
  show ?case
  proof (cases g)
    case PAtom
    have "returns s False b (?run PAlt b)" if "eats s a b" for b
      using Suc.IH [of b PAlt] Suc.prems PAtom that by (auto simp: strict_rule_def eats_def grows_def)
    then show ?thesis using parse_atom_returns [OF U] PAtom by (simp add: strict_rule_def)
  next
    case PRepeat
    have "returns s True a (?run PAtom a)" using Suc.IH [of a PAtom] Suc.prems PRepeat by (simp add: strict_rule_def)
    then show ?thesis using PRepeat quantified_returns by (auto simp: strict_rule_def parse_repeat_def intro: returns_then)
  next
    case (PConcat xs)
    let ?a = "skip_ignored s a"
    have g: "grows s a ?a" by (rule grows_skip_ignored)
    have xs: "\<forall>n \<in> set xs. parsed_ok n ?a" using all_parsed_grows [OF _ g] Suc.prems(2) PConcat by simp
    have le: "ps_i ?a \<le> length s" "length s - ps_i ?a \<le> length s - ps_i a" using g Suc.prems(1) by (auto simp: grows_def)
    have "returns s False ?a (then_parse (?run PRepeat ?a) (\<lambda>x. ?run (PConcat (xs @ [x]))))"
    proof (rule returns_weaken [OF returns_then])
      show "returns s True ?a (?run PRepeat ?a)" using Suc.IH [of ?a PRepeat] Suc.prems PConcat le by (simp add: strict_rule_def)
      fix x b assume b: "grows s ?a b" "True \<longrightarrow> ps_i ?a < ps_i b" "parsed_ok x b"
      show "returns s False b (?run (PConcat (xs @ [x])) b)"
        using Suc.IH [of b "PConcat (xs @ [x])"] Suc.prems PConcat le b all_parsed_grows [OF xs b(1)]
        by (auto simp: strict_rule_def grows_def)
    qed
    then have "returns s False ?a (parse_concat s (?run PRepeat) (\<lambda>ys. ?run (PConcat ys)) xs a)"
      using finish_concat_ok [OF xs] by (simp add: parse_concat_def Let_def returns_done)
    then have "returns s False a (parse_concat s (?run PRepeat) (\<lambda>ys. ?run (PConcat ys)) xs a)"
      by (rule returns_from [OF g, rotated]) simp
    then show ?thesis by (simp add: PConcat strict_rule_def)
  next
    case PAlt
    have "returns s False a (?run (PConcat []) a)" using Suc.IH [of a "PConcat []"] Suc.prems PAlt by (simp add: strict_rule_def)
    moreover have "returns s False b (?run (PAltLoop [x]) b)" if "grows s a b" "parsed_ok x b" for x b
      using Suc.IH [of b "PAltLoop [x]"] Suc.prems PAlt that by (auto simp: strict_rule_def grows_def)
    ultimately show ?thesis using PAlt by (auto simp: strict_rule_def parse_alt_def intro: returns_then)
  next
    case (PAltLoop xs)
    show ?thesis
    proof (cases "peeks s a (char_byte CHR ''|'')")
      case True
      let ?a = "advance 1 a"
      have e: "eats s a ?a" by (rule eats_peeks [OF True])
      have xs: "\<forall>n \<in> set xs. parsed_ok n ?a" by (rule all_parsed_grows [OF _ eats_grows [OF e]]) (use Suc.prems(2) PAltLoop in simp)
      have lt: "ps_i ?a \<le> length s" "length s - ps_i ?a < length s - ps_i a" using e Suc.prems(1) by (auto simp: eats_def grows_def)
      have "returns s False ?a (then_parse (?run (PConcat []) ?a) (\<lambda>x. ?run (PAltLoop (xs @ [x]))))"
      proof (rule returns_then)
        show "returns s False ?a (?run (PConcat []) ?a)" using Suc.IH [of ?a "PConcat []"] Suc.prems PAltLoop lt by (simp add: strict_rule_def)
        fix x b assume b: "grows s ?a b" "False \<longrightarrow> ps_i ?a < ps_i b" "parsed_ok x b"
        show "returns s False b (?run (PAltLoop (xs @ [x])) b)"
          using Suc.IH [of b "PAltLoop (xs @ [x])"] Suc.prems PAltLoop lt b all_parsed_grows [OF xs b(1)]
          by (auto simp: strict_rule_def grows_def)
      qed
      then have "returns s False a (then_parse (?run (PConcat []) ?a) (\<lambda>x. ?run (PAltLoop (xs @ [x]))))"
        by (rule returns_from [OF eats_grows [OF e], rotated]) simp
      with True PAltLoop show ?thesis by (simp add: strict_rule_def parse_alternatives_def)
    next
      case False
      with PAltLoop Suc.prems(2) finish_alt_ok [of xs a] show ?thesis
        by (simp add: strict_rule_def parse_alternatives_def returns_done)
    qed
  qed
qed


section \<open>Whole patterns\<close>

lemma run_parse_fuel:
  assumes "icu_ok U"
  shows "returns s False (initial_state o1) (run_parser (parse_fuel s) U s PAlt (initial_state o1))"
  using run_parser_returns [OF assms, of "initial_state o1" s PAlt "parse_fuel s"]
  by (simp add: strict_rule_def parse_fuel_def initial_state_def)

lemma parse_cases:
  assumes "icu_ok U"
  obtains (failed) e where "parse U s o1 = Some (Inl e)"
    | (parsed) n st where "parse U s o1 = Some (Inr (n, st))" "parsed_ok n st" "length (ps_names st) = ps_groups st + 1"
proof -
  obtain x where x: "run_parser (parse_fuel s) U s PAlt (initial_state o1) = Some x"
    and ok: "\<And>n b. x = Inr (n, b) \<Longrightarrow> grows s (initial_state o1) b \<and> parsed_ok n b"
    using run_parse_fuel [OF assms, of s o1] by (auto simp: returns_def)
  show ?thesis
  proof (cases x)
    case (Inl e)
    with x that(1) show ?thesis by (simp add: parse_def then_parse_def)
  next
    case (Inr y)
    obtain n b where y: "y = (n, b)" by (cases y)
    have "length (ps_names b) = ps_groups b + 1" using ok [of n b] Inr y by (simp add: grows_def initial_state_def)
    with ok [of n b] x Inr y that show ?thesis
      by (cases "ps_i b = length s") (simp_all add: parse_def then_parse_def fail_def)
  qed
qed

lemma regular_wrap_node [simp]: "regular (wrap_node o1 n) = regular n"
  by (simp add: wrap_node_def Let_def)

lemma tree_ok_wrap_node [simp]: "tree_ok (wrap_node o1 n) = tree_ok n"
  by (simp add: wrap_node_def Let_def)

lemma groups_ok_wrap_node [simp]: "groups_ok k (wrap_node o1 n) = groups_ok k n"
  by (simp add: wrap_node_def Let_def)

section \<open>What the compiler refuses\<close>

lemma emit_error: "emit i p = Inl e \<Longrightarrow> e = program_too_large"
  by (auto simp: emit_def split: if_splits)

lemma one_error: "one i p = Inl e \<Longrightarrow> e = program_too_large"
  by (auto simp: one_def split: sum.splits dest: emit_error)

lemma epsilon_error: "epsilon p = Inl e \<Longrightarrow> e = program_too_large"
  by (simp add: epsilon_def one_error)

lemma literal_frags_error: "literal_frags U f lit p all code = Inl e \<Longrightarrow> e = program_too_large"
proof (induction U f lit p all code rule: literal_frags.induct)
  case (1 U f lit p all code)
  show ?case
  proof (cases "rune_at U lit p")
    case None
    with 1(2) show ?thesis by (subst (asm) literal_frags.simps) simp
  next
    case (Some y)
    obtain cp nx where y: "y = (cp, nx)" by (cases y)
    show ?thesis
    proof (cases "one ((blank_inst f OpRune)\<lparr>i_rune := cp\<rparr>) code")
      case (Inl e')
      with 1(2) Some y one_error [OF Inl] show ?thesis by (subst (asm) literal_frags.simps) simp
    next
      case (Inr z)
      obtain g code1 where z: "z = (g, code1)" by (cases z)
      obtain all1 code2 where a: "(case all of None \<Rightarrow> (g, code1) | Some a \<Rightarrow> frag_concat a g code1) = (all1, code2)"
        by fastforce
      have n: "p < nx \<and> nx \<le> length lit" "literal_frags U f lit nx (Some all1) code2 = Inl e"
        using 1(2) Some y Inr z a by (subst (asm) literal_frags.simps; simp split: if_splits)+
      show ?thesis by (rule "1.IH" [OF Some y [symmetric] Inr z [symmetric] refl a [symmetric] n])
    qed
  qed
qed

lemma build_literal_error: "build_literal U f lit p = Inl e \<Longrightarrow> e = program_too_large"
  by (auto simp: build_literal_def split: sum.splits prod.splits option.splits dest: epsilon_error literal_frags_error)

lemmas compile_errors = emit_error one_error epsilon_error build_literal_error

lemma regular_build_error:
  "regular n \<Longrightarrow> build U n p = Inl e \<Longrightarrow> e = program_too_large"
  "\<forall>n \<in> set cs. regular n \<Longrightarrow> build_concat U cs r p = Inl e \<Longrightarrow> e = program_too_large"
  "\<forall>n \<in> set cs. regular n \<Longrightarrow> build_alt U f cs r p = Inl e \<Longrightarrow> e = program_too_large"
  "regular n \<Longrightarrow> build_copies U n k r p = Inl e \<Longrightarrow> e = program_too_large"
  "regular n \<Longrightarrow> build_optional U f greedy n k r exits p = Inl e \<Longrightarrow> e = program_too_large"
proof (induction U n p and U cs r p and U f cs r p and U n k r p and U f greedy n k r exits p rule: build_build_concat_build_alt_build_copies_build_optional.induct)
qed (auto split: sum.splits prod.splits if_splits option.splits dest: compile_errors)


lemma compile_nfa_error:
  assumes "regular n" "compile_nfa U n = Inl e"
  shows "e = program_too_large"
  using assms(2) by (auto simp: compile_nfa_def split: sum.splits dest: emit_error regular_build_error(1) [OF assms(1)])

section \<open>Properties\<close>

lemma parse_regex_returns:
  assumes "icu_ok U"
  shows "parse_regex U s o1 \<noteq> None"
  by (cases rule: parse_cases [OF assms, of s o1]) (simp_all add: parse_regex_def)

text \<open>C26: The recursive descent returns for every pattern: the fuel of the model, six calls per byte
  and six more, is enough.\<close>

theorem parser_returns:
  assumes "icu_ok U"
  shows "parse U s o1 \<noteq> None \<and> compile U s o1 \<noteq> None"
proof
  show "parse U s o1 \<noteq> None" by (cases rule: parse_cases [OF assms, of s o1]) simp_all
  show "compile U s o1 \<noteq> None"
    using parse_regex_returns [OF assms, of s "resolve_case U s o1"]
    by (auto simp: compile_def Let_def split: option.splits sum.splits)
qed

theorem parser_returns_witness:
  "parse ascii_icu (ascii_bytes ''(a|b)*[c-d]'') default_pattern_options \<noteq> None \<and>
   compile ascii_icu (ascii_bytes ''(a|b)*[c-d]'') default_pattern_options \<noteq> None"
  by (rule parser_returns [OF icu_ok_ascii])

lemma parse_regex_typed:
  assumes "icu_ok U" "parse_regex U s o1 = Some (Inr p)"
  shows "tree_ok (rp_ast p) \<and> groups_ok (rp_groups p) (rp_ast p) \<and> length (rp_group_names p) = rp_groups p + 1 \<and>
    (if rp_extended p then po_engine o1 \<noteq> Default else regular (rp_ast p) \<and> nfa_compiled U p)"
proof -
  consider (failed) e where "parse U s o1 = Some (Inl e)"
    | (parsed) n st where "parse U s o1 = Some (Inr (n, st))" "parsed_ok n st" "length (ps_names st) = ps_groups st + 1"
    by (rule parse_cases [OF assms(1)])
  then show ?thesis
  proof cases
  case (failed e)
  with assms(2) show ?thesis by (simp add: parse_regex_def)
next
  case (parsed n st)
  have n: "tree_ok n" "regular n \<or> ps_extended st" "groups_ok (ps_groups st) n" using parsed(2) by (simp_all add: parsed_ok_def)
  let ?r = "if ps_extended st then Inr ([], - 1) else compile_nfa U (wrap_node o1 n)"
  obtain code start where r: "?r = Inr (code, start)"
    using assms(2) parsed(1) by (cases ?r) (auto simp: parse_regex_def Let_def split: if_splits)
  obtain offs pcs where t: "build_nfa_closures (ps_groups st) code = (offs, pcs)" by fastforce
  have e: "\<not> (ps_extended st \<and> po_engine o1 = Default)"
    using assms(2) parsed(1) by (auto simp: parse_regex_def)
  have p: "p = \<lparr>rp_ast = wrap_node o1 n, rp_groups = ps_groups st, rp_group_names = ps_names st,
      rp_extended = ps_extended st, rp_icase_literal = icase_runes U n (ps_extended st),
      np_ir = analyze_query n (ps_extended st), np_code = code, np_start = start,
      np_closure_offsets = offs, np_closure_pcs = pcs\<rparr>"
    using assms(2) parsed(1) r t e by (auto simp: parse_regex_def Let_def split: if_splits)
  show ?thesis using n parsed(3) r t e by (auto simp: p nfa_compiled_def split: if_splits)
  qed
qed

text \<open>C27: A program parse_regex returns is well formed: no empty alternation, no repetition with
  minimum above maximum, every group number counted and named, and a tree with backreferences or
  look-around only with the engine for it; otherwise code and closure tables belong to the tree.\<close>

theorem compiled_program_typed:
  assumes "icu_ok U" "parse_regex U s o1 = Some (Inr p)"
  shows "tree_ok (rp_ast p) \<and> groups_ok (rp_groups p) (rp_ast p) \<and> length (rp_group_names p) = rp_groups p + 1 \<and>
    (if rp_extended p then po_engine o1 \<noteq> Default else regular (rp_ast p) \<and> nfa_compiled U p)"
  by (rule parse_regex_typed [OF assms])

text \<open>C28: A parsed pattern without backreferences and look-around compiles, or is refused for the size
  of its program; the error for non-regular constructs cannot occur.\<close>

theorem regular_patterns_compile:
  assumes "icu_ok U" "parse U s o1 = Some (Inr (n, st))" "\<not> ps_extended st"
  shows "compile_nfa U (wrap_node o1 n) = Inl program_too_large \<or> (\<exists>q s0. compile_nfa U (wrap_node o1 n) = Inr (q, s0))"
proof -
  have "parsed_ok n st" by (rule parse_cases [OF assms(1), of s o1]) (use assms(2) in simp_all)
  then have r: "regular (wrap_node o1 n)" using assms(3) by (simp add: parsed_ok_def)
  show ?thesis
  proof (cases "compile_nfa U (wrap_node o1 n)")
    case (Inl e)
    with compile_nfa_error [OF r Inl] show ?thesis by simp
  next
    case (Inr x)
    then show ?thesis by (cases x) simp
  qed
qed

end
