(* ===== verification/Regex_Search.thy ===== *)
theory Regex_Search
  imports Parser Region_Plan Fixed_Search
begin

text \<open>
  \<open>Searcher::find\<close> for regular expressions: the candidate files, the bounded region plan, the
  fallback to every chunk, the record loop and the inverted search.  A step may also throw (the
  backtracking matcher stops with an exception at its state limit).
\<close>

section \<open>Steps that may throw\<close>

type_synonym rx_step = "find_state \<Rightarrow> (find_state \<times> bool) result"

fun run_rx :: "('u \<Rightarrow> rx_step) \<Rightarrow> 'u list \<Rightarrow> rx_step" where
  "run_rx f [] st = Inr (st, False)"
| "run_rx f (u # us) st =
     (case f u st of Inl e \<Rightarrow> Inl e | Inr (st', stop) \<Rightarrow> if stop then Inr (st', True) else run_rx f us st')"

function rx_records :: "search_options \<Rightarrow> pattern_options \<Rightarrow> bytes \<Rightarrow> (nat \<Rightarrow> nat \<Rightarrow> rx_step) \<Rightarrow> nat \<Rightarrow> rx_step" where
  "rx_records opt po data visit b st0 =
     (if b < length data \<or> (b = 0 \<and> data = [])
      then (case stop_requested opt st0 of (st, stop) \<Rightarrow>
        if stop then Inr (st, True)
        else let sep = so_record_separator opt; (e, term) = next_record data sep b in
          case visit b (logical_end po sep data b e) st of
            Inl err \<Rightarrow> Inl err
          | Inr (st', stop') \<Rightarrow>
              if stop' then Inr (st', True)
              else if \<not> term \<or> e < b then Inr (st', False)
              else rx_records opt po data visit (e + 1) st')
      else Inr (st0, False))"
  by pat_completeness auto
termination
  by (relation "measure (\<lambda>(opt, po, data, visit, b, st). Suc (length data) - b)") (auto split: if_splits)

declare rx_records.simps [simp del]

section \<open>Candidates\<close>

definition longest_literal :: "bytes list \<Rightarrow> bytes" where
  "longest_literal ls = foldl (\<lambda>best l. if length best < length l then l else best) [] ls"

definition filter_literal :: "nfa_program \<Rightarrow> pattern_options \<Rightarrow> bytes" where
  "filter_literal p po =
     (if po_case po \<noteq> Insensitive \<and> qi_branch_mandatory (np_ir p) = [] then longest_literal (qi_mandatory (np_ir p)) else [])"

definition regex_candidates :: "index_data \<Rightarrow> bool list \<Rightarrow> nfa_program \<Rightarrow> pattern_options \<Rightarrow> nat list" where
  "regex_candidates I el p po =
     (if po_case po \<noteq> Insensitive \<and> qi_branch_mandatory (np_ir p) \<noteq> []
      then sort_unique (concat (map (\<lambda>branch. let best = longest_literal branch in
             if best = [] then [] else chunk_candidates I el best) (qi_branch_mandatory (np_ir p))))
      else chunk_candidates I el (filter_literal p po))"

definition all_chunks :: "index_data \<Rightarrow> bool list \<Rightarrow> nat list" where
  "all_chunks I el = filter (\<lambda>ci. allows el (file_id (chunks I ! ci))) [0 ..< length (chunks I)]"

section \<open>The region plan\<close>

record bounded_branch =
  bb_anchor :: bytes
  bb_constraints :: "literal_offset list"
  bb_joined :: bool

text \<open>Each required literal takes the first unused entry of the summary with the same bytes.\<close>

fun take_constraints :: "literal_offset list \<Rightarrow> bytes list \<Rightarrow> literal_offset list option" where
  "take_constraints avail [] = Some []"
| "take_constraints avail (l # ls) =
     (case List.find (\<lambda>c. lo_literal c = l) avail of None \<Rightarrow> None
      | Some c \<Rightarrow> map_option ((#) c) (take_constraints (remove1 c avail) ls))"

definition make_branch :: "bytes list \<Rightarrow> node \<Rightarrow> bounded_branch" where
  "make_branch required n =
     (let summary = literal_offsets n;
          cs = (if ls_finite summary \<and> 2 \<le> length required then take_constraints (ls_literals summary) required else None)
      in \<lparr>bb_anchor = longest_literal required,
          bb_constraints = (case cs of None \<Rightarrow> [] | Some c \<Rightarrow> c), bb_joined = (cs \<noteq> None)\<rparr>)"

definition branch_lists :: "nfa_program \<Rightarrow> bytes list list" where
  "branch_lists p =
     (let configured = qi_branch_mandatory (np_ir p); brs = top_level_branches (rp_ast p)
      in if configured \<noteq> [] then configured
         else if 1 < length brs then map query_mandatory brs else [])"

definition split_branches :: "nfa_program \<Rightarrow> bool" where
  "split_branches p \<longleftrightarrow> branch_lists p \<noteq> [] \<and> length (branch_lists p) = length (top_level_branches (rp_ast p))"

definition bounded_branches :: "nfa_program \<Rightarrow> bounded_branch list" where
  "bounded_branches p =
     (let brs = top_level_branches (rp_ast p);
          units = (if split_branches p then zip (branch_lists p) brs
                   else [(qi_mandatory (np_ir p), if brs = [] then rp_ast p else hd brs)])
      in map (\<lambda>(required, n). make_branch required n) (filter (\<lambda>(required, n). longest_literal required \<noteq> []) units))"

definition region_requested :: "nfa_program \<Rightarrow> pattern_options \<Rightarrow> bool" where
  "region_requested p po \<longleftrightarrow>
     2 \<le> length (qi_mandatory (np_ir p)) \<or>
     (rp_extended p \<or> po_case po \<noteq> Sensitive \<or> regex_has_region_fallback_construct (rp_ast p)) \<or>
     (split_branches p \<and> (\<forall>b \<in> set (branch_lists p). 2 \<le> length b))"

definition region_plan :: "icu \<Rightarrow> nfa_program \<Rightarrow> pattern_options \<Rightarrow> byte \<Rightarrow> regex_analysis option" where
  "region_plan U p po sep = (if region_requested p po then bounded_regex_eligible U p po sep else None)"

definition record_regions :: "nfa_program \<Rightarrow> regex_analysis \<Rightarrow> bytes \<Rightarrow> nat \<Rightarrow> nat \<Rightarrow> bounded_region list" where
  "record_regions p a data rb re =
     (let rec = substr data rb (re - rb);
          rs = concat (map (\<lambda>b. if bb_joined b then bounded_regex_regions_joined rec rb re (bb_constraints b) a
                                 else bounded_regex_regions rec rb re (bb_anchor b) a) (bounded_branches p))
      in foldl push_region [] (sort_key (\<lambda>r. (candidate_begin r, candidate_end r)) rs))"

section \<open>Verifying a record\<close>

definition remain :: "search_options \<Rightarrow> find_state \<Rightarrow> nat" where
  "remain opt st =
     (if so_objective opt = FirstHit then 1
      else if so_max_matches opt \<noteq> 0 then so_max_matches opt - length (fs_out st) else 0)"

definition verify_context ::
  "icu \<Rightarrow> nfa_program \<Rightarrow> search_options \<Rightarrow> nat \<Rightarrow> verifier_context \<Rightarrow> rx_step" where
  "verify_context U p opt fid c st =
     (case regex_find_all U p c (so_overlapping opt) fid (remain opt st) of
        Inl e \<Rightarrow> Inl e
      | Inr ms \<Rightarrow> let st' = st\<lparr>fs_out := fs_out st @ ms\<rparr> in Inr (st', result_bound_reached opt st'))"

definition verify_record ::
  "icu \<Rightarrow> nfa_program \<Rightarrow> pattern_options \<Rightarrow> search_options \<Rightarrow> nat \<Rightarrow> bytes \<Rightarrow> nat \<Rightarrow> nat \<Rightarrow> rx_step" where
  "verify_record U p po opt fid data b e =
     verify_context U p opt fid (full_context data b e (so_record_separator opt) (po_crlf po))"

definition verify_bounded_record ::
  "icu \<Rightarrow> nfa_program \<Rightarrow> pattern_options \<Rightarrow> search_options \<Rightarrow> regex_analysis \<Rightarrow> nat \<Rightarrow> bytes \<Rightarrow> nat \<Rightarrow> nat \<Rightarrow> rx_step" where
  "verify_bounded_record U p po opt a fid data b e =
     run_rx (\<lambda>r st. case stop_requested opt st of (st1, stop) \<Rightarrow>
               if stop then Inr (st1, True)
               else verify_context U p opt fid (region_context data b e (so_record_separator opt) (po_crlf po) r) st1)
       (record_regions p a data b e)"

section \<open>The search\<close>

definition search_file ::
  "search_options \<Rightarrow> pattern_options \<Rightarrow> bytes \<Rightarrow> (nat \<Rightarrow> nat \<Rightarrow> rx_step) \<Rightarrow> rx_step" where
  "search_file opt po data visit =
     (if po_multiline po then visit 0 (length data) else rx_records opt po data visit 0)"

text \<open>The loop over files both plans have; \<open>skip\<close> is the test for a short literal.\<close>

definition scan_files ::
  "index_data \<Rightarrow> search_options \<Rightarrow> pattern_options \<Rightarrow> (nat \<Rightarrow> bool) \<Rightarrow> (nat \<Rightarrow> nat \<Rightarrow> nat \<Rightarrow> rx_step) \<Rightarrow> nat list \<Rightarrow> rx_step" where
  "scan_files I opt po skip visit =
     run_rx (\<lambda>fid st. case stop_requested opt st of (st1, stop) \<Rightarrow>
       if stop then Inr (st1, True)
       else if skip_binary I opt fid \<or> skip fid then Inr (st1, False)
       else search_file opt po (content I fid) (visit fid) st1)"

definition lacks_literal :: "index_data \<Rightarrow> nfa_program \<Rightarrow> pattern_options \<Rightarrow> nat \<Rightarrow> bool" where
  "lacks_literal I p po fid \<longleftrightarrow>
     (let lit = filter_literal p po
      in lit \<noteq> [] \<and> length lit < 4 \<and> po_case po = Sensitive \<and> \<not> contains_str (content I fid) lit)"

definition regex_paths ::
  "icu \<Rightarrow> index_data \<Rightarrow> nfa_program \<Rightarrow> pattern_options \<Rightarrow> search_options \<Rightarrow> bool list \<Rightarrow> rx_step" where
  "regex_paths U I p po opt el =
     (let cv = regex_candidates I el p po; plan = region_plan U p po (so_record_separator opt)
      in if plan \<noteq> None \<and> bounded_branches p \<noteq> []
         then scan_files I opt po (\<lambda>_. False)
                (\<lambda>fid. verify_bounded_record U p po opt (the plan) fid (content I fid)) (candidate_files I cv)
         else scan_files I opt po (lacks_literal I p po)
                (\<lambda>fid. verify_record U p po opt fid (content I fid))
                (candidate_files I (if region_requested p po \<and> plan = None then all_chunks I el else cv)))"

text \<open>The inverted search reports the records in which \<open>regex_search\<close> finds nothing.\<close>

definition regex_inverted ::
  "icu \<Rightarrow> index_data \<Rightarrow> nfa_program \<Rightarrow> pattern_options \<Rightarrow> search_options \<Rightarrow> bool list \<Rightarrow> rx_step" where
  "regex_inverted U I p po opt el =
     run_rx (\<lambda>fid st. case stop_requested opt st of (st1, stop) \<Rightarrow>
          if stop then Inr (st1, True)
          else if \<not> allows el fid \<or> skip_binary I opt fid then Inr (st1, False)
          else rx_records opt po (content I fid)
                 (\<lambda>b e st. case regex_search U p (full_context (content I fid) b e (so_record_separator opt) (po_crlf po)) fid of
                     Inl err \<Rightarrow> Inl err
                   | Inr (Some m) \<Rightarrow> Inr (st, False)
                   | Inr None \<Rightarrow> let st2 = push_match fid b e st in Inr (st2, result_bound_reached opt st2))
                 0 st1)
       [0 ..< length (loaded I)]"

text \<open>A pattern that is one literal is searched as a fixed string, without a planned operator.\<close>

definition literal_shortcut :: "nfa_program \<Rightarrow> pattern_options \<Rightarrow> byte \<Rightarrow> bool" where
  "literal_shortcut p po sep \<longleftrightarrow>
     qi_is_pure_literal (np_ir p) \<and> rp_groups p = 0 \<and> po_case po \<noteq> Insensitive \<and> \<not> rp_extended p \<and>
     (po_multiline po \<or> sep \<notin> set (qi_exact_literal (np_ir p)))"

definition find_regex_state ::
  "icu \<Rightarrow> index_data \<Rightarrow> nfa_program \<Rightarrow> pattern_options \<Rightarrow> search_options \<Rightarrow> find_state result" where
  "find_regex_state U I p po opt =
     (let el = recorder_eligible I (sort_unique (so_eligible opt)) in
      case stop_requested opt init_find_state of (st, stop) \<Rightarrow>
        if stop then Inr st
        else if so_invert_match opt then map_sum id fst (regex_inverted U I p po opt el st)
        else if literal_shortcut p po (so_record_separator opt)
        then let lit = qi_exact_literal (np_ir p); fopt = resolve_case U lit (po\<lparr>po_kind := Fixed\<rparr>);
                 s = find_fixed_state U I fopt (opt\<lparr>so_should_cancel := \<lambda>n. so_should_cancel opt (n + fs_polls st)\<rparr>) None lit
             in Inr (s\<lparr>fs_polls := fs_polls s + fs_polls st\<rparr>)
        else map_sum id fst (regex_paths U I p po opt el st))"

definition find_regex ::
  "icu \<Rightarrow> index_data \<Rightarrow> nfa_program \<Rightarrow> pattern_options \<Rightarrow> search_options \<Rightarrow> match list result" where
  "find_regex U I p po opt = map_sum id (finish_find opt) (find_regex_state U I p po opt)"

end
