(* ===== verification/Regex_Correct.thy ===== *)
theory Regex_Correct
  imports Regex_Search Fixed_Correct
begin

text \<open>
  The indexed search for a regular expression against a scan of every record of every searched
  file.  What the proof needs of the engine is the locale \<open>sound_engine\<close>: a reported match is one
  the declarative reading of the syntax tree admits, so the literals of the pattern occur in the
  file.
\<close>

section \<open>The scan of every record\<close>

fun collect :: "('u \<Rightarrow> 'a list result) \<Rightarrow> 'u list \<Rightarrow> 'a list result" where
  "collect f [] = Inr []"
| "collect f (u # us) =
     (case f u of Inl e \<Rightarrow> Inl e
      | Inr xs \<Rightarrow> (case collect f us of Inl e \<Rightarrow> Inl e | Inr ys \<Rightarrow> Inr (xs @ ys)))"

function record_spans :: "pattern_options \<Rightarrow> byte \<Rightarrow> bytes \<Rightarrow> nat \<Rightarrow> (nat \<times> nat) list" where
  "record_spans po sep data b =
     (if b < length data \<or> (b = 0 \<and> data = [])
      then (b, logical_end po sep data b (fst (next_record data sep b))) #
           (if \<not> snd (next_record data sep b) \<or> fst (next_record data sep b) < b then []
            else record_spans po sep data (fst (next_record data sep b) + 1))
      else [])"
  by pat_completeness auto
termination
  by (relation "measure (\<lambda>(po, sep, data, b). Suc (length data) - b)") (auto split: if_splits)

declare record_spans.simps [simp del]

definition naive_spans :: "pattern_options \<Rightarrow> byte \<Rightarrow> bytes \<Rightarrow> (nat \<times> nat) list" where
  "naive_spans po sep data = (if po_multiline po then [(0, length data)] else record_spans po sep data 0)"

definition naive_regex_file :: "icu \<Rightarrow> index_data \<Rightarrow> nfa_program \<Rightarrow> pattern_options \<Rightarrow> search_options \<Rightarrow> nat \<Rightarrow> match list result" where
  "naive_regex_file U I p po opt fid =
     collect (\<lambda>(b, e). regex_find_all U p (full_context (content I fid) b e (so_record_separator opt) (po_crlf po))
                          (so_overlapping opt) fid 0)
       (naive_spans po (so_record_separator opt) (content I fid))"

definition naive_regex :: "icu \<Rightarrow> index_data \<Rightarrow> nfa_program \<Rightarrow> pattern_options \<Rightarrow> search_options \<Rightarrow> match list result" where
  "naive_regex U I p po opt =
     collect (naive_regex_file U I p po opt) (filter (searched_file I opt) [0 ..< length (loaded I)])"

section \<open>Steps that append\<close>

definition rx_appends :: "rx_step \<Rightarrow> match list result \<Rightarrow> bool" where
  "rx_appends f r \<longleftrightarrow>
     (\<forall>st. \<not> fs_cancelled st \<longrightarrow>
        (case r of Inl e \<Rightarrow> f st = Inl e
         | Inr ms \<Rightarrow> \<exists>st'. f st = Inr (st', False) \<and> fs_out st' = fs_out st @ ms \<and> \<not> fs_cancelled st'))"

lemma rx_appendsI_Inr:
  "(\<And>st. \<not> fs_cancelled st \<Longrightarrow> \<exists>st'. f st = Inr (st', False) \<and> fs_out st' = fs_out st @ ms \<and> \<not> fs_cancelled st') \<Longrightarrow> rx_appends f (Inr ms)"
  by (simp add: rx_appends_def)

lemma rx_appends_Inr: "rx_appends f (Inr ms) \<Longrightarrow> \<not> fs_cancelled st \<Longrightarrow> \<exists>st'. f st = Inr (st', False) \<and> fs_out st' = fs_out st @ ms \<and> \<not> fs_cancelled st'"
  by (simp add: rx_appends_def)

lemma rx_appends_Inl: "rx_appends f (Inl e) \<Longrightarrow> \<not> fs_cancelled st \<Longrightarrow> f st = Inl e"
  by (simp add: rx_appends_def)

lemma rx_appends_run:
  assumes "\<And>u. u \<in> set us \<Longrightarrow> rx_appends (f u) (g u)"
  shows "rx_appends (run_rx f us) (collect g us)"
  using assms
proof (induction us)
  case (Cons u us)
  then have IH: "rx_appends (run_rx f us) (collect g us)" and u: "rx_appends (f u) (g u)" by simp_all
  show ?case
  proof (cases "g u")
    case (Inl e)
    with u show ?thesis by (auto simp: rx_appends_def)
  next
    case (Inr xs)
    with IH u show ?thesis
      by (cases "collect g us") (auto simp: rx_appends_def; fastforce)+
  qed
qed (simp add: rx_appends_def)

lemma rx_appends_poll:
  assumes "never_cancelled opt" "rx_appends f r"
  shows "rx_appends (\<lambda>st. case stop_requested opt st of (st1, stop) \<Rightarrow> if stop then Inr (st1, True) else f st1) r"
proof (cases r)
  case (Inl e)
  with assms show ?thesis by (simp add: rx_appends_def stop_requested_never)
next
  case (Inr ms)
  show ?thesis unfolding Inr
  proof (rule rx_appendsI_Inr)
    fix st :: find_state assume "\<not> fs_cancelled st"
    with rx_appends_Inr [OF assms(2) [unfolded Inr], of "st\<lparr>fs_polls := Suc (fs_polls st)\<rparr>"]
    show "\<exists>st'. (case stop_requested opt st of (st1, stop) \<Rightarrow> if stop then Inr (st1, True) else f st1) = Inr (st', False) \<and>
        fs_out st' = fs_out st @ ms \<and> \<not> fs_cancelled st'"
      by (simp add: stop_requested_never [OF assms(1)])
  qed
qed

lemma rx_appends_records:
  assumes "never_cancelled opt" "\<And>b e. rx_appends (visit b e) (g (b, e))"
  shows "rx_appends (rx_records opt po data visit b) (collect g (record_spans po (so_record_separator opt) data b))"
proof (induction po "so_record_separator opt" data b rule: record_spans.induct)
  case (1 po data b)
  let ?sep = "so_record_separator opt"
  obtain e tm where n: "next_record data ?sep b = (e, tm)" by fastforce
  let ?le = "logical_end po ?sep data b e"
  show ?case
  proof (cases "b < length data \<or> (b = 0 \<and> data = [])")
    case False
    have "record_spans po ?sep data b = []" by (subst record_spans.simps) (use False in auto)
    moreover have "rx_records opt po data visit b st = Inr (st, False)" for st
      by (subst rx_records.simps) (use False in auto)
    ultimately show ?thesis by (simp add: rx_appends_def)
  next
    case True
    let ?rest = "if \<not> tm \<or> e < b then [] else record_spans po ?sep data (e + 1)"
    have spans: "record_spans po ?sep data b = (b, ?le) # ?rest"
      using True n by (subst record_spans.simps) simp
    have step: "rx_records opt po data visit b st = (case visit b ?le (st\<lparr>fs_polls := Suc (fs_polls st)\<rparr>) of
            Inl err \<Rightarrow> Inl err
          | Inr (st', stop') \<Rightarrow> if stop' then Inr (st', True) else if \<not> tm \<or> e < b then Inr (st', False)
              else rx_records opt po data visit (e + 1) st')" for st
      using True n by (subst rx_records.simps) (simp add: stop_requested_never [OF assms(1)] Let_def)
    have IH: "rx_appends (\<lambda>st. if \<not> tm \<or> e < b then Inr (st, False) else rx_records opt po data visit (e + 1) st) (collect g ?rest)"
      using 1 [OF True] n by (cases "\<not> tm \<or> e < b") (simp_all add: rx_appends_def)
    have v: "rx_appends (visit b ?le) (g (b, ?le))" by (rule assms(2))
    show ?thesis
    proof (cases "g (b, ?le)")
      case (Inl err)
      with v show ?thesis by (simp add: spans rx_appends_def step)
    next
      case (Inr xs)
      show ?thesis
      proof (cases "collect g ?rest")
        case (Inl err)
        show ?thesis unfolding rx_appends_def spans collect.simps Inr Inl sum.case step
        proof (intro allI impI)
          fix st :: find_state assume "\<not> fs_cancelled st"
          with rx_appends_Inr [OF v [unfolded Inr], of "st\<lparr>fs_polls := Suc (fs_polls st)\<rparr>"] obtain st' where
            "visit b ?le (st\<lparr>fs_polls := Suc (fs_polls st)\<rparr>) = Inr (st', False)" "\<not> fs_cancelled st'" by auto
          with rx_appends_Inl [OF IH [unfolded Inl], of st'] show "(case visit b ?le (st\<lparr>fs_polls := Suc (fs_polls st)\<rparr>) of
            Inl err \<Rightarrow> Inl err
          | Inr (st', stop') \<Rightarrow> if stop' then Inr (st', True) else if \<not> tm \<or> e < b then Inr (st', False)
              else rx_records opt po data visit (e + 1) st') = Inl err" by simp
        qed
      next
        case (Inr ys)
        show ?thesis unfolding spans collect.simps \<open>g (b, ?le) = Inr xs\<close> Inr sum.case
        proof (rule rx_appendsI_Inr)
          fix st :: find_state assume "\<not> fs_cancelled st"
          with rx_appends_Inr [OF v [unfolded \<open>g (b, ?le) = Inr xs\<close>], of "st\<lparr>fs_polls := Suc (fs_polls st)\<rparr>"] obtain st' where
            1: "visit b ?le (st\<lparr>fs_polls := Suc (fs_polls st)\<rparr>) = Inr (st', False)" "\<not> fs_cancelled st'" "fs_out st' = fs_out st @ xs" by auto
          with rx_appends_Inr [OF IH [unfolded Inr], of st'] show
            "\<exists>st'. rx_records opt po data visit b st = Inr (st', False) \<and> fs_out st' = fs_out st @ xs @ ys \<and> \<not> fs_cancelled st'"
            by (auto simp: step)
        qed
      qed
    qed
  qed
qed

lemma rx_appends_verify:
  assumes "so_objective opt \<noteq> FirstHit" "so_max_matches opt = 0"
  shows "rx_appends (verify_context U p opt fid c) (regex_find_all U p c (so_overlapping opt) fid 0)"
  using assms by (auto simp: rx_appends_def verify_context_def remain_def result_bound_reached_def Let_def split: sum.split)

lemma rx_appends_file:
  assumes "never_cancelled opt" "so_objective opt \<noteq> FirstHit" "so_max_matches opt = 0"
  shows "rx_appends (search_file opt po (content I fid) (verify_record U p po opt fid (content I fid))) (naive_regex_file U I p po opt fid)"
proof -
  let ?g = "\<lambda>(b, e). regex_find_all U p (full_context (content I fid) b e (so_record_separator opt) (po_crlf po)) (so_overlapping opt) fid 0"
  have v: "rx_appends (verify_record U p po opt fid (content I fid) b e) (?g (b, e))" for b e
    unfolding verify_record_def using rx_appends_verify [OF assms(2,3)] by simp
  show ?thesis
  proof (cases "po_multiline po")
    case True
    have "collect ?g [(0, length (content I fid))] = ?g (0, length (content I fid))" by (simp split: sum.split)
    with v [of 0 "length (content I fid)"] True show ?thesis
      by (simp only: search_file_def naive_regex_file_def naive_spans_def if_True)
  next
    case False
    with rx_appends_records [OF assms(1), where g = ?g, OF v] show ?thesis
      by (simp only: search_file_def naive_regex_file_def naive_spans_def if_False)
  qed
qed

lemma rx_appends_scan:
  assumes "never_cancelled opt" "so_objective opt \<noteq> FirstHit" "so_max_matches opt = 0"
  shows "rx_appends (scan_files I opt po skip (\<lambda>fid. verify_record U p po opt fid (content I fid)) fs)
           (collect (\<lambda>fid. if skip_binary I opt fid \<or> skip fid then Inr [] else naive_regex_file U I p po opt fid) fs)"
  unfolding scan_files_def
proof (rule rx_appends_run, rule rx_appends_poll [OF assms(1)])
  fix fid
  show "rx_appends (\<lambda>st1. if skip_binary I opt fid \<or> skip fid then Inr (st1, False)
          else search_file opt po (content I fid) (verify_record U p po opt fid (content I fid)) st1)
        (if skip_binary I opt fid \<or> skip fid then Inr [] else naive_regex_file U I p po opt fid)"
    using rx_appends_file [OF assms, of po I fid U p] by (cases "skip_binary I opt fid \<or> skip fid") (simp_all add: rx_appends_def)
qed

lemma collect_if:
  "collect (\<lambda>u. if P u then Inr [] else g u) us = collect g (filter (\<lambda>u. \<not> P u) us)"
  by (induction us) (auto split: sum.split)

text \<open>Leaving out units that give nothing changes no result of a scan that succeeds.\<close>

lemma collect_subset:
  assumes "collect g us = Inr ms" "\<And>u ys. u \<in> set us \<Longrightarrow> \<not> P u \<Longrightarrow> g u = Inr ys \<Longrightarrow> ys = []"
  shows "collect g (filter P us) = Inr ms"
  using assms
proof (induction us arbitrary: ms)
  case (Cons u us)
  then obtain xs ys where x: "g u = Inr xs" "collect g us = Inr ys" "ms = xs @ ys" by (auto split: sum.splits)
  with Cons have "collect g (filter P us) = Inr ys" by auto
  with x Cons.prems(2) [of u xs] show ?case by auto
qed simp

lemma collect_mem: "collect g us = Inr ms \<Longrightarrow> m \<in> set ms \<Longrightarrow> \<exists>u \<in> set us. \<exists>xs. g u = Inr xs \<and> m \<in> set xs"
  by (induction us arbitrary: ms) (auto split: sum.splits)

lemma collect_unit: "collect g us = Inr ms \<Longrightarrow> u \<in> set us \<Longrightarrow> \<exists>xs. g u = Inr xs \<and> set xs \<subseteq> set ms"
  by (induction us arbitrary: ms) (fastforce split: sum.splits)+

section \<open>What the engine must promise\<close>

text \<open>A record of the file \<open>data\<close> and a position to start from.\<close>

definition record_context :: "bytes \<Rightarrow> verifier_context \<Rightarrow> bool" where
  "record_context data c \<longleftrightarrow>
     c_source c = data \<and> c_source_begin c = 0 \<and> c_source_end c = length data \<and> c_record_begin c \<le> c_record_end c \<and>
     c_record_end c \<le> length data \<and> c_candidate_end c \<le> c_record_end c + 1 \<and> \<not> c_bounded_region c"

lemma record_context_in_source: "record_context data c \<Longrightarrow> pos < c_candidate_end c \<Longrightarrow> in_source c pos"
  by (auto simp: record_context_def in_source_def)

lemma record_context_candidate: "record_context data (c\<lparr>c_candidate_begin := b\<rparr>) = record_context data c"
  by (simp add: record_context_def)

lemma full_record_context: "b \<le> e \<Longrightarrow> e \<le> length data \<Longrightarrow> record_context data (full_context data b e sep crlf)"
  by (simp add: record_context_def) (simp add: full_context_def)

section \<open>Programs as \<open>parse_regex\<close> makes them\<close>

definition compiled_from :: "pattern_options \<Rightarrow> nfa_program \<Rightarrow> node \<Rightarrow> bool" where
  "compiled_from po p n \<longleftrightarrow> np_ir p = analyze_query n (rp_extended p) \<and> rp_ast p = wrap_node po n"

lemma parse_regex_compiled: "parse_regex U s po = Some (Inr p) \<Longrightarrow> \<exists>n. compiled_from po p n"
  by (auto simp: parse_regex_def compiled_from_def Let_def split: option.splits sum.splits if_splits prod.splits)

inductive_cases reach_ConcatE: "vm_reach U c (KConcat f chs) s z"
inductive_cases reach_BeginE: "vm_reach U c (KBegin f) s z"
inductive_cases reach_HalfE: "vm_reach U c (KWordStartHalf f) s z"

lemma reach_wrap: "vm_reach U c (wrap_node po n) s z \<Longrightarrow> \<exists>z'. vm_reach U c n s z'"
proof -
  assume r: "vm_reach U c (wrap_node po n) s z"
  consider "po_line po" | "\<not> po_line po" "po_word po" | "\<not> po_line po" "\<not> po_word po" by blast
  then show ?thesis
  proof cases
    case 1
    with r show ?thesis
      by (fastforce simp: wrap_node_def elim: reach_ConcatE vm_path_ConsE reach_BeginE)
  next
    case 2
    with r show ?thesis
      by (fastforce simp: wrap_node_def elim: reach_ConcatE vm_path_ConsE reach_HalfE)
  qed (use r in \<open>auto simp: wrap_node_def\<close>)
qed

lemma plain_wrap: "plain_node U (wrap_node po n) = plain_node U n"
  by (simp add: wrap_node_def Let_def)

section \<open>Files that keep a match\<close>

lemma file_has_chunk:
  assumes "wf_index I" "fid < length (loaded I)"
  shows "\<exists>ci < length (chunks I). file_id (chunks I ! ci) = fid"
proof -
  let ?cs = "file_chunks (chunk_bytes (ix_opt I)) (chunk_overlap (ix_opt I)) fid (length (content I fid))"
  have "?cs \<noteq> []"
    using assms(1) by (subst file_chunks_def, subst chunk_loop.simps) (simp add: wf_index_def Let_def)
  then have "hd ?cs \<in> set ?cs" by simp
  moreover from this have "file_id (hd ?cs) = fid" by (auto dest: file_chunks_members)
  moreover have "hd ?cs \<in> set (chunks I)"
    using \<open>hd ?cs \<in> set ?cs\<close> assms by (auto simp: wf_index_def layout_chunks_def)
  ultimately show ?thesis by (metis in_set_conv_nth)
qed

definition file_kept :: "index_data \<Rightarrow> nat list \<Rightarrow> nat \<Rightarrow> bool" where
  "file_kept I cv fid \<longleftrightarrow> (\<exists>ci \<in> set cv. file_id (chunks I ! ci) = fid)"

text \<open>Sorted lists of allowed chunks, whichever plan made them.\<close>

definition chunk_list :: "index_data \<Rightarrow> bool list \<Rightarrow> nat list \<Rightarrow> bool" where
  "chunk_list I el cv \<longleftrightarrow> sorted cv \<and> distinct cv \<and> (\<forall>ci \<in> set cv. ci < length (chunks I) \<and> allows el (file_id (chunks I ! ci)))"

lemma chunk_list_files:
  assumes "wf_index I" "chunk_list I el cv"
  shows "candidate_files I cv = filter (file_kept I cv) [0 ..< length (loaded I)]"
proof -
  have "cv = filter (\<lambda>ci. ci \<in> set cv) [0 ..< length (chunks I)]"
    using assms(2) by (intro sorted_distinct_set_unique) (auto simp: chunk_list_def sorted_filter [where f = id, simplified])
  then have "candidate_files I cv = filter (\<lambda>fid. \<exists>ci < length (chunks I). ci \<in> set cv \<and> file_id (chunks I ! ci) = fid) [0 ..< length (loaded I)]"
    using sorted_candidate_files [OF assms(1), of "\<lambda>ci. ci \<in> set cv"] by simp
  also have "\<dots> = filter (file_kept I cv) [0 ..< length (loaded I)]"
    using assms(2) by (intro filter_cong) (auto simp: file_kept_def chunk_list_def)
  finally show ?thesis .
qed

lemma chunk_list_candidates: "wf_index I \<Longrightarrow> chunk_list I el (chunk_candidates I el q)"
  by (simp add: chunk_candidates_eq chunk_list_def sorted_filter [where f = id, simplified])

lemma chunk_list_all: "chunk_list I el (all_chunks I el)"
  by (simp add: all_chunks_def chunk_list_def sorted_filter [where f = id, simplified])

lemma chunk_list_regex: "wf_index I \<Longrightarrow> chunk_list I el (regex_candidates I el p po)"
  using chunk_list_candidates [of I el]
  by (auto simp: regex_candidates_def Let_def chunk_list_def sorted_sort_unique distinct_sort_unique set_sort_unique split: if_splits)

lemma kept_by_literal:
  assumes "wf_index I" "fid < length (loaded I)" "allows el fid" "contains_str (content I fid) q"
  shows "file_kept I (chunk_candidates I el q) fid"
proof (cases "q = []")
  case True
  from file_has_chunk [OF assms(1,2)] obtain ci where "ci < length (chunks I)" "file_id (chunks I ! ci) = fid" by blast
  with assms(3) True show ?thesis by (auto simp: file_kept_def chunk_candidates_eq [OF assms(1)])
next
  case False
  from assms(4) obtain x where x: "occurs_at (content I fid) q x" by (auto simp: contains_str_iff)
  then have "x < length (content I fid)" using False occurs_at_bound [OF x] by (cases q) auto
  from chunk_of_position [OF assms(1,2) this] obtain ci where ci: "ci < length (chunks I)" "file_id (chunks I ! ci) = fid"
    "core_begin (chunks I ! ci) \<le> x" "x < core_end (chunks I ! ci)" by blast
  have "chunk_keep I q ci"
    using assms(1) ci x by (intro chunk_filter.complete [where p = "(fid, x)"]) (auto simp: chunk_positions_def occurs_in_def)
  with ci assms(3) show ?thesis by (auto simp: file_kept_def chunk_candidates_eq [OF assms(1)] chunk_keep_def)
qed

lemma longest_literal_mem: "longest_literal ls = [] \<or> longest_literal ls \<in> set ls"
proof -
  have "foldl (\<lambda>best l. if length best < length l then l else best) b ls \<in> insert b (set ls)" for b :: bytes
  proof (induction ls arbitrary: b)
    case (Cons a ls)
    from Cons.IH [of "if length b < length a then a else b"] show ?case by (auto split: if_splits)
  qed simp
  from this [of "[]"] show ?thesis by (auto simp: longest_literal_def)
qed

lemma longest_literal_Nil: "longest_literal ls = [] \<longleftrightarrow> (\<forall>l \<in> set ls. l = [])"
proof -
  have "foldl (\<lambda>best l. if length best < length l then l else best) b ls = [] \<longleftrightarrow> b = [] \<and> (\<forall>l \<in> set ls. l = [])" for b :: bytes
  proof (induction ls arbitrary: b)
    case (Cons a ls)
    have "(if length b < length a then a else b) = [] \<longleftrightarrow> b = [] \<and> a = []" by auto
    then show ?case
      by (simp only: foldl_Cons Cons.IH [of "if length b < length a then a else b"] list.set ball_simps conj_assoc)
  qed simp
  then show ?thesis by (simp add: longest_literal_def)
qed

lemma mandatory_list: "set (qi_mandatory (analyze_query n ext)) = set (query_mandatory n)"
  by (simp add: analyze_query_def Let_def set_sort_unique)

lemma record_spans_bounds:
  "(b', e') \<in> set (record_spans po sep data b) \<Longrightarrow> b' \<le> e' \<and> e' \<le> length data"
proof (induction po sep data b rule: record_spans.induct)
  case (1 po sep data b)
  have n: "b \<le> fst (next_record data sep b) \<and> fst (next_record data sep b) \<le> length data" if "b < length data \<or> (b = 0 \<and> data = [])"
    using that by (auto simp: next_record_def find_upt_Some split: option.splits)
  have l: "b \<le> logical_end po sep data b e \<and> logical_end po sep data b e \<le> e" if "b \<le> e" for e
    using that by (auto simp: logical_end_def)
  show ?case
  proof (cases "b < length data \<or> (b = 0 \<and> data = [])")
    case True
    from 1(2) consider "(b', e') = (b, logical_end po sep data b (fst (next_record data sep b)))"
      | "\<not> (\<not> snd (next_record data sep b) \<or> fst (next_record data sep b) < b)"
        "(b', e') \<in> set (record_spans po sep data (fst (next_record data sep b) + 1))"
      by (subst (asm) record_spans.simps) (auto split: if_splits)
    then show ?thesis
    proof cases
      case 1
      with n [OF True] l [of "fst (next_record data sep b)"] show ?thesis by auto
    next
      case 2
      with 1(1) [OF True] show ?thesis by blast
    qed
  next
    case False
    with 1(2) show ?thesis by (subst (asm) record_spans.simps) (simp split: if_splits)
  qed
qed

lemma naive_spans_bounds: "(b, e) \<in> set (naive_spans po sep data) \<Longrightarrow> b \<le> e \<and> e \<le> length data"
  by (auto simp: naive_spans_def dest: record_spans_bounds split: if_splits)

lemma foldl_filter_subset: "set (foldl (\<lambda>acc cur. filter (\<lambda>a. a \<in> set cur) acc) m ms) \<subseteq> set m"
proof (induction ms arbitrary: m)
  case (Cons x ms)
  from Cons.IH [of "filter (\<lambda>a. a \<in> set x) m"] show ?case by auto
qed simp

lemma concat_runs_nonempty:
  "\<forall>(l, m) \<in> set cs. [] \<notin> set m \<Longrightarrow> [] \<notin> set out \<Longrightarrow> [] \<notin> set (concat_runs cs run out)"
  by (induction cs run out rule: concat_runs.induct) auto

lemma mandatory_nonempty: "[] \<notin> set (query_mandatory n)"
proof (induction n)
  case (KConcat f cs)
  then show ?case unfolding query_mandatory.simps by (intro concat_runs_nonempty) auto
next
  case (KAlt f cs)
  then show ?case using foldl_filter_subset by (cases cs) (fastforce split: list.split)+
qed auto

lemma branch_literals_nonempty:
  "[] \<notin> set (query_branch_mandatory n)" "\<forall>bs \<in> set (query_branch_mandatory n). [] \<notin> set bs"
  using mandatory_nonempty by (auto simp: query_branch_mandatory_def Let_def split: node.splits if_splits)

locale sound_engine =
  fixes engine_ok :: "icu \<Rightarrow> nfa_program \<Rightarrow> bool"
  assumes sound: "engine_ok U p \<Longrightarrow> record_context data c \<Longrightarrow> regex_search U p c fid = Inr (Some m) \<Longrightarrow>
    \<exists>s z. vm_reach U c (rp_ast p) s z \<and> in_source c (vs_pos s)"
begin

lemma find_all_reach:
  assumes "engine_ok U p" "record_context data c" "regex_find_all U p c overlapping fid 0 = Inr ms" "ms \<noteq> []"
  shows "\<exists>c s z. c_source c = data \<and> vm_reach U c (rp_ast p) s z \<and> in_source c (vs_pos s)"
proof -
  let ?c = "c\<lparr>c_candidate_begin := c_candidate_begin c\<rparr>"
  from assms(3,4) obtain m where "regex_search U p ?c fid = Inr (Some m)"
    by (auto simp: regex_find_all_def find_all_loop.simps [of U p c overlapping fid 0 "c_candidate_begin c" "[]"]
        split: if_splits sum.splits option.splits)
  with sound [OF assms(1), of data ?c fid m] assms(2) show ?thesis
    by (metis record_context_candidate record_context_def)
qed

lemma file_match_reach:
  assumes "engine_ok U p" "naive_regex_file U I p po opt fid = Inr ys" "ys \<noteq> []"
  shows "\<exists>c s z. c_source c = content I fid \<and> vm_reach U c (rp_ast p) s z \<and> in_source c (vs_pos s)"
proof -
  from assms(3) obtain y where "y \<in> set ys" by (cases ys) auto
  from collect_mem [OF assms(2) [unfolded naive_regex_file_def] this] obtain b e xs where
    be: "(b, e) \<in> set (naive_spans po (so_record_separator opt) (content I fid))"
    and xs: "regex_find_all U p (full_context (content I fid) b e (so_record_separator opt) (po_crlf po)) (so_overlapping opt) fid 0 = Inr xs"
    and "y \<in> set xs" by auto
  then have "xs \<noteq> []" by auto
  from find_all_reach [OF assms(1) full_record_context xs this] naive_spans_bounds [OF be] show ?thesis by blast
qed

text \<open>The literals of the pattern occur in every file that has a match.\<close>

lemma file_match_literals:
  assumes "icu_ok U" "engine_ok U p" "plain_node U (rp_ast p)" "compiled_from po p n"
    and "naive_regex_file U I p po opt fid = Inr ys" "ys \<noteq> []"
  shows "(\<forall>m \<in> set (qi_mandatory (np_ir p)). contains_str (content I fid) m) \<and>
         (qi_branch_mandatory (np_ir p) \<noteq> [] \<longrightarrow>
            (\<exists>branch \<in> set (qi_branch_mandatory (np_ir p)). \<forall>m \<in> set branch. contains_str (content I fid) m))"
proof -
  from file_match_reach [OF assms(2,5,6)] obtain c s z where
    c: "c_source c = content I fid" "vm_reach U c (rp_ast p) s z" "in_source c (vs_pos s)" by blast
  have ir: "np_ir p = analyze_query n (rp_extended p)" and ast: "rp_ast p = wrap_node po n"
    using assms(4) by (simp_all add: compiled_from_def)
  from reach_wrap c(2) ast obtain z' where z: "vm_reach U c n s z'" by metis
  have plain: "plain_node U n" using assms(3) ast plain_wrap by simp
  have "\<forall>m \<in> set (query_mandatory n). contains_str (content I fid) m"
    using reach_mandatory [OF assms(1) z plain c(3)] c(1) by simp
  moreover have "qi_branch_mandatory (np_ir p) = query_branch_mandatory n" unfolding ir by (simp add: analyze_query_def Let_def)
  ultimately show ?thesis
    using reach_branch_mandatory [OF assms(1) z plain c(3)] c(1) by (simp add: ir mandatory_list)
qed

lemma kept_by_candidates:
  assumes "wf_index I" "icu_ok U" "engine_ok U p" "plain_node U (rp_ast p)" "compiled_from po p n"
    and "fid < length (loaded I)" "allows el fid" "naive_regex_file U I p po opt fid = Inr ys" "ys \<noteq> []"
  shows "file_kept I (regex_candidates I el p po) fid \<and> \<not> lacks_literal I p po fid"
proof -
  note lits = file_match_literals [OF assms(2-5,8,9)]
  have all: "contains_str (content I fid) (longest_literal ls)" if "\<forall>m \<in> set ls. contains_str (content I fid) m" for ls
    using longest_literal_mem [of ls] that by (auto simp: contains_str_iff intro: exI [of _ 0])
  have lit: "contains_str (content I fid) (filter_literal p po)"
    using all [of "qi_mandatory (np_ir p)"] all [of "[]"] lits by (simp add: filter_literal_def longest_literal_def)
  have "file_kept I (regex_candidates I el p po) fid"
  proof (cases "po_case po \<noteq> Insensitive \<and> qi_branch_mandatory (np_ir p) \<noteq> []")
    case True
    with lits obtain branch where b: "branch \<in> set (qi_branch_mandatory (np_ir p))"
      "\<forall>m \<in> set branch. contains_str (content I fid) m" by blast
    have "[] \<notin> set (qi_branch_mandatory (np_ir p))" "\<forall>bs \<in> set (qi_branch_mandatory (np_ir p)). [] \<notin> set bs"
      using assms(5) branch_literals_nonempty [of n] by (simp_all add: compiled_from_def analyze_query_def Let_def)
    then have "longest_literal branch \<noteq> []" using b(1) unfolding longest_literal_Nil by (metis hd_in_set)
    moreover have "file_kept I (chunk_candidates I el (longest_literal branch)) fid"
      by (rule kept_by_literal [OF assms(1,6,7) all [OF b(2)]])
    ultimately show ?thesis using True b(1) by (fastforce simp: regex_candidates_def file_kept_def Let_def)
  next
    case False
    then show ?thesis using kept_by_literal [OF assms(1,6,7) lit] by (auto simp: regex_candidates_def)
  qed
  then show ?thesis using lit by (simp add: lacks_literal_def Let_def)
qed

lemma regex_paths_naive:
  assumes "wf_index I" "icu_ok U" "engine_ok U p" "plain_node U (rp_ast p)" "compiled_from po p n"
    and "never_cancelled opt" "so_objective opt \<noteq> FirstHit" "so_max_matches opt = 0"
    and "region_plan U p po (so_record_separator opt) = None \<or> bounded_branches p = []"
    and "naive_regex U I p po opt = Inr ms"
  shows "rx_appends (regex_paths U I p po opt (eligible_list I opt)) (Inr ms)"
proof -
  let ?el = "eligible_list I opt"
  define cv where "cv = (if region_requested p po \<and> region_plan U p po (so_record_separator opt) = None
    then all_chunks I ?el else regex_candidates I ?el p po)"
  have cl: "chunk_list I ?el cv" using chunk_list_all chunk_list_regex [OF assms(1)] by (simp add: cv_def)
  have paths: "regex_paths U I p po opt ?el =
      scan_files I opt po (lacks_literal I p po) (\<lambda>fid. verify_record U p po opt fid (content I fid)) (candidate_files I cv)"
    using assms(9) by (auto simp: regex_paths_def cv_def Let_def)
  let ?g = "naive_regex_file U I p po opt" and ?n = "[0 ..< length (loaded I)]"
  let ?R = "\<lambda>fid. file_kept I cv fid \<and> \<not> lacks_literal I p po fid"
  have "collect (\<lambda>fid. if skip_binary I opt fid \<or> lacks_literal I p po fid then Inr [] else ?g fid) (candidate_files I cv) =
      collect ?g (filter ?R (filter (searched_file I opt) ?n))"
    unfolding collect_if chunk_list_files [OF assms(1) cl] filter_filter
    using cl by (intro arg_cong [where f = "collect ?g"] filter_cong refl) (auto simp: searched_file_def file_kept_def chunk_list_def)
  also have "\<dots> = Inr ms"
  proof (rule collect_subset)
    show "collect ?g (filter (searched_file I opt) ?n) = Inr ms" using assms(10) by (simp add: naive_regex_def)
    fix fid ys assume fid: "fid \<in> set (filter (searched_file I opt) ?n)" "\<not> ?R fid" "?g fid = Inr ys"
    then have less: "fid < length (loaded I)" and al: "allows ?el fid" by (auto simp: searched_file_def)
    show "ys = []"
    proof (rule ccontr)
      assume "ys \<noteq> []"
      from kept_by_candidates [OF assms(1-5) less al fid(3) this] have
        "file_kept I (regex_candidates I ?el p po) fid" "\<not> lacks_literal I p po fid" by simp_all
      moreover have "file_kept I (all_chunks I ?el) fid"
        using file_has_chunk [OF assms(1) less] al by (auto simp: file_kept_def all_chunks_def)
      ultimately show False using fid(2) by (auto simp: cv_def split: if_splits)
    qed
  qed
  finally show ?thesis
    using rx_appends_scan [OF assms(6-8), of I po "lacks_literal I p po" U p "candidate_files I cv"] unfolding paths by simp
qed

lemma find_regex_naive:
  assumes "wf_index I" "icu_ok U" "engine_ok U p" "plain_node U (rp_ast p)" "compiled_from po p n"
    and "never_cancelled opt" "so_objective opt \<noteq> FirstHit" "so_max_matches opt = 0"
    and "region_plan U p po (so_record_separator opt) = None \<or> bounded_branches p = []"
    and "naive_regex U I p po opt = Inr ms" "\<not> so_invert_match opt" "\<not> literal_shortcut p po (so_record_separator opt)"
  shows "find_regex U I p po opt = Inr ms"
proof -
  let ?st = "init_find_state\<lparr>fs_polls := Suc 0\<rparr>"
  have st: "stop_requested opt init_find_state = (?st, False)" "\<not> fs_cancelled ?st" "fs_out ?st = []"
    by (simp_all add: stop_requested_never [OF assms(6)] init_find_state_def)
  from rx_appends_Inr [OF regex_paths_naive [OF assms(1-10)] st(2)] st(3) obtain st' where
    "regex_paths U I p po opt (eligible_list I opt) ?st = Inr (st', False)" "fs_out st' = ms" "\<not> fs_cancelled st'" by auto
  then show ?thesis using st(1) assms(8,11,12) by (simp add: find_regex_def find_regex_state_def finish_find_def)
qed

end

section \<open>The backtracking matcher\<close>

lemma vm_search_reach:
  assumes "vm_search_loop U p c fid st = Inr (Some m)"
  shows "\<exists>s z. vm_reach U c (rp_ast p) s z \<and> vs_pos s = m_start m \<and> vs_pos z = m_end m \<and>
    st \<le> m_start m \<and> m_start m < c_candidate_end c"
  using assms
proof (induction U p c fid st rule: vm_search_loop.induct)
  case (1 U p c fid st)
  show ?case
  proof (cases "st < c_candidate_end c")
    case True
    let ?s = "\<lparr>vs_pos = st, vs_caps = replicate (rp_groups p + 1) (None, None)\<rparr>"
    from 1(2) True obtain v where v: "eval U (rp_ast p) c 0 ?s = Inr v"
      by (subst (asm) vm_search_loop.simps) (auto split: sum.splits)
    show ?thesis
    proof (cases v)
      case (Cons z zs)
      have "m_start m = st" "m_end m = vs_pos z"
        using 1(2) True v Cons by (subst (asm) vm_search_loop.simps; auto)+
      moreover from eval_soundD [OF eval_sound_all v, of z] Cons have "vm_reach U c (rp_ast p) ?s z" by simp
      ultimately show ?thesis using True by (intro exI [of _ ?s] exI [of _ z]) simp
    next
      case Nil
      let ?st' = "case context_rune_at U c st of Some (cp, nx) \<Rightarrow> nx | None \<Rightarrow> st + 1"
      have n: "\<not> c_record_end c \<le> st" "\<not> ?st' \<le> st" "vm_search_loop U p c fid ?st' = Inr (Some m)"
        using 1(2) True v Nil by (subst (asm) vm_search_loop.simps; simp add: Let_def split: if_splits)+
      from 1(1) [OF True v Nil n(1) refl n(2,3)] obtain s z where
        "vm_reach U c (rp_ast p) s z" "vs_pos s = m_start m" "vs_pos z = m_end m" "?st' \<le> m_start m" "m_start m < c_candidate_end c" by blast
      with n(2) show ?thesis by (intro exI [of _ s] exI [of _ z]) linarith
    qed
  next
    case False
    with 1(2) show ?thesis by (subst (asm) vm_search_loop.simps) simp
  qed
qed

lemma truncate_ast [simp]: "rp_ast (regex_program.truncate p) = rp_ast p"
  by (simp add: regex_program.truncate_def)

interpretation vm_engine: sound_engine "\<lambda>U p. rp_extended p"
proof unfold_locales
  fix U p c fid m and data :: bytes
  assume "rp_extended p" "record_context data c" "regex_search U p c fid = Inr (Some m)"
  then have "vm_search_loop U (regex_program.truncate p) c fid (c_candidate_begin c) = Inr (Some m)"
    by (simp add: regex_search_def split: if_splits)
  from vm_search_reach [OF this] \<open>record_context data c\<close>
  show "\<exists>s z. vm_reach U c (rp_ast p) s z \<and> in_source c (vs_pos s)"
    using record_context_in_source by fastforce
qed


end
