(* ===== verification/Engine_Sound.thy ===== *)
theory Engine_Sound
  imports Parser_Correct Regex_Correct
begin

text \<open>
  What both engines report, for every program the parser and the compiler make: each match is a
  match of the syntax tree, and the matches of a record come in order.  The interpretation of
  \<open>sound_engine\<close> on these programs gives the indexed search of \<open>Regex_Correct\<close> for the
  automaton as well.
\<close>

section \<open>The case-folded literal\<close>

text \<open>The documented simple case folding of ICU on ASCII, which \<open>folded_cp_eq\<close> hard-wires.\<close>

definition fold_ascii_ok :: "icu \<Rightarrow> bool" where
  "fold_ascii_ok U \<longleftrightarrow> (\<forall>cp. 0 \<le> cp \<and> cp < 0x80 \<longrightarrow> u_fold_case U cp = (if 65 \<le> cp \<and> cp \<le> 90 then cp + (97 - 65) else cp))"

lemma fold_ascii_ok_ascii: "fold_ascii_ok ascii_icu"
  by (simp add: fold_ascii_ok_def ascii_icu_def ascii_lower_def)

lemma rune_at_nonneg: "rune_at U s pos = Some (cp, nx) \<Longrightarrow> 0 \<le> cp"
  by (auto simp: rune_at_def byte_cp_def Let_def split: if_splits prod.splits)

lemma context_rune_at_nonneg: "context_rune_at U c pos = Some (cp, nx) \<Longrightarrow> 0 \<le> cp"
  using context_rune_at_source rune_at_nonneg by blast

lemma folded_cp_eq_sound:
  assumes "fold_ascii_ok U" "0 \<le> a" "folded_cp_eq U a (u_fold_case U b)"
  shows "cp_eq U a b True"
proof (cases "a < 0x80")
  case True
  with assms(1,2) have "u_fold_case U a = (if 65 \<le> a \<and> a \<le> 90 then a + (97 - 65) else a)"
    unfolding fold_ascii_ok_def by blast
  with True assms(3) show ?thesis by (simp add: folded_cp_eq_def cp_eq_def split: if_split_asm)
qed (use assms(3) in \<open>simp add: folded_cp_eq_def cp_eq_def\<close>)

lemma folded_literal_sound:
  assumes "icu_ok U" "fold_ascii_ok U" "validate c" "\<not> c_bounded_region c"
  shows "context_literal_at_validated U c tp (folded_runes U lit lp) = Some e \<Longrightarrow> literal_loop U c lit True tp lp = Some e"
  using assms(1,2)
proof (induction U lit lp arbitrary: tp rule: folded_runes.induct)
  case (1 U lit lp)
  show ?case
  proof (cases "rune_at U lit lp")
    case None
    then have "\<not> lp < length lit" by (simp add: rune_at_None)
    with 1(2) None show ?thesis by (subst literal_loop.simps, subst (asm) folded_runes.simps) simp
  next
    case (Some y)
    obtain b nx where y: "y = (b, nx)" by (cases y)
    note bd = rune_at_bounds [OF "1.prems"(2) Some [unfolded y]]
    have fr: "folded_runes U lit lp = u_fold_case U b # folded_runes U lit nx"
      using Some y bd by (subst folded_runes.simps) simp
    from 1(2) obtain a tp' where a: "context_rune_at_validated U c tp = Some (a, tp')" "folded_cp_eq U a (u_fold_case U b)"
      and rest: "context_literal_at_validated U c tp' (folded_runes U lit nx) = Some e"
      unfolding fr by (auto split: option.splits if_splits)
    have a': "context_rune_at U c tp = Some (a, tp')"
      using a(1) rune_at_validated [OF "1.prems"(2) assms(3,4)] by simp
    have "cp_eq U a b True" by (rule folded_cp_eq_sound [OF "1.prems"(3) context_rune_at_nonneg [OF a'] a(2)])
    moreover have "literal_loop U c lit True tp' nx = Some e"
      by (rule "1.IH" [OF Some y [symmetric] _ rest "1.prems"(2,3)]) (use bd in simp)
    ultimately show ?thesis using Some y a' bd by (subst literal_loop.simps) simp
  qed
qed

lemma icase_scan_match:
  assumes "icase_scan U p c fid scan_end pos = Some m"
  shows "context_literal_at_validated U c (m_start m) (rp_icase_literal p) = Some (m_end m) \<and> pos \<le> m_start m \<and> m_start m < scan_end"
  using assms
proof (induction U p c fid scan_end pos rule: icase_scan.induct)
  case (1 U p c fid scan_end pos)
  define hi where "hi = (0x80 \<le> hd (rp_icase_literal p))"
  define pos' where "pos' = (if hi then skip_ascii c scan_end pos else pos)"
  have ge: "pos \<le> pos'" using skip_ascii_ge by (simp add: pos'_def)
  have step: "icase_scan U p c fid scan_end pos =
     (if \<not> pos < scan_end then None
      else if hi \<and> (scan_end \<le> pos' \<or> (c_bounded_region c \<and> c_region_end c \<le> pos')) then None
      else case context_literal_at_validated U c pos' (rp_icase_literal p) of
             Some e \<Rightarrow> Some (whole_match (rp_groups p) fid pos' e)
           | None \<Rightarrow> (case context_rune_at_validated U c pos' of None \<Rightarrow> None
                | Some (cp, nx) \<Rightarrow> if pos' < nx then icase_scan U p c fid scan_end nx else None))"
    by (subst icase_scan.simps) (simp only: Let_def hi_def [symmetric] pos'_def [symmetric])
  have less: "pos < scan_end" using "1.prems" unfolding step by (metis option.distinct(1))
  have scan: "\<not> (hi \<and> (scan_end \<le> pos' \<or> (c_bounded_region c \<and> c_region_end c \<le> pos')))"
    using "1.prems" unfolding step by (metis option.distinct(1))
  have res: "(case context_literal_at_validated U c pos' (rp_icase_literal p) of
        Some e \<Rightarrow> Some (whole_match (rp_groups p) fid pos' e)
      | None \<Rightarrow> (case context_rune_at_validated U c pos' of None \<Rightarrow> None
           | Some (cp, nx) \<Rightarrow> if pos' < nx then icase_scan U p c fid scan_end nx else None)) = Some m"
    using "1.prems" less scan unfolding step by (simp only: if_True if_False not_True_eq_False)
  have less': "pos' < scan_end" using scan less by (cases hi) (simp_all add: pos'_def)
  show ?case
  proof (cases "context_literal_at_validated U c pos' (rp_icase_literal p)")
    case (Some e)
    with res ge less' show ?thesis by (auto simp: whole_match_def)
  next
    case None
    with res obtain cp nx where r: "context_rune_at_validated U c pos' = Some (cp, nx)" "pos' < nx"
      "icase_scan U p c fid scan_end nx = Some m" by (auto split: option.splits if_splits)
    from "1.IH" [OF _ hi_def pos'_def scan None r(1) refl r(2,3)] less ge r(2) show ?thesis by simp
  qed
qed

section \<open>Every match is a match of the tree\<close>

definition matches :: "icu \<Rightarrow> verifier_context \<Rightarrow> node \<Rightarrow> nat \<Rightarrow> nat \<Rightarrow> bool" where
  "matches U c n a b \<longleftrightarrow> (\<exists>s z. vm_reach U c n s z \<and> vs_pos s = a \<and> vs_pos z = b)"

lemma spans_matches: "node_spans U c n a b \<Longrightarrow> matches U c n a b"
  unfolding node_spans_def matches_def by (metis vm_state.select_convs(1))

lemma literal_matches: "context_literal_at U c a lit (rf_icase f) = Some b \<Longrightarrow> matches U c (KLiteral f lit) a b"
  unfolding matches_def using reach_literal [of U c "\<lparr>vs_pos = a, vs_caps = []\<rparr>"] by fastforce

text \<open>Programs that \<open>parse_regex\<close> returns.\<close>

definition compiled_program :: "icu \<Rightarrow> nfa_program \<Rightarrow> bool" where
  "compiled_program U p \<longleftrightarrow> icu_ok U \<and> fold_ascii_ok U \<and> (\<exists>s po. parse_regex U s po = Some (Inr p))"

lemma wrap_node_literal: "wrap_node po n = KLiteral f lit \<Longrightarrow> n = KLiteral f lit"
  by (auto simp: wrap_node_def Let_def split: if_splits)

lemma compiled_icase:
  assumes "parse_regex U s po = Some (Inr p)" "icase_literal_program p"
  obtains f lit where "rp_ast p = KLiteral f lit" "rf_icase f" "rp_icase_literal p = folded_runes U lit 0"
proof -
  from assms(2) obtain f lit where p: "rp_ast p = KLiteral f lit" "rf_icase f" "lit \<noteq> []" "\<not> rp_extended p"
    by (auto simp: icase_literal_program_def split: node.splits)
  from assms(1) obtain n where n: "rp_ast p = wrap_node po n" "rp_icase_literal p = icase_runes U n (rp_extended p)"
    by (auto simp: parse_regex_def Let_def split: option.splits sum.splits if_splits prod.splits)
  with p wrap_node_literal [of po n f lit] have "rp_icase_literal p = folded_runes U lit 0" by (simp add: icase_runes_def)
  with p that show ?thesis by blast
qed

lemma nfa_search_match:
  assumes "compiled_program U p" "\<not> rp_extended p" "\<not> c_bounded_region c" "nfa_search U p c fid = Some m"
  shows "validate c \<and> matches U c (rp_ast p) (m_start m) (m_end m) \<and> c_candidate_begin c \<le> m_start m \<and> m_start m < c_candidate_end c"
proof -
  from assms(1) obtain s po where U: "icu_ok U" "fold_ascii_ok U" and ps: "parse_regex U s po = Some (Inr p)"
    by (auto simp: compiled_program_def)
  have v: "validate c" using assms(4) by (auto simp: nfa_search_def split: if_splits)
  show ?thesis
  proof (cases "icase_literal_program p")
    case True
    obtain f lit where ast: "rp_ast p = KLiteral f lit" "rf_icase f" "rp_icase_literal p = folded_runes U lit 0"
      by (rule compiled_icase [OF ps True])
    have "icase_scan U p c fid (min (c_candidate_end c) (c_record_end c)) (c_candidate_begin c) = Some m"
      using assms(4) True by (simp add: nfa_search_def split: if_splits)
    from icase_scan_match [OF this] ast(3) have lit:
      "context_literal_at_validated U c (m_start m) (folded_runes U lit 0) = Some (m_end m)"
      "c_candidate_begin c \<le> m_start m" "m_start m < c_candidate_end c" by simp_all
    from folded_literal_sound [OF U v assms(3) lit(1)] ast(2) have "matches U c (rp_ast p) (m_start m) (m_end m)"
      unfolding ast(1) by (intro literal_matches) (simp add: context_literal_at_def)
    with v lit show ?thesis by simp
  next
    case False
    with assms(4) obtain t e where
      l: "nfa_loop U p c [] (replicate (length (np_code p)) 0) 1 2 None (c_candidate_begin c) = Some (t, e)"
      and m: "m = nfa_match p fid t e" by (auto simp: nfa_search_def split: if_splits option.splits)
    have n: "nfa_compiled U p" using parse_regex_typed [OF U(1) ps] assms(2) by simp
    from nfa_loop_sound [OF U(1) v assms(3) n l] v m spans_matches show ?thesis by (simp add: nfa_match_def)
  qed
qed

lemma regex_search_match:
  assumes "compiled_program U p" "\<not> c_bounded_region c" "regex_search U p c fid = Inr (Some m)"
  shows "validate c \<and> matches U c (rp_ast p) (m_start m) (m_end m) \<and> c_candidate_begin c \<le> m_start m \<and> m_start m < c_candidate_end c"
proof (cases "rp_extended p")
  case True
  then have v: "validate c" and "vm_search_loop U (regex_program.truncate p) c fid (c_candidate_begin c) = Inr (Some m)"
    using assms(3) by (simp_all add: regex_search_def split: if_splits)
  from vm_search_reach [OF this(2)] v show ?thesis by (auto simp: matches_def)
next
  case False
  with assms(3) have "nfa_search U p c fid = Some m" by (simp add: regex_search_def split: if_splits)
  with nfa_search_match [OF assms(1) False assms(2)] show ?thesis by simp
qed

lemma match_forwards:
  assumes "icu_ok U" "validate c" "matches U c n a b" "a < c_candidate_end c" "c_candidate_begin c \<le> a"
  shows "a \<le> b"
proof -
  from assms(3) obtain s z where r: "vm_reach U c n s z" "vs_pos s = a" "vs_pos z = b" by (auto simp: matches_def)
  have "c_source_begin c \<le> vs_pos s" "vs_pos s \<le> c_source_end c" using validateD [OF assms(2)] assms(4,5) r(2) by auto
  with reach_mono(1) [OF assms(1) r(1)] r show ?thesis by simp
qed


section \<open>The indexed search with either engine\<close>

interpretation compiled_engine: sound_engine compiled_program
proof unfold_locales
  fix U p c fid m and data :: bytes
  assume "compiled_program U p" and c: "record_context data c" and "regex_search U p c fid = Inr (Some m)"
  then have "matches U c (rp_ast p) (m_start m) (m_end m)" "m_start m < c_candidate_end c"
    using regex_search_match [of U p c fid m] by (simp_all add: record_context_def)
  with record_context_in_source [OF c] show "\<exists>s z. vm_reach U c (rp_ast p) s z \<and> in_source c (vs_pos s)"
    by (auto simp: matches_def)
qed


section \<open>All matches of a record\<close>

text \<open>Starts go up, and unless overlapping is asked for a match starts at or after the end of the one before.\<close>

definition in_order :: "bool \<Rightarrow> match list \<Rightarrow> bool" where
  "in_order overlapping = sorted_wrt (\<lambda>m m'. m_start m < m_start m' \<and> (overlapping \<or> m_end m \<le> m_start m'))"

definition match_in :: "icu \<Rightarrow> nfa_program \<Rightarrow> verifier_context \<Rightarrow> match \<Rightarrow> bool" where
  "match_in U p c m \<longleftrightarrow> m_start m \<le> m_end m \<and> m_start m < c_candidate_end c \<and>
     (\<exists>b. c_candidate_begin c \<le> b \<and> b \<le> m_start m \<and> matches U (c\<lparr>c_candidate_begin := b\<rparr>) (rp_ast p) (m_start m) (m_end m))"

lemma regex_search_match_in:
  assumes "compiled_program U p" "\<not> c_bounded_region c" "c_candidate_begin c \<le> pos"
    "regex_search U p (c\<lparr>c_candidate_begin := pos\<rparr>) fid = Inr (Some m)"
  shows "match_in U p c m" "pos \<le> m_start m"
proof -
  let ?c = "c\<lparr>c_candidate_begin := pos\<rparr>"
  have m: "validate ?c" "matches U ?c (rp_ast p) (m_start m) (m_end m)" "pos \<le> m_start m" "m_start m < c_candidate_end c"
    using regex_search_match [OF assms(1) _ assms(4)] assms(2) by simp_all
  have "m_start m \<le> m_end m" by (rule match_forwards [OF _ m(1,2)]) (use m assms(1) in \<open>simp_all add: compiled_program_def\<close>)
  with m assms(3) show "match_in U p c m" "pos \<le> m_start m" by (auto simp: match_in_def)
qed

lemma find_all_loop_in_order:
  assumes "compiled_program U p" "\<not> c_bounded_region c"
  shows "find_all_loop U p c overlapping fid limit pos out = Inr ms \<Longrightarrow> c_candidate_begin c \<le> pos \<Longrightarrow>
    \<exists>new. ms = out @ new \<and> in_order overlapping new \<and> (\<forall>m \<in> set new. match_in U p c m \<and> pos \<le> m_start m)"
  using assms
proof (induction U p c overlapping fid limit pos out rule: find_all_loop.induct)
  case (1 U p c overlapping fid limit pos out)
  let ?search = "regex_search U p (c\<lparr>c_candidate_begin := pos\<rparr>) fid"
  show ?case
  proof (cases "pos < c_candidate_end c \<and> (\<exists>m. ?search = Inr (Some m))")
    case False
    with 1(2) have "ms = out"
      by (subst (asm) find_all_loop.simps) (auto split: sum.splits option.splits if_splits)
    then show ?thesis by (simp add: in_order_def)
  next
    case True
    then obtain m where less: "pos < c_candidate_end c" and m: "?search = Inr (Some m)" by blast
    note mi = regex_search_match_in [OF 1(4,5,3) m]
    define after where "after = (case context_rune_at U c (m_start m) of Some (cp, nx) \<Rightarrow> nx | None \<Rightarrow> m_start m + 1)"
    define pos' where "pos' = (if overlapping then after else if m_start m < m_end m then m_end m else after)"
    have "icu_ok U" using 1(4) by (simp add: compiled_program_def)
    then have "m_start m < after"
      using context_rune_at_bounds(1) by (fastforce simp: after_def split: option.splits)
    then have fwd: "m_start m < pos'" "overlapping \<or> m_end m \<le> pos'" using mi(1) by (auto simp: pos'_def match_in_def)
    have step: "(if limit \<noteq> 0 \<and> limit \<le> length (out @ [m]) then Inr (out @ [m])
        else if pos < pos' then find_all_loop U p c overlapping fid limit pos' (out @ [m]) else Inr (out @ [m])) = Inr ms"
      using 1(2) less m by (subst (asm) find_all_loop.simps)
        (simp only: if_True sum.case option.case Let_def after_def [symmetric] pos'_def [symmetric])
    show ?thesis
    proof (cases "\<not> (limit \<noteq> 0 \<and> limit \<le> length (out @ [m])) \<and> pos < pos'")
      case True
      have "find_all_loop U p c overlapping fid limit pos' (out @ [m]) = Inr ms" using step True by (simp split: if_splits)
      from 1(1) [OF less m refl refl after_def pos'_def _ _ this _ 1(4,5)] True 1(3) obtain new where
        new: "ms = (out @ [m]) @ new" "in_order overlapping new" "\<forall>m' \<in> set new. match_in U p c m' \<and> pos' \<le> m_start m'" by auto
      then have "in_order overlapping (m # new)" using fwd by (auto simp: in_order_def)
      moreover have "\<forall>m' \<in> set (m # new). match_in U p c m' \<and> pos \<le> m_start m'" using new(3) mi fwd by auto
      ultimately show ?thesis using new(1) by (intro exI [of _ "m # new"]) simp
    next
      case False
      with step have "ms = out @ [m]" by (auto split: if_splits)
      with mi show ?thesis by (intro exI [of _ "[m]"]) (simp add: in_order_def)
    qed
  qed
qed


end
