(* ===== verification/Regex_Samples.thy ===== *)
theory Regex_Samples
  imports Regex_Correct Pattern_Samples
begin

text \<open>
  The search for an extended pattern, \<open>n(?=e)\<close>, over the sample index restricted to its second
  file.
\<close>

section \<open>The program\<close>

definition ahead_options :: pattern_options where
  "ahead_options = default_pattern_options\<lparr>po_engine := Auto\<rparr>"

definition ahead_ast :: node where
  "ahead_ast = KConcat sample_flags [KLiteral sample_flags [110], KLookAhead sample_flags False (KLiteral sample_flags [101])]"

definition ahead_program :: nfa_program where
  "ahead_program =
     \<lparr>rp_ast = ahead_ast, rp_groups = 0, rp_group_names = [[]], rp_extended = True, rp_icase_literal = [],
      np_ir = analyze_query ahead_ast True, np_code = [], np_start = - 1,
      np_closure_offsets = fst (build_nfa_closures 0 []), np_closure_pcs = snd (build_nfa_closures 0 [])\<rparr>"

definition ahead_state :: parser_state where
  "ahead_state = (initial_state ahead_options)\<lparr>ps_i := 6, ps_extended := True\<rparr>"

lemma ahead_parsed:
  "parse ascii_icu (ascii_bytes ''n(?=e)'') ahead_options = Some (Inr (ahead_ast, ahead_state))"
  by code_simp

lemma ahead_state_facts:
  "ps_extended ahead_state" "ps_groups ahead_state = 0" "ps_names ahead_state = [[]]"
  by code_simp+

lemma ahead_compiled: "parse_regex ascii_icu (ascii_bytes ''n(?=e)'') ahead_options = Some (Inr ahead_program)"
  unfolding parse_regex_def ahead_parsed
  by (simp add: ahead_state_facts ahead_options_def default_pattern_options_def wrap_node_def
      ahead_program_def ahead_ast_def icase_runes_def split: prod.splits)

lemma ahead_plain: "plain_node ascii_icu ahead_ast" by code_simp

section \<open>The record\<close>

definition ahead_context :: "nat \<Rightarrow> verifier_context" where
  "ahead_context b = (full_context (ascii_bytes ''needles'') 0 7 10 False)\<lparr>c_candidate_begin := b\<rparr>"

lemma needles_length: "length (ascii_bytes ''needles'') = 7" by code_simp

lemma ahead_rune:
  assumes "b \<le> 7"
  shows "context_rune_at ascii_icu (ahead_context b) p = (if p < 7 then rune_at ascii_icu (ascii_bytes ''needles'') p else None)"
proof -
  have "\<not> c_bounded_region (ahead_context b)" "validate (ahead_context b)"
    using assms by (simp_all add: ahead_context_def full_context_def validate_def needles_length)
  then show ?thesis
    using needles_length by (simp add: ahead_context_def context_rune_at_def region_contains_def ctx_contains_def split: option.splits)
qed

lemma needles_runes:
  assumes "p < 7"
  shows "rune_at ascii_icu (ascii_bytes ''needles'') p = Some (byte_cp (ascii_bytes ''needles'' ! p), p + 1)"
    "byte_cp (ascii_bytes ''needles'' ! p) = 110 \<longleftrightarrow> p = 0"
proof -
  have all: "\<forall>p \<in> set [0 ..< 7]. rune_at ascii_icu (ascii_bytes ''needles'') p = Some (byte_cp (ascii_bytes ''needles'' ! p), p + 1) \<and>
     (byte_cp (ascii_bytes ''needles'' ! p) = 110 \<longleftrightarrow> p = 0)"
    by code_simp
  then show "rune_at ascii_icu (ascii_bytes ''needles'') p = Some (byte_cp (ascii_bytes ''needles'' ! p), p + 1)"
    "byte_cp (ascii_bytes ''needles'' ! p) = 110 \<longleftrightarrow> p = 0"
    using assms by simp_all
qed

lemma ahead_literal:
  assumes "b \<le> 7"
  shows "context_literal_at ascii_icu (ahead_context b) p [110] False = (if p = 0 then Some (Suc 0) else None)"
proof -
  have "rune_at ascii_icu [110] 0 = Some (110, 1)" by code_simp
  then show ?thesis
    using needles_runes [of p] assms
    by (cases "p < 7") (simp_all add: context_literal_at_def literal_loop.simps ahead_rune cp_eq_def)
qed

lemma ahead_lookahead:
  assumes "b \<le> 7"
  shows "context_literal_at ascii_icu (ahead_context b) (Suc 0) [101] False = Some 2"
proof -
  have "rune_at ascii_icu [101] 0 = Some (101, 1)" "byte_cp (ascii_bytes ''needles'' ! Suc 0) = 101" by code_simp+
  then show ?thesis
    using needles_runes [of 1] assms
    by (simp add: context_literal_at_def literal_loop.simps ahead_rune cp_eq_def)
qed

lemma ahead_eval:
  "b \<le> 7 \<Longrightarrow> eval ascii_icu ahead_ast (ahead_context b) 0 \<lparr>vs_pos = p, vs_caps = cs\<rparr> =
     Inr (if p = 0 then [\<lparr>vs_pos = 1, vs_caps = cs\<rparr>] else [])"
  by (simp add: ahead_ast_def eval.simps ahead_literal ahead_lookahead sample_flags_def Let_def)


lemma ahead_loop_empty:
  "0 < p \<Longrightarrow> b \<le> 7 \<Longrightarrow> vm_search_loop ascii_icu (regex_program.truncate ahead_program) (ahead_context b) fid p = Inr None"
proof (induction "8 - p" arbitrary: p)
  case 0
  then show ?case by (subst vm_search_loop.simps) (simp add: ahead_context_def full_context_def)
next
  case (Suc d)
  have c: "c_candidate_end (ahead_context b) = 8" "c_record_end (ahead_context b) = 7"
    by (simp_all add: ahead_context_def full_context_def)
  have e: "rp_ast ahead_program = ahead_ast" by (simp add: ahead_program_def)
  have n: "p < 7 \<Longrightarrow> context_rune_at ascii_icu (ahead_context b) p = Some (byte_cp (ascii_bytes ''needles'' ! p), p + 1)"
    using needles_runes(1) [of p] Suc.prems by (simp add: ahead_rune)
  show ?case
    using Suc.hyps(1) [of "p + 1"] Suc.hyps(2) Suc.prems n
    by (subst vm_search_loop.simps) (simp add: c e ahead_eval)
qed

lemma ahead_search:
  "b \<le> 7 \<Longrightarrow> regex_search ascii_icu ahead_program (ahead_context b) fid =
     Inr (if b = 0 then Some \<lparr>m_file = fid, m_start = 0, m_end = 1,
       m_caps = [\<lparr>cap_start = 0, cap_end = 1, cap_matched = True, cap_name = []\<rparr>]\<rparr> else None)"
proof -
  assume b: "b \<le> 7"
  have f: "validate (ahead_context b)" "c_candidate_begin (ahead_context b) = b" "c_candidate_end (ahead_context b) = 8"
    using b by (simp_all add: ahead_context_def full_context_def validate_def needles_length)
  have e: "rp_ast ahead_program = ahead_ast" "rp_groups (regex_program.truncate ahead_program) = 0" "rp_extended ahead_program"
    by (simp_all add: ahead_program_def regex_program.truncate_def)
  show ?thesis
  proof (cases "b = 0")
    case True
    with f ahead_eval [of 0 0] e show ?thesis
      by (simp add: regex_search_def) (simp add: vm_search_loop.simps capture_list_def)
  next
    case False
    then show ?thesis using f b e ahead_loop_empty [of b b fid] by (simp add: regex_search_def)
  qed
qed


section \<open>The search\<close>

definition second_only :: search_options where
  "second_only = default_search_options\<lparr>so_eligible := [1]\<rparr>"

abbreviation ahead_match :: match where
  "ahead_match \<equiv> \<lparr>m_file = 1, m_start = 0, m_end = 1,
     m_caps = [\<lparr>cap_start = 0, cap_end = 1, cap_matched = True, cap_name = []\<rparr>]\<rparr>"

lemma second_only_files: "filter (searched_file sample_index second_only) [0 ..< length (loaded sample_index)] = [1]"
proof -
  have "\<not> fi_binary (infos sample_index ! 1)"
    by (simp add: sample_infos document_info_def looks_binary_def sample_docs_def ascii_bytes_def)
  then have "searched_file sample_index second_only 1" "\<not> searched_file sample_index second_only 0"
    by (simp_all add: searched_file_def skip_binary_def second_only_def default_search_options_def sort_unique_def
        recorder_eligible_def allows_def sample_infos)
  then show ?thesis by (simp add: sample_content upt_rec)
qed

lemma needles_spans: "naive_spans ahead_options 10 (ascii_bytes ''needles'') = [(0, 7)]"
  by code_simp

lemma ahead_all: "regex_find_all ascii_icu ahead_program (full_context (ascii_bytes ''needles'') 0 7 10 False) False 1 0 = Inr [ahead_match]"
proof -
  have c: "full_context (ascii_bytes ''needles'') 0 7 10 False = ahead_context 0"
    by (simp add: ahead_context_def full_context_def)
  have u: "(ahead_context a)\<lparr>c_candidate_begin := b\<rparr> = ahead_context b" "c_candidate_end (ahead_context a) = 8" "c_candidate_begin (ahead_context a) = a" for a b
    by (simp_all add: ahead_context_def full_context_def)
  show ?thesis unfolding c regex_find_all_def
    using needles_runes(1) [of 0]
    by (simp add: find_all_loop.simps u ahead_search ahead_rune)
qed

lemma ahead_naive: "naive_regex ascii_icu sample_index ahead_program ahead_options second_only = Inr [ahead_match]"
proof -
  have o: "so_record_separator second_only = 10" "so_overlapping second_only = False" "po_crlf ahead_options = False"
    by (simp_all add: second_only_def default_search_options_def ahead_options_def default_pattern_options_def)
  show ?thesis
    unfolding naive_regex_def second_only_files collect.simps naive_regex_file_def o sample_content(3) [folded One_nat_def] needles_spans
    by (simp add: ahead_all [simplified])
qed


end
