(* ===== verification/Engine_Samples.thy ===== *)
theory Engine_Samples
  imports Engine_Sound Regex_Samples
begin

text \<open>
  The case-insensitive pattern \<open>N\<close> searched in the second file of the sample index, and the
  theorems on the engines applied to it.
\<close>

section \<open>The program\<close>

definition fold_options :: pattern_options where "fold_options = default_pattern_options\<lparr>po_case := Insensitive\<rparr>"
definition fold_flags :: rx_flags where "fold_flags = sample_flags\<lparr>rf_icase := True\<rparr>"
definition fold_ast :: node where "fold_ast = KLiteral fold_flags [78]"
definition fold_state :: parser_state where "fold_state = (initial_state fold_options)\<lparr>ps_i := 1\<rparr>"
lemma fold_parsed: "parse ascii_icu [78] fold_options = Some (Inr (fold_ast, fold_state))"
  by code_simp
definition fold_code :: code where
  "fold_code = [(blank_inst no_flags OpJmp), (blank_inst fold_flags OpRune)\<lparr>i_rune := 78, i_x := 2\<rparr>, blank_inst no_flags OpMatch]"
lemma fold_rune: "rune_at ascii_icu [78] 0 = Some (78, 1)" "rune_at ascii_icu [78] (Suc 0) = None" by code_simp+
lemma fold_built: "compile_nfa ascii_icu fold_ast = Inr (fold_code, 1)"
  by (simp add: compile_nfa_def fold_ast_def build_literal_def epsilon_def one_def emit_def literal_frags.simps fold_rune
    patch_def set_ref_def fold_code_def)

definition fold_program :: nfa_program where
  "fold_program =
     \<lparr>rp_ast = fold_ast, rp_groups = 0, rp_group_names = [[]], rp_extended = False, rp_icase_literal = [110],
      np_ir = analyze_query fold_ast False, np_code = fold_code, np_start = 1,
      np_closure_offsets = fst (build_nfa_closures 0 fold_code), np_closure_pcs = snd (build_nfa_closures 0 fold_code)\<rparr>"

lemma fold_state_facts: "\<not> ps_extended fold_state" "ps_groups fold_state = 0" "ps_names fold_state = [[]]"
  by code_simp+

lemma fold_icase: "icase_runes ascii_icu fold_ast False = [110]"
proof -
  have "u_fold_case ascii_icu 78 = 110" by code_simp
  then show ?thesis by (simp add: icase_runes_def fold_ast_def fold_flags_def folded_runes.simps fold_rune)
qed

lemma fold_compiled: "parse_regex ascii_icu [78] fold_options = Some (Inr fold_program)"
  unfolding parse_regex_def fold_parsed
  by (simp add: fold_state_facts fold_options_def default_pattern_options_def wrap_node_def fold_built fold_icase
      fold_program_def split: prod.splits)

lemma fold_plain: "plain_node ascii_icu fold_ast" by code_simp

lemma fold_is_literal: "icase_literal_program fold_program"
  by (simp add: icase_literal_program_def fold_program_def fold_ast_def fold_flags_def)

lemma ahead_valid: "b \<le> 7 \<Longrightarrow> validate (ahead_context b)" "\<not> c_bounded_region (ahead_context b)"
  "c_candidate_end (ahead_context b) = 8" "c_record_end (ahead_context b) = 7" "c_candidate_begin (ahead_context b) = b"
  by (simp_all add: ahead_context_def full_context_def validate_def needles_length)

lemma fold_rune_at:
  assumes "b \<le> 7" "p < 7"
  shows "context_rune_at_validated ascii_icu (ahead_context b) p = Some (byte_cp (ascii_bytes ''needles'' ! p), p + 1)"
  using assms needles_runes(1) [of p] rune_at_validated [OF icu_ok_ascii ahead_valid(1,2), of b p]
  by (simp add: ahead_rune)

lemma fold_literal_at:
  assumes "b \<le> 7" "p < 7"
  shows "context_literal_at_validated ascii_icu (ahead_context b) p [110] = (if p = 0 then Some (p + 1) else None)"
proof -
  have "\<forall>p \<in> set [0 ..< 7]. folded_cp_eq ascii_icu (byte_cp (ascii_bytes ''needles'' ! p)) 110 \<longleftrightarrow> p = 0" by code_simp
  with assms(2) have "folded_cp_eq ascii_icu (byte_cp (ascii_bytes ''needles'' ! p)) 110 \<longleftrightarrow> p = 0" by simp
  then show ?thesis using fold_rune_at [OF assms] by simp
qed

lemma fold_scan_none:
  "b \<le> 7 \<Longrightarrow> 0 < p \<Longrightarrow> icase_scan ascii_icu fold_program (ahead_context b) fid 7 p = None"
proof (induction "7 - p" arbitrary: p)
  case 0
  then show ?case by (subst icase_scan.simps) simp
next
  case (Suc d)
  have "rp_icase_literal fold_program = [110]" by (simp add: fold_program_def)
  with Suc.hyps(1) [of "p + 1"] Suc.hyps(2) Suc.prems fold_literal_at [of b p] fold_rune_at [of b p] show ?case
    by (subst icase_scan.simps) simp
qed

lemma fold_search:
  assumes "b \<le> 7"
  shows "regex_search ascii_icu fold_program (ahead_context b) fid =
     Inr (if b = 0 then Some \<lparr>m_file = fid, m_start = 0, m_end = 1,
       m_caps = [\<lparr>cap_start = 0, cap_end = 1, cap_matched = True, cap_name = []\<rparr>]\<rparr> else None)"
proof -
  have p: "\<not> rp_extended fold_program" "0 \<le> np_start fold_program" "rp_icase_literal fold_program = [110]" "rp_groups fold_program = 0"
    by (simp_all add: fold_program_def)
  have "icase_scan ascii_icu fold_program (ahead_context b) fid 7 b = (if b = 0 then Some (whole_match 0 fid 0 1) else None)"
  proof (cases "b = 0")
    case True
    with fold_literal_at [of 0 0] p show ?thesis by (subst icase_scan.simps) simp
  qed (use assms fold_scan_none in simp)
  with p assms show ?thesis
    by (simp add: regex_search_def nfa_search_def fold_is_literal ahead_valid whole_match_def)
qed


lemma fold_all: "regex_find_all ascii_icu fold_program (full_context (ascii_bytes ''needles'') 0 7 10 False) False 1 0 = Inr [ahead_match]"
proof -
  have c: "full_context (ascii_bytes ''needles'') 0 7 10 False = ahead_context 0"
    by (simp add: ahead_context_def full_context_def)
  have u: "(ahead_context a)\<lparr>c_candidate_begin := b\<rparr> = ahead_context b" for a b
    by (simp add: ahead_context_def)
  show ?thesis unfolding c regex_find_all_def
    using needles_runes(1) [of 0]
    by (simp add: find_all_loop.simps u fold_search ahead_rune ahead_valid)
qed


theorem compiled_program_typed_witness:
  "tree_ok fold_ast \<and> groups_ok 0 fold_ast \<and> regular fold_ast \<and> nfa_compiled ascii_icu fold_program"
  using compiled_program_typed [OF icu_ok_ascii fold_compiled] by (simp add: fold_program_def)

theorem regular_patterns_compile_witness:
  "compile_nfa ascii_icu (wrap_node fold_options fold_ast) = Inl program_too_large \<or>
   (\<exists>q s0. compile_nfa ascii_icu (wrap_node fold_options fold_ast) = Inr (q, s0))"
  by (rule regular_patterns_compile [OF icu_ok_ascii fold_parsed fold_state_facts(1)])

section \<open>The search\<close>

lemma fold_naive: "naive_regex ascii_icu sample_index fold_program fold_options second_only = Inr [ahead_match]"
proof -
  have o: "so_record_separator second_only = 10" "so_overlapping second_only = False" "po_crlf fold_options = False"
    by (simp_all add: second_only_def default_search_options_def fold_options_def default_pattern_options_def)
  have n: "naive_spans fold_options 10 (ascii_bytes ''needles'') = [(0, 7)]" by code_simp
  show ?thesis
    unfolding naive_regex_def second_only_files collect.simps naive_regex_file_def o sample_content(3) [folded One_nat_def] n
    by (simp add: fold_all [simplified])
qed

lemma fold_unplanned: "region_plan ascii_icu fold_program fold_options 10 = None"
  by (simp add: region_plan_def bounded_regex_eligible_def fold_options_def Let_def)


end
