(* ===== verification/Divergences.thy ===== *)
theory Divergences
  imports Regex_Search Samples
begin

text \<open>
  Inputs at which a definition of the model, and so the code, does something else than its
  contract suggests.
\<close>

section \<open>Patterns\<close>

text \<open>Iterations of a repetition that consume nothing are dropped before the minimum is tested.\<close>

lemma empty_iterations_dropped:
  assumes "eval U ch c (Suc 0) s = Inr [s]" "0 < repeat_limit c (Some 2) (vs_pos s)"
  shows "eval U (KRepeat f 2 (Some 2) True ch) c 0 s = Inr []"
proof -
  obtain n where "repeat_limit c (Some 2) (vs_pos s) = Suc n" using assms(2) gr0_implies_Suc by blast
  then show ?thesis using assms(1) by (simp add: eval.simps [of U "KRepeat f 2 (Some 2) True ch"] repeat_out_def)
qed

section \<open>Fixed strings\<close>

text \<open>A rejected occurrence is skipped as a whole, with the accepted one that starts inside it.\<close>

lemma overlapping_word_missed:
  "\<not> fixed_match_in_record ascii_icu empty_index_data (ascii_bytes ''aa-a-a b'') (ascii_bytes ''a-a'') False
      (default_pattern_options\<lparr>po_word := True\<rparr>)"
  "occurs_at (ascii_bytes ''aa-a-a b'') (ascii_bytes ''a-a'') 3"
  "word_check ascii_icu (default_pattern_options\<lparr>po_word := True\<rparr>) (ascii_bytes ''aa-a-a b'') 3 6"
proof -
  have "List.find (occurs_at (ascii_bytes ''aa-a-a b'') (ascii_bytes ''a-a'')) [0 ..< 8] = Some 1"
    "List.find (occurs_at (ascii_bytes ''aa-a-a b'') (ascii_bytes ''a-a'')) [4 ..< 8] = None"
    "\<not> word_check ascii_icu (default_pattern_options\<lparr>po_word := True\<rparr>) (ascii_bytes ''aa-a-a b'') 1 4"
    "length (ascii_bytes ''aa-a-a b'') = 8" "length (ascii_bytes ''a-a'') = 3" "ascii_bytes ''a-a'' \<noteq> []"
    by code_simp+
  then show "\<not> fixed_match_in_record ascii_icu empty_index_data (ascii_bytes ''aa-a-a b'') (ascii_bytes ''a-a'') False
      (default_pattern_options\<lparr>po_word := True\<rparr>)"
    by (simp add: fixed_match_in_record_def record_loop.simps anchor_find_eq)
qed code_simp+

lemma empty_literal_first_blocks:
  "fixed_candidate_blocks I el [] = map (\<lambda>ci. (ci, 0)) (filter (\<lambda>ci. allows el (file_id (chunks I ! ci))) [0 ..< length (chunks I)])"
  by (simp add: fixed_candidate_blocks_def)

section \<open>Objectives and options\<close>

lemma first_hit_stops_without_match:
  "so_objective opt = FirstHit \<Longrightarrow> regex_find_all U p (full_context data b e (so_record_separator opt) (po_crlf po)) (so_overlapping opt) fid 1 = Inr [] \<Longrightarrow>
   verify_record U p po opt fid data b e st = Inr (st, True)"
  by (simp add: verify_record_def verify_context_def remain_def result_bound_reached_def)

lemma nan_ratio_built_not_loaded:
  "validate_index_options (default_index_options\<lparr>positional_budget_ratio := 0x7FF8000000000000\<rparr>) = Inr ()"
  "\<not> valid_index_options (default_index_options\<lparr>positional_budget_ratio := 0x7FF8000000000000\<rparr>)"
proof -
  have "fp_value 0x7FF8000000000000 = NaN"
    by (simp add: fp_value_def Let_def mask_eq_exp_minus_1)
  moreover have "\<not> fp_finite NaN" by (simp add: fp_finite_def)
  ultimately show "validate_index_options (default_index_options\<lparr>positional_budget_ratio := 0x7FF8000000000000\<rparr>) = Inr ()"
    "\<not> valid_index_options (default_index_options\<lparr>positional_budget_ratio := 0x7FF8000000000000\<rparr>)"
    by (simp_all add: validate_index_options_def valid_index_options_def default_index_options_def)
qed

end
