(* ===== verification/Planner.thy ===== *)
theory Planner
  imports Regex_Search
begin

text \<open>
  The planner of \<open>search.cpp\<close>: selectivity estimates from the chunk statistics, the guard and the
  costs of the fixed-string operators, plan keys, and \<open>estimateCost\<close> for a plan key.  A scope is
  the sorted list of eligible file ids (empty for all files), so the binary search is membership.
  Counts are naturals; the bounds on the index options and the corpus keep them below \<open>2 ^ 64\<close>.
\<close>

section \<open>Selectivity\<close>

definition scope_contains :: "nat list \<Rightarrow> nat \<Rightarrow> bool" where
  "scope_contains scope fid \<longleftrightarrow> scope = [] \<or> fid \<in> set scope"

definition scoped_chunk_count :: "index_data \<Rightarrow> nat list \<Rightarrow> nat" where
  "scoped_chunk_count I scope =
     (if scope = [] then length (chunks I) else length (filter (\<lambda>c. scope_contains scope (file_id c)) (chunks I)))"

text \<open>One pass of the loop over \<open>lg\<close>: the chunks of that size class listed in a bucket that agrees
  with the query's in the low bits, each once.\<close>

definition class_hash_chunks :: "index_data \<Rightarrow> nat \<Rightarrow> nat list \<Rightarrow> nat \<Rightarrow> nat list" where
  "class_hash_chunks I bucket scope lg =
     remdups (filter (\<lambda>ci. ci < length (chunks I) \<and> scope_contains scope (file_id (chunks I ! ci)) \<and>
                           lg_for (ext_end (chunks I ! ci) - core_begin (chunks I ! ci)) = lg)
       (concat (map (\<lambda>b. hash_chunk_ids I (of_nat b)) (filter (\<lambda>b. b mod 2 ^ lg = bucket mod 2 ^ lg) [0 ..< 65536]))))"

definition scoped_hash_chunks :: "index_data \<Rightarrow> nat \<Rightarrow> nat list \<Rightarrow> nat" where
  "scoped_hash_chunks I bucket scope =
     (if \<not> planner_stats_ready I then length (chunks I)
      else min (sum_list (map (\<lambda>lg. length (class_hash_chunks I bucket scope lg)) [9 ..< 17])) (scoped_chunk_count I scope))"

definition scoped_extended_bytes :: "index_data \<Rightarrow> nat list \<Rightarrow> nat" where
  "scoped_extended_bytes I scope =
     sum_list (map (\<lambda>c. if length (loaded I) \<le> file_id c then 0
        else let size = length (content I (file_id c)) in
          if size < core_begin c \<or> ext_end c < core_begin c \<or> size < ext_end c then 0
          else if scope_contains scope (file_id c) then ext_end c - core_begin c else 0) (chunks I))"

definition fp_one :: fp where "fp_one = Fin 1"

definition estimate_literal_selectivity :: "index_data \<Rightarrow> nat list \<Rightarrow> bytes \<Rightarrow> fp" where
  "estimate_literal_selectivity I scope lit =
     (let tot = scoped_chunk_count I scope in
      if length lit < 4 \<or> tot = 0 then fp_one
      else if \<not> planner_stats_ready I then fp_one
      else let s = foldl (\<lambda>s h. fp_min s (fp_div (fp_of_nat (min tot (scoped_hash_chunks I (unat (h AND 65535)) scope))) (fp_of_nat tot)))
                     fp_one (planned_hashes I lit)
           in if fp_less s (Fin 0) then Fin 0 else if fp_less fp_one s then fp_one else s)"

fun branch_sum :: "index_data \<Rightarrow> nat list \<Rightarrow> fp \<Rightarrow> bytes list list \<Rightarrow> fp" where
  "branch_sum I scope acc [] = fp_min acc fp_one"
| "branch_sum I scope acc (br # brs) =
     (if br = [] then fp_one
      else let acc' = fp_add acc (foldl (\<lambda>b lit. fp_min b (estimate_literal_selectivity I scope lit)) fp_one br)
           in if fp_le fp_one acc' then fp_one else branch_sum I scope acc' brs)"

definition estimate_branch_selectivity :: "index_data \<Rightarrow> nat list \<Rightarrow> bytes list list \<Rightarrow> fp" where
  "estimate_branch_selectivity I scope brs =
     (if brs = [] then fp_one else if scoped_chunk_count I scope = 0 then fp_one else branch_sum I scope (Fin 0) brs)"

section \<open>Plan keys\<close>

record plan_key =
  pk_expression :: bytes
  pk_options :: pattern_options
  pk_overlapping :: bool
  pk_invert_match :: bool
  pk_files_with_matches :: bool
  pk_files_without_match :: bool
  pk_include_binary :: bool
  pk_max_matches :: nat
  pk_record_separator :: byte
  pk_eligible :: "nat list"
  pk_index_options :: index_options
  pk_transformed_input :: u64
  pk_objective :: search_objective

definition make_plan_key :: "bytes \<Rightarrow> pattern_options \<Rightarrow> search_options \<Rightarrow> index_options \<Rightarrow> u64 \<Rightarrow> plan_key" where
  "make_plan_key expr po opt io t =
     \<lparr>pk_expression = expr, pk_options = po, pk_overlapping = so_overlapping opt, pk_invert_match = so_invert_match opt,
      pk_files_with_matches = so_files_with_matches opt, pk_files_without_match = so_files_without_match opt,
      pk_include_binary = so_include_binary opt, pk_max_matches = so_max_matches opt,
      pk_record_separator = so_record_separator opt, pk_eligible = sort_unique (so_eligible opt), pk_index_options = io,
      pk_transformed_input = t, pk_objective = so_objective opt\<rparr>"

definition plan_key_eq :: "plan_key \<Rightarrow> plan_key \<Rightarrow> bool" where
  "plan_key_eq a b \<longleftrightarrow>
     pk_objective a = pk_objective b \<and> pk_expression a = pk_expression b \<and>
     po_kind (pk_options a) = po_kind (pk_options b) \<and> po_case (pk_options a) = po_case (pk_options b) \<and>
     po_engine (pk_options a) = po_engine (pk_options b) \<and> po_word (pk_options a) = po_word (pk_options b) \<and>
     po_line (pk_options a) = po_line (pk_options b) \<and> po_multiline (pk_options a) = po_multiline (pk_options b) \<and>
     po_dotall (pk_options a) = po_dotall (pk_options b) \<and> po_unicode (pk_options a) = po_unicode (pk_options b) \<and>
     po_crlf (pk_options a) = po_crlf (pk_options b) \<and> pk_overlapping a = pk_overlapping b \<and>
     pk_invert_match a = pk_invert_match b \<and> pk_files_with_matches a = pk_files_with_matches b \<and>
     pk_files_without_match a = pk_files_without_match b \<and> pk_include_binary a = pk_include_binary b \<and>
     pk_max_matches a = pk_max_matches b \<and> pk_record_separator a = pk_record_separator b \<and> pk_eligible a = pk_eligible b \<and>
     chunk_bytes (pk_index_options a) = chunk_bytes (pk_index_options b) \<and>
     chunk_overlap (pk_index_options a) = chunk_overlap (pk_index_options b) \<and>
     positional_block_bytes (pk_index_options a) = positional_block_bytes (pk_index_options b) \<and>
     positional_budget_ratio (pk_index_options a) = positional_budget_ratio (pk_index_options b) \<and>
     planned_qgrams (pk_index_options a) = planned_qgrams (pk_index_options b) \<and>
     include_hidden (pk_index_options a) = include_hidden (pk_index_options b) \<and>
     follow_symlinks (pk_index_options a) = follow_symlinks (pk_index_options b) \<and>
     persist_corpus (pk_index_options a) = persist_corpus (pk_index_options b) \<and>
     pk_transformed_input a = pk_transformed_input b"

definition fnv_mix :: "u64 \<Rightarrow> u64 \<Rightarrow> u64" where
  "fnv_mix v h = (h XOR v) * fnv_prime"

definition fnv_mix_str :: "bytes \<Rightarrow> u64 \<Rightarrow> u64" where
  "fnv_mix_str s h = (fnv1a_bytes h s XOR 0xFF) * fnv_prime"

definition flag :: "bool \<Rightarrow> u64" where
  "flag b = (if b then 1 else 0)"

definition kind_code :: "pattern_kind \<Rightarrow> u64" where "kind_code k = (case k of Regex \<Rightarrow> 0 | Fixed \<Rightarrow> 1)"
definition case_code :: "case_mode \<Rightarrow> u64" where "case_code k = (case k of Sensitive \<Rightarrow> 0 | Insensitive \<Rightarrow> 1 | Smart \<Rightarrow> 2)"
definition engine_code :: "engine \<Rightarrow> u64" where "engine_code k = (case k of Default \<Rightarrow> 0 | Pcre2Compat \<Rightarrow> 1 | Auto \<Rightarrow> 2)"
definition objective_code :: "search_objective \<Rightarrow> u64" where
  "objective_code k = (case k of Exhaustive \<Rightarrow> 0 | FirstHit \<Rightarrow> 1 | OrderedPrefix \<Rightarrow> 2)"

definition avalanche :: "u64 \<Rightarrow> u64" where
  "avalanche h0 =
     (let h1 = (h0 XOR drop_bit 33 h0) * 0xff51afd7ed558ccd; h2 = (h1 XOR drop_bit 33 h1) * 0xc4ceb9fe1a85ec53
      in h2 XOR drop_bit 33 h2)"

definition plan_key_hash :: "plan_key \<Rightarrow> u64" where
  "plan_key_hash k =
     (let po = pk_options k; io = pk_index_options k in
      avalanche (fold (\<lambda>f. f)
        ([fnv_mix (objective_code (pk_objective k)), fnv_mix_str (pk_expression k), fnv_mix (kind_code (po_kind po)),
          fnv_mix (case_code (po_case po)), fnv_mix (engine_code (po_engine po)), fnv_mix (flag (po_word po)),
          fnv_mix (flag (po_line po)), fnv_mix (flag (po_multiline po)), fnv_mix (flag (po_dotall po)),
          fnv_mix (flag (po_unicode po)), fnv_mix (flag (po_crlf po)), fnv_mix (flag (pk_overlapping k)),
          fnv_mix (flag (pk_invert_match k)), fnv_mix (flag (pk_files_with_matches k)),
          fnv_mix (flag (pk_files_without_match k)), fnv_mix (flag (pk_include_binary k)),
          fnv_mix (of_nat (pk_max_matches k)), fnv_mix (ucast (pk_record_separator k)), fnv_mix (of_nat (length (pk_eligible k)))] @
         map (\<lambda>v. fnv_mix (of_nat v)) (pk_eligible k) @
         [fnv_mix (of_nat (chunk_bytes io)), fnv_mix (of_nat (chunk_overlap io)), fnv_mix (of_nat (positional_block_bytes io)),
          fnv_mix (positional_budget_ratio io), fnv_mix (of_nat (planned_qgrams io)), fnv_mix (flag (include_hidden io)),
          fnv_mix (flag (follow_symlinks io)), fnv_mix (flag (persist_corpus io)), fnv_mix (pk_transformed_input k)]) fnv_offset))"

section \<open>The guard and the costs of the fixed operators\<close>

definition fixed_guard_eligible :: "plan_key \<Rightarrow> index_data \<Rightarrow> bool" where
  "fixed_guard_eligible key I \<longleftrightarrow>
     (let po = pk_options key; io = pk_index_options key; qlen = length (pk_expression key) in
      \<not> (po_kind po \<noteq> Fixed \<or> qlen < 4 \<or> 64 < qlen \<or> chunk_overlap io < qlen) \<and>
      \<not> (po_case po \<noteq> Sensitive \<or> po_word po \<or> po_line po \<or> po_multiline po \<or> po_dotall po \<or> po_crlf po \<or>
         \<not> po_unicode po \<or> po_engine po \<noteq> Default) \<and>
      \<not> (pk_overlapping key \<or> pk_invert_match key \<or> pk_files_with_matches key \<or> pk_files_without_match key \<or>
         pk_max_matches key \<noteq> 0 \<or> pk_record_separator key \<noteq> 10 \<or> pk_include_binary key \<or> pk_eligible key \<noteq> []) \<and>
      \<not> (chunk_bytes io \<noteq> chunk_bytes (ix_opt I) \<or> chunk_overlap io \<noteq> chunk_overlap (ix_opt I) \<or>
         positional_block_bytes io \<noteq> positional_block_bytes (ix_opt I) \<or>
         \<not> fp_eq (fp_value (positional_budget_ratio io)) (fp_value (positional_budget_ratio (ix_opt I))) \<or>
         planned_qgrams io \<noteq> planned_qgrams (ix_opt I) \<or> include_hidden io \<noteq> include_hidden (ix_opt I) \<or>
         follow_symlinks io \<noteq> follow_symlinks (ix_opt I) \<or> persist_corpus io \<noteq> persist_corpus (ix_opt I)) \<and>
      \<not> (\<not> planner_stats_ready I \<or> pos_block I = 0 \<or> length (pos_descs I) \<noteq> length (chunks I) \<or> pos_bits I = []) \<and>
      (\<forall>i \<in> set (infos I). \<not> fi_binary i))"

record fixed_plan_costs =
  fc_positional :: fp
  fc_chunk :: fp
  fc_whole_file :: fp
  fc_chunks :: nat
  fc_blocks :: nat
  fc_positional_bytes :: nat
  fc_chunk_bytes :: nat
  fc_whole_bytes :: nat

text \<open>The estimate \<open>sel * tot\<close>, at least one when something may survive.\<close>

definition estimated_units :: "fp \<Rightarrow> nat \<Rightarrow> nat" where
  "estimated_units sel tot =
     (let n = (if tot \<noteq> 0 then fp_trunc (fp_mul sel (fp_of_nat tot)) else 0)
      in if n = 0 \<and> fp_less sel fp_one \<and> 0 < tot then 1 else n)"

definition scoped_blocks :: "index_data \<Rightarrow> nat list \<Rightarrow> nat" where
  "scoped_blocks I scope =
     sum_list (map (\<lambda>i. if i < length (chunks I) \<and> scope_contains scope (file_id (chunks I ! i)) then pd_blocks (pos_descs I ! i) else 0)
       [0 ..< length (pos_descs I)])"

definition weigh :: "rat \<Rightarrow> nat \<Rightarrow> fp" where
  "weigh w n = fp_mul (Fin w) (fp_of_nat n)"

definition make_fixed_costs :: "plan_key \<Rightarrow> index_data \<Rightarrow> fixed_plan_costs" where
  "make_fixed_costs key I =
     (let scope = pk_eligible key;
          sel = estimate_literal_selectivity I scope (pk_expression key);
          cs = estimated_units sel (scoped_chunk_count I scope); bs = estimated_units sel (scoped_blocks I scope);
          pb = bs * (pos_block I + 64); cb = cs * chunk_bytes (ix_opt I); wb = scoped_extended_bytes I scope;
          k = adaptive_k I (pk_expression key)
      in \<lparr>fc_positional = fp_add (fp_add (fp_add (weigh (1/2) pb) (weigh 50 bs)) (weigh 10 cs)) (fp_mul (fp_of_nat k) (fp_of_nat cs)),
          fc_chunk = fp_add (fp_of_nat cb) (weigh 100 cs), fc_whole_file = fp_add (fp_of_nat wb) (weigh 100 cs),
          fc_chunks = cs, fc_blocks = bs, fc_positional_bytes = pb, fc_chunk_bytes = cb, fc_whole_bytes = wb\<rparr>)"


section \<open>The cost of a plan\<close>

datatype verifier_kind = FixedRareByte | FixedPositional | RegexChunk | RegexBruteForce

record query_cost =
  qc_selectivity :: fp
  qc_chunks :: nat
  qc_blocks :: nat
  qc_bytes :: nat
  qc_verifier :: verifier_kind
  qc_operator :: fixed_operator
  qc_guarded :: bool
  qc_cost :: fp

definition initial_cost :: query_cost where
  "initial_cost = \<lparr>qc_selectivity = fp_one, qc_chunks = 0, qc_blocks = 0, qc_bytes = 0, qc_verifier = FixedRareByte,
     qc_operator = WholeFile, qc_guarded = False, qc_cost = Fin 0\<rparr>"

text \<open>The block count of \<open>estimateCost\<close>: without a scope it counts every descriptor.\<close>

definition planned_blocks :: "index_data \<Rightarrow> nat list \<Rightarrow> nat" where
  "planned_blocks I scope =
     sum_list (map (\<lambda>i. if scope = [] \<or> i < length (chunks I) \<and> scope_contains scope (file_id (chunks I ! i))
                        then pd_blocks (pos_descs I ! i) else 0) [0 ..< length (pos_descs I)])"

text \<open>The guarded choice: whole file, chunks, or positional blocks, in this order of tests.\<close>

definition guarded_choice :: "fixed_plan_costs \<Rightarrow> query_cost \<Rightarrow> query_cost" where
  "guarded_choice fc qc =
     (let q = qc\<lparr>qc_guarded := True\<rparr> in
      if fp_less (fc_whole_file fc) (fc_chunk fc) \<and> fp_less (fc_whole_file fc) (fc_positional fc)
      then q\<lparr>qc_verifier := FixedRareByte, qc_operator := WholeFile, qc_blocks := 0, qc_bytes := fc_whole_bytes fc,
             qc_cost := fc_whole_file fc\<rparr>
      else if fp_less (fc_chunk fc) (fc_positional fc)
      then q\<lparr>qc_verifier := FixedRareByte, qc_operator := ChunkScan, qc_blocks := 0, qc_bytes := fc_chunk_bytes fc,
             qc_cost := fc_chunk fc\<rparr>
      else q\<lparr>qc_verifier := FixedPositional, qc_operator := PositionalBlock, qc_blocks := fc_blocks fc,
             qc_bytes := fc_positional_bytes fc, qc_cost := fc_positional fc\<rparr>)"

definition byte_chunk_cost :: "rat \<Rightarrow> query_cost \<Rightarrow> fp" where
  "byte_chunk_cost w qc = fp_add (fp_of_nat (qc_bytes qc)) (weigh w (qc_chunks qc))"

definition unguarded_choice :: "plan_key \<Rightarrow> index_data \<Rightarrow> query_cost \<Rightarrow> query_cost" where
  "unguarded_choice key I qc =
     (let n = length (pk_expression key); po = pk_options key in
      if chunk_overlap (pk_index_options key) < n
      then qc\<lparr>qc_verifier := FixedRareByte, qc_operator := WholeFile, qc_blocks := 0, qc_cost := byte_chunk_cost 100 qc\<rparr>
      else if po_case po = Insensitive \<or> po_word po \<or> po_line po
      then qc\<lparr>qc_verifier := FixedRareByte, qc_operator := ChunkScan, qc_blocks := 0, qc_cost := byte_chunk_cost 100 qc\<rparr>
      else if n \<le> 64
      then let bs = estimated_units (qc_selectivity qc) (planned_blocks I (pk_eligible key)); by = bs * (pos_block I + 64)
           in qc\<lparr>qc_verifier := FixedPositional, qc_operator := PositionalBlock, qc_blocks := bs, qc_bytes := by,
                 qc_cost := fp_add (fp_add (weigh (1/2) by) (weigh 50 bs)) (weigh 10 (qc_chunks qc))\<rparr>
      else qc\<lparr>qc_verifier := FixedRareByte, qc_operator := ChunkScan, qc_blocks := 0, qc_cost := byte_chunk_cost 100 qc\<rparr>)"

text \<open>The surcharges both kinds of pattern share; \<open>ratio\<close> is the share of the corpus in scope.\<close>

definition adjust_by :: "plan_key \<Rightarrow> fp \<Rightarrow> fp \<Rightarrow> fp" where
  "adjust_by key ratio c0 =
     (let c1 = (if pk_invert_match key \<or> pk_files_with_matches key \<or> pk_files_without_match key then fp_add c0 (Fin 1000) else c0);
          c2 = (if pk_overlapping key then fp_add c1 (Fin 500) else c1);
          c3 = (if pk_max_matches key \<noteq> 0 then fp_min c2 (fp_of_nat (pk_max_matches key * 1024 mod 2 ^ 64)) else c2);
          c4 = (if pk_eligible key \<noteq> [] then fp_mul c3 (fp_add (Fin (1/2)) (fp_mul (Fin (1/2)) ratio)) else c3)
      in fp_add c4 (fp_add (if pk_include_binary key then Fin 250 else Fin 0) (fp_of_nat (unat (pk_transformed_input key AND 255)))))"

definition adjust_cost :: "plan_key \<Rightarrow> index_data \<Rightarrow> fp \<Rightarrow> fp" where
  "adjust_cost key I =
     adjust_by key (fp_div (fp_of_nat (scoped_chunk_count I (pk_eligible key))) (fp_of_nat (max (length (chunks I)) 1)))"

definition estimate_fixed :: "plan_key \<Rightarrow> index_data \<Rightarrow> query_cost" where
  "estimate_fixed key I =
     (let scope = pk_eligible key; n = length (pk_expression key); io = pk_index_options key;
          unfiltered = (chunk_overlap io < n \<or> po_case (pk_options key) = Insensitive);
          sel = (if unfiltered then fp_one else estimate_literal_selectivity I scope (pk_expression key));
          cs = estimated_units sel (scoped_chunk_count I scope);
          qc = initial_cost\<lparr>qc_selectivity := sel, qc_chunks := cs,
                 qc_bytes := if unfiltered then scoped_extended_bytes I scope else cs * chunk_bytes io\<rparr>
      in if fixed_guard_eligible key I then guarded_choice (make_fixed_costs key I) qc
         else let r = unguarded_choice key I qc in r\<lparr>qc_cost := adjust_cost key I (qc_cost r)\<rparr>)"

definition brute_force_cost :: "plan_key \<Rightarrow> index_data \<Rightarrow> nat \<Rightarrow> query_cost" where
  "brute_force_cost key I n =
     (let tot = scoped_chunk_count I (pk_eligible key)
      in initial_cost\<lparr>qc_verifier := RegexBruteForce, qc_chunks := tot, qc_blocks := planned_blocks I (pk_eligible key),
           qc_bytes := n, qc_cost := fp_add (fp_of_nat n) (weigh 200 tot)\<rparr>)"

definition filtered_cost :: "plan_key \<Rightarrow> index_data \<Rightarrow> fp \<Rightarrow> query_cost" where
  "filtered_cost key I sel =
     (let scope = pk_eligible key; cs = estimated_units sel (scoped_chunk_count I scope); by = scoped_extended_bytes I scope
      in initial_cost\<lparr>qc_selectivity := sel, qc_verifier := RegexChunk, qc_chunks := cs, qc_bytes := by,
           qc_cost := fp_add (fp_of_nat by) (weigh 200 cs)\<rparr>)"

text \<open>
  \<open>estimateCost\<close> for a key.  A pattern that does not compile is costed as a brute-force scan;
  the parser always has enough fuel, so \<open>None\<close> does not arise.
\<close>

definition estimate_cost :: "icu \<Rightarrow> plan_key \<Rightarrow> index_data \<Rightarrow> query_cost" where
  "estimate_cost U key I =
     (if po_kind (pk_options key) = Fixed then estimate_fixed key I
      else case compile U (pk_expression key) (pk_options key) of
        Some (Inr (o2, Some p)) \<Rightarrow>
          (let ir = np_ir p; po = pk_options key; scope = pk_eligible key in
           if literal_shortcut p po (pk_record_separator key)
           then estimate_fixed (key\<lparr>pk_expression := qi_exact_literal ir, pk_options := po\<lparr>po_kind := Fixed\<rparr>\<rparr>) I
           else let r = (if qi_branch_mandatory ir \<noteq> []
                         then filtered_cost key I (estimate_branch_selectivity I scope (qi_branch_mandatory ir))
                         else if qi_mandatory ir \<noteq> []
                         then filtered_cost key I (foldl (\<lambda>b m. fp_min b (estimate_literal_selectivity I scope m)) fp_one (qi_mandatory ir))
                         else brute_force_cost key I (scoped_extended_bytes I scope))
                in r\<lparr>qc_cost := adjust_cost key I (qc_cost r)\<rparr>)
      | _ \<Rightarrow> brute_force_cost key I (scoped_chunk_count I (pk_eligible key) * chunk_bytes (ix_opt I)))"

definition choose_verifier :: "icu \<Rightarrow> plan_key \<Rightarrow> index_data \<Rightarrow> verifier_kind" where
  "choose_verifier U key I = qc_verifier (estimate_cost U key I)"

section \<open>The search a pattern gets\<close>

text \<open>The operator \<open>find\<close> follows: only a guarded plan whose guard holds again selects one.\<close>

definition planned_operator :: "icu \<Rightarrow> plan_key \<Rightarrow> index_data \<Rightarrow> fixed_operator option" where
  "planned_operator U key I =
     (let qc = estimate_cost U key I
      in if qc_guarded qc \<and> fixed_guard_eligible key I then Some (qc_operator qc) else None)"

text \<open>
  \<open>Pattern::compile\<close> followed by \<open>Searcher::find\<close>: the key is made from the compiled options and
  the normalized scope.
\<close>

definition search_pattern ::
  "icu \<Rightarrow> index_data \<Rightarrow> bytes \<Rightarrow> pattern_options \<Rightarrow> search_options \<Rightarrow> match list result option" where
  "search_pattern U I expr po opt =
     map_option (\<lambda>r. case r of
         Inl e \<Rightarrow> Inl e
       | Inr (o2, None) \<Rightarrow> Inr (find_fixed U I o2 opt (planned_operator U (make_plan_key expr o2 opt (ix_opt I) 0) I) expr)
       | Inr (o2, Some p) \<Rightarrow> find_regex U I p o2 opt)
       (compile U expr po)"

end
