(* ===== verification/File_Search.thy ===== *)
theory File_Search
  imports Plan_Correct
begin

text \<open>
  \<open>Searcher::files\<close>: the files with, or without, a match.  A first-hit query probes the files one by
  one; otherwise one exhaustive search gives the files that were hit.  Polls of the cancellation hook
  are counted across the probes.
\<close>

section \<open>The selection\<close>

text \<open>\<open>find\<close> of a compiled pattern, with the state whose flag the statistics show.\<close>

definition find_compiled ::
  "icu \<Rightarrow> index_data \<Rightarrow> bytes \<Rightarrow> pattern_options \<times> nfa_program option \<Rightarrow> search_options \<Rightarrow> find_state result" where
  "find_compiled U I expr pat opt =
     (case pat of
        (o2, None) \<Rightarrow> Inr (find_fixed_state U I o2 opt (planned_operator U (make_plan_key expr o2 opt (ix_opt I) 0) I) expr)
      | (o2, Some p) \<Rightarrow> find_regex_state U I p o2 opt)"

text \<open>The search of one file in a first-hit query that has polled \<open>k\<close> times.\<close>

definition one_file :: "search_options \<Rightarrow> nat \<Rightarrow> nat \<Rightarrow> search_options" where
  "one_file opt k fid =
     opt\<lparr>so_eligible := [fid], so_files_with_matches := False, so_files_without_match := False, so_max_matches := 0,
         so_should_cancel := \<lambda>n. so_should_cancel opt (n + k)\<rparr>"

definition out_of_scope :: "index_data \<Rightarrow> search_options \<Rightarrow> nat \<Rightarrow> bool" where
  "out_of_scope I opt fid \<longleftrightarrow> (so_eligible opt \<noteq> [] \<and> fid \<notin> set (so_eligible opt)) \<or> skip_binary I opt fid"

fun probe_files ::
  "icu \<Rightarrow> index_data \<Rightarrow> bytes \<Rightarrow> pattern_options \<times> nfa_program option \<Rightarrow> search_options \<Rightarrow> nat \<Rightarrow> nat list \<Rightarrow> nat list result" where
  "probe_files U I expr pat opt k [] = Inr []"
| "probe_files U I expr pat opt k (fid # fids) =
     (if so_should_cancel opt k then Inr []
      else if out_of_scope I opt fid then probe_files U I expr pat opt (k + 1) fids
      else let one = one_file opt (k + 1) fid in
        case find_compiled U I expr pat one of
          Inl e \<Rightarrow> Inl e
        | Inr st \<Rightarrow>
            if fs_cancelled st then Inr []
            else if so_files_without_match opt = (finish_find one st = []) then Inr [fid]
            else probe_files U I expr pat opt (k + 1 + fs_polls st) fids)"

definition file_selected :: "index_data \<Rightarrow> search_options \<Rightarrow> match list \<Rightarrow> nat \<Rightarrow> bool" where
  "file_selected I opt ms fid \<longleftrightarrow>
     \<not> out_of_scope I opt fid \<and> (fid \<in> m_file ` set ms) \<noteq> so_files_without_match opt"

definition search_files ::
  "icu \<Rightarrow> index_data \<Rightarrow> bytes \<Rightarrow> pattern_options \<times> nfa_program option \<Rightarrow> search_options \<Rightarrow> nat list result" where
  "search_files U I expr pat opt0 =
     (let opt = opt0\<lparr>so_eligible := sort_unique (so_eligible opt0)\<rparr>; ids = [0 ..< length (infos I)] in
      if so_objective opt = FirstHit then probe_files U I expr pat opt 0 ids
      else let fo = opt\<lparr>so_objective := Exhaustive, so_max_matches := 0\<rparr> in
        case find_compiled U I expr pat fo of
          Inl e \<Rightarrow> Inl e
        | Inr st \<Rightarrow>
            if fs_cancelled st then Inr []
            else let out = filter (file_selected I opt (finish_find fo st)) ids
                 in Inr (if so_max_matches opt = 0 then out else take (so_max_matches opt) out))"

section \<open>Files with a literal\<close>

lemma naive_matches_empty:
  assumes "q \<noteq> []"
  shows "naive_matches ov s q = [] \<longleftrightarrow> (\<forall>x. \<not> occurs_at s q x)"
proof (cases ov)
  case True
  have "x < length s" if "occurs_at s q x" for x
    using occurs_at_bound [OF that] assms by (cases q) auto
  with True show ?thesis by (auto simp: naive_matches_def filter_empty_conv)
next
  case False
  have "naive_from s q 0 = [] \<longleftrightarrow> str_find s q 0 = None"
    using assms by (subst naive_from.simps) (simp split: option.splits)
  with False show ?thesis by (simp add: naive_matches_def str_find_None)
qed

definition has_literal :: "index_data \<Rightarrow> bytes \<Rightarrow> nat \<Rightarrow> bool" where
  "has_literal I q fid \<longleftrightarrow> (\<exists>x. occurs_at (content I fid) q x)"

lemma searched_in_scope:
  assumes "wf_index I" "fid < length (loaded I)"
  shows "searched_file I opt fid \<longleftrightarrow> \<not> out_of_scope I opt fid"
  using assms sort_unique_eq_iff [of "so_eligible opt" "[]"]
  by (auto simp: searched_file_def out_of_scope_def recorder_eligible_def allows_def wf_index_def sort_unique_def)

lemma naive_hits:
  assumes "q \<noteq> []" "so_objective opt \<noteq> FirstHit" "so_max_matches opt = 0"
  shows "fid \<in> m_file ` set (naive_search I opt q) \<longleftrightarrow> fid < length (loaded I) \<and> searched_file I opt fid \<and> has_literal I q fid"
proof -
  have own: "m_file ` (\<lambda>x. fixed_match f x (x + length q)) ` X = (if X = {} then {} else {f})" for f X
    by (auto simp: fixed_match_def image_comp)
  have "fid \<in> m_file ` set (naive_search I opt q) \<longleftrightarrow>
      fid < length (loaded I) \<and> searched_file I opt fid \<and> set (naive_matches (so_overlapping opt) (content I fid) q) \<noteq> {}"
    using assms(2,3) by (auto simp: naive_search_def limit_matches_def image_UN own split: if_splits)
  then show ?thesis by (simp add: naive_matches_empty [OF assms(1)] has_literal_def)
qed

lemma filter_one: "k < n \<Longrightarrow> filter (\<lambda>f. f = k) [0 ..< n] = [k]"
  by (induction n) (auto simp: filter_empty_conv less_Suc_eq)

lemma naive_one_file:
  assumes "wf_index I" "q \<noteq> []" "fid < length (loaded I)" "so_objective opt = FirstHit" "\<not> skip_binary I opt fid"
  shows "naive_search I (one_file opt k fid) q = [] \<longleftrightarrow> \<not> has_literal I q fid"
proof -
  let ?one = "one_file opt k fid"
  have "searched_file I ?one f \<longleftrightarrow> f = fid" if "f < length (loaded I)" for f
    using that assms(5) by (auto simp: searched_in_scope [OF assms(1)] out_of_scope_def one_file_def skip_binary_def)
  then have "filter (searched_file I ?one) [0 ..< length (loaded I)] = filter (\<lambda>f. f = fid) [0 ..< length (loaded I)]"
    by (intro filter_cong) simp_all
  also have "\<dots> = [fid]" using assms(3) by (rule filter_one)
  finally show ?thesis
    using naive_matches_empty [OF assms(2), of "so_overlapping opt" "content I fid"] assms(4)
    by (simp add: naive_search_def limit_matches_def has_literal_def one_file_def)
qed

text \<open>What a fixed search needs, and what every search in \<open>files\<close> inherits.\<close>

definition plain_literal_search :: "index_data \<Rightarrow> bytes \<Rightarrow> pattern_options \<Rightarrow> search_options \<Rightarrow> bool" where
  "plain_literal_search I q po opt \<longleftrightarrow>
     wf_index I \<and> never_cancelled opt \<and> q \<noteq> [] \<and> po_case po \<noteq> Insensitive \<and> \<not> po_word po \<and> \<not> po_line po \<and>
     \<not> so_invert_match opt"

lemma find_compiled_naive:
  assumes "plain_literal_search I q po opt"
  shows "\<exists>st. find_compiled U I q (po, None) opt = Inr st \<and> \<not> fs_cancelled st \<and> finish_find opt st = naive_search I opt q"
  using assms find_fixed_state_naive [of I opt q po] finish_find_naive
  by (simp add: find_compiled_def plain_literal_search_def)

lemma probe_files_literal:
  assumes "plain_literal_search I q po opt" "so_objective opt = FirstHit"
  shows "\<forall>fid \<in> set fids. fid < length (loaded I) \<Longrightarrow>
    probe_files U I q (po, None) opt k fids =
      Inr (take 1 (filter (\<lambda>fid. \<not> out_of_scope I opt fid \<and> has_literal I q fid \<noteq> so_files_without_match opt) fids))"
proof (induction fids arbitrary: k)
  case (Cons fid fids)
  have never: "\<not> so_should_cancel opt n" for n using assms(1) by (simp add: plain_literal_search_def never_cancelled_def)
  let ?one = "one_file opt (k + 1) fid"
  have "plain_literal_search I q po ?one"
    using assms(1) by (simp add: plain_literal_search_def never_cancelled_def one_file_def)
  then obtain st where st: "find_compiled U I q (po, None) ?one = Inr st" "\<not> fs_cancelled st"
      "finish_find ?one st = naive_search I ?one q"
    using find_compiled_naive by blast
  show ?case
  proof (cases "out_of_scope I opt fid")
    case False
    then have "finish_find ?one st = [] \<longleftrightarrow> \<not> has_literal I q fid"
      using naive_one_file [of I q fid opt "k + 1"] Cons.prems assms st(3)
      by (simp add: plain_literal_search_def out_of_scope_def)
    with False never st(1,2) Cons show ?thesis by (simp add: Let_def)
  qed (use never Cons in simp)
qed simp



end
