(* ===== verification/Search_Stats.thy ===== *)
theory Search_Stats
  imports Candidates
begin

text \<open>
  \<open>StatsRecorder\<close> of \<open>search.cpp\<close>: the counters of candidates and probes, and the byte ranges the
  verifiers read.  \<open>finish\<close> counts every byte of a file once, however often it was read.  The model is
  the recorder of a search that asked for statistics; without them every operation is void.  The
  set of candidate files is a list without duplicates.
\<close>

section \<open>The recorder\<close>

datatype probe_kind = ChunkProbe | PositionalProbe

record recorder =
  sr_touched :: "(nat \<times> nat) list list"
  sr_candidate_file_ids :: "nat list"
  sr_candidate_chunks :: nat
  sr_candidate_files :: nat
  sr_physically_touched_bytes :: nat
  sr_verified_bytes :: nat
  sr_logical_unique_bytes :: nat
  sr_index_probe_bytes :: nat
  sr_index_probe_operations :: nat
  sr_chunk_probe_bytes :: nat
  sr_chunk_probe_operations :: nat
  sr_positional_probe_bytes :: nat
  sr_positional_probe_operations :: nat
  sr_effective_k :: nat
  sr_selected_qgram_count :: nat
  sr_selected_qgram_rows :: nat

definition new_recorder :: "index_data \<Rightarrow> recorder" where
  "new_recorder I = \<lparr>sr_touched = replicate (length (infos I)) [], sr_candidate_file_ids = [], sr_candidate_chunks = 0,
     sr_candidate_files = 0, sr_physically_touched_bytes = 0, sr_verified_bytes = 0, sr_logical_unique_bytes = 0,
     sr_index_probe_bytes = 0, sr_index_probe_operations = 0, sr_chunk_probe_bytes = 0, sr_chunk_probe_operations = 0,
     sr_positional_probe_bytes = 0, sr_positional_probe_operations = 0, sr_effective_k = 0, sr_selected_qgram_count = 0,
     sr_selected_qgram_rows = 0\<rparr>"

definition note_chunk_of :: "nat \<Rightarrow> recorder \<Rightarrow> recorder" where
  "note_chunk_of fid R =
     R\<lparr>sr_candidate_chunks := sr_candidate_chunks R + 1, sr_candidate_file_ids := List.insert fid (sr_candidate_file_ids R)\<rparr>"

definition note_candidates :: "index_data \<Rightarrow> bool list \<Rightarrow> nat list \<Rightarrow> recorder \<Rightarrow> recorder" where
  "note_candidates I el =
     fold (\<lambda>ci R. if length (chunks I) \<le> ci \<or> \<not> allows el (file_id (chunks I ! ci)) then R
                  else note_chunk_of (file_id (chunks I ! ci)) R)"

definition note_all_chunks :: "index_data \<Rightarrow> bool list \<Rightarrow> recorder \<Rightarrow> recorder" where
  "note_all_chunks I el = fold (\<lambda>c R. if \<not> allows el (file_id c) then R else note_chunk_of (file_id c) R) (chunks I)"

definition note_probe :: "nat \<Rightarrow> probe_kind \<Rightarrow> recorder \<Rightarrow> recorder" where
  "note_probe n kind R0 =
     (let R = R0\<lparr>sr_index_probe_bytes := sr_index_probe_bytes R0 + n, sr_index_probe_operations := sr_index_probe_operations R0 + 1\<rparr>
      in case kind of
           ChunkProbe \<Rightarrow> R\<lparr>sr_chunk_probe_bytes := sr_chunk_probe_bytes R + n, sr_chunk_probe_operations := sr_chunk_probe_operations R + 1\<rparr>
         | PositionalProbe \<Rightarrow> R\<lparr>sr_positional_probe_bytes := sr_positional_probe_bytes R + n,
                                sr_positional_probe_operations := sr_positional_probe_operations R + 1\<rparr>)"

definition note_selection :: "nat \<Rightarrow> recorder \<Rightarrow> recorder" where
  "note_selection n R = R\<lparr>sr_effective_k := n, sr_selected_qgram_count := n, sr_selected_qgram_rows := n\<rparr>"

definition touch :: "bool list \<Rightarrow> nat \<Rightarrow> nat \<Rightarrow> nat \<Rightarrow> recorder \<Rightarrow> recorder" where
  "touch el fid b e R =
     (if \<not> allows el fid \<or> e \<le> b \<or> length (sr_touched R) \<le> fid then R
      else R\<lparr>sr_physically_touched_bytes := sr_physically_touched_bytes R + (e - b),
             sr_verified_bytes := sr_verified_bytes R + (e - b),
             sr_touched := (sr_touched R)[fid := sr_touched R ! fid @ [(b, e)]]\<rparr>)"

text \<open>The sweep over the sorted ranges of one file, with the open range \<open>b..e\<close>.\<close>

fun sweep :: "nat \<Rightarrow> nat \<Rightarrow> (nat \<times> nat) list \<Rightarrow> nat" where
  "sweep b e [] = e - b"
| "sweep b e ((b', e') # rs) = (if e < b' then (e - b) + sweep b' e' rs else if e < e' then sweep b e' rs else sweep b e rs)"

definition unique_bytes :: "(nat \<times> nat) list \<Rightarrow> nat" where
  "unique_bytes rs = (case sort rs of [] \<Rightarrow> 0 | (b, e) # rest \<Rightarrow> sweep b e rest)"

definition finish_stats :: "recorder \<Rightarrow> recorder" where
  "finish_stats R =
     R\<lparr>sr_logical_unique_bytes := sr_logical_unique_bytes R + sum_list (map unique_bytes (sr_touched R)),
       sr_candidate_files := length (sr_candidate_file_ids R)\<rparr>"

section \<open>Unique bytes\<close>

abbreviation covered :: "(nat \<times> nat) list \<Rightarrow> nat set" where
  "covered rs \<equiv> \<Union>(b, e) \<in> set rs. {b ..< e}"

lemma finite_covered [simp]: "finite (covered rs)"
  by auto

lemma sweep_card: "b \<le> e \<Longrightarrow> sorted rs \<Longrightarrow> \<forall>(x, y) \<in> set rs. b \<le> x \<and> x \<le> y \<Longrightarrow> sweep b e rs = card ({b ..< e} \<union> covered rs)"
proof (induction b e rs rule: sweep.induct)
  case (2 b e b' e' rs)
  have tail: "sorted rs" and le: "\<And>r. r \<in> set rs \<Longrightarrow> (b', e') \<le> r" using "2.prems"(2) by auto
  have starts: "b \<le> b'" "b' \<le> e'" "\<forall>(x, y) \<in> set rs. b' \<le> x \<and> x \<le> y"
    using "2.prems"(3) le [unfolded less_eq_prod_def] by (simp_all, fastforce)
  consider "e < b'" | "\<not> e < b'" "e < e'" | "\<not> e < b'" "\<not> e < e'" by blast
  then show ?case
  proof cases
    case 1
    have "{b ..< e} \<inter> ({b' ..< e'} \<union> covered rs) = {}" using starts(3) 1 by fastforce
    moreover have "sweep b' e' rs = card ({b' ..< e'} \<union> covered rs)" using "2.IH"(1) 1 starts tail by simp
    ultimately show ?thesis using 1 by (simp add: card_Un_disjoint)
  next
    case 2
    then have "{b ..< e} \<union> ({b' ..< e'} \<union> covered rs) = {b ..< e'} \<union> covered rs" using starts(1) "2.prems"(1) by auto
    moreover have "sweep b e' rs = card ({b ..< e'} \<union> covered rs)"
      using "2.IH"(2) 2 "2.prems"(1,3) starts tail by simp
    ultimately show ?thesis using 2 by simp
  next
    case 3
    then have "{b ..< e} \<union> ({b' ..< e'} \<union> covered rs) = {b ..< e} \<union> covered rs" using starts(1) by auto
    moreover have "sweep b e rs = card ({b ..< e} \<union> covered rs)" using "2.IH"(3) 3 "2.prems"(1,3) starts tail by simp
    ultimately show ?thesis using 3 by simp
  qed
qed simp

lemma unique_bytes_card:
  assumes "\<forall>(b, e) \<in> set rs. b \<le> e"
  shows "unique_bytes rs = card (covered rs)"
proof (cases "sort rs")
  case Nil
  then have "rs = []" by (metis set_empty set_sort)
  then show ?thesis by (simp add: unique_bytes_def)
next
  case (Cons r rest)
  obtain b e where r: "r = (b, e)" by fastforce
  have all: "set (sort rs) = set rs" "sorted (sort rs)" by simp_all
  have "set rs = insert (b, e) (set rest)" using all(1) unfolding Cons r by simp
  then have "covered rs = {b ..< e} \<union> covered rest" by simp
  moreover have "sweep b e rest = card ({b ..< e} \<union> covered rest)"
  proof (rule sweep_card)
    show "b \<le> e" "sorted rest" using all assms unfolding Cons r by auto
    show "\<forall>(x, y) \<in> set rest. b \<le> x \<and> x \<le> y"
      using all assms unfolding Cons r by (auto simp: less_eq_prod_def)
  qed
  ultimately show ?thesis by (simp add: unique_bytes_def Cons r)
qed

section \<open>Runs of the recorder\<close>

type_synonym reading = "nat \<times> nat \<times> nat"

definition counted :: "index_data \<Rightarrow> bool list \<Rightarrow> reading \<Rightarrow> bool" where
  "counted I el = (\<lambda>(fid, b, e). allows el fid \<and> b < e \<and> fid < length (infos I))"

definition touch_all :: "bool list \<Rightarrow> reading list \<Rightarrow> recorder \<Rightarrow> recorder" where
  "touch_all el = fold (\<lambda>(fid, b, e). touch el fid b e)"

lemma touch_all_counts:
  assumes "length (sr_touched R) = length (infos I)"
  shows "length (sr_touched (touch_all el rs R)) = length (infos I) \<and>
    (\<forall>f < length (infos I). sr_touched (touch_all el rs R) ! f =
       sr_touched R ! f @ map snd (filter (\<lambda>r. counted I el r \<and> fst r = f) rs)) \<and>
    sr_physically_touched_bytes (touch_all el rs R) =
      sr_physically_touched_bytes R + sum_list (map (\<lambda>(fid, b, e). e - b) (filter (counted I el) rs)) \<and>
    sr_logical_unique_bytes (touch_all el rs R) = sr_logical_unique_bytes R"
  using assms
proof (induction rs arbitrary: R)
  case (Cons r rs)
  obtain fid b e where r: "r = (fid, b, e)" by (cases r) auto
  have len: "length (sr_touched (touch el fid b e R)) = length (infos I)" using Cons.prems by (simp add: touch_def)
  from Cons.IH [OF len] Cons.prems show ?case
    by (auto simp: touch_all_def r counted_def touch_def nth_list_update)
qed (simp add: touch_all_def)

definition read_positions :: "reading list \<Rightarrow> (nat \<times> nat) set" where
  "read_positions rs = (\<Union>(fid, b, e) \<in> set rs. {fid} \<times> {b ..< e})"

lemma read_positions_le: "card (read_positions rs) \<le> sum_list (map (\<lambda>(fid, b, e). e - b) rs)"
proof (induction rs)
  case (Cons r rs)
  obtain fid b e where r: "r = (fid, b, e)" by (cases r) auto
  have "card (read_positions (r # rs)) \<le> card ({fid} \<times> {b ..< e}) + card (read_positions rs)"
    using card_Un_le [of "{fid} \<times> {b ..< e}" "read_positions rs"] unfolding read_positions_def r by simp
  with Cons show ?case by (simp add: r card_cartesian_product)
qed (simp add: read_positions_def)

text \<open>C39: After any sequence of reads the recorder's unique bytes are the number of distinct positions
  read in the eligible files, its touched bytes the sum of the lengths, and the first is at most
  the second.\<close>

theorem statistics_count_bytes_once:
  "let S = finish_stats (touch_all el rs (new_recorder I)); C = filter (counted I el) rs in
   sr_logical_unique_bytes S = card (read_positions C) \<and>
   sr_physically_touched_bytes S = sum_list (map (\<lambda>(fid, b, e). e - b) C) \<and>
   sr_logical_unique_bytes S \<le> sr_physically_touched_bytes S"
proof -
  let ?R = "touch_all el rs (new_recorder I)" and ?C = "filter (counted I el) rs"
  let ?of = "\<lambda>f. map snd (filter (\<lambda>r. counted I el r \<and> fst r = f) rs)"
  have R: "length (sr_touched ?R) = length (infos I)" "\<And>f. f < length (infos I) \<Longrightarrow> sr_touched ?R ! f = ?of f"
    "sr_physically_touched_bytes ?R = sum_list (map (\<lambda>(fid, b, e). e - b) ?C)" "sr_logical_unique_bytes ?R = 0"
    using touch_all_counts [of "new_recorder I" I el rs] by (simp_all add: new_recorder_def)
  have "unique_bytes (?of f) = card (covered (?of f))" for f
    by (rule unique_bytes_card) (auto simp: counted_def)
  then have "sum_list (map unique_bytes (sr_touched ?R)) = (\<Sum>f < length (infos I). card (covered (?of f)))"
    using R(1,2) by (simp add: sum_list_sum_nth atLeast0LessThan)
  also have "\<dots> = card (SIGMA f : {..< length (infos I)}. covered (?of f))"
    by (simp add: card_SigmaI)
  also have "(SIGMA f : {..< length (infos I)}. covered (?of f)) = read_positions ?C"
    by (force simp: read_positions_def counted_def)
  finally show ?thesis using R(3,4) read_positions_le [of ?C] by (simp add: finish_stats_def Let_def)
qed

end
