(* ===== verification/Autotune.thy ===== *)
theory Autotune
  imports Index_Data
begin

text \<open>
  \<open>autotune.cpp\<close>: the search through the product of the candidate lists, its budgets, the score
  and the best configuration.  The clock and the trial itself (building the index and running
  the queries, modelled by the theories on the index and the search) are parameters.
\<close>

section \<open>Bounds, candidates, results\<close>

record parameter_bounds =
  pb_chunk_bytes :: "nat list"
  pb_chunk_overlap :: "nat list"
  pb_block_bytes :: "nat list"
  pb_budget_ratio :: "u64 list"
  pb_planned_qgrams :: "nat list"
  pb_max_evaluations :: nat
  pb_max_search_time_ms :: fp

record tuned_candidate =
  td_options :: index_options
  td_toolchain :: bytes
  td_operator_policy :: bytes
  td_build_bytes :: u64
  td_build_time_ms :: fp
  td_search_p50_ms :: fp
  td_search_p95_ms :: fp
  td_score :: fp
  td_valid :: bool
  td_terminated_early :: bool
  td_reason :: string

record tune_result =
  tr_evaluated :: "tuned_candidate list"
  tr_best :: "tuned_candidate option"
  tr_toolchain :: bytes
  tr_explored :: nat
  tr_skipped :: nat
  tr_exhausted :: bool

text \<open>What a trial measures: the build time, the size of the index and one latency per query; an
  exception carries its text, and the two figures of the build when it comes from a query.\<close>

record trial =
  tl_build_time_ms :: fp
  tl_build_bytes :: u64
  tl_latencies :: "fp list"

type_synonym failed_trial = "string \<times> (fp \<times> u64) option"

fun fp_insert :: "fp \<Rightarrow> fp list \<Rightarrow> fp list" where
  "fp_insert x [] = [x]"
| "fp_insert x (y # ys) = (if fp_less y x then y # fp_insert x ys else x # y # ys)"

definition fp_sort :: "fp list \<Rightarrow> fp list" where
  "fp_sort xs = foldr fp_insert xs []"

definition candidate_score :: "fp \<Rightarrow> fp \<Rightarrow> u64 \<Rightarrow> fp \<Rightarrow> fp" where
  "candidate_score p50 p95 nbytes build_time =
     fp_add (fp_add (fp_add (fp_mul p50 (Fin 100)) (fp_mul p95 (Fin 20)))
       (fp_div (fp_of_nat (unat nbytes)) (fp_mul (Fin 1024) (Fin 1024)))) (fp_mul build_time (fp_round (5 / 100)))"

definition tuned_options :: "nat \<Rightarrow> nat \<Rightarrow> nat \<Rightarrow> u64 \<Rightarrow> nat \<Rightarrow> index_options" where
  "tuned_options cb ov bb ratio q =
     default_index_options\<lparr>chunk_bytes := cb, chunk_overlap := ov, positional_block_bytes := bb,
       positional_budget_ratio := ratio, planned_qgrams := q\<rparr>"

definition try_candidate :: "(nat \<Rightarrow> index_options \<Rightarrow> failed_trial + trial) \<Rightarrow> bytes \<Rightarrow> bytes \<Rightarrow> nat \<Rightarrow> index_options \<Rightarrow> tuned_candidate" where
  "try_candidate run toolchain policy k opt =
     (let blank = \<lparr>td_options = opt, td_toolchain = toolchain, td_operator_policy = policy, td_build_bytes = 0,
          td_build_time_ms = Fin 0, td_search_p50_ms = Fin 0, td_search_p95_ms = Fin 0, td_score = Fin 0,
          td_valid = True, td_terminated_early = False, td_reason = ''completed''\<rparr>
      in case run k opt of
           Inl (what, built) \<Rightarrow>
             (case built of None \<Rightarrow> blank | Some (ms, nbytes) \<Rightarrow> blank\<lparr>td_build_time_ms := ms, td_build_bytes := nbytes\<rparr>)
               \<lparr>td_valid := False, td_terminated_early := True, td_reason := what\<rparr>
         | Inr t \<Rightarrow>
             let ls = fp_sort (tl_latencies t); n = length ls;
                 p50 = (if ls = [] then Fin 0 else ls ! (n div 2));
                 p95 = (if ls = [] then Fin 0 else ls ! fp_trunc (fp_mul (fp_of_nat n) (fp_round (95 / 100))))
             in blank\<lparr>td_build_time_ms := tl_build_time_ms t, td_build_bytes := tl_build_bytes t,
                  td_search_p50_ms := p50, td_search_p95_ms := p95,
                  td_score := candidate_score p50 p95 (tl_build_bytes t) (tl_build_time_ms t)\<rparr>)"

section \<open>The loops\<close>

text \<open>A loop body returns the result and whether the function has returned.\<close>

fun each :: "('u \<Rightarrow> 'r \<Rightarrow> 'r \<times> bool) \<Rightarrow> 'u list \<Rightarrow> 'r \<Rightarrow> 'r \<times> bool" where
  "each f [] r = (r, False)"
| "each f (u # us) r = (case f u r of (r', stop) \<Rightarrow> if stop then (r', True) else each f us r')"

definition add_candidate :: "tuned_candidate \<Rightarrow> tune_result \<Rightarrow> tune_result" where
  "add_candidate c r =
     r\<lparr>tr_best := (if td_valid c \<and> (case tr_best r of None \<Rightarrow> True | Some b \<Rightarrow> fp_less (td_score c) (td_score b)) then Some c else tr_best r),
       tr_evaluated := tr_evaluated r @ [c]\<rparr>"

text \<open>The innermost body; \<open>clock k\<close> is the time that has passed when \<open>k\<close> trials are done.\<close>

definition tune_one :: "(nat \<Rightarrow> fp) \<Rightarrow> (nat \<Rightarrow> index_options \<Rightarrow> failed_trial + trial) \<Rightarrow> parameter_bounds \<Rightarrow> bytes \<Rightarrow>
    index_options \<Rightarrow> tune_result \<Rightarrow> tune_result \<times> bool" where
  "tune_one clock run b policy opt r =
     (let k = length (tr_evaluated r) in
      if pb_max_evaluations b \<le> k then (r\<lparr>tr_exhausted := True\<rparr>, True)
      else if fp_le (pb_max_search_time_ms b) (clock k) then (r\<lparr>tr_exhausted := True\<rparr>, True)
      else (add_candidate (try_candidate run (tr_toolchain r) policy k opt) (r\<lparr>tr_explored := tr_explored r + 1\<rparr>), False))"

definition skip_configuration :: "tune_result \<Rightarrow> tune_result \<times> bool" where
  "skip_configuration r = (r\<lparr>tr_skipped := tr_skipped r + 1\<rparr>, False)"

definition explore_parameter_space ::
  "(nat \<Rightarrow> fp) \<Rightarrow> (nat \<Rightarrow> index_options \<Rightarrow> failed_trial + trial) \<Rightarrow> bytes \<Rightarrow> document list \<Rightarrow> parameter_bounds \<Rightarrow> bytes \<Rightarrow> tune_result" where
  "explore_parameter_space clock run toolchain corpus b policy =
     (let r0 = \<lparr>tr_evaluated = [], tr_best = None, tr_toolchain = toolchain, tr_explored = 0, tr_skipped = 0, tr_exhausted = False\<rparr>
      in if corpus = [] then r0
         else fst (each (\<lambda>cb. each (\<lambda>ov r.
                if cb \<le> ov then skip_configuration r
                else each (\<lambda>bb r.
                  if cb < bb then skip_configuration r
                  else each (\<lambda>ratio. each (\<lambda>q. tune_one clock run b policy (tuned_options cb ov bb ratio q)) (pb_planned_qgrams b))
                         (pb_budget_ratio b) r) (pb_block_bytes b) r) (pb_chunk_overlap b)) (pb_chunk_bytes b) r0))"

section \<open>The invariant of the search\<close>

definition tune_inv :: "parameter_bounds \<Rightarrow> tune_result \<Rightarrow> bool" where
  "tune_inv b r \<longleftrightarrow>
     length (tr_evaluated r) \<le> pb_max_evaluations b \<and> tr_explored r = length (tr_evaluated r) \<and>
     (\<forall>c \<in> set (tr_evaluated r). chunk_overlap (td_options c) < chunk_bytes (td_options c) \<and>
        positional_block_bytes (td_options c) \<le> chunk_bytes (td_options c) \<and> td_valid c = (\<not> td_terminated_early c)) \<and>
     (case tr_best r of None \<Rightarrow> \<not> (\<exists>c \<in> set (tr_evaluated r). td_valid c)
      | Some best \<Rightarrow> best \<in> set (tr_evaluated r) \<and> td_valid best \<and>
          (\<forall>c \<in> set (tr_evaluated r). td_valid c \<longrightarrow> \<not> fp_less (td_score c) (td_score best)))"

lemma each_inv:
  "(\<And>u r. u \<in> set us \<Longrightarrow> P r \<Longrightarrow> P (fst (f u r))) \<Longrightarrow> P r \<Longrightarrow> P (fst (each f us r))"
proof (induction f us r rule: each.induct)
  case (2 f u us r)
  obtain r' stop where f: "f u r = (r', stop)" by fastforce
  have "P r'" using 2(2) [of u r] 2(3) f by simp
  with 2 f show ?case by (cases stop) simp_all
qed simp

lemma try_candidate_options [simp]: "td_options (try_candidate run tc policy k opt) = opt"
  by (simp add: try_candidate_def Let_def split: sum.splits option.splits prod.splits)

lemma try_candidate_valid: "td_valid (try_candidate run tc policy k opt) = (\<not> td_terminated_early (try_candidate run tc policy k opt))"
  by (simp add: try_candidate_def Let_def split: sum.splits option.splits prod.splits)

lemma add_candidate_inv:
  assumes "tune_inv b r" "length (tr_evaluated r) < pb_max_evaluations b" "td_valid c = (\<not> td_terminated_early c)"
    "chunk_overlap (td_options c) < chunk_bytes (td_options c)" "positional_block_bytes (td_options c) \<le> chunk_bytes (td_options c)"
  shows "tune_inv b (add_candidate c (r\<lparr>tr_explored := tr_explored r + 1\<rparr>))"
proof (cases "tr_best r")
  case None
  with assms show ?thesis by (auto simp: tune_inv_def add_candidate_def)
next
  case (Some best)
  have new: "\<not> fp_less (td_score d) (td_score c)" if "d \<in> set (tr_evaluated r)" "td_valid d" "fp_less (td_score c) (td_score best)" for d
    using assms(1) Some that fp_less_trans [of "td_score d" "td_score c" "td_score best"] by (auto simp: tune_inv_def)
  show ?thesis
  proof (cases "td_valid c \<and> fp_less (td_score c) (td_score best)")
    case True
    with assms Some new show ?thesis by (auto simp: tune_inv_def add_candidate_def)
  next
    case False
    with assms Some show ?thesis by (auto simp: tune_inv_def add_candidate_def)
  qed
qed

lemma tune_one_inv:
  assumes "tune_inv b r" "ov < cb" "bb \<le> cb"
  shows "tune_inv b (fst (tune_one clock run b policy (tuned_options cb ov bb ratio q) r))"
proof -
  have "tune_inv b (r\<lparr>tr_exhausted := True\<rparr>)" using assms(1) by (auto simp: tune_inv_def split: option.splits)
  moreover have "tune_inv b (add_candidate (try_candidate run (tr_toolchain r) policy (length (tr_evaluated r)) (tuned_options cb ov bb ratio q))
      (r\<lparr>tr_explored := tr_explored r + 1\<rparr>))" if "\<not> pb_max_evaluations b \<le> length (tr_evaluated r)"
    by (rule add_candidate_inv) (use assms that try_candidate_valid in \<open>simp_all add: tuned_options_def\<close>)
  ultimately show ?thesis by (simp add: tune_one_def Let_def)
qed

lemma skip_configuration_inv: "tune_inv b r \<Longrightarrow> tune_inv b (fst (skip_configuration r))"
  by (auto simp: tune_inv_def skip_configuration_def split: option.splits)

text \<open>C40: Whatever the trials do, there are at most as many candidates as allowed, each has an overlap
  below its chunk size and blocks no larger than a chunk, the counter agrees with the list, and
  the best candidate is a valid one with the least score.\<close>

theorem exploration_sound: "tune_inv b (explore_parameter_space clock run toolchain corpus b policy)"
proof -
  have empty: "tune_inv b \<lparr>tr_evaluated = [], tr_best = None, tr_toolchain = toolchain, tr_explored = 0, tr_skipped = 0, tr_exhausted = e\<rparr>" for e
    by (simp add: tune_inv_def)
  show ?thesis unfolding explore_parameter_space_def Let_def
    by (auto intro!: each_inv [where P = "tune_inv b"] skip_configuration_inv tune_one_inv empty simp: not_le not_less)
qed

end
