(* ===== verification/Plan_Regret.thy ===== *)
theory Plan_Regret
  imports Planner Autotune
begin

text \<open>
  The plans the planner could have taken, the regret of the one it took, the shadow report over many
  queries and the performance gate (\<open>search.cpp\<close>).  Of \<open>PlanCandidateMetrics\<close> the record keeps what
  the comparisons read; the further measured counters are only copied.  The texts of the gate are
  constructors with the numbers they print.
\<close>

section \<open>Candidate plans\<close>

datatype observation_status = Unobserved | Observed | CounterfactualEstimate

record plan_metrics =
  pm_name :: bytes
  pm_verifier :: verifier_kind
  pm_predicted_cost :: fp
  pm_predicted_selectivity :: fp
  pm_actual_cost :: fp
  pm_is_fallback :: bool
  pm_chosen :: bool
  pm_actual_observed :: bool
  pm_observation :: observation_status

definition candidate_plan :: "string \<Rightarrow> verifier_kind \<Rightarrow> fp \<Rightarrow> fp \<Rightarrow> bool \<Rightarrow> query_cost \<Rightarrow> plan_metrics" where
  "candidate_plan name v cost sel fallback taken =
     \<lparr>pm_name = ascii_bytes name, pm_verifier = v, pm_predicted_cost = cost, pm_predicted_selectivity = sel,
      pm_actual_cost = Fin 0, pm_is_fallback = fallback, pm_chosen = (qc_verifier taken = v), pm_actual_observed = False,
      pm_observation = Unobserved\<rparr>"

definition brute_force_plan :: "plan_key \<Rightarrow> index_data \<Rightarrow> query_cost \<Rightarrow> plan_metrics" where
  "brute_force_plan key I taken =
     (let tot = scoped_chunk_count I (pk_eligible key)
      in candidate_plan ''RegexBruteForce'' RegexBruteForce
           (fp_add (fp_of_nat (tot * chunk_bytes (ix_opt I))) (weigh 200 tot)) fp_one True taken)"

definition fixed_plans :: "plan_key \<Rightarrow> index_data \<Rightarrow> query_cost \<Rightarrow> plan_metrics list" where
  "fixed_plans key I taken =
     (let q = pk_expression key; po = pk_options key; scope = pk_eligible key;
          icase = (po_case po = Insensitive); sel = estimate_literal_selectivity I scope q;
          guarded = fixed_guard_eligible key I; fc = make_fixed_costs key I;
          cs = estimated_units sel (scoped_chunk_count I scope);
          bs = estimated_units sel (scoped_blocks I scope); pb = bs * (pos_block I + 64);
          rare = candidate_plan ''FixedRareByte'' FixedRareByte
            (if guarded then fp_min (fc_chunk fc) (fc_whole_file fc)
             else fp_add (fp_mul (fp_of_nat cs) (fp_of_nat (chunk_bytes (ix_opt I)))) (weigh 100 cs))
            sel (\<not> guarded \<and> (chunk_overlap (pk_index_options key) < length q \<or> icase \<or> po_word po \<or> po_line po)) taken;
          positional = candidate_plan ''FixedPositional'' FixedPositional
            (if guarded then fc_positional fc else fp_add (fp_add (weigh (1/2) pb) (weigh 50 bs)) (weigh 10 cs)) sel False taken
      in rare # (if guarded \<or> length q \<le> 64 \<and> \<not> icase \<and> \<not> po_word po \<and> \<not> po_line po then [positional] else []) @
         [brute_force_plan key I taken])"

text \<open>The surcharges, with the share of eligible files where \<open>estimateCost\<close> has the share of chunks.\<close>

definition adjust_plans :: "plan_key \<Rightarrow> index_data \<Rightarrow> plan_metrics list \<Rightarrow> plan_metrics list" where
  "adjust_plans key I =
     map (\<lambda>c. c\<lparr>pm_predicted_cost := adjust_by key (fp_div (fp_of_nat (length (pk_eligible key))) (fp_of_nat (max (length (infos I)) 1)))
                  (pm_predicted_cost c)\<rparr>)"

definition all_candidate_plans :: "icu \<Rightarrow> plan_key \<Rightarrow> index_data \<Rightarrow> plan_metrics list" where
  "all_candidate_plans U key I =
     (if po_kind (pk_options key) = Fixed then adjust_plans key I (fixed_plans key I (estimate_cost U key I))
      else case compile U (pk_expression key) (pk_options key) of
        Some (Inr (o2, Some p)) \<Rightarrow>
          (let ir = np_ir p; po = pk_options key; taken = estimate_cost U key I in
           if literal_shortcut p po (pk_record_separator key)
           then let fk = key\<lparr>pk_expression := qi_exact_literal ir, pk_options := po\<lparr>po_kind := Fixed\<rparr>\<rparr>
                in adjust_plans fk I (fixed_plans fk I (estimate_cost U fk I))
           else adjust_plans key I
             ((if qi_branch_mandatory ir \<noteq> [] \<or> qi_mandatory ir \<noteq> []
               then [candidate_plan ''RegexChunk'' RegexChunk (byte_chunk_cost 200 taken) (qc_selectivity taken) False taken] else []) @
              [brute_force_plan key I taken]))
      | _ \<Rightarrow> [(brute_force_plan key I (estimate_cost U key I))\<lparr>pm_chosen := True\<rparr>])"

lemma length_filter_adjust [simp]:
  "length (filter pm_chosen (adjust_plans key I ps)) = length (filter pm_chosen ps)"
  by (induction ps) (simp_all add: adjust_plans_def)

lemma candidate_plan_chosen [simp]:
  "pm_chosen (candidate_plan name v cost sel fb taken) \<longleftrightarrow> qc_verifier taken = v"
  "pm_chosen (brute_force_plan key I taken) \<longleftrightarrow> qc_verifier taken = RegexBruteForce"
  by (simp_all add: candidate_plan_def brute_force_plan_def Let_def)

lemma fixed_one_chosen:
  assumes "po_kind (pk_options key) = Fixed"
  shows "length (filter pm_chosen (fixed_plans key I (estimate_cost U key I))) = 1"
proof -
  have v: "qc_verifier (estimate_cost U key I) = FixedRareByte \<or> qc_verifier (estimate_cost U key I) = FixedPositional \<and>
      (fixed_guard_eligible key I \<or> length (pk_expression key) \<le> 64 \<and> po_case (pk_options key) \<noteq> Insensitive \<and>
       \<not> po_word (pk_options key) \<and> \<not> po_line (pk_options key))"
    using assms by (auto simp: estimate_cost_def estimate_fixed_def guarded_choice_def unguarded_choice_def Let_def)
  then show ?thesis by (elim disjE) (auto simp: fixed_plans_def Let_def)
qed

text \<open>Among the candidate plans of any key exactly one is marked as chosen: the candidates always
  include the verifier the cost estimate selects.\<close>

theorem one_plan_chosen:
  "length (filter pm_chosen (all_candidate_plans U key I)) = 1"
proof -
  have regex: "qc_verifier (estimate_cost U key I) =
      (if qi_branch_mandatory (np_ir p) \<noteq> [] \<or> qi_mandatory (np_ir p) \<noteq> [] then RegexChunk else RegexBruteForce)"
    if "po_kind (pk_options key) \<noteq> Fixed" "compile U (pk_expression key) (pk_options key) = Some (Inr (o2, Some p))"
      "\<not> literal_shortcut p (pk_options key) (pk_record_separator key)" for o2 p
    using that by (simp add: estimate_cost_def Let_def filtered_cost_def brute_force_cost_def)
  show ?thesis
    using fixed_one_chosen [of key I U] fixed_one_chosen [of "key\<lparr>pk_expression := e, pk_options := po\<lparr>po_kind := Fixed\<rparr>\<rparr>" I U for e po]
    by (auto simp: all_candidate_plans_def Let_def regex split: option.splits sum.splits)
qed

section \<open>Regret\<close>

record plan_regret =
  pr_workload_key :: bytes
  pr_semantic_mode :: bytes
  pr_plan_key_hash :: u64
  pr_candidate_count :: nat
  pr_observed_candidate_count :: nat
  pr_observed_fallback_loss :: bool
  pr_query_name :: bytes
  pr_chosen_plan :: bytes
  pr_optimal_plan :: bytes
  pr_chosen_verifier :: verifier_kind
  pr_optimal_verifier :: verifier_kind
  pr_predicted_cost :: fp
  pr_actual_cost :: fp
  pr_optimal_actual_cost :: fp
  pr_absolute_regret :: fp
  pr_relative_regret :: fp
  pr_prediction_error :: fp
  pr_is_suboptimal :: bool
  pr_is_fallback :: bool
  pr_rank_inversions :: nat
  pr_candidates :: "plan_metrics list"

definition verifier_code :: "verifier_kind \<Rightarrow> nat" where
  "verifier_code v = (case v of FixedRareByte \<Rightarrow> 0 | FixedPositional \<Rightarrow> 1 | RegexChunk \<Rightarrow> 2 | RegexBruteForce \<Rightarrow> 3)"

definition plan_before :: "plan_metrics \<Rightarrow> plan_metrics \<Rightarrow> bool" where
  "plan_before a b \<longleftrightarrow>
     (if pm_verifier a \<noteq> pm_verifier b then verifier_code (pm_verifier a) < verifier_code (pm_verifier b)
      else if pm_name a \<noteq> pm_name b then pm_name a < pm_name b
      else if \<not> fp_eq (pm_predicted_cost a) (pm_predicted_cost b) then fp_less (pm_predicted_cost a) (pm_predicted_cost b)
      else pm_chosen a \<and> \<not> pm_chosen b)"

fun insert_plan :: "plan_metrics \<Rightarrow> plan_metrics list \<Rightarrow> plan_metrics list" where
  "insert_plan x [] = [x]"
| "insert_plan x (y # ys) = (if plan_before y x then y # insert_plan x ys else x # y # ys)"

definition observed_plans :: "plan_metrics \<Rightarrow> plan_metrics list \<Rightarrow> plan_metrics list" where
  "observed_plans taken cs =
     taken # filter (\<lambda>c. \<not> (pm_name c = pm_name taken \<and> pm_verifier c = pm_verifier taken) \<and>
                         (pm_actual_observed c \<or> pm_observation c = Observed)) cs"

definition best_plan :: "plan_metrics \<Rightarrow> plan_metrics list \<Rightarrow> plan_metrics" where
  "best_plan b cs = foldl (\<lambda>b c. if fp_less (pm_actual_cost c) (pm_actual_cost b) then c else b) b cs"

definition cost_gap :: "fp \<Rightarrow> fp \<Rightarrow> fp" where
  "cost_gap a b = (let d = fp_sub a b in if fp_negative d then fp_neg d else d)"

definition order_inverted :: "plan_metrics \<Rightarrow> plan_metrics \<Rightarrow> bool" where
  "order_inverted a b \<longleftrightarrow>
     fp_less (pm_predicted_cost a) (pm_predicted_cost b) \<noteq> fp_less (pm_actual_cost a) (pm_actual_cost b) \<and>
     fp_less (fp_round (1 / 10 ^ 6)) (cost_gap (pm_predicted_cost a) (pm_predicted_cost b)) \<and>
     fp_less (fp_round (1 / 10 ^ 6)) (cost_gap (pm_actual_cost a) (pm_actual_cost b))"

fun count_inversions :: "plan_metrics list \<Rightarrow> nat" where
  "count_inversions [] = 0"
| "count_inversions (a # as) = length (filter (order_inverted a) as) + count_inversions as"

definition relative_to :: "fp \<Rightarrow> fp \<Rightarrow> fp" where
  "relative_to d c = fp_div d (fp_max c (fp_round (1 / 10 ^ 9)))"

definition compute_plan_regret :: "plan_metrics \<Rightarrow> plan_metrics list \<Rightarrow> bytes \<Rightarrow> plan_regret" where
  "compute_plan_regret taken cs name =
     (let obs = observed_plans taken cs; best = (if length obs < 2 then taken else best_plan taken obs);
          single = length obs < 2; d = fp_sub (pm_actual_cost taken) (pm_actual_cost best);
          absolute = (if single then Fin 0 else fp_max (Fin 0) d);
          subopt = (\<not> single \<and> fp_less (fp_round (1 / 10 ^ 6)) absolute)
      in \<lparr>pr_workload_key = [], pr_semantic_mode = [], pr_plan_key_hash = 0, pr_candidate_count = length cs,
          pr_observed_candidate_count = length obs,
          pr_observed_fallback_loss = (subopt \<and> \<not> pm_is_fallback taken \<and> pm_is_fallback best), pr_query_name = name,
          pr_chosen_plan = pm_name taken, pr_optimal_plan = pm_name best, pr_chosen_verifier = pm_verifier taken,
          pr_optimal_verifier = pm_verifier best, pr_predicted_cost = pm_predicted_cost taken,
          pr_actual_cost = pm_actual_cost taken, pr_optimal_actual_cost = pm_actual_cost best,
          pr_absolute_regret = absolute,
          pr_relative_regret = (if single then Fin 0 else relative_to d (pm_actual_cost best)),
          pr_prediction_error = relative_to (cost_gap (pm_predicted_cost taken) (pm_actual_cost taken)) (pm_actual_cost taken),
          pr_is_suboptimal = subopt, pr_is_fallback = pm_is_fallback taken,
          pr_rank_inversions = (if single then 0 else count_inversions obs),
          pr_candidates = foldr insert_plan cs []\<rparr>)"

lemma best_plan_least:
  "best_plan b cs \<in> set (b # cs) \<and> (\<forall>c \<in> set (b # cs). \<not> fp_less (pm_actual_cost c) (pm_actual_cost (best_plan b cs)))"
proof (induction cs rule: rev_induct)
  case (snoc c cs)
  let ?b = "best_plan b cs"
  have "best_plan b (cs @ [c]) = (if fp_less (pm_actual_cost c) (pm_actual_cost ?b) then c else ?b)" by (simp add: best_plan_def)
  with snoc fp_less_trans [of _ "pm_actual_cost c" "pm_actual_cost ?b"] show ?case by auto
qed (simp add: best_plan_def)

lemma count_inversions_le: "2 * count_inversions as \<le> length as * (length as - 1)"
proof (induction as)
  case (Cons a as)
  have "2 * count_inversions (a # as) = 2 * length (filter (order_inverted a) as) + 2 * count_inversions as" by simp
  also have "\<dots> \<le> 2 * length as + length as * (length as - 1)"
    by (intro add_mono mult_left_mono length_filter_le Cons) simp_all
  also have "\<dots> = length (a # as) * (length (a # as) - 1)" by (cases "length as") (simp_all add: algebra_simps)
  finally show ?case .
qed simp

text \<open>
  The optimum is an observed plan that no observed plan beats, regret is never negative, and there
  are no more inversions than pairs.
\<close>

lemma regret_against_best:
  fixes taken :: plan_metrics and cs :: "plan_metrics list" and name :: bytes
  defines "r \<equiv> compute_plan_regret taken cs name"
  shows "\<exists>b \<in> set (observed_plans taken cs). pr_optimal_actual_cost r = pm_actual_cost b \<and> pr_optimal_plan r = pm_name b"
    and "c \<in> set (observed_plans taken cs) \<Longrightarrow> \<not> fp_less (pm_actual_cost c) (pr_optimal_actual_cost r)"
    and "fp_le (Fin 0) (pr_absolute_regret r)"
    and "2 * pr_rank_inversions r \<le> pr_observed_candidate_count r * (pr_observed_candidate_count r - 1)"
proof -
  let ?obs = "observed_plans taken cs"
  have hd: "taken \<in> set ?obs" by (simp add: observed_plans_def)
  have one: "?obs = [taken]" if "length ?obs < 2"
    using that by (simp add: observed_plans_def)
  note best = best_plan_least [of taken ?obs]
  show "\<exists>b \<in> set ?obs. pr_optimal_actual_cost r = pm_actual_cost b \<and> pr_optimal_plan r = pm_name b"
    using hd best by (auto simp: r_def compute_plan_regret_def Let_def)
  show "\<not> fp_less (pm_actual_cost c) (pr_optimal_actual_cost r)" if "c \<in> set ?obs"
    using that best one by (auto simp: r_def compute_plan_regret_def Let_def)
  show "fp_le (Fin 0) (pr_absolute_regret r)"
    by (auto simp: r_def compute_plan_regret_def Let_def fp_max_def fp_le_def fp_eq_def)
  show "2 * pr_rank_inversions r \<le> pr_observed_candidate_count r * (pr_observed_candidate_count r - 1)"
    using count_inversions_le [of ?obs] by (simp add: r_def compute_plan_regret_def Let_def)
qed

end
