(* ===== verification/Shadow_Gate.thy ===== *)
theory Shadow_Gate
  imports Plan_Regret
begin

text \<open>
  The shadow report over the regrets of many queries, and the performance gate (\<open>search.cpp\<close>).
\<close>

section \<open>The shadow report\<close>

record shadow_group =
  sg_workload_key :: bytes
  sg_semantic_mode :: bytes
  sg_query_count :: nat
  sg_observed_query_count :: nat
  sg_suboptimal_plan_count :: nat
  sg_mean_regret :: fp

record shadow_report =
  sh_total_queries :: nat
  sh_suboptimal_plan_count :: nat
  sh_fallback_count :: nat
  sh_fallback_rate :: fp
  sh_mean_regret :: fp
  sh_p50_regret :: fp
  sh_p95_regret :: fp
  sh_max_regret :: fp
  sh_mean_prediction_error :: fp
  sh_p95_prediction_error :: fp
  sh_total_excess_cost :: fp
  sh_observed_query_count :: nat
  sh_measured_fallback_loss_count :: nat
  sh_groups :: "shadow_group list"
  sh_query_regrets :: "plan_regret list"

definition percentile :: "fp list \<Rightarrow> fp \<Rightarrow> fp" where
  "percentile samples p =
     (let xs = fp_sort samples; n = length xs in
      if xs = [] then Fin 0 else if n = 1 then xs ! 0
      else let rank = fp_mul p (fp_of_nat (n - 1)); lower = fp_trunc rank;
               upper = (case rank of Fin r \<Rightarrow> nat (ceiling r) | _ \<Rightarrow> 0); w = fp_sub rank (fp_of_nat lower)
           in if n \<le> upper then last xs
              else fp_add (fp_mul (xs ! lower) (fp_sub (Fin 1) w)) (fp_mul (xs ! upper) w))"

definition report_key :: "plan_regret \<Rightarrow> bytes \<times> bytes \<times> bytes \<times> u64 \<times> bytes" where
  "report_key r = (pr_workload_key r, pr_semantic_mode r, pr_query_name r, pr_plan_key_hash r, pr_chosen_plan r)"

abbreviation group_key :: "shadow_group \<Rightarrow> bytes \<times> bytes" where
  "group_key g \<equiv> (sg_workload_key g, sg_semantic_mode g)"

abbreviation regret_key :: "plan_regret \<Rightarrow> bytes \<times> bytes" where
  "regret_key r \<equiv> (pr_workload_key r, pr_semantic_mode r)"

definition extend_group :: "plan_regret \<Rightarrow> shadow_group \<Rightarrow> shadow_group" where
  "extend_group r g =
     g\<lparr>sg_query_count := sg_query_count g + 1,
       sg_observed_query_count := sg_observed_query_count g + of_bool (0 < pr_observed_candidate_count r),
       sg_suboptimal_plan_count := sg_suboptimal_plan_count g + of_bool (pr_is_suboptimal r),
       sg_mean_regret := fp_add (sg_mean_regret g) (pr_relative_regret r)\<rparr>"

definition new_group :: "plan_regret \<Rightarrow> shadow_group" where
  "new_group r =
     \<lparr>sg_workload_key = pr_workload_key r, sg_semantic_mode = pr_semantic_mode r, sg_query_count = 0,
      sg_observed_query_count = 0, sg_suboptimal_plan_count = 0, sg_mean_regret = Fin 0\<rparr>"

definition add_to_groups :: "shadow_group list \<Rightarrow> plan_regret \<Rightarrow> shadow_group list" where
  "add_to_groups gs r =
     (let gs' = (if gs = [] \<or> group_key (last gs) \<noteq> regret_key r then gs @ [new_group r] else gs)
      in butlast gs' @ [extend_group r (last gs')])"

definition finish_group :: "shadow_group \<Rightarrow> shadow_group" where
  "finish_group g =
     (if sg_query_count g \<noteq> 0 then g\<lparr>sg_mean_regret := fp_div (sg_mean_regret g) (fp_of_nat (sg_query_count g))\<rparr> else g)"

definition evaluate_shadow_plans :: "plan_regret list \<Rightarrow> shadow_report" where
  "evaluate_shadow_plans queries =
     (let rs = sort_key report_key queries; n = length rs; share = (\<lambda>x. if rs = [] then Fin 0 else fp_div x (fp_of_nat n));
          count = (\<lambda>P. length (filter P rs)); total_of = (\<lambda>f. foldl (\<lambda>a r. fp_add a (f r)) (Fin 0) rs);
          regrets = map pr_relative_regret rs; errors = map pr_prediction_error rs
      in \<lparr>sh_total_queries = n, sh_suboptimal_plan_count = count pr_is_suboptimal, sh_fallback_count = count pr_is_fallback,
          sh_fallback_rate = share (fp_of_nat (count pr_is_fallback)), sh_mean_regret = share (total_of pr_relative_regret),
          sh_p50_regret = percentile regrets (Fin (1/2)), sh_p95_regret = percentile regrets (fp_round (95/100)),
          sh_max_regret = foldl (\<lambda>m r. if fp_less m (pr_relative_regret r) then pr_relative_regret r else m) (Fin 0) rs,
          sh_mean_prediction_error = share (total_of pr_prediction_error),
          sh_p95_prediction_error = percentile errors (fp_round (95/100)), sh_total_excess_cost = total_of pr_absolute_regret,
          sh_observed_query_count = count (\<lambda>r. 0 < pr_observed_candidate_count r),
          sh_measured_fallback_loss_count = count pr_observed_fallback_loss,
          sh_groups = map finish_group (foldl add_to_groups [] rs), sh_query_regrets = rs\<rparr>)"

lemma finish_group_keeps [simp]:
  "sg_workload_key (finish_group g) = sg_workload_key g" "sg_semantic_mode (finish_group g) = sg_semantic_mode g"
  "sg_query_count (finish_group g) = sg_query_count g" "sg_suboptimal_plan_count (finish_group g) = sg_suboptimal_plan_count g"
  by (simp_all add: finish_group_def)

lemma extend_group_fields [simp]:
  "sg_workload_key (extend_group r g) = sg_workload_key g" "sg_semantic_mode (extend_group r g) = sg_semantic_mode g"
  "sg_query_count (extend_group r g) = Suc (sg_query_count g)"
  "sg_suboptimal_plan_count (extend_group r g) = sg_suboptimal_plan_count g + of_bool (pr_is_suboptimal r)"
  by (simp_all add: extend_group_def)

lemma new_group_fields [simp]:
  "sg_workload_key (new_group r) = pr_workload_key r" "sg_semantic_mode (new_group r) = pr_semantic_mode r"
  "sg_query_count (new_group r) = 0" "sg_suboptimal_plan_count (new_group r) = 0"
  by (simp_all add: new_group_def)

lemma add_to_groups_new:
  "gs = [] \<or> group_key (last gs) \<noteq> regret_key r \<Longrightarrow> add_to_groups gs r = gs @ [extend_group r (new_group r)]"
  unfolding add_to_groups_def Let_def by (simp only: if_True butlast_snoc last_snoc)

lemma add_to_groups_old:
  "gs \<noteq> [] \<Longrightarrow> group_key (last gs) = regret_key r \<Longrightarrow> add_to_groups gs r = butlast gs @ [extend_group r (last gs)]"
  unfolding add_to_groups_def Let_def by (simp only: simp_thms if_False)

lemma last_group_updated: "gs \<noteq> [] \<Longrightarrow> map f (butlast gs) @ [f (last gs)] = map f gs"
  by (metis append_butlast_last_id map_append list.simps(8) list.simps(9))

text \<open>Counted over the whole run: the groups of a sorted list are the distinct keys, in order.\<close>

lemma groups_of_run:
  "map group_key (foldl add_to_groups [] rs) = remdups_adj (map regret_key rs) \<and>
   sum_list (map sg_query_count (foldl add_to_groups [] rs)) = length rs \<and>
   sum_list (map sg_suboptimal_plan_count (foldl add_to_groups [] rs)) = length (filter pr_is_suboptimal rs)"
proof (induction rs rule: rev_induct)
  case (snoc r rs)
  define gs where "gs = foldl add_to_groups [] rs"
  have keys: "map group_key gs = remdups_adj (map regret_key rs)" and counts: "sum_list (map sg_query_count gs) = length rs"
      "sum_list (map sg_suboptimal_plan_count gs) = length (filter pr_is_suboptimal rs)"
    using snoc by (simp_all only: gs_def)
  have step: "foldl add_to_groups [] (rs @ [r]) = add_to_groups gs r" by (simp only: gs_def foldl_append foldl.simps)
  have empty: "gs = [] \<longleftrightarrow> rs = []" using arg_cong [OF keys, of "\<lambda>xs. xs = []"] by simp
  have last: "group_key (last gs) = last (map regret_key rs)" if "gs \<noteq> []"
    using arg_cong [OF keys, of last] last_map [OF that, of group_key] by simp
  show ?case unfolding step
  proof (cases "gs = [] \<or> group_key (last gs) \<noteq> regret_key r")
    case True
    then have "remdups_adj (map regret_key rs @ [regret_key r]) = remdups_adj (map regret_key rs) @ [regret_key r]"
      using last empty by (cases rs rule: rev_cases) (auto simp: remdups_adj_append_two)
    then show "map group_key (add_to_groups gs r) = remdups_adj (map regret_key (rs @ [r])) \<and>
        sum_list (map sg_query_count (add_to_groups gs r)) = length (rs @ [r]) \<and>
        sum_list (map sg_suboptimal_plan_count (add_to_groups gs r)) = length (filter pr_is_suboptimal (rs @ [r]))"
      unfolding add_to_groups_new [OF True] using keys counts by simp
  next
    case False
    then have f: "gs \<noteq> []" "group_key (last gs) = regret_key r" by simp_all
    then obtain rs' r' where rs: "rs = rs' @ [r']" "regret_key r' = regret_key r"
      using last empty by (cases rs rule: rev_cases) auto
    then have "remdups_adj (map regret_key rs @ [regret_key r]) = remdups_adj (map regret_key rs)"
      by (simp add: remdups_adj_append_two)
    moreover have u: "map g (butlast gs) @ [g (last gs)] = map g gs" for g :: "shadow_group \<Rightarrow> 'x"
      by (rule last_group_updated [OF f(1)])
    ultimately show "map group_key (add_to_groups gs r) = remdups_adj (map regret_key (rs @ [r])) \<and>
        sum_list (map sg_query_count (add_to_groups gs r)) = length (rs @ [r]) \<and>
        sum_list (map sg_suboptimal_plan_count (add_to_groups gs r)) = length (filter pr_is_suboptimal (rs @ [r]))"
      unfolding add_to_groups_old [OF f]
      using keys counts arg_cong [OF u [of sg_query_count], of sum_list] arg_cong [OF u [of sg_suboptimal_plan_count], of sum_list]
        u [of group_key]
      by simp
  qed
qed simp

lemma sorted_regret_keys: "sorted (map regret_key (sort_key report_key rs))"
proof -
  have "sorted_wrt (\<lambda>a b. report_key a \<le> report_key b) (sort_key report_key rs)"
    using sorted_sort_key [of report_key rs] by (simp add: sorted_map)
  then have "sorted_wrt (\<lambda>a b. regret_key a \<le> regret_key b) (sort_key report_key rs)"
    by (rule sorted_wrt_mono_rel [rotated]) (auto simp: report_key_def less_eq_prod_def)
  then show ?thesis by (simp add: sorted_map)
qed

text \<open>Every workload and mode has one group, and the groups count every query once.\<close>

theorem shadow_groups_partition:
  "let S = evaluate_shadow_plans rs in
   distinct (map group_key (sh_groups S)) \<and> set (map group_key (sh_groups S)) = set (map regret_key rs) \<and>
   sum_list (map sg_query_count (sh_groups S)) = sh_total_queries S \<and>
   sum_list (map sg_suboptimal_plan_count (sh_groups S)) = sh_suboptimal_plan_count S"
proof -
  let ?rs = "sort_key report_key rs"
  have g: "map group_key (map finish_group gs) = map group_key gs"
    "map sg_query_count (map finish_group gs) = map sg_query_count gs"
    "map sg_suboptimal_plan_count (map finish_group gs) = map sg_suboptimal_plan_count gs" for gs
    by simp_all
  have "distinct (remdups_adj (map regret_key ?rs))" 
    using distinct_sort_unique [of "map regret_key ?rs"] sorted_sort_id [OF sorted_regret_keys [of rs]]
    by (simp only: sort_unique_def)
  moreover have "set (map regret_key ?rs) = set (map regret_key rs)" by simp
  ultimately show ?thesis
    unfolding Let_def evaluate_shadow_plans_def shadow_report.select_convs g
    using groups_of_run [of ?rs] by (simp only: remdups_adj_set simp_thms)
qed

section \<open>The performance gate\<close>

datatype gate_status = GatePass | GateWarn | GateFail | GateRollback
datatype workload_classification = Win | Neutral | Regression

record gate_thresholds =
  gt_max_search_p50_ms :: fp
  gt_max_search_p95_ms :: fp
  gt_max_search_ms_per_query :: fp
  gt_min_throughput_mb_s :: fp
  gt_max_p50_regression_ratio :: fp
  gt_max_p95_regression_ratio :: fp
  gt_max_search_time_regression_ratio :: fp
  gt_max_memory_regression_ratio :: fp
  gt_max_fallback_rate :: fp
  gt_max_mean_regret_ratio :: fp
  gt_max_p95_regret_ratio :: fp
  gt_max_suboptimal_plan_ratio :: fp
  gt_rollback_p50_regression_ratio :: fp
  gt_rollback_p95_regression_ratio :: fp
  gt_rollback_fallback_rate :: fp
  gt_rollback_mean_regret_ratio :: fp
  gt_rollback_memory_regression_ratio :: fp
  gt_require_correctness_pass :: bool

text \<open>A decimal literal of the source with two digits after the point.\<close>

definition cents :: "nat \<Rightarrow> fp" where
  "cents n = fp_round (of_nat n / 100)"

definition default_release_gate :: gate_thresholds where
  "default_release_gate = \<lparr>gt_max_search_p50_ms = cents 10000, gt_max_search_p95_ms = cents 30000,
     gt_max_search_ms_per_query = cents 5000, gt_min_throughput_mb_s = cents 100, gt_max_p50_regression_ratio = cents 105,
     gt_max_p95_regression_ratio = cents 110, gt_max_search_time_regression_ratio = cents 108,
     gt_max_memory_regression_ratio = cents 115, gt_max_fallback_rate = cents 25, gt_max_mean_regret_ratio = cents 15,
     gt_max_p95_regret_ratio = cents 30, gt_max_suboptimal_plan_ratio = cents 20, gt_rollback_p50_regression_ratio = cents 115,
     gt_rollback_p95_regression_ratio = cents 125, gt_rollback_fallback_rate = cents 50, gt_rollback_mean_regret_ratio = cents 40,
     gt_rollback_memory_regression_ratio = cents 130, gt_require_correctness_pass = True\<rparr>"

definition strict_release_gate :: gate_thresholds where
  "strict_release_gate = default_release_gate\<lparr>gt_max_search_p50_ms := cents 5000, gt_max_search_p95_ms := cents 15000,
     gt_max_search_ms_per_query := cents 2500, gt_min_throughput_mb_s := cents 500, gt_max_p50_regression_ratio := cents 102,
     gt_max_p95_regression_ratio := cents 105, gt_max_search_time_regression_ratio := cents 103,
     gt_max_memory_regression_ratio := cents 110, gt_max_fallback_rate := cents 15, gt_max_mean_regret_ratio := cents 10,
     gt_max_p95_regret_ratio := cents 20, gt_max_suboptimal_plan_ratio := cents 10, gt_rollback_p50_regression_ratio := cents 110,
     gt_rollback_p95_regression_ratio := cents 115, gt_rollback_fallback_rate := cents 35,
     gt_rollback_mean_regret_ratio := cents 25\<rparr>"

text \<open>Of a verdict the record keeps what the gate reads; the measured figures are only printed.\<close>

record scenario_verdict =
  sv_name :: bytes
  sv_status :: gate_status
  sv_classification :: workload_classification
  sv_correctness_pass :: bool
  sv_violations :: "bytes list"
  sv_warnings :: "bytes list"

text \<open>A limit that was exceeded, with the value and the limit as the percentages in the text.\<close>

datatype shadow_limit = SuboptimalRatio | FallbackRate | MeanRegret | P95Regret
datatype gate_reason = CorrectnessFailed bytes | ScenarioSays bytes bytes | LimitExceeded shadow_limit fp fp

record gate_evaluation =
  ge_has_rollback :: bool
  ge_has_fail :: bool
  ge_has_warn :: bool
  ge_rollback_reasons :: "gate_reason list"
  ge_failure_reasons :: "gate_reason list"
  ge_warning_reasons :: "gate_reason list"
  ge_wins_count :: nat
  ge_neutral_count :: nat
  ge_regressions_count :: nat

definition empty_evaluation :: gate_evaluation where
  "empty_evaluation = \<lparr>ge_has_rollback = False, ge_has_fail = False, ge_has_warn = False, ge_rollback_reasons = [],
     ge_failure_reasons = [], ge_warning_reasons = [], ge_wins_count = 0, ge_neutral_count = 0, ge_regressions_count = 0\<rparr>"

definition add_rollback :: "gate_reason list \<Rightarrow> gate_evaluation \<Rightarrow> gate_evaluation" where
  "add_rollback rs e = e\<lparr>ge_has_rollback := True, ge_rollback_reasons := ge_rollback_reasons e @ rs\<rparr>"

definition add_failure :: "gate_reason list \<Rightarrow> gate_evaluation \<Rightarrow> gate_evaluation" where
  "add_failure rs e = e\<lparr>ge_has_fail := True, ge_failure_reasons := ge_failure_reasons e @ rs\<rparr>"

definition judge_scenario :: "gate_thresholds \<Rightarrow> scenario_verdict \<Rightarrow> gate_evaluation \<Rightarrow> gate_evaluation" where
  "judge_scenario t sc e0 =
     (let e1 = (case sv_classification sc of
            Win \<Rightarrow> e0\<lparr>ge_wins_count := ge_wins_count e0 + 1\<rparr>
          | Neutral \<Rightarrow> e0\<lparr>ge_neutral_count := ge_neutral_count e0 + 1\<rparr>
          | Regression \<Rightarrow> e0\<lparr>ge_regressions_count := ge_regressions_count e0 + 1\<rparr>);
          e2 = (if \<not> sv_correctness_pass sc \<and> gt_require_correctness_pass t then add_rollback [CorrectnessFailed (sv_name sc)] e1 else e1)
      in case sv_status sc of
           GateRollback \<Rightarrow> add_rollback (map (ScenarioSays (sv_name sc)) (sv_violations sc)) e2
         | GateFail \<Rightarrow> add_failure (map (ScenarioSays (sv_name sc)) (sv_violations sc)) e2
         | GateWarn \<Rightarrow> e2\<lparr>ge_has_warn := True,
                          ge_warning_reasons := ge_warning_reasons e2 @ map (ScenarioSays (sv_name sc)) (sv_warnings sc)\<rparr>
         | GatePass \<Rightarrow> e2)"

definition exceeded :: "shadow_limit \<Rightarrow> fp \<Rightarrow> fp \<Rightarrow> gate_reason list" where
  "exceeded what v limit = [LimitExceeded what (fp_mul v (Fin 100)) (fp_mul limit (Fin 100))]"

definition fail_above :: "shadow_limit \<Rightarrow> fp \<Rightarrow> fp \<Rightarrow> gate_evaluation \<Rightarrow> gate_evaluation" where
  "fail_above what v limit e = (if fp_less limit v then add_failure (exceeded what v limit) e else e)"

definition rollback_above :: "shadow_limit \<Rightarrow> fp \<Rightarrow> fp \<Rightarrow> fp \<Rightarrow> gate_evaluation \<Rightarrow> gate_evaluation" where
  "rollback_above what v hard limit e =
     (if fp_less hard v then add_rollback (exceeded what v hard) e else fail_above what v limit e)"

definition suboptimal_ratio :: "shadow_report \<Rightarrow> fp" where
  "suboptimal_ratio S = fp_div (fp_of_nat (sh_suboptimal_plan_count S)) (fp_of_nat (sh_total_queries S))"

definition judge_shadow :: "gate_thresholds \<Rightarrow> shadow_report \<Rightarrow> gate_evaluation \<Rightarrow> gate_evaluation" where
  "judge_shadow t S e =
     (if sh_total_queries S = 0 then e
      else fail_above P95Regret (sh_p95_regret S) (gt_max_p95_regret_ratio t)
        (rollback_above MeanRegret (sh_mean_regret S) (gt_rollback_mean_regret_ratio t) (gt_max_mean_regret_ratio t)
          (rollback_above FallbackRate (sh_fallback_rate S) (gt_rollback_fallback_rate t) (gt_max_fallback_rate t)
            (fail_above SuboptimalRatio (suboptimal_ratio S) (gt_max_suboptimal_plan_ratio t) e))))"

definition evaluate_performance_gate ::
  "scenario_verdict list \<Rightarrow> gate_thresholds \<Rightarrow> shadow_report \<Rightarrow> gate_evaluation" where
  "evaluate_performance_gate scs t S = judge_shadow t S (fold (judge_scenario t) scs empty_evaluation)"

text \<open>The status: a rollback wins over a failure, a failure over a warning.\<close>

definition overall_status :: "gate_evaluation \<Rightarrow> gate_status" where
  "overall_status e =
     (if ge_has_rollback e then GateRollback else if ge_has_fail e then GateFail
      else if ge_has_warn e then GateWarn else GatePass)"

definition release_passed :: "gate_evaluation \<Rightarrow> bool" where
  "release_passed e \<longleftrightarrow> overall_status e = GateWarn \<or> overall_status e = GatePass"

definition clean :: "gate_evaluation \<Rightarrow> bool" where
  "clean e \<longleftrightarrow> \<not> ge_has_rollback e \<and> \<not> ge_has_fail e"

lemma release_passed_clean: "release_passed e = clean e"
  by (auto simp: release_passed_def overall_status_def clean_def)

lemma clean_adders [simp]: "\<not> clean (add_rollback rs e)" "\<not> clean (add_failure rs e)"
  by (simp_all add: clean_def add_rollback_def add_failure_def)

lemma clean_above [simp]:
  "clean (fail_above what v limit e) \<longleftrightarrow> clean e \<and> \<not> fp_less limit v"
  "clean (rollback_above what v hard limit e) \<longleftrightarrow> clean e \<and> \<not> fp_less hard v \<and> \<not> fp_less limit v"
  by (auto simp: fail_above_def rollback_above_def)

definition good_scenario :: "gate_thresholds \<Rightarrow> scenario_verdict \<Rightarrow> bool" where
  "good_scenario t sc \<longleftrightarrow> sv_status sc \<in> {GatePass, GateWarn} \<and> (gt_require_correctness_pass t \<longrightarrow> sv_correctness_pass sc)"

lemma clean_judge_scenario [simp]: "clean (judge_scenario t sc e) \<longleftrightarrow> clean e \<and> good_scenario t sc"
  by (auto simp: judge_scenario_def good_scenario_def clean_def add_rollback_def add_failure_def Let_def
        split: gate_status.splits workload_classification.splits)

lemma clean_scenarios: "clean (fold (judge_scenario t) scs e) \<longleftrightarrow> clean e \<and> list_all (good_scenario t) scs"
  by (induction scs arbitrary: e) auto

text \<open>
  The gate passes exactly when every scenario is good and no limit on the shadow report is exceeded,
  the rollback limits included.
\<close>

lemma release_passed_iff:
  "release_passed (evaluate_performance_gate scs t S) \<longleftrightarrow>
     list_all (good_scenario t) scs \<and>
     (sh_total_queries S = 0 \<or>
      \<not> fp_less (gt_max_suboptimal_plan_ratio t) (suboptimal_ratio S) \<and>
      \<not> fp_less (gt_rollback_fallback_rate t) (sh_fallback_rate S) \<and> \<not> fp_less (gt_max_fallback_rate t) (sh_fallback_rate S) \<and>
      \<not> fp_less (gt_rollback_mean_regret_ratio t) (sh_mean_regret S) \<and> \<not> fp_less (gt_max_mean_regret_ratio t) (sh_mean_regret S) \<and>
      \<not> fp_less (gt_max_p95_regret_ratio t) (sh_p95_regret S))"
  by (auto simp: release_passed_clean evaluate_performance_gate_def judge_shadow_def clean_scenarios)
    (simp_all add: clean_def empty_evaluation_def)

text \<open>A reason is only given together with its flag, so a gate that passes names none.\<close>

definition reasons_flagged :: "gate_evaluation \<Rightarrow> bool" where
  "reasons_flagged e \<longleftrightarrow> (ge_has_rollback e \<or> ge_rollback_reasons e = []) \<and> (ge_has_fail e \<or> ge_failure_reasons e = [])"

lemma reasons_flagged_adders [simp]:
  "reasons_flagged e \<Longrightarrow> reasons_flagged (add_rollback rs e)" "reasons_flagged e \<Longrightarrow> reasons_flagged (add_failure rs e)"
  by (simp_all add: reasons_flagged_def add_rollback_def add_failure_def)

lemma reasons_flagged_steps:
  "reasons_flagged e \<Longrightarrow> reasons_flagged (judge_scenario t sc e)"
  "reasons_flagged e \<Longrightarrow> reasons_flagged (fail_above what v limit e)"
  "reasons_flagged e \<Longrightarrow> reasons_flagged (rollback_above what v hard limit e)"
  by (auto simp: judge_scenario_def fail_above_def rollback_above_def Let_def reasons_flagged_def add_rollback_def add_failure_def
        split: gate_status.splits workload_classification.splits)

lemma passed_release_names_no_reason:
  assumes "release_passed (evaluate_performance_gate scs t S)"
  shows "ge_rollback_reasons (evaluate_performance_gate scs t S) = [] \<and> ge_failure_reasons (evaluate_performance_gate scs t S) = []"
proof -
  have "reasons_flagged (fold (judge_scenario t) scs e)" if "reasons_flagged e" for e
    using that by (induction scs arbitrary: e) (simp_all add: reasons_flagged_steps)
  moreover have "reasons_flagged empty_evaluation" by (simp add: reasons_flagged_def empty_evaluation_def)
  ultimately have "reasons_flagged (evaluate_performance_gate scs t S)"
    by (simp add: evaluate_performance_gate_def judge_shadow_def reasons_flagged_steps)
  with assms show ?thesis by (auto simp: release_passed_clean clean_def reasons_flagged_def)
qed

end
