(* ===== verification/Provider.thy ===== *)
theory Provider
  imports Index_Data
begin

text \<open>
  \<open>CorpusProvider::mapped\<close> of \<open>index.cpp\<close> on POSIX systems: a source file is copied through an
  anonymous mapping, and read through a stream when that fails.  What the system calls return is
  the record \<open>provider_calls\<close>; the file may change between them.
\<close>

section \<open>The system calls\<close>

text \<open>
  The size and the modification time that \<open>std::filesystem\<close> reports for the path; whether \<open>open\<close>,
  \<open>mmap\<close> and \<open>mprotect\<close> succeed; size and time by \<open>fstat\<close> before and after the copy; what the file
  holds at the \<open>k\<close>-th \<open>pread\<close>, and the most bytes that call returns or \<open>None\<close> for an error; what
  the stream reads.  A call that is not at the end of the file returns at least one byte.
\<close>

record provider_calls =
  pc_size :: "nat option"
  pc_mtime :: int
  pc_open :: bool
  pc_fstat :: "(nat \<times> int) option"
  pc_mmap :: bool
  pc_view :: "nat \<Rightarrow> bytes"
  pc_limit :: "nat \<Rightarrow> nat option"
  pc_fstat_after :: "(nat \<times> int) option"
  pc_mprotect :: bool
  pc_stream :: "bytes option"

definition pread :: "provider_calls \<Rightarrow> nat \<Rightarrow> nat \<Rightarrow> nat \<Rightarrow> bytes option" where
  "pread c k off want = map_option (\<lambda>m. take (max 1 m) (substr (pc_view c k) off want)) (pc_limit c k)"

section \<open>The copy\<close>

text \<open>Blocks of one MiB; a short read ends the copy.\<close>

function copy_blocks :: "provider_calls \<Rightarrow> nat \<Rightarrow> nat \<Rightarrow> nat \<Rightarrow> bytes \<Rightarrow> (bytes \<times> nat) option" where
  "copy_blocks c n k off acc =
     (if off < n
      then let want = min (n - off) (2 ^ 20) in
        case pread c k off want of None \<Rightarrow> None
        | Some got \<Rightarrow> if length got = want then copy_blocks c n (k + 1) (off + want) (acc @ got) else None
      else Some (acc, k))"
  by pat_completeness auto
termination
  by (relation "measure (\<lambda>(c, n, k, off, acc). n - off)") auto

declare copy_blocks.simps [simp del]

definition file_matches :: "(nat \<times> int) option \<Rightarrow> nat \<Rightarrow> int \<Rightarrow> bool" where
  "file_matches st n mtime \<longleftrightarrow> (case st of None \<Rightarrow> False | Some (len, t) \<Rightarrow> len = n \<and> (mtime = 0 \<or> t = mtime))"

definition map_file :: "provider_calls \<Rightarrow> nat \<Rightarrow> int \<Rightarrow> bytes option" where
  "map_file c n mtime =
     (if \<not> pc_open c \<or> \<not> file_matches (pc_fstat c) n mtime \<or> \<not> pc_mmap c then None
      else case copy_blocks c n 0 0 [] of None \<Rightarrow> None
        | Some (data, k) \<Rightarrow>
            if pread c k n 1 = Some [] \<and> file_matches (pc_fstat_after c) n mtime \<and> pc_mprotect c then Some data else None)"

definition stream_file :: "provider_calls \<Rightarrow> nat \<Rightarrow> bytes result" where
  "stream_file c n =
     (case pc_stream c of None \<Rightarrow> Inl (Runtime_error ''indexed source disappeared'')
      | Some s \<Rightarrow> if length s < n \<or> n < length s then Inl (Runtime_error ''indexed source changed'') else Inr s)"

definition mapped :: "provider_calls \<Rightarrow> nat \<Rightarrow> int \<Rightarrow> bytes result" where
  "mapped c n mtime =
     (if pc_size c \<noteq> Some n then Inl (Runtime_error ''indexed source changed or disappeared'')
      else if mtime \<noteq> 0 \<and> pc_mtime c \<noteq> mtime then Inl (Runtime_error ''indexed source changed'')
      else if n = 0 then Inr []
      else case map_file c n mtime of Some data \<Rightarrow> Inr data | None \<Rightarrow> stream_file c n)"

section \<open>What a provider holds\<close>

lemma copy_blocks_length:
  "copy_blocks c n k off acc = Some (data, k') \<Longrightarrow> off \<le> n \<Longrightarrow> length data = length acc + (n - off)"
proof (induction c n k off acc rule: copy_blocks.induct)
  case (1 c n k off acc)
  from "1.prems" "1.IH" show ?case
    by (subst (asm) copy_blocks.simps) (auto simp: Let_def min_def split: if_splits option.splits)
qed

lemma pread_full: "pread c k off want = Some got \<Longrightarrow> length got = want \<Longrightarrow> got = substr (pc_view c k) off want"
  by (auto simp: pread_def substr_def min_def split: if_splits)

lemma copy_blocks_content:
  assumes "\<And>i. pc_view c i = s"
  shows "copy_blocks c n k off acc = Some (data, k') \<Longrightarrow> off \<le> n \<Longrightarrow> data = acc @ substr s off (n - off)"
  using assms
proof (induction c n k off acc rule: copy_blocks.induct)
  case (1 c n k off acc)
  show ?case
  proof (cases "off < n")
    case True
    define want where "want = min (n - off) (2 ^ 20)"
    obtain got where p: "pread c k off want = Some got" and got: "length got = want"
      and rest: "copy_blocks c n (k + 1) (off + want) (acc @ got) = Some (data, k')"
      using "1.prems"(1) True by (auto simp: copy_blocks.simps [of c n k off] want_def Let_def split: if_splits option.splits)
    have "data = (acc @ got) @ substr s (off + want) (n - (off + want))"
      using "1.IH" [OF True want_def p got rest _ "1.prems"(3)] True by (simp add: want_def)
    moreover have "got = substr s off want" using pread_full [OF p got] "1.prems"(3) by simp
    moreover have "substr s off want @ substr s (off + want) (n - (off + want)) = substr s off (n - off)"
      using take_add [of want "n - (off + want)" "drop off s"] True by (simp add: substr_def want_def add.commute)
    ultimately show ?thesis by simp
  qed (use "1.prems" in \<open>simp add: copy_blocks.simps [of c n k n acc] substr_def\<close>)
qed

text \<open>Whatever happens to the file, a provider has the size the index expects.\<close>

lemma mapped_size: "mapped c n mtime = Inr data \<Longrightarrow> length data = n"
  using copy_blocks_length [of c n 0 0 "[]"]
  by (auto simp: mapped_def map_file_def stream_file_def split: if_splits option.splits)

lemma map_file_content:
  assumes "\<And>i. pc_view c i = s" "map_file c (length s) mtime = Some data"
  shows "data = s"
proof -
  obtain k where "copy_blocks c (length s) 0 0 [] = Some (data, k)"
    using assms(2) by (auto simp: map_file_def split: if_splits option.splits)
  from copy_blocks_content [OF assms(1) this] show ?thesis by (simp add: substr_def)
qed

text \<open>For a file that keeps its content during the calls, attaching it succeeds exactly when size
  and recorded time agree and then gives its bytes, whichever of mapping, short reads and stream
  happens; otherwise it is the error that names the difference.\<close>

theorem mapped_exact:
  assumes "pc_size c = Some (length s)" "\<And>k. pc_view c k = s" "pc_stream c = Some s"
  shows "mapped c n mtime =
    (if n \<noteq> length s then Inl (Runtime_error ''indexed source changed or disappeared'')
     else if mtime \<noteq> 0 \<and> pc_mtime c \<noteq> mtime then Inl (Runtime_error ''indexed source changed'')
     else Inr s)"
  using assms map_file_content [OF assms(2)]
  by (auto simp: mapped_def stream_file_def split: option.splits)

text \<open>
  The times of \<open>std::filesystem\<close> and of \<open>fstat\<close> count from different epochs where the file clock is
  not the system clock (libstdc++); then the mapping is never used and every file is read through
  the stream.
\<close>

lemma other_epoch_reads_stream:
  assumes "pc_fstat c = Some (len, t)" "t \<noteq> mtime" "mtime \<noteq> 0"
  shows "map_file c n mtime = None"
  using assms by (simp add: map_file_def file_matches_def)

definition short_reads :: provider_calls where
  "short_reads = \<lparr>pc_size = Some 2, pc_mtime = 7, pc_open = True, pc_fstat = Some (2, 7), pc_mmap = True, pc_view = (\<lambda>_. [104, 105]),
     pc_limit = (\<lambda>_. Some 1), pc_fstat_after = Some (2, 7), pc_mprotect = True, pc_stream = Some [104, 105]\<rparr>"

theorem mapped_exact_witness: "mapped short_reads 2 7 = Inr [104, 105]"
  using mapped_exact [of short_reads "[104, 105]" 2 7] by (simp add: short_reads_def)

end
