(* ===== verification/Cli_Encoding.thy ===== *)
theory Cli_Encoding
  imports Api Index_Data Parser
begin

text \<open>
  The text codecs of the command line (\<open>cli.cpp\<close>): the UTF-8 test and the base64 and JSON forms of
  its JSON output, and the UTF-16 decoder of \<open>--encoding\<close>.  Masks and shifts of byte values are
  written as \<open>div\<close> and \<open>mod\<close>; the bits that the code joins with \<open>|\<close> are disjoint, so they are added.
\<close>

definition byte_of :: "nat \<Rightarrow> byte" where
  "byte_of n = of_nat n"

lemma unat_byte_of: "n < 256 \<Longrightarrow> unat (byte_of n) = n"
  by (simp add: byte_of_def unat_of_nat)

lemma byte_of_unat [simp]: "byte_of (unat c) = c"
  by (simp add: byte_of_def)

lemma unat_byte_less: "unat (c :: byte) < 256"
  using unsigned_less [where w = c] by simp

section \<open>UTF-8\<close>

text \<open>The encoder inside \<open>decode_utf16_bytes\<close>.\<close>

definition emit_utf8 :: "nat \<Rightarrow> bytes" where
  "emit_utf8 cp =
     (if cp \<le> 0x7F then [byte_of cp]
      else if cp \<le> 0x7FF then [byte_of (0xC0 + cp div 64), byte_of (0x80 + cp mod 64)]
      else if cp \<le> 0xFFFF then [byte_of (0xE0 + cp div 4096), byte_of (0x80 + cp div 64 mod 64), byte_of (0x80 + cp mod 64)]
      else [byte_of (0xF0 + cp div 262144), byte_of (0x80 + cp div 4096 mod 64), byte_of (0x80 + cp div 64 mod 64),
            byte_of (0x80 + cp mod 64)])"

text \<open>The length and the payload of a lead byte above 127.\<close>

definition utf8_lead :: "nat \<Rightarrow> (nat \<times> nat) option" where
  "utf8_lead v =
     (if v div 32 = 6 then (if v mod 32 < 2 then None else Some (2, v mod 32))
      else if v div 16 = 14 then Some (3, v mod 16)
      else if v div 8 = 30 then (if 4 < v mod 8 then None else Some (4, v mod 8))
      else None)"

fun utf8_tail :: "nat \<Rightarrow> nat \<Rightarrow> bytes \<Rightarrow> (nat \<times> bytes) option" where
  "utf8_tail 0 cp s = Some (cp, s)"
| "utf8_tail (Suc k) cp [] = None"
| "utf8_tail (Suc k) cp (d # s) = (if unat d div 64 \<noteq> 2 then None else utf8_tail k (cp * 64 + unat d mod 64) s)"

lemma utf8_tail_numeral [simp]:
  "utf8_tail (Suc 0) cp s = (case s of [] \<Rightarrow> None | d # s' \<Rightarrow> if unat d div 64 \<noteq> 2 then None else Some (cp * 64 + unat d mod 64, s'))"
  "utf8_tail 2 cp s = (case s of [] \<Rightarrow> None | d # s' \<Rightarrow> if unat d div 64 \<noteq> 2 then None else utf8_tail (Suc 0) (cp * 64 + unat d mod 64) s')"
  "utf8_tail 3 cp s = (case s of [] \<Rightarrow> None | d # s' \<Rightarrow> if unat d div 64 \<noteq> 2 then None else utf8_tail 2 (cp * 64 + unat d mod 64) s')"
  by (simp_all add: numeral_3_eq_3 numeral_2_eq_2 split: list.splits)

lemma utf8_tail_shorter: "utf8_tail k cp s = Some (cp', rest) \<Longrightarrow> length rest \<le> length s"
  by (induction k cp s rule: utf8_tail.induct) (auto split: if_splits)

function valid_utf8 :: "bytes \<Rightarrow> bool" where
  "valid_utf8 [] = True"
| "valid_utf8 (c # s) =
     (if unat c < 0x80 then valid_utf8 s
      else case utf8_lead (unat c) of None \<Rightarrow> False
        | Some (n, cp0) \<Rightarrow>
            (case utf8_tail (n - 1) cp0 s of None \<Rightarrow> False
             | Some (cp, rest) \<Rightarrow>
                 \<not> (n = 3 \<and> cp < 0x800 \<or> n = 4 \<and> cp < 0x10000 \<or> 0x10FFFF < cp \<or> 0xD800 \<le> cp \<and> cp \<le> 0xDFFF) \<and>
                 valid_utf8 rest))"
  by pat_completeness auto
termination
  by (relation "measure length") (auto dest: utf8_tail_shorter simp: less_Suc_eq_le)

definition scalar :: "nat \<Rightarrow> bool" where
  "scalar cp \<longleftrightarrow> cp \<le> 0x10FFFF \<and> \<not> (0xD800 \<le> cp \<and> cp \<le> 0xDFFF)"

lemma lead_of_emit:
  "x < 32 \<Longrightarrow> 2 \<le> x \<Longrightarrow> utf8_lead (192 + x) = Some (2, x)"
  "x < 16 \<Longrightarrow> utf8_lead (224 + x) = Some (3, x)"
  "x \<le> 4 \<Longrightarrow> utf8_lead (240 + x) = Some (4, x)"
proof -
  show "utf8_lead (192 + x) = Some (2, x)" if "x < 32" "2 \<le> x"
  proof -
    have "(192 + x) div 32 = 6" "(192 + x) mod 32 = x" using that by (simp_all add: div_nat_eqI mod_nat_eqI)
    with that show ?thesis by (simp add: utf8_lead_def)
  qed
  show "utf8_lead (224 + x) = Some (3, x)" if "x < 16"
  proof -
    have "(224 + x) div 32 = 7" "(224 + x) div 16 = 14" "(224 + x) mod 16 = x" using that by (simp_all add: div_nat_eqI mod_nat_eqI)
    then show ?thesis by (simp add: utf8_lead_def)
  qed
  show "utf8_lead (240 + x) = Some (4, x)" if "x \<le> 4"
  proof -
    have "(240 + x) div 32 = 7" "(240 + x) div 16 = 15" "(240 + x) div 8 = 30" "(240 + x) mod 8 = x"
      using that by (simp_all add: div_nat_eqI mod_nat_eqI)
    with that show ?thesis by (simp add: utf8_lead_def)
  qed
qed

lemma tail_byte:
  assumes "x < 64"
  shows "unat (byte_of (128 + x)) div 64 = 2 \<and> unat (byte_of (128 + x)) mod 64 = x"
proof -
  have "(128 + x) div 64 = 2" "(128 + x) mod 64 = x" using assms by (simp_all add: div_nat_eqI mod_nat_eqI)
  with assms show ?thesis by (simp add: unat_byte_of)
qed

text \<open>One encoded value in front, by its number of bytes.\<close>

lemma valid_two:
  "utf8_lead (unat c) = Some (2, x) \<Longrightarrow> 0x80 \<le> unat c \<Longrightarrow> unat d div 64 = 2 \<Longrightarrow> scalar (x * 64 + unat d mod 64) \<Longrightarrow>
   valid_utf8 (c # d # s) = valid_utf8 s"
  by (simp add: scalar_def)

lemma valid_three:
  "utf8_lead (unat c) = Some (3, x) \<Longrightarrow> 0x80 \<le> unat c \<Longrightarrow> unat d div 64 = 2 \<Longrightarrow> unat d2 div 64 = 2 \<Longrightarrow>
   (x * 64 + unat d mod 64) * 64 + unat d2 mod 64 = cp \<Longrightarrow> 0x800 \<le> cp \<Longrightarrow> scalar cp \<Longrightarrow>
   valid_utf8 (c # d # d2 # s) = valid_utf8 s"
  by (simp add: scalar_def)

lemma valid_four:
  "utf8_lead (unat c) = Some (4, x) \<Longrightarrow> 0x80 \<le> unat c \<Longrightarrow> unat d div 64 = 2 \<Longrightarrow> unat d2 div 64 = 2 \<Longrightarrow> unat d3 div 64 = 2 \<Longrightarrow>
   ((x * 64 + unat d mod 64) * 64 + unat d2 mod 64) * 64 + unat d3 mod 64 = cp \<Longrightarrow> 0x10000 \<le> cp \<Longrightarrow> scalar cp \<Longrightarrow>
   valid_utf8 (c # d # d2 # d3 # s) = valid_utf8 s"
  by (simp add: scalar_def)

lemma valid_utf8_emit:
  assumes "scalar cp"
  shows "valid_utf8 (emit_utf8 cp @ s) = valid_utf8 s"
proof -
  have bound: "cp \<le> 0x10FFFF" using assms by (simp add: scalar_def)
  note tail = tail_byte [of "cp mod 64"] tail_byte [of "cp div 64 mod 64"] tail_byte [of "cp div 4096 mod 64"]
  consider "cp \<le> 0x7F" | "0x7F < cp" "cp \<le> 0x7FF" | "0x7FF < cp" "cp \<le> 0xFFFF" | "0xFFFF < cp" by linarith
  then show ?thesis
  proof cases
    case 1
    then show ?thesis by (simp add: emit_utf8_def unat_byte_of)
  next
    case 2
    have x: "cp div 64 < 32" "2 \<le> cp div 64" using 2 by (simp_all add: less_mult_imp_div_less less_eq_div_iff_mult_less_eq)
    have "valid_utf8 (byte_of (192 + cp div 64) # byte_of (128 + cp mod 64) # s) = valid_utf8 s"
      by (rule valid_two [where x = "cp div 64"]) (use x lead_of_emit(1) [OF x] tail(1) assms in \<open>simp_all add: unat_byte_of\<close>)
    with 2 show ?thesis by (simp add: emit_utf8_def)
  next
    case 3
    have x: "cp div 4096 < 16" using 3 by (simp add: less_mult_imp_div_less)
    have "(cp div 4096 * 64 + cp div 64 mod 64) * 64 + cp mod 64 = cp"
      using div_mult_mod_eq [of "cp div 64" 64] div_mult_mod_eq [of cp 64] by (simp add: div_mult2_eq [symmetric])
    then have "valid_utf8 (byte_of (224 + cp div 4096) # byte_of (128 + cp div 64 mod 64) # byte_of (128 + cp mod 64) # s) = valid_utf8 s"
      using x lead_of_emit(2) [OF x] tail(1,2) 3 assms
      by (intro valid_three [where x = "cp div 4096" and cp = cp]) (simp_all add: unat_byte_of)
    with 3 show ?thesis by (simp add: emit_utf8_def)
  next
    case 4
    have "cp div 262144 < 5" using bound by (simp add: less_mult_imp_div_less)
    then have x: "cp div 262144 \<le> 4" by simp
    let ?c = "byte_of (240 + cp div 262144)" and ?d = "byte_of (128 + cp div 4096 mod 64)"
      and ?d2 = "byte_of (128 + cp div 64 mod 64)" and ?d3 = "byte_of (128 + cp mod 64)"
    have c: "utf8_lead (unat ?c) = Some (4, cp div 262144)" "0x80 \<le> unat ?c"
      using x lead_of_emit(3) [OF x] by (simp_all add: unat_byte_of)
    have t: "unat ?d div 64 = 2" "unat ?d2 div 64 = 2" "unat ?d3 div 64 = 2"
      "unat ?d mod 64 = cp div 4096 mod 64" "unat ?d2 mod 64 = cp div 64 mod 64" "unat ?d3 mod 64 = cp mod 64"
      by (simp_all add: tail_byte)
    have "((cp div 262144 * 64 + unat ?d mod 64) * 64 + unat ?d2 mod 64) * 64 + unat ?d3 mod 64 = cp"
      unfolding t using div_mult_mod_eq [of "cp div 4096" 64] div_mult_mod_eq [of "cp div 64" 64] div_mult_mod_eq [of cp 64]
      by (simp add: div_mult2_eq [symmetric])
    from valid_four [OF c t(1-3) this _ assms] 4 have "valid_utf8 (?c # ?d # ?d2 # ?d3 # s) = valid_utf8 s" by simp
    with 4 show ?thesis by (simp add: emit_utf8_def)
  qed
qed

lemma cont_byte: "unat d div 64 = 2 \<Longrightarrow> d = byte_of (128 + unat d mod 64)"
proof -
  assume "unat d div 64 = 2"
  then have "128 + unat d mod 64 = unat d" using div_mult_mod_eq [of "unat d" 64] by simp
  then show ?thesis by simp
qed

lemma digit_div: "(x * 64 + unat (d :: byte) mod 64) div 64 = x"
  by simp

lemma digit_mod: "(x * 64 + unat (d :: byte) mod 64) mod 64 = unat d mod 64"
  by (simp add: mod_simps)

lemma decode_emit:
  assumes "utf8_lead (unat c) = Some (n, cp0)" "utf8_tail (n - 1) cp0 s = Some (cp, rest)"
    and "\<not> (n = 3 \<and> cp < 0x800 \<or> n = 4 \<and> cp < 0x10000 \<or> 0x10FFFF < cp \<or> 0xD800 \<le> cp \<and> cp \<le> 0xDFFF)"
  shows "c # s = emit_utf8 cp @ rest \<and> scalar cp"
proof -
  have sc: "scalar cp" using assms(3) by (auto simp: scalar_def)
  have v: "unat c = 192 + unat c mod 32" if "unat c div 32 = 6" using that div_mult_mod_eq [of "unat c" 32] by simp
  have v3: "unat c = 224 + unat c mod 16" if "unat c div 16 = 14" using that div_mult_mod_eq [of "unat c" 16] by simp
  have v4: "unat c = 240 + unat c mod 8" if "unat c div 8 = 30" using that div_mult_mod_eq [of "unat c" 8] by simp
  consider "n = 2" "unat c = 192 + cp0" "2 \<le> cp0" "cp0 < 32"
    | "n = 3" "unat c = 224 + cp0" "cp0 < 16"
    | "n = 4" "unat c = 240 + cp0" "cp0 \<le> 4"
  proof -
    have "unat c div 32 = 6 \<and> n = 2 \<and> cp0 = unat c mod 32 \<and> \<not> cp0 < 2 \<or>
        unat c div 16 = 14 \<and> n = 3 \<and> cp0 = unat c mod 16 \<or>
        unat c div 8 = 30 \<and> n = 4 \<and> cp0 = unat c mod 8 \<and> \<not> 4 < cp0"
      using assms(1) by (auto simp: utf8_lead_def split: if_splits)
    then show thesis
    proof (elim disjE conjE)
      assume h: "unat c div 32 = 6" "n = 2" "cp0 = unat c mod 32" "\<not> cp0 < 2"
      show thesis by (rule that(1)) (use h v [OF h(1)] in \<open>simp_all only: not_less mod_less_divisor zero_less_numeral\<close>)
    next
      assume h: "unat c div 16 = 14" "n = 3" "cp0 = unat c mod 16"
      show thesis by (rule that(2)) (use h v3 [OF h(1)] in \<open>simp_all only: mod_less_divisor zero_less_numeral\<close>)
    next
      assume h: "unat c div 8 = 30" "n = 4" "cp0 = unat c mod 8" "\<not> 4 < cp0"
      show thesis by (rule that(3)) (use h v4 [OF h(1)] in \<open>simp_all only: not_less\<close>)
    qed
  qed
  then show ?thesis
  proof cases
    case 1
    obtain d where s: "s = d # rest" "unat d div 64 = 2" "cp = cp0 * 64 + unat d mod 64"
      using assms(2) 1(1) by (auto split: list.splits if_splits)
    have "cp div 64 = cp0" "cp mod 64 = unat d mod 64" "0x7F < cp" "cp \<le> 0x7FF" 
      using s(3) 1(3,4) mod_less_divisor [of 64 "unat d"] by (simp, simp, linarith, linarith)
    moreover have "c = byte_of (192 + cp0)" using 1(2) by (metis byte_of_unat)
    ultimately show ?thesis using sc s(1) cont_byte [OF s(2)] by (simp add: emit_utf8_def)
  next
    case 2
    obtain d d2 where s: "s = d # d2 # rest" "unat d div 64 = 2" "unat d2 div 64 = 2"
        "cp = (cp0 * 64 + unat d mod 64) * 64 + unat d2 mod 64"
      using assms(2) 2(1) by (cases s) (auto split: list.splits if_splits)
    have "cp div 64 = cp0 * 64 + unat d mod 64" "cp mod 64 = unat d2 mod 64" unfolding s(4) by (rule digit_div digit_mod)+
    then have "cp div 4096 = cp0" "cp div 64 mod 64 = unat d mod 64" "cp mod 64 = unat d2 mod 64"
      using div_mult2_eq [of cp 64 64] by simp_all
    moreover have "0x7FF < cp" "cp \<le> 0xFFFF" using assms(3) 2(1) s(4) 2(3) mod_less_divisor [of 64 "unat d"] mod_less_divisor [of 64 "unat d2"] by simp_all
    moreover have "c = byte_of (224 + cp0)" using 2(2) by (metis byte_of_unat)
    ultimately show ?thesis using sc s(1) cont_byte [OF s(2)] cont_byte [OF s(3)] by (simp add: emit_utf8_def)
  next
    case 3
    obtain d d2 d3 where s: "s = d # d2 # d3 # rest" "unat d div 64 = 2" "unat d2 div 64 = 2" "unat d3 div 64 = 2"
        "cp = ((cp0 * 64 + unat d mod 64) * 64 + unat d2 mod 64) * 64 + unat d3 mod 64"
      using assms(2) 3(1) by (cases s; cases "tl s") (auto split: list.splits if_splits)
    have a: "cp div 64 = (cp0 * 64 + unat d mod 64) * 64 + unat d2 mod 64" "cp mod 64 = unat d3 mod 64"
      unfolding s(5) by (rule digit_div digit_mod)+
    have b: "cp div 4096 = cp0 * 64 + unat d mod 64"
      using div_mult2_eq [of cp 64 64] digit_div [of "cp0 * 64 + unat d mod 64" d2] unfolding a by simp
    have "cp div 262144 = cp0" using div_mult2_eq [of cp 4096 64] digit_div [of cp0 d] unfolding b by simp
    moreover have "cp div 4096 mod 64 = unat d mod 64" "cp div 64 mod 64 = unat d2 mod 64" "cp mod 64 = unat d3 mod 64"
      unfolding a b by (rule digit_mod refl)+
    moreover have "0xFFFF < cp" using assms(3) 3(1) by auto
    moreover have "c = byte_of (240 + cp0)" using 3(2) by (metis byte_of_unat)
    ultimately show ?thesis using sc s(1) cont_byte [OF s(2)] cont_byte [OF s(3)] cont_byte [OF s(4)] by (simp add: emit_utf8_def)
  qed
qed

lemma emit_ascii: "unat c < 0x80 \<Longrightarrow> emit_utf8 (unat c) = [c] \<and> scalar (unat c)"
  by (simp add: emit_utf8_def scalar_def)

text \<open>C36: The UTF-8 test of the JSON output accepts exactly the concatenations of encoded Unicode
  scalar values: no overlong form, no surrogate, nothing above U+10FFFF and no truncated sequence
  passes.\<close>

theorem valid_utf8_exact:
  "valid_utf8 s \<longleftrightarrow> (\<exists>cps. set cps \<subseteq> Collect scalar \<and> s = concat (map emit_utf8 cps))"
proof
  show "\<exists>cps. set cps \<subseteq> Collect scalar \<and> s = concat (map emit_utf8 cps)" if "valid_utf8 s"
    using that
  proof (induction s rule: valid_utf8.induct)
    case (2 c s)
    have "\<exists>cp rest. scalar cp \<and> c # s = emit_utf8 cp @ rest \<and>
        (\<exists>cps. set cps \<subseteq> Collect scalar \<and> rest = concat (map emit_utf8 cps))"
    proof (cases "unat c < 0x80")
      case True
      with 2 emit_ascii [OF True] show ?thesis by (intro exI [of _ "unat c"] exI [of _ s]) simp
    next
      case False
      with "2.prems" obtain n cp0 cp rest where d: "utf8_lead (unat c) = Some (n, cp0)"
          "utf8_tail (n - 1) cp0 s = Some (cp, rest)"
          "\<not> (n = 3 \<and> cp < 0x800 \<or> n = 4 \<and> cp < 0x10000 \<or> 0x10FFFF < cp \<or> 0xD800 \<le> cp \<and> cp \<le> 0xDFFF)" "valid_utf8 rest"
        by (auto split: option.splits)
      from "2.IH"(2) [OF False d(1) refl d(2) refl d(4)] decode_emit [OF d(1-3)] show ?thesis by blast
    qed
    then obtain cp rest cps where "scalar cp" "c # s = emit_utf8 cp @ rest" "set cps \<subseteq> Collect scalar" "rest = concat (map emit_utf8 cps)"
      by blast
    then show ?case by (intro exI [of _ "cp # cps"]) simp
  qed (auto intro: exI [of _ "[]"])
  have "valid_utf8 (concat (map emit_utf8 cps))" if "set cps \<subseteq> Collect scalar" for cps
    using that by (induction cps) (simp_all add: valid_utf8_emit)
  then show "valid_utf8 s" if "\<exists>cps. set cps \<subseteq> Collect scalar \<and> s = concat (map emit_utf8 cps)"
    using that by blast
qed


section \<open>UTF-16\<close>

definition unit16 :: "bool \<Rightarrow> byte \<Rightarrow> byte \<Rightarrow> nat" where
  "unit16 little a b = (if little then unat a + 256 * unat b else 256 * unat a + unat b)"

definition trail_unit :: "bool \<Rightarrow> bytes \<Rightarrow> nat option" where
  "trail_unit little s =
     (case s of a # b # s' \<Rightarrow>
        (let w2 = unit16 little a b in if 0xDC00 \<le> w2 \<and> w2 \<le> 0xDFFF then Some w2 else None)
      | _ \<Rightarrow> None)"

fun decode_units :: "bool \<Rightarrow> bytes \<Rightarrow> bytes" where
  "decode_units little (a # b # s) =
     (let w = unit16 little a b in
      case (if 0xD800 \<le> w \<and> w \<le> 0xDBFF then trail_unit little s else None) of
        Some w2 \<Rightarrow> emit_utf8 (0x10000 + (w - 0xD800) * 1024 + (w2 - 0xDC00)) @ decode_units little (drop 2 s)
      | None \<Rightarrow> (if 0xDC00 \<le> w \<and> w \<le> 0xDFFF then emit_utf8 0xFFFD else emit_utf8 w) @ decode_units little s)"
| "decode_units little s = []"

definition has_bom :: "bool \<Rightarrow> bytes \<Rightarrow> bool" where
  "has_bom little s = (take 2 s = (if little then [0xFF, 0xFE] else [0xFE, 0xFF]))"

definition decode_utf16_bytes :: "bytes \<Rightarrow> bool \<Rightarrow> bool \<Rightarrow> bytes" where
  "decode_utf16_bytes s little bom_allowed =
     decode_units little (if bom_allowed \<and> (has_bom True s \<or> has_bom False s) then drop 2 s else s)"

text \<open>
  \<open>iconv\<close> is a parameter: for an encoding name no converter, or one that converts the whole input
  or rejects it.  \<open>die\<close> is an error value.
\<close>

definition iconv_to_utf8 :: "(bytes \<Rightarrow> (bytes \<Rightarrow> bytes option) option) \<Rightarrow> bytes \<Rightarrow> bytes \<Rightarrow> bytes result" where
  "iconv_to_utf8 iconv s enc =
     (case iconv enc of None \<Rightarrow> Inl (Runtime_error ''unknown or unsupported encoding'')
      | Some conv \<Rightarrow>
          if s = [] then Inr []
          else (case conv s of None \<Rightarrow> Inl (Runtime_error ''input is not valid for encoding'')
            | Some out \<Rightarrow> Inr (if take 3 out = [0xEF, 0xBB, 0xBF] then drop 3 out else out)))"

definition decode_input :: "(bytes \<Rightarrow> (bytes \<Rightarrow> bytes option) option) \<Rightarrow> bytes \<Rightarrow> bytes \<Rightarrow> bytes result" where
  "decode_input iconv s enc =
     (let lower = map ascii_tolower enc in
      if lower = ascii_bytes ''auto'' then
        Inr (if has_bom True s then decode_utf16_bytes s True True
             else if has_bom False s then decode_utf16_bytes s False True else s)
      else if lower \<in> set [ascii_bytes ''none'', ascii_bytes ''utf-8'', ascii_bytes ''utf8''] then Inr s
      else if lower \<in> set [ascii_bytes ''utf-16le'', ascii_bytes ''utf16le''] then Inr (decode_utf16_bytes s True True)
      else if lower \<in> set [ascii_bytes ''utf-16be'', ascii_bytes ''utf16be''] then Inr (decode_utf16_bytes s False True)
      else if lower \<in> set [ascii_bytes ''utf-16'', ascii_bytes ''utf16''] then
        Inr (if has_bom False s then decode_utf16_bytes s False True else decode_utf16_bytes s True True)
      else iconv_to_utf8 iconv s enc)"

text \<open>The encoding form of the Unicode standard, which the decoder inverts.\<close>

definition unit_bytes :: "bool \<Rightarrow> nat \<Rightarrow> bytes" where
  "unit_bytes little w =
     (if little then [byte_of (w mod 256), byte_of (w div 256)] else [byte_of (w div 256), byte_of (w mod 256)])"

definition encode_utf16 :: "bool \<Rightarrow> nat \<Rightarrow> bytes" where
  "encode_utf16 little cp =
     (if cp < 0x10000 then unit_bytes little cp
      else unit_bytes little (0xD800 + (cp - 0x10000) div 1024) @ unit_bytes little (0xDC00 + (cp - 0x10000) mod 1024))"

lemma unit_bytes_cases:
  assumes "w < 0x10000"
  obtains a b where "unit_bytes little w = [a, b]" "unit16 little a b = w"
proof -
  have "w div 256 < 256" using assms by (simp add: less_mult_imp_div_less)
  then show thesis using that by (cases little) (simp_all add: unit_bytes_def unit16_def unat_byte_of)
qed

lemma decode_units_one:
  assumes "scalar cp"
  shows "decode_units little (encode_utf16 little cp @ s) = emit_utf8 cp @ decode_units little s"
proof (cases "cp < 0x10000")
  case True
  then obtain a b where "unit_bytes little cp = [a, b]" "unit16 little a b = cp" by (rule unit_bytes_cases)
  moreover have "\<not> (0xD800 \<le> cp \<and> cp \<le> 0xDBFF)" "\<not> (0xDC00 \<le> cp \<and> cp \<le> 0xDFFF)" using assms by (auto simp: scalar_def)
  ultimately show ?thesis using True by (simp add: encode_utf16_def Let_def del: de_Morgan_conj)
next
  case False
  define h l where "h = (cp - 0x10000) div 1024" and "l = (cp - 0x10000) mod 1024"
  have h: "h < 1024" using assms False by (simp add: h_def scalar_def less_mult_imp_div_less)
  have l: "l < 1024" by (simp add: l_def)
  have cp: "0x10000 + h * 1024 + l = cp" using False div_mult_mod_eq [of "cp - 0x10000" 1024] unfolding h_def l_def by linarith
  obtain a b where ab: "unit_bytes little (0xD800 + h) = [a, b]" "unit16 little a b = 0xD800 + h"
    by (rule unit_bytes_cases [of "0xD800 + h" little]) (use h in simp_all)
  obtain c d where cd: "unit_bytes little (0xDC00 + l) = [c, d]" "unit16 little c d = 0xDC00 + l"
    by (rule unit_bytes_cases [of "0xDC00 + l" little]) (use l in simp_all)
  have "encode_utf16 little cp = [a, b, c, d]" using False ab cd by (simp add: encode_utf16_def h_def l_def)
  moreover have "trail_unit little (c # d # s) = Some (0xDC00 + l)" using cd l by (simp add: trail_unit_def)
  ultimately show ?thesis using ab h cp by simp
qed

lemma decode_units_encode:
  "set cps \<subseteq> Collect scalar \<Longrightarrow> decode_units little (concat (map (encode_utf16 little) cps)) = concat (map emit_utf8 cps)"
  by (induction cps) (simp_all add: decode_units_one)

lemma encode_bom: "encode_utf16 little 0xFEFF = (if little then [0xFF, 0xFE] else [0xFE, 0xFF])"
  by (simp add: encode_utf16_def unit_bytes_def byte_of_def)

text \<open>C37: A UTF-16 text with a byte order mark, of either byte order, is decoded to the UTF-8 encoding
  of the mark-free text, surrogate pairs included, whether the encoding is detected or named.\<close>

theorem utf16_files_decoded:
  assumes "set cps \<subseteq> Collect scalar" "enc \<in> set [''auto'', ''utf-16'', if little then ''UTF-16LE'' else ''utf16be'']"
  shows "decode_input iconv (encode_utf16 little 0xFEFF @ concat (map (encode_utf16 little) cps)) (ascii_bytes enc) =
    Inr (concat (map emit_utf8 cps))"
  using assms(2) decode_units_encode [OF assms(1), of little]
  by (cases little) (auto simp: decode_input_def decode_utf16_bytes_def has_bom_def encode_bom ascii_bytes_def ascii_tolower_def)

theorem utf16_files_decoded_witness:
  "decode_input (\<lambda>_. None) [0xFF, 0xFE, 0x3D, 0xD8, 0x00, 0xDE] (ascii_bytes ''auto'') = Inr [0xF0, 0x9F, 0x98, 0x80]"
  using utf16_files_decoded [of "[0x1F600]" "''auto''" True "\<lambda>_. None"]
  by (simp add: scalar_def encode_utf16_def unit_bytes_def emit_utf8_def byte_of_def)

text \<open>
  A lone trailing surrogate becomes U+FFFD, but a lone leading one is encoded as it is, and the text
  that is searched is then not UTF-8.
\<close>

lemma lone_leading_surrogate:
  "decode_utf16_bytes [0x00, 0xDC] True True = emit_utf8 0xFFFD"
  "decode_utf16_bytes [0x00, 0xD8] True True = [0xED, 0xA0, 0x80]"
  "\<not> valid_utf8 [0xED, 0xA0, 0x80]"
  by (simp_all add: decode_utf16_bytes_def has_bom_def unit16_def trail_unit_def emit_utf8_def byte_of_def utf8_lead_def)


section \<open>JSON\<close>

definition hex_digit :: "nat \<Rightarrow> byte" where
  "hex_digit n = byte_of (if n < 10 then 48 + n else 87 + n)"

definition json_escape_byte :: "byte \<Rightarrow> bytes" where
  "json_escape_byte c =
     (if c = 34 then [92, 34] else if c = 92 then [92, 92] else if c = 10 then [92, 110] else if c = 13 then [92, 114]
      else if c = 9 then [92, 116]
      else if c < 32 then [92, 117, 48, 48, hex_digit (unat c div 16), hex_digit (unat c mod 16)]
      else [c])"

definition json_escape :: "bytes \<Rightarrow> bytes" where
  "json_escape s = concat (map json_escape_byte s)"

definition b64_table :: bytes where
  "b64_table = ascii_bytes ''ABCDEFGHIJKLMNOPQRSTUVWXYZabcdefghijklmnopqrstuvwxyz0123456789+/''"

definition b64_group :: "nat \<Rightarrow> nat \<Rightarrow> bytes" where
  "b64_group v n =
     [b64_table ! (v div 262144 mod 64), b64_table ! (v div 4096 mod 64),
      if 1 < n then b64_table ! (v div 64 mod 64) else 61, if 2 < n then b64_table ! (v mod 64) else 61]"

fun base64 :: "bytes \<Rightarrow> bytes" where
  "base64 [] = []"
| "base64 [a] = b64_group (unat a * 65536) 1"
| "base64 [a, b] = b64_group (unat a * 65536 + unat b * 256) 2"
| "base64 (a # b # c # s) = b64_group (unat a * 65536 + unat b * 256 + unat c) 3 @ base64 s"

definition json_data :: "bytes \<Rightarrow> bytes" where
  "json_data s =
     (if valid_utf8 s then ascii_bytes ''{\"text\":\"'' @ json_escape s @ ascii_bytes ''\"}''
      else ascii_bytes ''{\"bytes\":\"'' @ base64 s @ ascii_bytes ''\"}'')"

text \<open>A reader of one escaped byte, the left inverse of the escapes.\<close>

definition hex_value :: "byte \<Rightarrow> nat" where
  "hex_value x = (if unat x < 58 then unat x - 48 else unat x - 87)"

definition json_read :: "bytes \<Rightarrow> byte \<times> bytes" where
  "json_read s =
     (if s ! 0 \<noteq> 92 then (s ! 0, drop 1 s)
      else if s ! 1 = 117 then (byte_of (hex_value (s ! 4) * 16 + hex_value (s ! 5)), drop 6 s)
      else (if s ! 1 = 110 then 10 else if s ! 1 = 114 then 13 else if s ! 1 = 116 then 9 else s ! 1, drop 2 s))"

lemma hex_value_digit: "i < 16 \<Longrightarrow> hex_value (hex_digit i) = i"
  by (simp add: hex_value_def hex_digit_def unat_byte_of)

lemma json_read_escape: "json_read (json_escape_byte c @ x) = (c, x)"
proof -
  have "byte_of (hex_value (hex_digit (unat c div 16)) * 16 + hex_value (hex_digit (unat c mod 16))) = c"
    using unat_byte_less [of c] div_mult_mod_eq [of "unat c" 16]
    by (simp add: hex_value_digit less_mult_imp_div_less)
  then show ?thesis
    by (cases "c < 32") (simp_all add: json_read_def json_escape_byte_def)
qed

lemma escape_byte_inj: "json_escape_byte c @ x = json_escape_byte d @ y \<Longrightarrow> c = d \<and> x = y"
  by (drule arg_cong [of _ _ json_read]) (simp only: json_read_escape prod.inject)

lemma json_escape_inj: "json_escape s = json_escape t \<Longrightarrow> s = t"
proof (induction s arbitrary: t)
  case Nil
  then show ?case by (cases t) (auto simp: json_escape_def json_escape_byte_def split: if_splits)
next
  case (Cons c s)
  then obtain d t' where t: "t = d # t'"
    by (cases t) (auto simp: json_escape_def json_escape_byte_def split: if_splits)
  with Cons.prems escape_byte_inj [of c "json_escape s" d "json_escape t'"] Cons.IH [of t'] show ?case
    by (simp add: json_escape_def)
qed

lemma b64_table_distinct: "distinct b64_table" "length b64_table = 64" "61 \<notin> set b64_table"
  by (simp_all add: b64_table_def ascii_bytes_def)

lemma b64_digit_inj: "i < 64 \<Longrightarrow> j < 64 \<Longrightarrow> b64_table ! i = b64_table ! j \<longleftrightarrow> i = j"
  using nth_eq_iff_index_eq [OF b64_table_distinct(1)] by (simp add: b64_table_distinct)

lemma b64_digit_pad: "b64_table ! (v mod 64) \<noteq> 61" "61 \<noteq> b64_table ! (v mod 64)"
  using b64_table_distinct(2,3) nth_mem [of "v mod 64" b64_table] by fastforce+

lemma base4096: "v < 16777216 \<Longrightarrow>
  v = v div 262144 mod 64 * 262144 + v div 4096 mod 64 * 4096 + v div 64 mod 64 * 64 + v mod (64 :: nat)"
proof -
  assume v: "v < 16777216"
  have "v div 262144 < 64" using v by (simp add: less_mult_imp_div_less)
  then have "v div 262144 mod 64 = v div 262144" by simp
  moreover have "v div 262144 * 64 + v div 4096 mod 64 = v div 4096" "v div 4096 * 64 + v div 64 mod 64 = v div 64"
    using div_mult_mod_eq [of "v div 64" 64] div_mult_mod_eq [of "v div 4096" 64]
    by (simp_all add: div_mult2_eq [symmetric])
  ultimately show ?thesis using div_mult_mod_eq [of v 64] by linarith
qed

text \<open>A group determines the number of bytes and their value, when the bits after them are zero.\<close>

lemma b64_group_inj:
  assumes "b64_group v n = b64_group w m" "v < 16777216" "w < 16777216" "n \<in> set [1, 2, 3]" "m \<in> set [1, 2, 3]"
    and "n < 3 \<Longrightarrow> v mod 64 = 0" "n < 2 \<Longrightarrow> v div 64 mod 64 = 0" "m < 3 \<Longrightarrow> w mod 64 = 0" "m < 2 \<Longrightarrow> w div 64 mod 64 = 0"
  shows "n = m \<and> v = w"
proof -
  have nm: "n = m" using assms(1,4,5) by (auto simp: b64_group_def b64_digit_pad split: if_splits)
  have "v div 262144 mod 64 = w div 262144 mod 64" "v div 4096 mod 64 = w div 4096 mod 64"
    using assms(1) by (simp_all add: b64_group_def b64_digit_inj)
  moreover have "v div 64 mod 64 = w div 64 mod 64" "v mod 64 = w mod 64"
    using assms(1,4-9) nm by (auto simp: b64_group_def b64_digit_inj split: if_splits)
  ultimately have "v = w" using base4096 [OF assms(2)] base4096 [OF assms(3)] by metis
  with nm show ?thesis ..
qed

definition b64_value :: "bytes \<Rightarrow> nat" where
  "b64_value x = unat (x ! 0) * 65536 + (if 1 < length x then unat (x ! 1) * 256 else 0) + (if 2 < length x then unat (x ! 2) else 0)"

lemma length_cases3: "(x :: bytes) \<noteq> [] \<Longrightarrow> length x \<le> 3 \<Longrightarrow> (\<exists>a. x = [a]) \<or> (\<exists>a b. x = [a, b]) \<or> (\<exists>a b c. x = [a, b, c])"
  by (cases x rule: base64.cases) auto

lemma b64_value_digits:
  "b64_value [a] = unat a * 65536" "b64_value [a, b] = unat a * 65536 + unat b * 256"
  "b64_value [a, b, c] = unat a * 65536 + unat b * 256 + unat c"
  by (simp_all add: b64_value_def)

lemma base64_step:
  "s \<noteq> [] \<Longrightarrow> base64 s = b64_group (b64_value (take 3 s)) (length (take 3 s)) @ base64 (drop 3 s)"
  by (cases s rule: base64.cases) (simp_all add: b64_value_digits numeral_3_eq_3 numeral_2_eq_2)

lemma digit_eq:
  assumes "x * 256 + c = y * 256 + d" "c < 256" "d < (256 :: nat)"
  shows "x = y \<and> c = d"
proof -
  have "(x * 256 + c) div 256 = x" "(y * 256 + d) div 256 = y" using assms(2,3) by simp_all
  with assms(1) show ?thesis by simp
qed

lemma unat_byte_eq: "unat a = unat b \<Longrightarrow> a = (b :: byte)"
  by (drule arg_cong [of _ _ byte_of]) simp

lemma digits3_eq:
  assumes "a * 65536 + b * 256 + c = a' * 65536 + b' * 256 + (c' :: nat)" "b < 256" "c < 256" "b' < 256" "c' < 256"
  shows "a = a' \<and> b = b' \<and> c = c'"
proof -
  have "(a * 256 + b) * 256 + c = (a' * 256 + b') * 256 + c'" using assms(1) by (simp add: distrib_right)
  from digit_eq [OF this assms(3,5)] have s: "a * 256 + b = a' * 256 + b'" "c = c'" by blast+
  from digit_eq [OF s(1) assms(2,4)] s(2) show ?thesis by blast
qed

lemma bytes_value_inj:
  "unat a * 65536 + unat b * 256 + unat c = unat a' * 65536 + unat b' * 256 + unat c' \<Longrightarrow> a = a' \<and> b = b' \<and> c = (c' :: byte)"
  for a b c a' b' c' :: byte
  by (drule digits3_eq) (simp_all only: unat_byte_less, blast intro: unat_byte_eq)

lemma b64_value_inj:
  assumes "b64_value x = b64_value y" "length x = length y" "x \<noteq> []" "length x \<le> 3"
  shows "x = y"
proof -
  have "y \<noteq> []" "length y \<le> 3" using assms by auto
  from length_cases3 [OF assms(3,4)] length_cases3 [OF this] assms(1,2) show ?thesis
    using bytes_value_inj [where b = 0 and c = 0 and b' = 0 and c' = 0] bytes_value_inj [where c = 0 and c' = 0] bytes_value_inj
    by (auto simp: b64_value_digits)
qed

lemma base64_zero_bits:
  "(a * 65536 + b * 256) mod 64 = (0 :: nat)" "a * 65536 mod 64 = (0 :: nat)" "a * 65536 div 64 mod 64 = (0 :: nat)"
proof -
  have "a * 65536 + b * 256 = (a * 1024 + b * 4) * 64" "a * 65536 = (a * 16 * 64) * 64" by simp_all
  then show "(a * 65536 + b * 256) mod 64 = 0" "a * 65536 mod 64 = 0" "a * 65536 div 64 mod 64 = 0"
    by (metis mod_mult_self2_is_0, metis mod_mult_self2_is_0, metis mod_mult_self2_is_0 nonzero_mult_div_cancel_right zero_neq_numeral)
qed

lemma b64_value_bits:
  assumes "x \<noteq> []" "length x \<le> 3"
  shows "b64_value x < 16777216" "length x < 3 \<Longrightarrow> b64_value x mod 64 = 0" "length x < 2 \<Longrightarrow> b64_value x div 64 mod 64 = 0"
proof -
  have b: "unat (x ! k) \<le> 255" for k using unat_byte_less [of "x ! k"] by simp
  show "b64_value x < 16777216" using b [of 0] b [of 1] b [of 2] unfolding b64_value_def by (split if_split)+ linarith
  show "b64_value x mod 64 = 0" if "length x < 3"
    using length_cases3 [OF assms] that base64_zero_bits by (auto simp: b64_value_digits)
  show "b64_value x div 64 mod 64 = 0" if "length x < 2"
    using length_cases3 [OF assms] that base64_zero_bits by (auto simp: b64_value_digits)
qed

lemma base64_inj: "base64 s = base64 t \<Longrightarrow> s = t"
proof (induction s arbitrary: t rule: measure_induct_rule [where f = length])
  case (less s)
  have len: "length (b64_group v n) = 4" for v n by (simp add: b64_group_def)
  have empty: "base64 u = [] \<longleftrightarrow> u = []" for u using base64_step [of u] len by (cases "u = []") (auto simp: b64_group_def)
  show ?case
  proof (cases "s = []")
    case False
    with less.prems empty [of s] empty [of t] have t: "t \<noteq> []" by auto
    let ?x = "take 3 s" and ?y = "take 3 t"
    have g: "b64_group (b64_value ?x) (length ?x) = b64_group (b64_value ?y) (length ?y)" "base64 (drop 3 s) = base64 (drop 3 t)"
      using less.prems base64_step [OF False] base64_step [OF t] by (auto simp: len append_eq_append_conv)
    have x: "?x \<noteq> []" "length ?x \<le> 3" and y: "?y \<noteq> []" "length ?y \<le> 3" using False t by auto
    have n: "length ?x \<in> set [1, 2, 3]" "length ?y \<in> set [1, 2, 3]" using length_cases3 [OF x] length_cases3 [OF y] by fastforce+
    from b64_group_inj [OF g(1) b64_value_bits(1) [OF x] b64_value_bits(1) [OF y] n b64_value_bits(2,3) [OF x] b64_value_bits(2,3) [OF y]]
    have "?x = ?y" using b64_value_inj [of ?x ?y] x by blast
    moreover have "drop 3 s = drop 3 t" using less.IH [OF _ g(2)] False by simp
    ultimately show ?thesis by (metis append_take_drop_id)
  qed (use less.prems empty [of t] in simp)
qed

text \<open>C38: The JSON form of a byte string determines it: escaped text, base64 bytes and the choice
  between them lose nothing and never collide.\<close>

theorem json_data_exact: "json_data s = json_data t \<longleftrightarrow> s = t"
proof
  assume "json_data s = json_data t"
  then show "s = t"
    using json_escape_inj [of s t] base64_inj [of s t]
    by (auto simp: json_data_def ascii_bytes_def split: if_splits)
qed simp

end
