(* ===== verification/Pareto.thy ===== *)
theory Pareto
  imports Floating Index_Data
begin

text \<open>
  \<open>pareto.cpp\<close>: hard limits, Pareto dominance, the frontier and the weighted choice among its
  members.  The text of the audit report and the formatted text of a violation are not
  modelled: a violation is the name of the metric with the two values it compares.
\<close>

section \<open>Metrics and limits\<close>

record workload_metrics =
  wm_build_time_ms :: fp
  wm_index_size_bytes :: u64
  wm_peak_rss_bytes :: u64
  wm_cold_p50_ms :: fp
  wm_warm_p50_ms :: fp
  wm_p95_ms :: fp
  wm_verified_bytes :: u64
  wm_touched_bytes :: u64
  wm_fallback_rate :: fp

record hard_constraint_bounds =
  hb_max_build_time_ms :: fp
  hb_max_index_size_bytes :: u64
  hb_max_peak_rss_bytes :: u64
  hb_max_cold_p50_ms :: fp
  hb_max_warm_p50_ms :: fp
  hb_max_p95_ms :: fp
  hb_max_fallback_rate :: fp

datatype violation = OverTime string fp fp | OverBytes string u64 u64

text \<open>\<open>None\<close> is the result \<open>true\<close>; a violation is the first limit that is exceeded.\<close>

definition check_satisfaction :: "hard_constraint_bounds \<Rightarrow> workload_metrics \<Rightarrow> violation option" where
  "check_satisfaction h m =
     (if fp_less (hb_max_build_time_ms h) (wm_build_time_ms m)
      then Some (OverTime ''build_time_ms'' (wm_build_time_ms m) (hb_max_build_time_ms h))
      else if hb_max_index_size_bytes h < wm_index_size_bytes m
      then Some (OverBytes ''index_size_bytes'' (wm_index_size_bytes m) (hb_max_index_size_bytes h))
      else if hb_max_peak_rss_bytes h < wm_peak_rss_bytes m
      then Some (OverBytes ''peak_rss_bytes'' (wm_peak_rss_bytes m) (hb_max_peak_rss_bytes h))
      else if fp_less (hb_max_cold_p50_ms h) (wm_cold_p50_ms m)
      then Some (OverTime ''cold_p50_ms'' (wm_cold_p50_ms m) (hb_max_cold_p50_ms h))
      else if fp_less (hb_max_warm_p50_ms h) (wm_warm_p50_ms m)
      then Some (OverTime ''warm_p50_ms'' (wm_warm_p50_ms m) (hb_max_warm_p50_ms h))
      else if fp_less (hb_max_p95_ms h) (wm_p95_ms m)
      then Some (OverTime ''p95_ms'' (wm_p95_ms m) (hb_max_p95_ms h))
      else if fp_less (hb_max_fallback_rate h) (wm_fallback_rate m)
      then Some (OverTime ''fallback_rate'' (wm_fallback_rate m) (hb_max_fallback_rate h))
      else None)"

section \<open>Weights and loss\<close>

record objective_weights =
  ow_build_time :: fp
  ow_index_size :: fp
  ow_peak_rss :: fp
  ow_cold_latency :: fp
  ow_warm_latency :: fp
  ow_p95_latency :: fp
  ow_verified_bytes :: fp
  ow_fallback_rate :: fp

definition fp_sum :: "fp list \<Rightarrow> fp" where
  "fp_sum xs = foldl fp_add (hd xs) (tl xs)"

definition normalize_weights :: "objective_weights \<Rightarrow> objective_weights" where
  "normalize_weights w =
     (let total = fp_sum [ow_build_time w, ow_index_size w, ow_peak_rss w, ow_cold_latency w, ow_warm_latency w,
                          ow_p95_latency w, ow_verified_bytes w, ow_fallback_rate w];
          t = (if fp_le total (Fin 0) then Fin 1 else total)
      in \<lparr>ow_build_time = fp_div (ow_build_time w) t, ow_index_size = fp_div (ow_index_size w) t,
          ow_peak_rss = fp_div (ow_peak_rss w) t, ow_cold_latency = fp_div (ow_cold_latency w) t,
          ow_warm_latency = fp_div (ow_warm_latency w) t, ow_p95_latency = fp_div (ow_p95_latency w) t,
          ow_verified_bytes = fp_div (ow_verified_bytes w) t, ow_fallback_rate = fp_div (ow_fallback_rate w) t\<rparr>)"

definition loss_ratio :: "fp \<Rightarrow> fp \<Rightarrow> fp" where
  "loss_ratio v b = (if fp_less (Fin 0) b then fp_div v b else v)"

definition fp_of_u64 :: "u64 \<Rightarrow> fp" where
  "fp_of_u64 n = fp_of_nat (unat n)"

text \<open>\<open>loss\<close> starts at zero and adds the weighted ratios one by one; the literal \<open>0.01\<close> is the
  double next to it.\<close>

definition compute_loss :: "objective_weights \<Rightarrow> workload_metrics \<Rightarrow> workload_metrics \<Rightarrow> fp" where
  "compute_loss w m base =
     foldl fp_add (Fin 0)
       [fp_mul (ow_build_time w) (loss_ratio (wm_build_time_ms m) (wm_build_time_ms base)),
        fp_mul (ow_index_size w) (loss_ratio (fp_of_u64 (wm_index_size_bytes m)) (fp_of_u64 (wm_index_size_bytes base))),
        fp_mul (ow_peak_rss w) (loss_ratio (fp_of_u64 (wm_peak_rss_bytes m)) (fp_of_u64 (wm_peak_rss_bytes base))),
        fp_mul (ow_cold_latency w) (loss_ratio (wm_cold_p50_ms m) (wm_cold_p50_ms base)),
        fp_mul (ow_warm_latency w) (loss_ratio (wm_warm_p50_ms m) (wm_warm_p50_ms base)),
        fp_mul (ow_p95_latency w) (loss_ratio (wm_p95_ms m) (wm_p95_ms base)),
        fp_mul (ow_verified_bytes w) (loss_ratio (fp_of_u64 (wm_verified_bytes m)) (fp_of_u64 (wm_verified_bytes base))),
        fp_mul (ow_fallback_rate w) (loss_ratio (wm_fallback_rate m) (fp_max (wm_fallback_rate base) (fp_round (1 / 100))))]"

section \<open>Dominance\<close>

text \<open>One pair of tests of \<open>pareto_dominates\<close>: \<open>None\<close> is the early \<open>return false\<close>, the value the flag
  \<open>strictly_better\<close>.\<close>

definition compare_metric :: "bool \<Rightarrow> bool \<Rightarrow> bool option \<Rightarrow> bool option" where
  "compare_metric worse better acc =
     (case acc of None \<Rightarrow> None | Some strict \<Rightarrow> if worse then None else Some (strict \<or> better))"

definition compare_fp :: "(workload_metrics \<Rightarrow> fp) \<Rightarrow> workload_metrics \<Rightarrow> workload_metrics \<Rightarrow> bool option \<Rightarrow> bool option" where
  "compare_fp f a b = compare_metric (fp_less (f b) (f a)) (fp_less (f a) (f b))"

definition compare_u64 :: "(workload_metrics \<Rightarrow> u64) \<Rightarrow> workload_metrics \<Rightarrow> workload_metrics \<Rightarrow> bool option \<Rightarrow> bool option" where
  "compare_u64 f a b = compare_metric (f b < f a) (f a < f b)"

definition pareto_dominates :: "workload_metrics \<Rightarrow> workload_metrics \<Rightarrow> bool" where
  "pareto_dominates a b \<longleftrightarrow>
     fold (\<lambda>f. f) [compare_fp wm_build_time_ms a b, compare_u64 wm_index_size_bytes a b, compare_u64 wm_peak_rss_bytes a b,
       compare_fp wm_cold_p50_ms a b, compare_fp wm_warm_p50_ms a b, compare_fp wm_p95_ms a b,
       compare_u64 wm_verified_bytes a b, compare_fp wm_fallback_rate a b] (Some False) = Some True"

section \<open>The frontier and the choice\<close>

record candidate_evaluation =
  ce_id :: bytes
  ce_options :: index_options
  ce_operator_policy :: bytes
  ce_metrics :: workload_metrics
  ce_satisfies_hard_limits :: bool
  ce_violation :: "violation option"
  ce_weighted_loss :: fp

record tuning_profile =
  tp_bounds :: hard_constraint_bounds
  tp_weights :: objective_weights
  tp_baseline :: workload_metrics

record pareto_selection =
  sel_selected :: "candidate_evaluation option"
  sel_frontier :: "candidate_evaluation list"
  sel_rejected :: "candidate_evaluation list"
  sel_dominated :: "candidate_evaluation list"

definition accepted :: "hard_constraint_bounds \<Rightarrow> candidate_evaluation list \<Rightarrow> candidate_evaluation list" where
  "accepted h cs = map (\<lambda>c. c\<lparr>ce_satisfies_hard_limits := True\<rparr>)
     (filter (\<lambda>c. check_satisfaction h (ce_metrics c) = None) cs)"

definition rejected :: "hard_constraint_bounds \<Rightarrow> candidate_evaluation list \<Rightarrow> candidate_evaluation list" where
  "rejected h cs = map (\<lambda>c. c\<lparr>ce_satisfies_hard_limits := False, ce_violation := check_satisfaction h (ce_metrics c)\<rparr>)
     (filter (\<lambda>c. check_satisfaction h (ce_metrics c) \<noteq> None) cs)"

definition dominated_at :: "candidate_evaluation list \<Rightarrow> nat \<Rightarrow> bool" where
  "dominated_at valid i \<longleftrightarrow>
     (\<exists>j \<in> set [0 ..< length valid]. i \<noteq> j \<and> pareto_dominates (ce_metrics (valid ! j)) (ce_metrics (valid ! i)))"

definition select_at :: "(nat \<Rightarrow> bool) \<Rightarrow> 'a list \<Rightarrow> 'a list" where
  "select_at P xs = map ((!) xs) (filter P [0 ..< length xs])"

definition compute_pareto_frontier :: "candidate_evaluation list \<Rightarrow> hard_constraint_bounds \<Rightarrow> candidate_evaluation list" where
  "compute_pareto_frontier cs h = (let valid = accepted h cs in select_at (\<lambda>i. \<not> dominated_at valid i) valid)"

text \<open>The loop that looks for the least loss; it starts with infinity and index 0.\<close>

fun least_loss :: "fp \<times> nat \<Rightarrow> nat \<Rightarrow> fp list \<Rightarrow> fp \<times> nat" where
  "least_loss best i [] = best"
| "least_loss best i (l # ls) = least_loss (if fp_less l (fst best) then (l, i) else best) (i + 1) ls"

text \<open>\<open>None\<close> is the access to element 0 of an empty frontier, which C++ leaves undefined.\<close>

definition select_optimal_configuration :: "candidate_evaluation list \<Rightarrow> tuning_profile \<Rightarrow> pareto_selection option" where
  "select_optimal_configuration cs p =
     (let rej = rejected (tp_bounds p) cs; valid = accepted (tp_bounds p) cs in
      if valid = [] then Some \<lparr>sel_selected = None, sel_frontier = [], sel_rejected = rej, sel_dominated = []\<rparr>
      else
        let w = normalize_weights (tp_weights p);
            frontier = map (\<lambda>c. c\<lparr>ce_weighted_loss := compute_loss w (ce_metrics c) (tp_baseline p)\<rparr>)
                         (select_at (\<lambda>i. \<not> dominated_at valid i) valid);
            best = snd (least_loss (PInf, 0) 0 (map ce_weighted_loss frontier))
        in if length frontier \<le> best then None
           else Some \<lparr>sel_selected = Some (frontier ! best), sel_frontier = frontier, sel_rejected = rej,
                      sel_dominated = select_at (dominated_at valid) valid\<rparr>)"

section \<open>The predefined profiles\<close>

definition dec :: "int \<Rightarrow> int \<Rightarrow> fp" where
  "dec n d = fp_round (of_int n / of_int d)"

definition profile_balanced_standard :: tuning_profile where
  "profile_balanced_standard =
     \<lparr>tp_bounds = \<lparr>hb_max_build_time_ms = dec 10000 1, hb_max_index_size_bytes = 256 * 1024 * 1024,
        hb_max_peak_rss_bytes = 512 * 1024 * 1024, hb_max_cold_p50_ms = dec 50 1, hb_max_warm_p50_ms = dec 10 1,
        hb_max_p95_ms = dec 25 1, hb_max_fallback_rate = dec 1 10\<rparr>,
      tp_weights = \<lparr>ow_build_time = dec 1 10, ow_index_size = dec 2 10, ow_peak_rss = dec 1 10, ow_cold_latency = dec 15 100,
        ow_warm_latency = dec 3 10, ow_p95_latency = dec 1 10, ow_verified_bytes = dec 2 100, ow_fallback_rate = dec 3 100\<rparr>,
      tp_baseline = \<lparr>wm_build_time_ms = dec 2000 1, wm_index_size_bytes = 64 * 1024 * 1024, wm_peak_rss_bytes = 128 * 1024 * 1024,
        wm_cold_p50_ms = dec 15 1, wm_warm_p50_ms = dec 2 1, wm_p95_ms = dec 5 1, wm_verified_bytes = 1024 * 1024,
        wm_touched_bytes = 0, wm_fallback_rate = dec 2 100\<rparr>\<rparr>"

definition profile_interactive_low_latency :: tuning_profile where
  "profile_interactive_low_latency =
     (let p = profile_balanced_standard in
      p\<lparr>tp_bounds := (tp_bounds p)\<lparr>hb_max_warm_p50_ms := dec 3 1, hb_max_p95_ms := dec 8 1\<rparr>,
        tp_weights := (tp_weights p)\<lparr>ow_build_time := dec 2 100, ow_index_size := dec 5 100, ow_peak_rss := dec 3 100,
          ow_cold_latency := dec 15 100, ow_warm_latency := dec 5 10, ow_p95_latency := dec 25 100\<rparr>\<rparr>)"

definition profile_embedded_low_memory :: tuning_profile where
  "profile_embedded_low_memory =
     (let p = profile_balanced_standard in
      p\<lparr>tp_bounds := (tp_bounds p)\<lparr>hb_max_index_size_bytes := 32 * 1024 * 1024, hb_max_peak_rss_bytes := 64 * 1024 * 1024,
          hb_max_warm_p50_ms := dec 20 1\<rparr>,
        tp_weights := (tp_weights p)\<lparr>ow_build_time := dec 5 100, ow_index_size := dec 4 10, ow_peak_rss := dec 3 10,
          ow_cold_latency := dec 5 100, ow_warm_latency := dec 15 100, ow_p95_latency := dec 5 100\<rparr>\<rparr>)"

definition profile_batch_high_throughput :: tuning_profile where
  "profile_batch_high_throughput =
     (let p = profile_balanced_standard in
      p\<lparr>tp_bounds := (tp_bounds p)\<lparr>hb_max_build_time_ms := dec 60000 1, hb_max_index_size_bytes := 1024 * 1024 * 1024\<rparr>,
        tp_weights := (tp_weights p)\<lparr>ow_build_time := dec 5 100, ow_index_size := dec 1 10, ow_peak_rss := dec 1 10,
          ow_cold_latency := dec 1 10, ow_warm_latency := dec 35 100, ow_p95_latency := dec 1 10, ow_verified_bytes := dec 2 10\<rparr>\<rparr>)"

section \<open>Dominance is a strict order\<close>

definition measured :: "workload_metrics \<Rightarrow> bool" where
  "measured m \<longleftrightarrow> NaN \<notin> {wm_build_time_ms m, wm_cold_p50_ms m, wm_warm_p50_ms m, wm_p95_ms m, wm_fallback_rate m}"

lemma compare_metric_Some:
  "compare_metric w b acc = Some s \<longleftrightarrow> (\<exists>t. acc = Some t \<and> \<not> w \<and> s = (t \<or> b))"
  by (auto simp: compare_metric_def split: option.splits)

definition metrics_le :: "workload_metrics \<Rightarrow> workload_metrics \<Rightarrow> bool" where
  "metrics_le a b \<longleftrightarrow>
     \<not> fp_less (wm_build_time_ms b) (wm_build_time_ms a) \<and> \<not> wm_index_size_bytes b < wm_index_size_bytes a \<and>
     \<not> wm_peak_rss_bytes b < wm_peak_rss_bytes a \<and> \<not> fp_less (wm_cold_p50_ms b) (wm_cold_p50_ms a) \<and>
     \<not> fp_less (wm_warm_p50_ms b) (wm_warm_p50_ms a) \<and> \<not> fp_less (wm_p95_ms b) (wm_p95_ms a) \<and>
     \<not> wm_verified_bytes b < wm_verified_bytes a \<and> \<not> fp_less (wm_fallback_rate b) (wm_fallback_rate a)"

definition metrics_strict :: "workload_metrics \<Rightarrow> workload_metrics \<Rightarrow> bool" where
  "metrics_strict a b \<longleftrightarrow>
     fp_less (wm_build_time_ms a) (wm_build_time_ms b) \<or> wm_index_size_bytes a < wm_index_size_bytes b \<or>
     wm_peak_rss_bytes a < wm_peak_rss_bytes b \<or> fp_less (wm_cold_p50_ms a) (wm_cold_p50_ms b) \<or>
     fp_less (wm_warm_p50_ms a) (wm_warm_p50_ms b) \<or> fp_less (wm_p95_ms a) (wm_p95_ms b) \<or>
     wm_verified_bytes a < wm_verified_bytes b \<or> fp_less (wm_fallback_rate a) (wm_fallback_rate b)"

lemma dominates_iff: "pareto_dominates a b \<longleftrightarrow> metrics_le a b \<and> metrics_strict a b"
  unfolding pareto_dominates_def metrics_le_def metrics_strict_def
  by (simp add: compare_metric_Some compare_fp_def compare_u64_def) blast

lemma fp_not_less_trans: "\<not> fp_less b a \<Longrightarrow> \<not> fp_less c b \<Longrightarrow> b \<noteq> NaN \<Longrightarrow> \<not> fp_less c a"
  by (cases a; cases b; cases c) auto

lemma fp_strict_trans:
  "fp_less a b \<Longrightarrow> \<not> fp_less c b \<Longrightarrow> c \<noteq> NaN \<Longrightarrow> fp_less a c"
  "\<not> fp_less b a \<Longrightarrow> fp_less b c \<Longrightarrow> a \<noteq> NaN \<Longrightarrow> fp_less a c"
  by (cases a; cases b; cases c; auto)+

lemma dominates_trans:
  assumes "pareto_dominates a b" "pareto_dominates b c" "measured a" "measured b" "measured c"
  shows "pareto_dominates a c"
proof -
  have le: "metrics_le a c"
    using assms unfolding dominates_iff metrics_le_def measured_def by (auto intro: fp_not_less_trans dest: fp_not_less_trans)
  have "metrics_strict a c"
    using assms unfolding dominates_iff metrics_le_def metrics_strict_def measured_def
    by (auto dest: fp_strict_trans)
  with le show ?thesis by (simp add: dominates_iff)
qed

lemma dominates_irrefl: "\<not> pareto_dominates a a"
  by (simp add: dominates_iff metrics_strict_def)

lemma minimal_below:
  fixes R :: "'a \<Rightarrow> 'a \<Rightarrow> bool"
  assumes "finite A" "\<And>x. \<not> R x x" "\<And>x y z. x \<in> A \<Longrightarrow> y \<in> A \<Longrightarrow> z \<in> A \<Longrightarrow> R x y \<Longrightarrow> R y z \<Longrightarrow> R x z"
  shows "x \<in> A \<Longrightarrow> (\<exists>y \<in> A. R y x) \<Longrightarrow> \<exists>y \<in> A. R y x \<and> \<not> (\<exists>z \<in> A. R z y)"
proof (induction "card {y \<in> A. R y x}" arbitrary: x rule: less_induct)
  case less
  then obtain y where y: "y \<in> A" "R y x" by blast
  show ?case
  proof (cases "\<exists>z \<in> A. R z y")
    case True
    have sub: "{z \<in> A. R z y} \<subseteq> {z \<in> A. R z x}" using assms(3) [OF _ y(1) less.prems(1)] y(2) by blast
    have "y \<in> {z \<in> A. R z x}" "y \<notin> {z \<in> A. R z y}" using y assms(2) by auto
    with sub have "{z \<in> A. R z y} \<subset> {z \<in> A. R z x}" by blast
    then have "card {z \<in> A. R z y} < card {z \<in> A. R z x}" using assms(1) by (intro psubset_card_mono) auto
    from less.hyps [OF this y(1) True] obtain z where z: "z \<in> A" "R z y" "\<not> (\<exists>w \<in> A. R w z)" by blast
    with assms(3) [OF z(1) y(1) less.prems(1) z(2) y(2)] show ?thesis by blast
  qed (use y in blast)
qed

section \<open>What the choice guarantees\<close>

lemma dominated_at_iff:
  "i < length cs \<Longrightarrow> dominated_at cs i \<longleftrightarrow> (\<exists>d \<in> set cs. pareto_dominates (ce_metrics d) (ce_metrics (cs ! i)))"
  unfolding dominated_at_def using dominates_irrefl by (simp add: Bex_def in_set_conv_nth) metis

lemma select_at_set: "set (select_at P xs) = {xs ! i |i. i < length xs \<and> P i}"
  by (auto simp: select_at_def)

definition undominated :: "candidate_evaluation list \<Rightarrow> candidate_evaluation \<Rightarrow> bool" where
  "undominated cs c \<longleftrightarrow> c \<in> set cs \<and> \<not> (\<exists>d \<in> set cs. pareto_dominates (ce_metrics d) (ce_metrics c))"

lemma frontier_set: "set (select_at (\<lambda>i. \<not> dominated_at cs i) cs) = {c. undominated cs c}"
  unfolding select_at_set undominated_def using dominated_at_iff [of _ cs] by (auto simp: in_set_conv_nth)

lemma undominated_below:
  assumes "\<forall>c \<in> set cs. measured (ce_metrics c)" "c \<in> set cs" "\<not> undominated cs c"
  shows "\<exists>d. undominated cs d \<and> pareto_dominates (ce_metrics d) (ce_metrics c)"
proof -
  have "\<exists>y \<in> set cs. pareto_dominates (ce_metrics y) (ce_metrics c) \<and> \<not> (\<exists>z \<in> set cs. pareto_dominates (ce_metrics z) (ce_metrics y))"
  proof (rule minimal_below [where R = "\<lambda>x y. pareto_dominates (ce_metrics x) (ce_metrics y)"])
    show "\<not> pareto_dominates (ce_metrics x) (ce_metrics x)" for x by (rule dominates_irrefl)
    show "x \<in> set cs \<Longrightarrow> y \<in> set cs \<Longrightarrow> z \<in> set cs \<Longrightarrow> pareto_dominates (ce_metrics x) (ce_metrics y) \<Longrightarrow>
        pareto_dominates (ce_metrics y) (ce_metrics z) \<Longrightarrow> pareto_dominates (ce_metrics x) (ce_metrics z)" for x y z
      by (rule dominates_trans) (use assms(1) in auto)
  qed (use assms(2,3) in \<open>auto simp: undominated_def\<close>)
  then show ?thesis by (auto simp: undominated_def)
qed

lemma fp_PInf_less [simp]: "\<not> fp_less PInf a"
  by (cases a) auto

lemma fp_less_PInf: "fp_less a PInf \<longleftrightarrow> a \<noteq> PInf \<and> a \<noteq> NaN"
  by (cases a) auto

text \<open>What the loop keeps: the best value is below every loss seen, and its index belongs to it or is still 0.\<close>

definition best_loss_ok :: "fp list \<Rightarrow> fp \<times> nat \<Rightarrow> bool" where
  "best_loss_ok seen b \<longleftrightarrow> fst b \<noteq> NaN \<and> (\<forall>l \<in> set seen. \<not> fp_less l (fst b)) \<and>
     (b = (PInf, 0) \<or> (snd b < length seen \<and> seen ! snd b = fst b))"

lemma least_loss_ok: "best_loss_ok seen b \<Longrightarrow> best_loss_ok (seen @ ls) (least_loss b (length seen) ls)"
proof (induction ls arbitrary: seen b)
  case (Cons l ls)
  let ?b = "if fp_less l (fst b) then (l, length seen) else b"
  have "best_loss_ok (seen @ [l]) ?b"
  proof (cases "fp_less l (fst b)")
    case True
    then have "l \<noteq> NaN" by (cases l) auto
    moreover have "\<not> fp_less x l" if "x \<in> set seen" for x
      using Cons.prems that True fp_less_trans [of x l "fst b"] by (auto simp: best_loss_ok_def)
    ultimately show ?thesis using True by (simp add: best_loss_ok_def)
  next
    case False
    with Cons.prems show ?thesis by (auto simp: best_loss_ok_def nth_append)
  qed
  from Cons.IH [OF this] show ?case by simp
qed simp

lemma least_loss_index:
  assumes "losses \<noteq> []"
  shows "snd (least_loss (PInf, 0) 0 losses) < length losses"
    "\<forall>l \<in> set losses. \<not> fp_less l (losses ! snd (least_loss (PInf, 0) 0 losses))"
proof -
  let ?b = "least_loss (PInf, 0) 0 losses"
  have "best_loss_ok losses ?b" using least_loss_ok [of "[]" "(PInf, 0)" losses] by (simp add: best_loss_ok_def)
  then have b: "\<forall>l \<in> set losses. \<not> fp_less l (fst ?b)" "?b = (PInf, 0) \<or> (snd ?b < length losses \<and> losses ! snd ?b = fst ?b)"
    by (simp_all add: best_loss_ok_def)
  have first: "losses ! 0 = PInf \<or> losses ! 0 = NaN" if "?b = (PInf, 0)"
    using b(1) that assms fp_less_PInf by (metis fst_conv length_greater_0_conv nth_mem)
  show "snd ?b < length losses" using b(2) assms by auto
  have less_NaN: "\<not> fp_less l NaN" for l by (cases l) auto
  show "\<forall>l \<in> set losses. \<not> fp_less l (losses ! snd ?b)"
    using b first less_NaN by (metis fst_conv snd_conv)
qed

lemma accepted_frontier_cases:
  assumes "valid \<noteq> []" "\<forall>c \<in> set valid. measured (ce_metrics c)"
  shows "select_at (\<lambda>i. \<not> dominated_at valid i) valid \<noteq> []"
proof -
  obtain c where c: "c \<in> set valid" using assms(1) by (cases valid) auto
  then have "\<exists>d. undominated valid d" using undominated_below [OF assms(2) c] by blast
  then show ?thesis using frontier_set [of valid] by fastforce
qed

text \<open>C34: When all metrics are numbers and some candidate meets the bounds, the selection succeeds: the
  chosen configuration is on the frontier with the least loss there, the frontier holds only
  acceptable and undominated candidates, and every acceptable candidate is on it or dominated by
  one that is.\<close>

theorem selection_optimal:
  assumes "\<forall>c \<in> set cs. measured (ce_metrics c)" "\<exists>c \<in> set cs. check_satisfaction (tp_bounds p) (ce_metrics c) = None"
  shows "\<exists>res best. select_optimal_configuration cs p = Some res \<and> sel_selected res = Some best \<and> best \<in> set (sel_frontier res) \<and>
    (\<forall>f \<in> set (sel_frontier res). \<not> fp_less (ce_weighted_loss f) (ce_weighted_loss best)) \<and>
    (\<forall>f \<in> set (sel_frontier res). check_satisfaction (tp_bounds p) (ce_metrics f) = None \<and>
       (\<forall>c \<in> set cs. check_satisfaction (tp_bounds p) (ce_metrics c) = None \<longrightarrow> \<not> pareto_dominates (ce_metrics c) (ce_metrics f))) \<and>
    (\<forall>c \<in> set cs. check_satisfaction (tp_bounds p) (ce_metrics c) = None \<longrightarrow>
       (\<exists>f \<in> set (sel_frontier res). ce_metrics f = ce_metrics c \<or> pareto_dominates (ce_metrics f) (ce_metrics c)))"
proof -
  let ?h = "tp_bounds p" and ?w = "normalize_weights (tp_weights p)"
  define valid where "valid = accepted ?h cs"
  let ?setl = "\<lambda>c. c\<lparr>ce_weighted_loss := compute_loss ?w (ce_metrics c) (tp_baseline p)\<rparr>"
  define pure where "pure = select_at (\<lambda>i. \<not> dominated_at valid i) valid"
  define frontier where "frontier = map ?setl pure"
  define best where "best = snd (least_loss (PInf, 0) 0 (map ce_weighted_loss frontier))"
  have ok: "\<forall>c \<in> set valid. measured (ce_metrics c) \<and> check_satisfaction ?h (ce_metrics c) = None"
    using assms(1) by (auto simp: valid_def accepted_def)
  have lifted: "\<exists>v \<in> set valid. ce_metrics v = ce_metrics c" if "c \<in> set cs" "check_satisfaction ?h (ce_metrics c) = None" for c
    using that by (force simp: valid_def accepted_def)
  have ne: "valid \<noteq> []" using assms(2) lifted by fastforce
  have "pure \<noteq> []" unfolding pure_def by (rule accepted_frontier_cases [OF ne]) (use ok in blast)
  then have "map ce_weighted_loss frontier \<noteq> []" by (simp add: frontier_def)
  note b = least_loss_index [OF this, folded best_def]
  have mem: "set pure = {c. undominated valid c}" unfolding pure_def by (rule frontier_set)
  let ?res = "\<lparr>sel_selected = Some (frontier ! best), sel_frontier = frontier, sel_rejected = rejected ?h cs,
      sel_dominated = select_at (dominated_at valid) valid\<rparr>"
  have res: "select_optimal_configuration cs p = Some ?res"
    using b(1) ne unfolding select_optimal_configuration_def Let_def valid_def [symmetric] pure_def [symmetric]
      frontier_def [symmetric] best_def [symmetric] by simp
  have metrics: "\<exists>v. undominated valid v \<and> ce_metrics f = ce_metrics v" if "f \<in> set frontier" for f
    using that mem by (auto simp: frontier_def)
  have front: "\<exists>f \<in> set frontier. ce_metrics f = ce_metrics v" if "undominated valid v" for v
    using that mem by (intro bexI [of _ "?setl v"]) (simp_all add: frontier_def)
  have "\<not> fp_less (ce_weighted_loss f) (ce_weighted_loss (frontier ! best))" if "f \<in> set frontier" for f
    using b that by simp
  moreover have "check_satisfaction ?h (ce_metrics f) = None \<and>
      (\<forall>c \<in> set cs. check_satisfaction ?h (ce_metrics c) = None \<longrightarrow> \<not> pareto_dominates (ce_metrics c) (ce_metrics f))"
    if "f \<in> set frontier" for f
    using metrics [OF that] ok lifted by (fastforce simp: undominated_def)
  moreover have "\<exists>f \<in> set frontier. ce_metrics f = ce_metrics c \<or> pareto_dominates (ce_metrics f) (ce_metrics c)"
    if "c \<in> set cs" "check_satisfaction ?h (ce_metrics c) = None" for c
  proof -
    from lifted [OF that] obtain v where v: "v \<in> set valid" "ce_metrics v = ce_metrics c" by blast
    show ?thesis
    proof (cases "undominated valid v")
      case True
      with front v(2) show ?thesis by metis
    next
      case False
      with undominated_below [OF _ v(1)] ok obtain d where "undominated valid d" "pareto_dominates (ce_metrics d) (ce_metrics v)" by blast
      with front v(2) show ?thesis by metis
    qed
  qed
  moreover have "frontier ! best \<in> set frontier" using b(1) by simp
  ultimately show ?thesis using res by (intro exI [of _ ?res] exI [of _ "frontier ! best"]) simp
qed

section \<open>Samples\<close>

definition sample_metrics :: "fp \<Rightarrow> fp \<Rightarrow> fp \<Rightarrow> workload_metrics" where
  "sample_metrics cold warm p95 =
     \<lparr>wm_build_time_ms = Fin 5, wm_index_size_bytes = 1024, wm_peak_rss_bytes = 2048, wm_cold_p50_ms = cold,
      wm_warm_p50_ms = warm, wm_p95_ms = p95, wm_verified_bytes = 10, wm_touched_bytes = 10, wm_fallback_rate = Fin 0\<rparr>"

definition sample_candidate :: "bytes \<Rightarrow> workload_metrics \<Rightarrow> candidate_evaluation" where
  "sample_candidate i m =
     \<lparr>ce_id = i, ce_options = default_index_options, ce_operator_policy = [], ce_metrics = m,
      ce_satisfies_hard_limits = True, ce_violation = None, ce_weighted_loss = Fin 0\<rparr>"

text \<open>Without a number the comparisons can go round in a circle, and the choice reads an empty vector.\<close>

definition wide_bounds :: hard_constraint_bounds where
  "wide_bounds = \<lparr>hb_max_build_time_ms = PInf, hb_max_index_size_bytes = 2 ^ 20, hb_max_peak_rss_bytes = 2 ^ 20,
     hb_max_cold_p50_ms = PInf, hb_max_warm_p50_ms = PInf, hb_max_p95_ms = PInf, hb_max_fallback_rate = PInf\<rparr>"

lemma wide_bounds_ok: "check_satisfaction wide_bounds (sample_metrics a b c) = None"
  by (simp add: check_satisfaction_def wide_bounds_def sample_metrics_def fp_PInf_less word_less_def)

definition circle :: "candidate_evaluation list" where
  "circle = [sample_candidate [97] (sample_metrics (Fin 1) NaN (Fin 3)), sample_candidate [98] (sample_metrics (Fin 2) (Fin 1) NaN),
     sample_candidate [99] (sample_metrics NaN (Fin 2) (Fin 1))]"

lemma unmeasured_circle:
  assumes "tp_bounds p = wide_bounds"
  shows "select_optimal_configuration circle p = None"
proof -
  have "accepted wide_bounds circle = circle"
    by (simp add: accepted_def circle_def sample_candidate_def wide_bounds_ok)
  moreover have "select_at (\<lambda>i. \<not> dominated_at circle i) circle = []"
    by (simp add: select_at_def dominated_at_def circle_def sample_candidate_def upt_rec dominates_iff metrics_le_def metrics_strict_def
        sample_metrics_def)
  ultimately show ?thesis
    using assms by (simp add: select_optimal_configuration_def Let_def circle_def)
qed

theorem selection_optimal_witness:
  "\<exists>res best. select_optimal_configuration [sample_candidate [97] (sample_metrics (Fin 1) (Fin 2) (Fin 3))]
      (profile_balanced_standard\<lparr>tp_bounds := wide_bounds\<rparr>) = Some res \<and> sel_selected res = Some best \<and> best \<in> set (sel_frontier res)"
  using selection_optimal [of "[sample_candidate [97] (sample_metrics (Fin 1) (Fin 2) (Fin 3))]"
      "profile_balanced_standard\<lparr>tp_bounds := wide_bounds\<rparr>"] wide_bounds_ok [of "Fin 1" "Fin 2" "Fin 3"]
  by (simp add: sample_candidate_def measured_def) (auto simp: sample_metrics_def)

end
