(* ===== verification/Rollout.thy ===== *)
theory Rollout
  imports Pareto
begin

text \<open>
  \<open>rollout.hpp\<close>: the controller that reverts to the baseline when too many queries fall back.  Its
  operations are the steps of a transition relation; a rollback is final and leaves every
  experimental feature off.  The counters are below \<open>2 ^ 64\<close>, so they are naturals; the formatted
  text of the automatic reason is its ratio.
\<close>

section \<open>State\<close>

datatype rollout_state = DefaultBaseline | CanaryExperimental | RolloutActive | RollbackEnforced

record rollout_flags =
  enable_simd_bitmaps :: bool
  enable_positional_encoding :: bool
  enable_sparse_postings :: bool
  enable_aho_corasick_prefilter :: bool
  enable_autotuned_layout :: bool
  enable_parallel_build :: bool
  enable_lazy_dfa :: bool

definition default_flags :: rollout_flags where
  "default_flags = \<lparr>enable_simd_bitmaps = True, enable_positional_encoding = True, enable_sparse_postings = True,
     enable_aho_corasick_prefilter = True, enable_autotuned_layout = True, enable_parallel_build = True, enable_lazy_dfa = True\<rparr>"

definition disable_all_experimental :: "rollout_flags \<Rightarrow> rollout_flags" where
  "disable_all_experimental f = \<lparr>enable_simd_bitmaps = False, enable_positional_encoding = False, enable_sparse_postings = False,
     enable_aho_corasick_prefilter = False, enable_autotuned_layout = False, enable_parallel_build = False, enable_lazy_dfa = False\<rparr>"

record fallback_event =
  fe_operator_name :: bytes
  fe_fallback_reason :: bytes
  fe_query_pattern :: bytes
  fe_timestamp_ms :: fp

record rollout_telemetry =
  rt_max_allowed_fallbacks :: nat
  rt_max_fallback_ratio :: fp
  rt_total_queries :: nat
  rt_total_fallbacks :: nat
  rt_events :: "fallback_event list"

definition new_telemetry :: "nat \<Rightarrow> fp \<Rightarrow> rollout_telemetry" where
  "new_telemetry n r = \<lparr>rt_max_allowed_fallbacks = n, rt_max_fallback_ratio = r, rt_total_queries = 0, rt_total_fallbacks = 0, rt_events = []\<rparr>"

definition record_query :: "bool \<Rightarrow> bytes \<Rightarrow> bytes \<Rightarrow> rollout_telemetry \<Rightarrow> rollout_telemetry" where
  "record_query used_fallback op_name reason t =
     (let t1 = t\<lparr>rt_total_queries := rt_total_queries t + 1\<rparr> in
      if used_fallback
      then t1\<lparr>rt_total_fallbacks := rt_total_fallbacks t + 1,
              rt_events := rt_events t @ [\<lparr>fe_operator_name = op_name, fe_fallback_reason = reason, fe_query_pattern = [], fe_timestamp_ms = Fin 0\<rparr>]\<rparr>
      else t1)"

definition fallback_ratio :: "rollout_telemetry \<Rightarrow> fp" where
  "fallback_ratio t =
     (if 0 < rt_total_queries t then fp_div (fp_of_nat (rt_total_fallbacks t)) (fp_of_nat (rt_total_queries t)) else Fin 0)"

definition should_trigger_rollback :: "rollout_telemetry \<Rightarrow> bool" where
  "should_trigger_rollback t \<longleftrightarrow>
     (if 20 \<le> rt_total_queries t \<and> fp_less (rt_max_fallback_ratio t) (fallback_ratio t) then True
      else if rt_max_allowed_fallbacks t < rt_total_fallbacks t then True
      else False)"

datatype rollback_reason = NoReason | SafetyRollback fp | ManualRollback bytes

record rollout_controller =
  rc_state :: rollout_state
  rc_flags :: rollout_flags
  rc_telemetry :: rollout_telemetry
  rc_reason :: rollback_reason

definition new_controller :: rollout_controller where
  "new_controller = \<lparr>rc_state = DefaultBaseline, rc_flags = default_flags, rc_telemetry = new_telemetry 10 (dec 5 100), rc_reason = NoReason\<rparr>"

section \<open>Operations\<close>

text \<open>The second component is the result of the call.\<close>

definition evaluate_safety_guard :: "rollout_controller \<Rightarrow> rollout_controller \<times> bool" where
  "evaluate_safety_guard c =
     (if (rc_state c = RolloutActive \<or> rc_state c = CanaryExperimental) \<and> should_trigger_rollback (rc_telemetry c)
      then (c\<lparr>rc_state := RollbackEnforced,
              rc_reason := SafetyRollback (fp_mul (fallback_ratio (rc_telemetry c)) (Fin 100)),
              rc_flags := disable_all_experimental (rc_flags c)\<rparr>, True)
      else (c, False))"

definition enforce_rollback :: "bytes \<Rightarrow> rollout_controller \<Rightarrow> rollout_controller" where
  "enforce_rollback reason c =
     c\<lparr>rc_state := RollbackEnforced, rc_reason := ManualRollback reason, rc_flags := disable_all_experimental (rc_flags c)\<rparr>"

definition promote_to_rollout :: "rollout_controller \<Rightarrow> rollout_controller" where
  "promote_to_rollout c = (if rc_state c \<noteq> RollbackEnforced then c\<lparr>rc_state := RolloutActive\<rparr> else c)"

inductive rollout_step :: "rollout_controller \<Rightarrow> rollout_controller \<Rightarrow> bool" where
  step_query: "rollout_step c (c\<lparr>rc_telemetry := record_query f op reason (rc_telemetry c)\<rparr>)"
| step_guard: "rollout_step c (fst (evaluate_safety_guard c))"
| step_enforce: "rollout_step c (enforce_rollback reason c)"
| step_promote: "rollout_step c (promote_to_rollout c)"

abbreviation rollout_steps :: "rollout_controller \<Rightarrow> rollout_controller \<Rightarrow> bool" where
  "rollout_steps \<equiv> rollout_step\<^sup>*\<^sup>*"

section \<open>The invariant\<close>

definition rollout_inv :: "rollout_controller \<Rightarrow> bool" where
  "rollout_inv c \<longleftrightarrow>
     rt_total_fallbacks (rc_telemetry c) \<le> rt_total_queries (rc_telemetry c) \<and>
     length (rt_events (rc_telemetry c)) = rt_total_fallbacks (rc_telemetry c) \<and>
     (if rc_state c = RollbackEnforced then rc_flags c = disable_all_experimental (rc_flags c) \<and> rc_reason c \<noteq> NoReason
      else rc_reason c = NoReason)"

lemma disable_twice [simp]: "disable_all_experimental (disable_all_experimental f) = disable_all_experimental f"
  by (simp add: disable_all_experimental_def)

lemma rollout_step_inv: "rollout_step c d \<Longrightarrow> rollout_inv c \<Longrightarrow> rollout_inv d"
  by (induction rule: rollout_step.induct)
    (auto simp: rollout_inv_def record_query_def evaluate_safety_guard_def enforce_rollback_def promote_to_rollout_def Let_def)

lemma rollout_steps_inv: "rollout_steps c d \<Longrightarrow> rollout_inv c \<Longrightarrow> rollout_inv d"
  by (induction rule: rtranclp_induct) (auto intro: rollout_step_inv)

lemma rollback_step: "rollout_step c d \<Longrightarrow> rc_state c = RollbackEnforced \<Longrightarrow> rc_state d = RollbackEnforced"
  by (induction rule: rollout_step.induct) (auto simp: evaluate_safety_guard_def enforce_rollback_def promote_to_rollout_def)

lemma rollback_final: "rollout_steps c d \<Longrightarrow> rc_state c = RollbackEnforced \<Longrightarrow> rc_state d = RollbackEnforced"
  by (induction rule: rtranclp_induct) (auto intro: rollback_step)

lemma fallbacks_step:
  "rollout_step c d \<Longrightarrow> rt_total_fallbacks (rc_telemetry c) \<le> rt_total_fallbacks (rc_telemetry d) \<and>
     rt_max_allowed_fallbacks (rc_telemetry d) = rt_max_allowed_fallbacks (rc_telemetry c)"
  by (induction rule: rollout_step.induct)
    (auto simp: record_query_def evaluate_safety_guard_def enforce_rollback_def promote_to_rollout_def Let_def)

lemma fallbacks_steps:
  "rollout_steps c d \<Longrightarrow> rt_total_fallbacks (rc_telemetry c) \<le> rt_total_fallbacks (rc_telemetry d) \<and>
     rt_max_allowed_fallbacks (rc_telemetry d) = rt_max_allowed_fallbacks (rc_telemetry c)"
proof (induction rule: rtranclp_induct)
  case (step d e)
  with fallbacks_step [OF step(2)] show ?case by simp
qed simp

lemma left_baseline_step: "rollout_step c d \<Longrightarrow> rc_state c \<noteq> DefaultBaseline \<Longrightarrow> rc_state d \<noteq> DefaultBaseline"
  by (induction rule: rollout_step.induct) (auto simp: evaluate_safety_guard_def enforce_rollback_def promote_to_rollout_def)

lemma left_baseline: "rollout_steps c d \<Longrightarrow> rc_state c \<noteq> DefaultBaseline \<Longrightarrow> rc_state d \<noteq> DefaultBaseline"
  by (induction rule: rtranclp_induct) (auto dest: left_baseline_step)

text \<open>Over the limit in any state but the baseline, the guard rolls back or finds it done.\<close>

lemma guard_rolls_back:
  assumes "rt_max_allowed_fallbacks (rc_telemetry c) < rt_total_fallbacks (rc_telemetry c)" "rc_state c \<noteq> DefaultBaseline"
  shows "rc_state (fst (evaluate_safety_guard c)) = RollbackEnforced"
  using assms by (cases "rc_state c") (simp_all add: evaluate_safety_guard_def should_trigger_rollback_def)

section \<open>Properties\<close>

text \<open>C35: Once a controller that left the baseline has counted more fallbacks than allowed, the next
  safety check rolls back, and whatever happens afterwards it stays rolled back with every
  experimental flag off.\<close>

theorem overrun_ends_in_rollback:
  assumes "rollout_steps new_controller c" "rc_state c \<noteq> DefaultBaseline" "10 < rt_total_fallbacks (rc_telemetry c)"
    and "rollout_steps c d" "rollout_steps (fst (evaluate_safety_guard d)) e"
  shows "rc_state e = RollbackEnforced \<and> \<not> enable_autotuned_layout (rc_flags e) \<and> \<not> enable_lazy_dfa (rc_flags e) \<and>
    rc_flags e = disable_all_experimental (rc_flags e)"
proof -
  have new: "rollout_inv new_controller" "rt_max_allowed_fallbacks (rc_telemetry new_controller) = 10"
    by (simp_all add: rollout_inv_def new_controller_def new_telemetry_def)
  have "rt_max_allowed_fallbacks (rc_telemetry d) < rt_total_fallbacks (rc_telemetry d)"
    using fallbacks_steps [OF assms(1)] fallbacks_steps [OF assms(4)] new(2) assms(3) by simp
  then have "rc_state (fst (evaluate_safety_guard d)) = RollbackEnforced"
    by (rule guard_rolls_back) (rule left_baseline [OF assms(4,2)])
  then have e: "rc_state e = RollbackEnforced" by (rule rollback_final [OF assms(5)])
  have "rollout_steps new_controller e"
    using assms(1,4,5) step_guard [of d] by (meson rtranclp.rtrancl_into_rtrancl rtranclp_trans)
  from rollout_steps_inv [OF this new(1)] e have f: "rc_flags e = disable_all_experimental (rc_flags e)" by (simp add: rollout_inv_def)
  moreover have "\<not> enable_autotuned_layout (disable_all_experimental (rc_flags e))" "\<not> enable_lazy_dfa (disable_all_experimental (rc_flags e))"
    by (simp_all add: disable_all_experimental_def)
  ultimately show ?thesis using e by simp
qed

definition failing_query :: "rollout_controller \<Rightarrow> rollout_controller" where
  "failing_query c = c\<lparr>rc_telemetry := record_query True [] [] (rc_telemetry c)\<rparr>"

lemma failing_queries: "rollout_steps c ((failing_query ^^ n) c)"
proof (induction n)
  case (Suc n)
  have "rollout_step ((failing_query ^^ n) c) ((failing_query ^^ Suc n) c)"
    unfolding funpow.simps comp_def failing_query_def by (rule step_query)
  with Suc show ?case by simp
qed simp

lemma failing_queries_state:
  "rc_state ((failing_query ^^ n) c) = rc_state c"
  "rt_total_fallbacks (rc_telemetry ((failing_query ^^ n) c)) = rt_total_fallbacks (rc_telemetry c) + n"
  by (induction n) (simp_all add: failing_query_def record_query_def Let_def)

theorem overrun_ends_in_rollback_witness:
  "rc_state (promote_to_rollout (fst (evaluate_safety_guard ((failing_query ^^ 11) (promote_to_rollout new_controller))))) = RollbackEnforced"
proof -
  let ?c = "(failing_query ^^ 11) (promote_to_rollout new_controller)"
  have "rollout_steps new_controller ?c"
    by (rule rtranclp_trans [OF r_into_rtranclp [of rollout_step, OF step_promote] failing_queries])
  moreover have "rc_state ?c \<noteq> DefaultBaseline" "10 < rt_total_fallbacks (rc_telemetry ?c)"
    unfolding failing_queries_state by (simp_all add: promote_to_rollout_def new_controller_def new_telemetry_def)
  ultimately show ?thesis
    using overrun_ends_in_rollback [OF _ _ _ rtranclp.rtrancl_refl r_into_rtranclp [of rollout_step, OF step_promote]] by blast
qed

end
