(* ===== verification/Tuned_Cache.thy ===== *)
theory Tuned_Cache
  imports Api Index_Data
begin

text \<open>
  \<open>tuned_cache.cpp\<close>: the identity a tuned configuration is bound to, its 64-bit key and the test
  whether a stored identity may be used in the running environment.  The text form of an
  identity and the detection of CPU features are not modelled.
\<close>

section \<open>Identity\<close>

record tuned_cache_identity =
  tc_schema_version :: bytes
  tc_engine_version :: bytes
  tc_source_fingerprint :: u64
  tc_source_root :: bytes
  tc_selector_scope :: bytes
  tc_transform_identity :: u64
  tc_toolchain :: bytes
  tc_required_features :: u32
  tc_index_options :: index_options
  tc_operator_policy :: bytes
  tc_corpus_bytes :: u64
  tc_corpus_files :: u64

definition default_identity :: tuned_cache_identity where
  "default_identity =
     \<lparr>tc_schema_version = ascii_bytes ''pergrep-tuned-cache-v1'', tc_engine_version = ascii_bytes ''0.1.0'',
      tc_source_fingerprint = 0, tc_source_root = [], tc_selector_scope = ascii_bytes ''*'', tc_transform_identity = 0,
      tc_toolchain = [], tc_required_features = 0, tc_index_options = default_index_options,
      tc_operator_policy = ascii_bytes ''default'', tc_corpus_bytes = 0, tc_corpus_files = 0\<rparr>"

text \<open>\<open>fnv1a_mix_u64\<close> is \<open>fnv1a_u64 8\<close>; the product of the ratio is truncated.\<close>

definition mix64 :: "u64 \<Rightarrow> u64 \<Rightarrow> u64" where
  "mix64 v h = fnv1a_u64 8 h v"

definition mix_text :: "bytes \<Rightarrow> u64 \<Rightarrow> u64" where
  "mix_text s h = fnv1a_bytes h s"

definition compute_cache_key :: "tuned_cache_identity \<Rightarrow> u64" where
  "compute_cache_key t =
     (let opt = tc_index_options t;
          ratio = fp_trunc (fp_mul (fp_value (positional_budget_ratio opt)) (Fin 1000000))
      in fold (\<lambda>f. f)
           [mix_text (tc_schema_version t), mix_text (tc_engine_version t), mix64 (tc_source_fingerprint t),
            mix_text (tc_source_root t), mix_text (tc_selector_scope t), mix64 (tc_transform_identity t),
            mix_text (tc_toolchain t), mix64 (ucast (tc_required_features t)), mix64 (of_nat (chunk_bytes opt)),
            mix64 (of_nat (chunk_overlap opt)), mix64 (of_nat (positional_block_bytes opt)), mix64 (of_nat ratio),
            mix64 (of_nat (planned_qgrams opt)), mix_text (tc_operator_policy t), mix64 (tc_corpus_bytes t),
            mix64 (tc_corpus_files t)] fnv_offset)"

section \<open>Compatibility\<close>

datatype invalidation_reason =
    Compatible
  | SchemaMismatch
  | EngineVersionMismatch
  | SourceFingerprintMismatch
  | SelectorScopeMismatch
  | TransformMismatch
  | HardwareIncompatible
  | ToolchainMismatch
  | OptionsMismatch
  | PolicyMismatch

definition reason_text :: "invalidation_reason \<Rightarrow> string" where
  "reason_text r = (case r of
       Compatible \<Rightarrow> ''compatible'' | SchemaMismatch \<Rightarrow> ''schema_mismatch'' | EngineVersionMismatch \<Rightarrow> ''engine_version_mismatch''
     | SourceFingerprintMismatch \<Rightarrow> ''source_fingerprint_mismatch'' | SelectorScopeMismatch \<Rightarrow> ''selector_scope_mismatch''
     | TransformMismatch \<Rightarrow> ''transform_mismatch'' | HardwareIncompatible \<Rightarrow> ''hardware_incompatible''
     | ToolchainMismatch \<Rightarrow> ''toolchain_mismatch'' | OptionsMismatch \<Rightarrow> ''options_mismatch'' | PolicyMismatch \<Rightarrow> ''policy_mismatch'')"

definition check_compatibility :: "tuned_cache_identity \<Rightarrow> tuned_cache_identity \<Rightarrow> u32 \<Rightarrow> invalidation_reason" where
  "check_compatibility t env available =
     (let o1 = tc_index_options t; o2 = tc_index_options env; def = ascii_bytes ''default'' in
      if tc_schema_version t \<noteq> tc_schema_version env then SchemaMismatch
      else if tc_engine_version t \<noteq> tc_engine_version env then EngineVersionMismatch
      else if tc_source_fingerprint t \<noteq> 0 \<and> tc_source_fingerprint env \<noteq> 0 \<and>
              tc_source_fingerprint t \<noteq> tc_source_fingerprint env then SourceFingerprintMismatch
      else if tc_selector_scope t \<noteq> tc_selector_scope env then SelectorScopeMismatch
      else if tc_transform_identity t \<noteq> tc_transform_identity env then TransformMismatch
      else if tc_required_features t AND NOT available \<noteq> 0 then HardwareIncompatible
      else if tc_toolchain t \<noteq> [] \<and> tc_toolchain env \<noteq> [] \<and> tc_toolchain t \<noteq> tc_toolchain env then ToolchainMismatch
      else if chunk_bytes o1 \<noteq> chunk_bytes o2 \<or> chunk_overlap o1 \<noteq> chunk_overlap o2 \<or>
              positional_block_bytes o1 \<noteq> positional_block_bytes o2 \<or> planned_qgrams o1 \<noteq> planned_qgrams o2 then OptionsMismatch
      else if tc_operator_policy t \<noteq> tc_operator_policy env \<and> tc_operator_policy t \<noteq> def \<and> tc_operator_policy env \<noteq> def
      then PolicyMismatch
      else Compatible)"

section \<open>Lemmas\<close>

lemma reason_text_injective: "reason_text r = reason_text q \<longleftrightarrow> r = q"
  by (cases r; cases q) (simp_all add: reason_text_def)

lemma compatible_self: "tc_required_features t AND NOT available = 0 \<Longrightarrow> check_compatibility t t available = Compatible"
  by (simp add: check_compatibility_def)

lemma compatible_more_features:
  assumes "check_compatibility t env f = Compatible" "f AND NOT g = 0"
  shows "check_compatibility t env g = Compatible"
proof -
  have "tc_required_features t AND NOT f = 0" using assms(1) by (auto simp: check_compatibility_def Let_def split: if_splits)
  then have "tc_required_features t AND NOT g = 0"
    using assms(2) by (auto simp: bit_eq_iff bit_simps)
  with assms(1) show ?thesis by (auto simp: check_compatibility_def Let_def split: if_splits)
qed

text \<open>The budget ratio is part of the key and decides how many blocks get a matrix, but two
  identities that differ in it alone are compatible.\<close>

definition other_budget :: tuned_cache_identity where
  "other_budget = default_identity\<lparr>tc_index_options := default_index_options\<lparr>positional_budget_ratio := 0x3FD0000000000000\<rparr>\<rparr>"

lemma budget_not_compared:
  "check_compatibility default_identity other_budget 0 = Compatible"
  "positional_budget_ratio (tc_index_options default_identity) \<noteq> positional_budget_ratio (tc_index_options other_budget)"
  by (simp_all add: check_compatibility_def other_budget_def default_identity_def default_index_options_def)

end
