(* ===== verification/Platform_Gate.thy ===== *)
theory Platform_Gate
  imports Autotune
begin

text \<open>
  \<open>platform_gate.cpp\<close>: the safety test of an environment and the comparison of two tuning runs.
  The texts of warnings and errors are constructors with the values they print; the log is not
  modelled, nor is the compiled-in description of the running platform.
\<close>

section \<open>Environments\<close>

datatype platform_tier = Tier1Supported | Tier2Experimental | Unsupported

record environment_info =
  ei_os_name :: bytes
  ei_compiler_name :: bytes
  ei_architecture :: bytes
  ei_tier :: platform_tier
  ei_network_filesystem :: bool
  ei_removable_media :: bool
  ei_untested_macos :: bool
  ei_hardware_concurrency :: nat

datatype environment_error = UntestedMacos | NetworkFilesystem | RemovableMedia | UnsupportedPlatform bytes bytes | BadConcurrency nat

definition validate_environment_safety :: "environment_info \<Rightarrow> environment_error option" where
  "validate_environment_safety e =
     (if ei_untested_macos e then Some UntestedMacos
      else if ei_network_filesystem e then Some NetworkFilesystem
      else if ei_removable_media e then Some RemovableMedia
      else if ei_tier e = Unsupported then Some (UnsupportedPlatform (ei_os_name e) (ei_architecture e))
      else if ei_hardware_concurrency e = 0 \<or> 1024 < ei_hardware_concurrency e then Some (BadConcurrency (ei_hardware_concurrency e))
      else None)"

section \<open>Comparing two runs\<close>

record platform_tolerances =
  pt_relative_timing :: fp
  pt_score_relative :: fp
  pt_thread_count_min :: nat
  pt_thread_count_max :: nat
  pt_exact_config_order :: bool
  pt_case_sensitive_sort :: bool

definition default_tolerances :: platform_tolerances where
  "default_tolerances = \<lparr>pt_relative_timing = fp_round (15 / 100), pt_score_relative = fp_round (1 / 10), pt_thread_count_min = 1,
     pt_thread_count_max = 64, pt_exact_config_order = True, pt_case_sensitive_sort = True\<rparr>"

datatype gate_error = CountMismatch nat nat | DivergedAt nat | MissingBest
datatype gate_warning = OtherBestLayout | ScoreDelta fp fp

record comparison_report =
  cr_passed :: bool
  cr_count_a :: nat
  cr_count_b :: nat
  cr_sequence_matched :: bool
  cr_best_matched :: bool
  cr_best_score_delta :: fp
  cr_warnings :: "gate_warning list"
  cr_errors :: "gate_error list"

text \<open>The four members both checks compare.\<close>

definition same_layout :: "index_options \<Rightarrow> index_options \<Rightarrow> bool" where
  "same_layout a b \<longleftrightarrow> \<not> (chunk_bytes a \<noteq> chunk_bytes b \<or> chunk_overlap a \<noteq> chunk_overlap b \<or>
     positional_block_bytes a \<noteq> positional_block_bytes b \<or> planned_qgrams a \<noteq> planned_qgrams b)"

definition sequence_error :: "platform_tolerances \<Rightarrow> tuned_candidate list \<Rightarrow> tuned_candidate list \<Rightarrow> gate_error option" where
  "sequence_error t as bs =
     (if \<not> pt_exact_config_order t then None
      else if length as \<noteq> length bs then Some (CountMismatch (length as) (length bs))
      else map_option DivergedAt (List.find (\<lambda>i. \<not> same_layout (td_options (as ! i)) (td_options (bs ! i))) [0 ..< length as]))"

definition fp_abs :: "fp \<Rightarrow> fp" where
  "fp_abs a = (case a of Fin r \<Rightarrow> Fin \<bar>r\<bar> | NInf \<Rightarrow> PInf | _ \<Rightarrow> a)"

definition score_delta :: "fp \<Rightarrow> fp \<Rightarrow> fp" where
  "score_delta a b = fp_div (fp_abs (fp_sub a b)) (fp_max (fp_min a b) (fp_round (1 / 1000000)))"

definition evaluate_platform_reproducibility :: "tune_result \<Rightarrow> tune_result \<Rightarrow> platform_tolerances \<Rightarrow> comparison_report" where
  "evaluate_platform_reproducibility ra rb t =
     (let seqerr = sequence_error t (tr_evaluated ra) (tr_evaluated rb);
          errs0 = (case seqerr of None \<Rightarrow> [] | Some e \<Rightarrow> [e]);
          (matched, delta, warns, errs) =
            (case (tr_best ra, tr_best rb) of
               (Some a, Some b) \<Rightarrow>
                 let same = same_layout (td_options a) (td_options b); d = score_delta (td_score a) (td_score b)
                 in (same, d,
                     (if same then [] else [OtherBestLayout]) @ (if fp_less (pt_score_relative t) d then [ScoreDelta d (pt_score_relative t)] else []),
                     errs0)
             | (None, None) \<Rightarrow> (True, Fin 0, [], errs0)
             | _ \<Rightarrow> (False, Fin 0, [], errs0 @ [MissingBest]))
      in \<lparr>cr_passed = (errs = []), cr_count_a = length (tr_evaluated ra), cr_count_b = length (tr_evaluated rb),
          cr_sequence_matched = (seqerr = None), cr_best_matched = matched, cr_best_score_delta = delta,
          cr_warnings = warns, cr_errors = errs\<rparr>)"

section \<open>Lemmas\<close>

lemma same_layout_refl [simp]: "same_layout a a"
  by (simp add: same_layout_def)

lemma same_layout_sym: "same_layout a b = same_layout b a"
  by (auto simp: same_layout_def)

lemma sequence_error_refl [simp]: "sequence_error t as as = None"
  by (simp add: sequence_error_def find_None_iff)

text \<open>A run passes against itself, and passing does not depend on the order of the two runs.\<close>

lemma gate_refl: "cr_passed (evaluate_platform_reproducibility r r t)"
  by (simp add: evaluate_platform_reproducibility_def Let_def split: option.splits)

lemma sequence_error_sym: "sequence_error t as bs = None \<longleftrightarrow> sequence_error t bs as = None"
  by (auto simp: sequence_error_def find_None_iff same_layout_sym)

lemma gate_passed:
  "cr_passed (evaluate_platform_reproducibility ra rb t) \<longleftrightarrow>
     sequence_error t (tr_evaluated ra) (tr_evaluated rb) = None \<and> (tr_best ra = None \<longleftrightarrow> tr_best rb = None)"
  by (cases "tr_best ra"; cases "tr_best rb")
    (simp_all add: evaluate_platform_reproducibility_def Let_def split: option.splits)

lemma gate_sym: "cr_passed (evaluate_platform_reproducibility ra rb t) = cr_passed (evaluate_platform_reproducibility rb ra t)"
  unfolding gate_passed using sequence_error_sym by blast

end
