(* ===== verification/Spec2Isabelle.thy ===== *)
theory Spec2Isabelle
  imports Pattern_Samples System_Samples Publication_Runs Tree_Correct Engine_Samples Divergences File_Search Search_Stats Shadow_Gate Provider Cli_Encoding Rollout Tuned_Cache Platform_Gate
begin

text \<open>
  A verification library for pergrep, an indexed text search engine written in C++.  It models the
  library of \<open>src/\<close> and \<open>include/pergrep/\<close>: how an index is built and stored, how a pattern becomes
  a program, and how a search uses the index to skip text without losing matches.

  \<^bold>\<open>The program.\<close>  \<open>Index::build\<close> walks a directory tree, reads the files and cuts them into
  overlapping chunks.  Chunks are put in groups by size; a group holds one bit matrix per class of
  4-byte hashes, and a second, positional matrix says which block of a chunk a hash occurs in.
  \<open>Index::save\<close> writes the index to a temporary file and renames it, \<open>Index::load\<close> decodes and
  validates it, \<open>Index::append\<close> merges changes.  \<open>Pattern::compile\<close> parses a regular expression to
  a tree, extracts necessary literals from it and compiles it to an automaton; look-around and
  backreferences go to a backtracking matcher instead.  \<open>Searcher::find\<close> asks the filters for
  candidate chunks or blocks, verifies them with one of four fixed-string scans or one of the two
  engines, and assembles the matches in file and offset order.  A planner estimates costs and may
  pick the operator of a fixed search.  Tuning code chooses index options and can roll them back.

  \<^bold>\<open>Theories and sources.\<close>
  \<^item> \<open>Prelude\<close>, \<open>Hashing\<close>, \<open>Floating\<close>: byte strings and the standard-library calls on them, the hash
    functions of \<open>internal.hpp\<close>, and \<open>double\<close> as exact rationals rounded to 53 bits with
    infinities and NaN.
  \<^item> \<open>Index_Data\<close> (the record \<open>index_data\<close> is \<open>IndexData\<close>; chunks, groups, positional blocks,
    planner statistics of \<open>index.cpp\<close>), \<open>Index_Filters\<close> (what these tables contain: \<open>wf_index\<close> says
    that an index carries exactly the tables of its corpus), \<open>Index_Build\<close> and \<open>Build_Correct\<close>
    (\<open>build\<close>, \<open>append\<close>, compaction), \<open>Provider\<close> (\<open>CorpusProvider::mapped\<close>), \<open>Tree_Walk\<close> and \<open>Tree_Correct\<close> (traversal, \<open>fresh\<close>, fingerprint).
  \<^item> \<open>Snapshot_Codec\<close>, \<open>Snapshot\<close>, \<open>Snapshot_Load\<close>, \<open>Snapshot_Roundtrip\<close>, \<open>Snapshot_Correct\<close>,
    \<open>Snapshot_Integrity\<close>, \<open>Snapshot_Safety\<close>: the version 7 writer and the reader of versions 5 to
    7 in \<open>index.cpp\<close>; \<open>Publication\<close>, \<open>Publication_Runs\<close>: the writer as a step relation.
  \<^item> \<open>Api\<close>, \<open>Unicode\<close>, \<open>Regex_Syntax\<close>: the types of \<open>pergrep.hpp\<close>, runes, syntax trees and the tests
    on a context.  \<open>Parser\<close> and \<open>Parser_Correct\<close>: class \<open>Parser\<close> and \<open>Pattern::compile\<close> of \<open>regex.cpp\<close>.
  \<^item> \<open>Regex_Vm\<close> (\<open>eval\<close>, the backtracking matcher), \<open>Vm_Reach\<close> (the relation \<open>vm_reach\<close>, the
    declarative reading of a tree), \<open>Nfa\<close>, \<open>Nfa_Fragments\<close>, \<open>Nfa_Sound\<close> (compiler, closures and
    simulation of the automaton), \<open>Query_IR\<close>, \<open>Query_Sound\<close> (extracted literals), \<open>Regex_Analysis\<close>,
    \<open>Analysis_Sound\<close> (width bounds).
  \<^item> \<open>Candidates\<close> (\<open>chunk_candidates\<close>, \<open>fixed_candidate_blocks\<close>), \<open>Fixed_Search\<close>, \<open>Fixed_Correct\<close>
    (fixed strings), \<open>Regions\<close>, \<open>Regions_Sound\<close>, \<open>Region_Plan\<close> (bounded regions), \<open>Regex_Search\<close>,
    \<open>Regex_Correct\<close>, \<open>Engine_Sound\<close> (regular expressions), \<open>Planner\<close>, \<open>Plan_Correct\<close> (costs, plan
    keys, compile-plan-search), \<open>File_Search\<close> (\<open>Searcher::files\<close>), \<open>Search_Stats\<close> (\<open>StatsRecorder\<close>),
    \<open>Plan_Regret\<close>, \<open>Shadow_Gate\<close> (candidate plans, regret, shadow report, performance gate): all of \<open>search.cpp\<close>.
  \<^item> \<open>Pareto\<close>, \<open>Autotune\<close>, \<open>Tuned_Cache\<close>, \<open>Rollout\<close>, \<open>Platform_Gate\<close>: the files of the same names.
  \<^item> \<open>Cli_Encoding\<close>: the text codecs of \<open>cli.cpp\<close> (\<open>decode_input\<close>, \<open>valid_utf8\<close>, \<open>json_data\<close>).
  \<^item> \<open>Samples\<close>, \<open>Pattern_Samples\<close>, \<open>System_Samples\<close>, \<open>Regex_Samples\<close>, \<open>Engine_Samples\<close>: a small index
    and small patterns, at which the theorems are applied.  \<open>Divergences\<close>: inputs at which the code
    does not do what its contract suggests.

  \<^bold>\<open>What is shown.\<close>
  \<^item> Filters: the tables are exactly the marks of the corpus, and neither filter drops a chunk or a
    block with an occurrence (locale \<open>conservative_filter\<close>, interpreted on both filters).
  \<^item> Search: every path of the fixed search is the naive scan; for both engines the search without
    bounded regions is the scan of every record (locale \<open>sound_engine\<close>, interpreted on the
    backtracking matcher and on the compiled automaton); region plans keep every start of a match;
    every reported match is a match of the syntax tree, and matches come in order.
  \<^item> Patterns: the parser returns for every byte string, what it returns is well typed, and the
    compiler accepts every regular tree up to the size limit.
  \<^item> Persistence: load after save is the identity, a loaded index has tables without gaps, a changed
    byte is detected, and readers see whole snapshots only (locales \<open>codec\<close>, \<open>sized_codec\<close>, one
    interpretation per stored type).
  \<^item> Trees: the traversal ends, the fingerprint ignores the listing order, and when an index is fresh.
  \<^item> Planning and tuning: selectivities are fractions, a guarded plan is the cheapest of its three
    operators, a selected configuration is optimal, a rollback is final.
  \<^item> Codecs: the UTF-8 test accepts the encodings of scalar values and nothing else, UTF-16 input is
    decoded to them, and the JSON form of a byte string determines it.

  \<^bold>\<open>Parameters and hypotheses.\<close>  ICU is the record \<open>icu\<close>; \<open>icu_ok\<close> and \<open>fold_ascii_ok\<close> state what its
  documentation says (a decoded rune is one to four bytes inside the text, case folding of ASCII), and
  \<open>ascii_icu\<close> is an instance.  The file system, \<open>iconv\<close>, the clock, a trial of the tuner and the cancellation
  hook are function arguments.  \<open>never_cancelled\<close> says that the hook never answers yes.  Literals
  outside ASCII are excluded from the completeness theorems by \<open>plain_literal\<close> and \<open>plain_node\<close>,
  because the code treats an undecodable byte as a rune.

  \<^bold>\<open>Bounds and fuel.\<close>  The parser's fuel is six per byte of the pattern plus six, which \<open>Parser_Correct\<close>
  shows to be enough for every pattern.  The traversal's fuel bounds the depth; the two termination
  theorems give a sufficient value for a finite set of directories and for a tree without links.
  The other loops terminate by their measures.  The limits of the code are in the model: 10000
  iterations of a repetition and 50000 states in the backtracking matcher, 1000000 instructions,
  256 counters and 16384 entries in the closure tables, and the limits of the snapshot reader.
  Offsets and sizes are naturals, as a corpus is limited to far less than \<open>2 ^ 64\<close> bytes; sums and
  products the code guards against overflow saturate in the model, hashes and plan keys wrap.

  \<^bold>\<open>Not modelled.\<close>  The rest of \<open>cli.cpp\<close>, and \<open>bench/\<close> (argument parsing, terminal output, measurements),
  \<open>c_api.cpp\<close> (pointer glue), \<open>platform.hpp\<close> (memory mapping, file identity, rename: the system calls
  the models of the file system stand for), \<open>profile.cpp\<close>, \<open>report.cpp\<close> and every other text for
  humans, the memory ledger, and \<open>rollout.cpp\<close> (release
  notes).  The text form of a tuned-cache entry rests on number formatting of the C++ streams.
  Completeness of a search through bounded regions is shown for the plan (no start is lost), not for
  the assembled match list: matches of neighbouring regions can overlap.
\<close>

end
